(* ===== verification/Prelude.thy ===== *)
theory Prelude
  imports Main "HOL-Library.Word"
begin

unbundle bit_operations_syntax

text \<open>
  The vocabulary every component shares.

  \<^item> Machine integers: \<open>u8\<close>, \<open>u32\<close>, \<open>u64\<close> and \<open>usize\<close> (a 64-bit target) are words; a byte
    array \<open>[u8; N]\<close> is a byte list whose length the component's well-formedness predicate fixes.
  \<^item> A \<open>std::io::Read\<close> source is the list of bytes still to be read; a fallible reader maps it
    to an error or to a value and the bytes left over. \<open>ok\<close>, \<open>err\<close> and \<open>and_then\<close> are
    \<open>Ok\<close>, \<open>Err\<close> and the \<open>?\<close> operator.
  \<^item> A \<open>std::io::Write\<close> sink is a \<open>Vec<u8>\<close>, whose \<open>write_all\<close> never fails: a writer is the
    list of bytes it appends.
  \<^item> \<open>codec\<close> is the contract between a writer and a reader; every serialisable structure of the
    program is shown to meet it.
\<close>

type_synonym u8 = "8 word"
type_synonym u16 = "16 word"
type_synonym u32 = "32 word"
type_synonym u64 = "64 word"
type_synonym usize = "64 word"
type_synonym bytes = "u8 list"

text \<open>\<open>Panic\<close> stands for a panic of the program itself (an \<open>expect\<close> that fails): never a value the
  code returns, and shown never to arise.\<close>

datatype io_error = UnexpectedEof | Other string | Panic string

type_synonym 'a reader = "bytes \<Rightarrow> io_error + 'a \<times> bytes"

definition ok :: "'a \<Rightarrow> 'a reader" where
  "ok x r = Inr (x, r)"

definition err :: "io_error \<Rightarrow> 'a reader" where
  "err e r = Inl e"

definition and_then :: "'a reader \<Rightarrow> ('a \<Rightarrow> 'b reader) \<Rightarrow> 'b reader" where
  "and_then m f r = (case m r of Inl e \<Rightarrow> Inl e | Inr (x, r') \<Rightarrow> f x r')"

text \<open>The size a \<open>Vec\<close> reports, as the \<open>usize\<close> its length is.\<close>

definition vec_len :: "'a list \<Rightarrow> usize" where
  "vec_len xs = word_of_nat (length xs)"

definition fits_usize :: "'a list \<Rightarrow> bool" where
  "fits_usize xs \<longleftrightarrow> length xs < 2 ^ 64"

text \<open>What the program relies on of Keccak-256, a parameter of the model: 32-byte digests.\<close>

definition hash32 :: "(bytes \<Rightarrow> bytes) \<Rightarrow> bool" where
  "hash32 h \<longleftrightarrow> (\<forall>b. length (h b) = 32)"

named_theorems reader_simps \<open>evaluation of the reader combinators\<close>
named_theorems codec_iff \<open>a read succeeds exactly on what the writer writes\<close>

subsection \<open>Reader combinators\<close>

lemma ok_apply [simp, reader_simps]: "ok x r = Inr (x, r)"
  by (simp add: ok_def)

lemma err_apply [simp, reader_simps]: "err e r = Inl e"
  by (simp add: err_def)

lemma and_then_Inr [reader_simps]: "m r = Inr (x, r') \<Longrightarrow> and_then m f r = f x r'"
  by (simp add: and_then_def)

lemma and_then_Inl [reader_simps]: "m r = Inl e \<Longrightarrow> and_then m f r = Inl e"
  by (simp add: and_then_def)

lemma and_then_ok [simp, reader_simps]: "and_then (ok x) f = f x"
  by (rule ext) (simp add: and_then_def)

lemma and_then_err [simp, reader_simps]: "and_then (err e) f = err e"
  by (rule ext) (simp add: and_then_def)

lemma and_then_eq_Inr:
  "and_then m f r = Inr (y, r'') \<longleftrightarrow> (\<exists>x r'. m r = Inr (x, r') \<and> f x r' = Inr (y, r''))"
  by (auto simp: and_then_def split: sum.splits)

lemma and_then_eq_Inl:
  "and_then m f r = Inl e \<longleftrightarrow>
     m r = Inl e \<or> (\<exists>x r'. m r = Inr (x, r') \<and> f x r' = Inl e)"
  by (auto simp: and_then_def split: sum.splits)

text \<open>A reader which panics on no input.\<close>

definition no_panic :: "'a reader \<Rightarrow> bool" where
  "no_panic m \<longleftrightarrow> (\<forall>bs s. m bs \<noteq> Inl (Panic s))"

named_theorems no_panic_intros \<open>readers which never panic\<close>

lemma no_panic_ok [no_panic_intros]: "no_panic (ok x)"
  by (simp add: no_panic_def)

lemma no_panic_err [no_panic_intros]: "(\<And>s. e \<noteq> Panic s) \<Longrightarrow> no_panic (err e)"
  by (simp add: no_panic_def)

lemma no_panic_and_then [no_panic_intros]:
  "no_panic m \<Longrightarrow> (\<And>x. no_panic (f x)) \<Longrightarrow> no_panic (and_then m f)"
  by (simp add: no_panic_def and_then_eq_Inl)

lemma no_panic_and_then_when:
  "no_panic m \<Longrightarrow> (\<And>bs x r s. m bs = Inr (x, r) \<Longrightarrow> f x r \<noteq> Inl (Panic s)) \<Longrightarrow> no_panic (and_then m f)"
  by (auto simp: no_panic_def and_then_eq_Inl)

lemma no_panic_if [no_panic_intros]:
  "(b \<Longrightarrow> no_panic m) \<Longrightarrow> (\<not> b \<Longrightarrow> no_panic n) \<Longrightarrow> no_panic (if b then m else n)"
  by simp

lemma no_panic_case_option [no_panic_intros]:
  "no_panic m \<Longrightarrow> (\<And>x. no_panic (f x)) \<Longrightarrow> no_panic (case y of None \<Rightarrow> m | Some x \<Rightarrow> f x)"
  by (cases y) simp_all

lemma unat_vec_len [simp]: "fits_usize xs \<Longrightarrow> unat (vec_len xs) = length xs"
  by (simp add: vec_len_def fits_usize_def unat_of_nat)

lemma vec_len_unat [simp]: "length xs = unat n \<Longrightarrow> vec_len xs = n"
  by (simp add: vec_len_def)

lemma fits_usize_unat [simp]: "length xs = unat (n :: usize) \<Longrightarrow> fits_usize xs"
  using unsigned_less [of n, where 'a = nat] by (simp add: fits_usize_def)

text \<open>A byte string literal.\<close>

definition ascii :: "string \<Rightarrow> bytes" where
  "ascii s = map of_char s"

subsection \<open>Options over lists\<close>

text \<open>\<open>get\<close> of a slice: \<open>None\<close> where an index would be out of range.\<close>

definition slice_get :: "'a list \<Rightarrow> nat \<Rightarrow> 'a option" where
  "slice_get xs i = (if i < length xs then Some (xs ! i) else None)"

lemma those_eq_Some: "those xs = Some ys \<longleftrightarrow> xs = map Some ys"
proof (induction xs arbitrary: ys)
  case (Cons x xs)
  then show ?case by (cases ys) (auto split: option.splits)
qed auto

lemma those_map: "those (map f xs) = Some ys \<longleftrightarrow> map f xs = map Some ys"
  by (rule those_eq_Some)

lemma those_all2: "those (map f xs) = Some ys \<longleftrightarrow> list_all2 (\<lambda>x y. f x = Some y) xs ys"
  by (auto simp: those_map list_all2_conv_all_nth list_eq_iff_nth_eq)

lemma those_map_cong_Some: "(\<And>x. x \<in> set xs \<Longrightarrow> f x = Some (g x)) \<Longrightarrow> those (map f xs) = Some (map g xs)"
  by (simp add: those_map)

lemma those_total:
  "(\<And>x. x \<in> set xs \<Longrightarrow> \<exists>y. f x = Some y \<and> P x y) \<Longrightarrow> \<exists>ys. those (map f xs) = Some ys \<and> list_all2 P xs ys"
proof (induction xs)
  case (Cons x xs)
  then obtain y ys where "f x = Some y" "P x y" "those (map f xs) = Some ys" "list_all2 P xs ys" by fastforce
  then show ?case by simp
qed simp

lemma list_all2_right: "list_all2 (\<lambda>_. P) xs ys \<Longrightarrow> \<forall>y \<in> set ys. P y"
  by (induction rule: list_all2_induct) auto

lemma list_all2_left_of: "list_all2 P xs ys \<Longrightarrow> y \<in> set ys \<Longrightarrow> \<exists>x \<in> set xs. P x y"
  by (induction rule: list_all2_induct) auto

lemma those_range: "those (map f xs) = Some ys \<Longrightarrow> \<forall>y \<in> set ys. \<exists>x \<in> set xs. f x = Some y"
  using list_all2_left_of [of "\<lambda>x y. f x = Some y" xs ys] by (simp add: those_all2)

subsection \<open>Words as numbers\<close>

lemma unat_take_bit: "unat (take_bit n w) = unat w mod 2 ^ n"
  by (simp only: unsigned_take_bit_eq take_bit_eq_mod [of n "unat w"])

lemma unat_drop_bit: "unat (drop_bit n w) = unat w div 2 ^ n" for w :: "'a::len word"
proof -
  have "unat (drop_bit n w) = drop_bit n (take_bit LENGTH('a) (unat w))"
    by (rule unsigned_drop_bit_eq)
  also have "take_bit LENGTH('a) (unat w) = unat w"
    by (simp add: take_bit_nat_eq_self)
  finally show ?thesis by (simp only: drop_bit_eq_div [of n "unat w"])
qed

lemma unat_drop7: "unat (drop_bit 7 w) = unat w div 128" for w :: "'a::len word"
  by (simp only: unat_drop_bit) simp

lemma unat_push_bit:
  fixes w :: "'a::len word"
  assumes "unat w * 2 ^ n < 2 ^ LENGTH('a)"
  shows "unat (push_bit n w) = unat w * 2 ^ n"
proof -
  have "unat (push_bit n w) = take_bit LENGTH('a) (push_bit n (unat w))"
    by (rule unsigned_push_bit_eq)
  also have "push_bit n (unat w) = unat w * 2 ^ n" by (rule push_bit_eq_mult)
  finally show ?thesis using assms by (simp add: take_bit_nat_eq_self)
qed

lemma unat_of_nat_small: "n < 2 ^ LENGTH('a) \<Longrightarrow> unat (word_of_nat n :: 'a::len word) = n"
  by (simp add: unat_of_nat)

lemma unat_ucast_small: "unat w < 2 ^ LENGTH('b) \<Longrightarrow> unat (ucast w :: 'b::len word) = unat w"
  by (simp add: unsigned_ucast_eq take_bit_nat_eq_self)

lemma unat_ucast_up:
  fixes w :: "'a::len word"
  assumes "LENGTH('a) \<le> LENGTH('b)"
  shows "unat (ucast w :: 'b::len word) = unat w"
proof -
  have "unat w < 2 ^ LENGTH('a)" using unsigned_less [of w, where 'a = nat] by simp
  also have "\<dots> \<le> 2 ^ LENGTH('b)" using assms by simp
  finally show ?thesis by (rule unat_ucast_small)
qed

lemma and_exp_eq_exp:
  fixes w :: "'a::len word"
  assumes "n < LENGTH('a)"
  shows "w AND 2 ^ n = 2 ^ n \<longleftrightarrow> bit w n"
proof
  assume "w AND 2 ^ n = 2 ^ n"
  then have "bit (w AND 2 ^ n) n = bit (2 ^ n :: 'a word) n" by (rule arg_cong)
  then show "bit w n" using assms by (simp add: bit_simps)
next
  assume "bit w n"
  then show "w AND 2 ^ n = 2 ^ n" by (intro bit_word_eqI) (auto simp: bit_simps)
qed

lemma bit_top_u8: "bit b 7 \<longleftrightarrow> 128 \<le> unat b" for b :: u8
proof -
  have "unat b < 256" using unsigned_less [of b, where 'a = nat] by simp
  then have "unat b div 2 ^ 7 = (if 128 \<le> unat b then 1 else 0)" by auto
  moreover have "bit b 7 = bit (unat b) 7" by (simp add: bit_unsigned_iff)
  ultimately show ?thesis by (simp add: bit_iff_odd)
qed

subsection \<open>Little-endian integers\<close>

text \<open>The standard library's \<open>from_le_bytes\<close> and \<open>to_le_bytes\<close>, over the number the bytes denote.\<close>

primrec le_value :: "bytes \<Rightarrow> nat" where
  "le_value [] = 0"
| "le_value (b # bs) = unat b + 256 * le_value bs"

primrec le_bytes :: "nat \<Rightarrow> nat \<Rightarrow> bytes" where
  "le_bytes 0 x = []"
| "le_bytes (Suc n) x = word_of_nat (x mod 256) # le_bytes n (x div 256)"

definition from_le_bytes :: "bytes \<Rightarrow> 'a::len word" where
  "from_le_bytes bs = word_of_nat (le_value bs)"

definition to_le_bytes :: "'a::len word \<Rightarrow> bytes" where
  "to_le_bytes w = le_bytes (LENGTH('a) div 8) (unat w)"

lemma length_le_bytes [simp]: "length (le_bytes n x) = n"
  by (induction n arbitrary: x) auto

lemma le_value_le_bytes: "le_value (le_bytes n x) = x mod 256 ^ n"
proof (induction n arbitrary: x)
  case (Suc n)
  have "unat (word_of_nat (x mod 256) :: u8) = x mod 256"
    by (simp add: unat_of_nat)
  then show ?case by (simp add: Suc.IH mod_mult2_eq)
qed simp

lemma le_value_bound: "le_value bs < 256 ^ length bs"
proof (induction bs)
  case (Cons b bs)
  have "unat b < 256" using unsigned_less [of b, where 'a = nat] by simp
  with Cons.IH show ?case by simp
qed simp

lemma le_bytes_le_value: "le_bytes (length bs) (le_value bs) = bs"
proof (induction bs)
  case (Cons b bs)
  have "unat b < 256" using unsigned_less [of b, where 'a = nat] by simp
  with Cons.IH show ?case by (simp add: mod_mult_self2 div_mult_self2)
qed simp

lemma le_value_inj: "length xs = length ys \<Longrightarrow> le_value xs = le_value ys \<Longrightarrow> xs = ys"
  by (metis le_bytes_le_value)

lemma length_to_le_bytes [simp]: "length (to_le_bytes (w :: 'a::len word)) = LENGTH('a) div 8"
  by (simp add: to_le_bytes_def)

lemma pow_256: "(256::nat) ^ n = 2 ^ (8 * n)"
  by (simp add: power_mult)

lemma from_to_le_bytes:
  assumes "8 dvd LENGTH('a)"
  shows "from_le_bytes (to_le_bytes w) = (w :: 'a::len word)"
  using assms unsigned_less [of w, where 'a = nat]
  by (simp add: from_le_bytes_def to_le_bytes_def le_value_le_bytes pow_256)

lemma to_from_le_bytes:
  assumes "8 dvd LENGTH('a)" and "length bs = LENGTH('a) div 8"
  shows "to_le_bytes (from_le_bytes bs :: 'a::len word) = bs"
proof -
  have "le_value bs < 2 ^ LENGTH('a)"
    using le_value_bound [of bs] assms by (simp add: pow_256)
  then have "unat (from_le_bytes bs :: 'a word) = le_value bs"
    by (simp add: from_le_bytes_def unat_of_nat)
  then show ?thesis
    using le_bytes_le_value [of bs] assms(2) by (simp add: to_le_bytes_def)
qed

subsection \<open>The contract of a writer and a reader\<close>

text \<open>
  \<open>rd_wr\<close>: reading what was written gives the value back and leaves the rest of the input
  untouched. \<open>wr_rd\<close>: the encoding is canonical, a successful read consumed exactly the bytes
  the writer produces for its result, and the result is well-formed.
\<close>

locale codec =
  fixes wr :: "'a \<Rightarrow> bytes"
    and rd :: "'a reader"
    and wf :: "'a \<Rightarrow> bool"
  assumes rd_wr: "wf x \<Longrightarrow> rd (wr x @ rest) = Inr (x, rest)"
    and wr_rd: "rd bs = Inr (x, rest) \<Longrightarrow> wf x \<and> bs = wr x @ rest"
begin

lemma rd_wr_nil: "wf x \<Longrightarrow> rd (wr x) = Inr (x, [])"
  using rd_wr [of x "[]"] by simp

lemma rd_iff: "rd bs = Inr (x, rest) \<longleftrightarrow> wf x \<and> bs = wr x @ rest"
proof
  assume "rd bs = Inr (x, rest)"
  then show "wf x \<and> bs = wr x @ rest" by (rule wr_rd)
qed (auto simp: rd_wr)

lemma wr_prefix_free:
  assumes "wf x" and "wf y" and "wr x @ a = wr y @ b"
  shows "x = y \<and> a = b"
proof -
  have "Inr (x, a) = rd (wr x @ a)" using assms(1) by (simp add: rd_wr)
  also have "\<dots> = rd (wr y @ b)" by (simp only: assms(3))
  also have "\<dots> = Inr (y, b)" using assms(2) by (simp add: rd_wr)
  finally show ?thesis by simp
qed

lemma wr_inj: "wf x \<Longrightarrow> wf y \<Longrightarrow> wr x = wr y \<Longrightarrow> x = y"
  using wr_prefix_free [of x y "[]" "[]"] by simp

text \<open>A truncated encoding is never accepted.\<close>

lemma rd_truncated:
  assumes "wf x" and "k < length (wr x)"
  shows "\<exists>e. rd (take k (wr x)) = Inl e"
proof (cases "rd (take k (wr x))")
  case (Inr p)
  obtain y rest where "rd (take k (wr x)) = Inr (y, rest)"
    using Inr by (cases p) simp
  then have y: "wf y" "take k (wr x) = wr y @ rest"
    by (auto dest: wr_rd)
  then have "wr x @ [] = wr y @ rest @ drop k (wr x)"
    by (metis append_Nil2 append_assoc append_take_drop_id)
  with assms(1) y(1) have "[] = rest @ drop k (wr x)"
    using wr_prefix_free [of x y "[]" "rest @ drop k (wr x)"] by simp
  with assms(2) show ?thesis by simp
qed blast

end

lemma codec_iffI:
  assumes "\<And>bs x rest. rd bs = Inr (x, rest) \<longleftrightarrow> P x \<and> bs = wr x @ rest"
  shows "codec wr rd P"
  using assms by unfold_locales auto

text \<open>A codec whose encodings are bounded in size, as the size constants of the source promise.\<close>

locale sized_codec = codec +
  fixes lo hi :: nat
  assumes wr_lower: "wf x \<Longrightarrow> lo \<le> length (wr x)"
    and wr_upper: "wf x \<Longrightarrow> length (wr x) \<le> hi"
begin

lemma rd_consumes:
  assumes "rd bs = Inr (x, rest)"
  shows "length rest + lo \<le> length bs \<and> length bs \<le> length rest + hi"
  using wr_rd [OF assms] wr_lower [of x] wr_upper [of x] by simp

lemma rd_short: "length bs < lo \<Longrightarrow> \<exists>e. rd bs = Inl e"
  using rd_consumes [of bs] by (cases "rd bs") fastforce+

lemma wr_list_lower: "\<forall>x \<in> set xs. wf x \<Longrightarrow> lo * length xs \<le> length (concat (map wr xs))"
  by (induction xs) (auto dest: wr_lower)

lemma wr_list_upper: "\<forall>x \<in> set xs. wf x \<Longrightarrow> length (concat (map wr xs)) \<le> hi * length xs"
  by (induction xs) (auto dest!: wr_upper)

end

end
