(* ===== verification/Monero_Io.thy ===== *)
theory Monero_Io
  imports Prelude
begin

text \<open>
  The \<^verbatim>\<open>monero-io\<close> crate (\<^verbatim>\<open>io/src/lib.rs\<close>, \<^verbatim>\<open>io/src/varint.rs\<close>): fixed-width reads, raw and
  length-prefixed vectors, and the VarInt encoding. The trait \<open>VarInt\<close> is implemented by the
  source for \<open>u8\<close>, \<open>u32\<close>, \<open>u64\<close> and \<open>usize\<close>; the model is polymorphic in the word width, and
  its theorems hold for every width of at most 64 bits.
\<close>

unbundle bit_operations_syntax

subsection \<open>Fixed-width reads and vectors\<close>

definition write_byte :: "u8 \<Rightarrow> bytes" where
  "write_byte byte = [byte]"

primrec write_raw_vec :: "('a \<Rightarrow> bytes) \<Rightarrow> 'a list \<Rightarrow> bytes" where
  "write_raw_vec f [] = []"
| "write_raw_vec f (value # values) = f value @ write_raw_vec f values"

definition read_bytes :: "nat \<Rightarrow> bytes reader" where
  "read_bytes n r =
     (if n \<le> length r then Inr (take n r, drop n r) else Inl UnexpectedEof)"

definition read_byte :: "u8 reader" where
  "read_byte = and_then (read_bytes 1) (\<lambda>res. ok (res ! 0))"

definition read_u16 :: "u16 reader" where
  "read_u16 = and_then (read_bytes 2) (\<lambda>bs. ok (from_le_bytes bs))"

definition read_u32 :: "u32 reader" where
  "read_u32 = and_then (read_bytes 4) (\<lambda>bs. ok (from_le_bytes bs))"

definition read_u64 :: "u64 reader" where
  "read_u64 = and_then (read_bytes 8) (\<lambda>bs. ok (from_le_bytes bs))"

primrec read_raw_vec :: "'a reader \<Rightarrow> nat \<Rightarrow> 'a list reader" where
  "read_raw_vec f 0 = ok []"
| "read_raw_vec f (Suc len) =
     and_then f (\<lambda>x. and_then (read_raw_vec f len) (\<lambda>res. ok (x # res)))"

text \<open>\<open>read_array\<close> reads \<open>N\<close> elements; its conversion to an array never panics, the vector having
  exactly \<open>N\<close> elements (\<open>read_array_raw_vec\<close> below).\<close>

definition read_array :: "'a reader \<Rightarrow> nat \<Rightarrow> 'a list reader" where
  "read_array f n =
     and_then (read_raw_vec f n) (\<lambda>vec.
       if length vec = n then ok vec
       else err (Panic ''read vector of specific length yet couldn't transform to an array of the same length''))"

subsection \<open>VarInt\<close>

definition VARINT_CONTINUATION_FLAG :: u8 where
  "VARINT_CONTINUATION_FLAG = 0b10000000"

definition VARINT_VALUE_MASK :: u8 where
  "VARINT_VALUE_MASK = NOT VARINT_CONTINUATION_FLAG"

definition upper_bound :: "nat \<Rightarrow> nat" where
  "upper_bound bits = (bits + (7 - 1)) div 7"

definition LOWER_BOUND :: nat where
  "LOWER_BOUND = 1"

definition UPPER_BOUND :: "'a::len itself \<Rightarrow> nat" where
  "UPPER_BOUND _ = upper_bound LENGTH('a)"

definition into_u64 :: "'a::len word \<Rightarrow> u64" where
  "into_u64 x = ucast x"

definition leading_zeros :: "'a::len word \<Rightarrow> nat" where
  "leading_zeros x = length (takeWhile (\<lambda>i. \<not> bit x i) (rev [0..<LENGTH('a)]))"

definition div_ceil :: "nat \<Rightarrow> nat \<Rightarrow> nat" where
  "div_ceil a b = (if a mod b = 0 then a div b else a div b + 1)"

definition varint_len :: "'a::len word \<Rightarrow> nat" where
  "varint_len x =
     (let varint_u64 = into_u64 x;
          bits = 64 - leading_zeros varint_u64;
          encoded_bytes = div_ceil bits 7
      in max encoded_bytes 1)"

text \<open>
  The loop of \<open>VarInt::read\<close>. \<open>U_BITS\<close> is the width of the type read, \<open>bits\<close> the number of bits
  read so far, \<open>res\<close> the value accumulated. Each iteration consumes a byte.
\<close>

function varint_read_loop :: "nat \<Rightarrow> nat \<Rightarrow> u64 \<Rightarrow> u64 reader" where
  "varint_read_loop U_BITS bits res r =
     (case read_byte r of
        Inl e \<Rightarrow> Inl e
      | Inr (b, r') \<Rightarrow>
          if bits \<noteq> 0 \<and> b = 0 then Inl (Other ''non-canonical varint'')
          else if bits + 7 \<ge> U_BITS \<and> b \<ge> push_bit (U_BITS - bits) 1
          then Inl (Other ''varint overflow'')
          else
            let res' = res + push_bit bits (ucast (b AND VARINT_VALUE_MASK))
            in if b AND VARINT_CONTINUATION_FLAG = VARINT_CONTINUATION_FLAG
               then varint_read_loop U_BITS (bits + 7) res' r'
               else Inr (res', r'))"
  by pat_completeness auto
termination
  by (relation "measure (\<lambda>(U_BITS, bits, res, r). length r)")
     (auto simp: read_byte_def read_bytes_def and_then_def split: if_splits)

declare varint_read_loop.simps [simp del]

definition varint_read :: "'a::len word reader" where
  "varint_read =
     and_then (varint_read_loop LENGTH('a) 0 0) (\<lambda>res.
       if unat res < 2 ^ LENGTH('a) then ok (ucast res)
       else err (Other ''VarInt does not fit into integer type''))"

function varint_write_loop :: "u64 \<Rightarrow> bytes" where
  "varint_write_loop varint =
     (let b = ucast (varint AND ucast VARINT_VALUE_MASK);
          varint' = drop_bit 7 varint
      in if varint' \<noteq> 0
         then write_byte (b OR VARINT_CONTINUATION_FLAG) @ varint_write_loop varint'
         else write_byte b)"
  by pat_completeness auto
termination
proof (relation "measure unat")
  fix v v' :: u64
  assume v': "v' = drop_bit 7 v" "v' \<noteq> 0"
  have "unat v' = unat v div 128" by (simp add: v'(1) unat_drop7)
  moreover have "unat v' \<noteq> 0" using v'(2) by (simp add: unat_eq_0)
  ultimately show "(v', v) \<in> measure unat" by simp
qed simp

declare varint_write_loop.simps [simp del]

definition varint_write :: "'a::len word \<Rightarrow> bytes" where
  "varint_write x = varint_write_loop (into_u64 x)"

subsection \<open>Length-prefixed vectors\<close>

definition write_vec :: "('a \<Rightarrow> bytes) \<Rightarrow> 'a list \<Rightarrow> bytes" where
  "write_vec f values = varint_write (vec_len values) @ write_raw_vec f values"

definition read_vec :: "'a reader \<Rightarrow> nat option \<Rightarrow> 'a list reader" where
  "read_vec f length_bound =
     and_then varint_read (\<lambda>declared_length :: usize.
       case length_bound of
         None \<Rightarrow> read_raw_vec f (unat declared_length)
       | Some bound \<Rightarrow>
           if unat declared_length > bound
           then err (Other ''vector exceeds bound on length'')
           else read_raw_vec f (unat declared_length))"

subsection \<open>Reads of fixed width\<close>

lemma write_raw_vec_concat: "write_raw_vec f xs = concat (map f xs)"
  by (induction xs) auto

lemma write_raw_vec_append [simp]:
  "write_raw_vec f (xs @ ys) = write_raw_vec f xs @ write_raw_vec f ys"
  by (simp add: write_raw_vec_concat)

lemma write_raw_vec_byte [simp]: "write_raw_vec write_byte xs = xs"
  by (induction xs) (simp_all add: write_byte_def)

interpretation bytes_codec: sized_codec "\<lambda>xs. xs" "read_bytes n" "\<lambda>xs. length xs = n" n n for n
  by unfold_locales (auto simp: read_bytes_def split: if_splits)

lemma read_byte_Cons [simp]: "read_byte (b # r) = Inr (b, r)"
  by (simp add: read_byte_def read_bytes_def and_then_def)

lemma read_byte_Nil [simp]: "read_byte [] = Inl UnexpectedEof"
  by (simp add: read_byte_def read_bytes_def and_then_def)

lemma read_byte_Inr: "read_byte bs = Inr (b, r) \<longleftrightarrow> bs = b # r"
  by (cases bs) auto

interpretation byte_codec: sized_codec write_byte read_byte "\<lambda>_. True" 1 1
  by unfold_locales (auto simp: write_byte_def read_byte_Inr)

lemma le_codec:
  assumes "8 dvd LENGTH('a)"
  shows "codec (to_le_bytes :: 'a::len word \<Rightarrow> bytes)
           (and_then (read_bytes (LENGTH('a) div 8)) (\<lambda>bs. ok (from_le_bytes bs))) (\<lambda>_. True)"
proof
  fix x :: "'a word" and rest
  show "and_then (read_bytes (LENGTH('a) div 8)) (\<lambda>bs. ok (from_le_bytes bs))
          (to_le_bytes x @ rest) = Inr (x, rest)"
    using assms by (simp add: and_then_def bytes_codec.rd_wr from_to_le_bytes)
next
  fix bs rest and x :: "'a word"
  assume "and_then (read_bytes (LENGTH('a) div 8)) (\<lambda>bs. ok (from_le_bytes bs)) bs = Inr (x, rest)"
  then show "True \<and> bs = to_le_bytes x @ rest"
    using assms by (auto simp: and_then_eq_Inr bytes_codec.rd_iff to_from_le_bytes)
qed

interpretation u16_codec: codec "to_le_bytes :: u16 \<Rightarrow> bytes" read_u16 "\<lambda>_. True"
  using le_codec [where 'a = 16] by (simp add: read_u16_def)

interpretation u32_codec: codec "to_le_bytes :: u32 \<Rightarrow> bytes" read_u32 "\<lambda>_. True"
  using le_codec [where 'a = 32] by (simp add: read_u32_def)

interpretation u64_codec: codec "to_le_bytes :: u64 \<Rightarrow> bytes" read_u64 "\<lambda>_. True"
  using le_codec [where 'a = 64] by (simp add: read_u64_def)

subsection \<open>The bytes of a VarInt\<close>

lemma mask7: "VARINT_VALUE_MASK = mask 7"
  by (simp add: VARINT_VALUE_MASK_def VARINT_CONTINUATION_FLAG_def mask_numeral)

lemma flag_exp: "VARINT_CONTINUATION_FLAG = 2 ^ 7"
  by (simp add: VARINT_CONTINUATION_FLAG_def)

lemma and_mask7: "b AND VARINT_VALUE_MASK = take_bit 7 b"
  by (simp only: mask7 take_bit_eq_mask)

lemma unat_and_mask7: "unat (b AND VARINT_VALUE_MASK) = unat b mod 128"
  by (simp only: and_mask7 unat_take_bit) simp

lemma flag_iff: "b AND VARINT_CONTINUATION_FLAG = VARINT_CONTINUATION_FLAG \<longleftrightarrow> 128 \<le> unat b"
  by (simp only: flag_exp and_exp_eq_exp len_num1 bit_top_u8) (simp add: and_exp_eq_exp [of 7, where 'a = 8, simplified] bit_top_u8)

lemma unat_or_flag: "unat b < 128 \<Longrightarrow> unat (b OR VARINT_CONTINUATION_FLAG) = unat b + 128"
proof -
  assume a: "unat b < 128"
  then have "\<not> bit b 7" by (simp add: bit_top_u8)
  then have "b AND 2 ^ 7 = 0" by (simp only: and_exp_eq_0_iff_not_bit) simp
  then have "b OR 2 ^ 7 = b + 2 ^ 7"
    by (simp only: disjunctive_add_eq_or)
  then show ?thesis using a by (simp add: flag_exp unat_word_ariths)
qed

lemma low7: "v AND ucast VARINT_VALUE_MASK = take_bit 7 v" for v :: u64
proof -
  have "ucast VARINT_VALUE_MASK = (mask 7 :: u64)"
    by (simp add: VARINT_VALUE_MASK_def VARINT_CONTINUATION_FLAG_def mask_numeral)
  then show ?thesis by (simp only: take_bit_eq_mask)
qed

lemma unat_low7: "unat (ucast (v AND ucast VARINT_VALUE_MASK) :: u8) = unat v mod 128" for v :: u64
proof -
  have "unat v mod 128 < 128" by simp
  then have "unat v mod 128 < 256" by linarith
  then show ?thesis by (simp only: low7) (subst unat_ucast_small; simp add: unat_take_bit)
qed

lemma overflow_guard:
  "U_BITS \<le> bits + 7 \<and> push_bit (U_BITS - bits) (1 :: u8) \<le> b \<longleftrightarrow>
   U_BITS \<le> bits + 7 \<and> 2 ^ (U_BITS - bits) \<le> unat b"
proof (cases "U_BITS \<le> bits + 7")
  case True
  then have "U_BITS - bits < 8" by simp
  then have "(2::nat) ^ (U_BITS - bits) < 2 ^ 8" by (rule power_strict_increasing) simp
  then have "unat (push_bit (U_BITS - bits) (1 :: u8)) = 2 ^ (U_BITS - bits)"
    by (subst unat_push_bit) simp_all
  then show ?thesis by (simp only: word_le_nat_alt)
qed simp

lemma varint_write_loop_small: "unat v < 128 \<Longrightarrow> varint_write_loop v = [ucast v]"
proof -
  assume a: "unat v < 128"
  then have "unat (drop_bit 7 v) = 0" by (simp add: unat_drop7)
  then have "drop_bit 7 v = 0" by (simp only: unat_eq_zero)
  moreover have "(ucast (v AND ucast VARINT_VALUE_MASK) :: u8) = ucast v"
    using a by (simp only: word_unat_eq_iff unat_low7) (simp add: unat_ucast_small)
  ultimately show ?thesis by (subst varint_write_loop.simps) (simp add: write_byte_def)
qed

lemma varint_write_loop_big:
  "128 \<le> unat v \<Longrightarrow>
   varint_write_loop v = word_of_nat (unat v mod 128 + 128) # varint_write_loop (drop_bit 7 v)"
proof -
  assume a: "128 \<le> unat v"
  then have "unat (drop_bit 7 v) \<noteq> 0" by (simp add: unat_drop7)
  then have d: "drop_bit 7 v \<noteq> 0" by (simp only: unat_eq_zero) simp
  have "unat v mod 128 + 128 < 256" using mod_less_divisor [of 128 "unat v"] by linarith
  then have "(ucast (v AND ucast VARINT_VALUE_MASK) OR VARINT_CONTINUATION_FLAG :: u8) =
        word_of_nat (unat v mod 128 + 128)"
    by (simp add: word_unat_eq_iff unat_or_flag unat_low7 unat_of_nat del: of_nat_add)
  with d show ?thesis by (subst varint_write_loop.simps) (simp add: write_byte_def Let_def)
qed
subsection \<open>The VarInt loops\<close>

lemma varint_read_loop_Nil [simp]: "varint_read_loop U_BITS bits res [] = Inl UnexpectedEof"
  by (subst varint_read_loop.simps) simp

lemma varint_read_loop_Cons:
  "varint_read_loop U_BITS bits res (b # r) =
     (if bits \<noteq> 0 \<and> b = 0 then Inl (Other ''non-canonical varint'')
      else if U_BITS \<le> bits + 7 \<and> 2 ^ (U_BITS - bits) \<le> unat b then Inl (Other ''varint overflow'')
      else if 128 \<le> unat b
      then varint_read_loop U_BITS (bits + 7) (res + push_bit bits (ucast (take_bit 7 b))) r
      else Inr (res + push_bit bits (ucast b), r))"
proof -
  have "take_bit 7 b = b" if "unat b < 128"
    using that by (simp only: word_unat_eq_iff unat_take_bit) simp
  then show ?thesis
    by (subst varint_read_loop.simps)
      (simp only: read_byte_Cons sum.case prod.case overflow_guard flag_iff and_mask7 Let_def
        not_le [symmetric] split: if_split, auto)
qed

lemma push_bit_split7:
  "push_bit n (take_bit 7 v) + push_bit (n + 7) (drop_bit 7 v) = push_bit n v" for v :: "'a::len word"
proof -
  have "push_bit n (take_bit 7 v) + push_bit (n + 7) (drop_bit 7 v) =
        push_bit n (take_bit 7 v + push_bit 7 (drop_bit 7 v))"
    by (simp only: push_bit_add push_bit_push_bit)
  also have "take_bit 7 v + push_bit 7 (drop_bit 7 v) = v"
    by (rule bits_ident [THEN trans [OF add.commute]])
  finally show ?thesis .
qed

lemma pow7:
  assumes "bits + 7 < U_BITS"
  shows "(2::nat) ^ (U_BITS - bits) = 128 * 2 ^ (U_BITS - (bits + 7))"
proof -
  obtain k where "U_BITS = bits + 7 + k" using assms less_imp_add_positive by blast
  then show ?thesis by (simp add: power_add)
qed

lemma varint_read_write_loop:
  assumes "bits < U_BITS" and "unat v < 2 ^ (U_BITS - bits)" and "bits = 0 \<or> v \<noteq> 0"
  shows "varint_read_loop U_BITS bits res (varint_write_loop v @ rest) =
         Inr (res + push_bit bits v, rest)"
  using assms
proof (induction v arbitrary: bits res rule: varint_write_loop.induct)
  case (1 v)
  show ?case
  proof (cases "unat v < 128")
    case True
    then have b: "unat (ucast v :: u8) = unat v" by (simp add: unat_ucast_small)
    then have "ucast (ucast v :: u8) = v" using True
      by (simp only: word_unat_eq_iff) (simp add: unat_ucast_small)
    moreover have "(ucast v :: u8) = 0 \<longleftrightarrow> v = 0" by (simp only: b flip: unat_eq_0)
    ultimately show ?thesis
      using True b 1(3,4) by (simp add: varint_write_loop_small varint_read_loop_Cons)
  next
    case False
    define b :: u8 where "b = word_of_nat (unat v mod 128 + 128)"
    have ub: "unat b = unat v mod 128 + 128"
      unfolding b_def using mod_less_divisor [of 128 "unat v"]
      by (simp add: unat_of_nat del: of_nat_add)
    have bits: "bits + 7 < U_BITS"
    proof (rule ccontr)
      assume "\<not> bits + 7 < U_BITS"
      then have "(2::nat) ^ (U_BITS - bits) \<le> 2 ^ 7" by (intro power_increasing) auto
      with False 1(3) show False by simp
    qed
    have low: "ucast (take_bit 7 b) = take_bit 7 v"
      by (simp only: word_unat_eq_iff, subst unat_ucast_small) (simp_all add: unat_take_bit ub)
    have d: "drop_bit 7 v \<noteq> 0"
    proof -
      have "unat (drop_bit 7 v) \<noteq> 0" using False by (simp add: unat_drop7)
      then show ?thesis by (simp only: unat_eq_0) simp
    qed
    have "unat (drop_bit 7 v) < 2 ^ (U_BITS - (bits + 7))"
      using 1(3) by (simp add: pow7 [OF bits] unat_drop7 div_less_iff_less_mult mult.commute)
    then have "varint_read_loop U_BITS (bits + 7) (res + push_bit bits (take_bit 7 v))
        (varint_write_loop (drop_bit 7 v) @ rest) =
        Inr (res + push_bit bits (take_bit 7 v) + push_bit (bits + 7) (drop_bit 7 v), rest)"
      by (intro 1(1) [OF refl refl d bits] disjI2 d)
    moreover have "b \<noteq> 0" using ub by (auto simp: word_unat_eq_iff)
    moreover have "varint_write_loop v = b # varint_write_loop (drop_bit 7 v)"
      using False by (simp only: b_def) (simp add: varint_write_loop_big)
    ultimately show ?thesis
      using bits by (simp add: varint_read_loop_Cons ub low add.assoc push_bit_split7)
  qed
qed

lemma varint_read_loop_canonical:
  assumes "varint_read_loop U_BITS bits res bs = Inr (x, rest)" and "bits < U_BITS" and "U_BITS \<le> 64"
  shows "\<exists>v. x = res + push_bit bits v \<and> bs = varint_write_loop v @ rest \<and>
             unat v < 2 ^ (U_BITS - bits) \<and> (bits = 0 \<or> v \<noteq> 0)"
  using assms
proof (induction bs arbitrary: bits res)
  case (Cons b r)
  note step = Cons.prems(1) [unfolded varint_read_loop_Cons]
  show ?case
  proof (cases "128 \<le> unat b")
    case False
    let ?v = "ucast b :: u64"
    have v: "unat ?v = unat b" by (simp add: unat_ucast_up)
    have "ucast ?v = b"
      using False by (simp only: word_unat_eq_iff) (subst unat_ucast_small; simp only: v; simp)
    moreover have "unat b < 2 ^ (U_BITS - bits)"
    proof (cases "U_BITS \<le> bits + 7")
      case True
      then show ?thesis using step by (auto split: if_splits)
    next
      case f: False
      then have "(2::nat) ^ 7 \<le> 2 ^ (U_BITS - bits)" by (intro power_increasing) auto
      with False show ?thesis by simp
    qed
    moreover have "?v = 0 \<longleftrightarrow> b = 0" by (simp only: v flip: unat_eq_0)
    ultimately show ?thesis
      using False step v
      by (intro exI [of _ ?v]) (auto simp: varint_write_loop_small split: if_splits)
  next
    case True
    have bits: "bits + 7 < U_BITS"
    proof (rule ccontr)
      assume "\<not> bits + 7 < U_BITS"
      moreover from this have "(2::nat) ^ (U_BITS - bits) \<le> 2 ^ 7" by (intro power_increasing) auto
      ultimately show False using step True by (auto split: if_splits)
    qed
    let ?res = "res + push_bit bits (ucast (take_bit 7 b)) :: u64"
    have "varint_read_loop U_BITS (bits + 7) ?res r = Inr (x, rest)"
      using step True by (auto split: if_splits)
    from Cons.IH [OF this bits Cons.prems(3)] obtain w where
      w: "x = ?res + push_bit (bits + 7) w" "r = varint_write_loop w @ rest"
        "unat w < 2 ^ (U_BITS - (bits + 7))" "w \<noteq> 0"
      by auto
    define v where "v = ucast (take_bit 7 b) + push_bit 7 w"
    note pow = pow7 [OF bits]
    have le64: "(2::nat) ^ (U_BITS - bits) \<le> 2 ^ 64"
      using Cons.prems(3) by (intro power_increasing) auto
    have low: "unat (ucast (take_bit 7 b) :: u64) = unat b mod 128"
      by (subst unat_ucast_small) (simp_all add: unat_take_bit)
    have "unat w * 128 + 127 < 2 ^ (U_BITS - bits)" using w(3) pow by simp
    then have big: "unat w * 128 + 127 < 2 ^ 64" using le64 by linarith
    then have "unat (push_bit 7 w) = unat w * 128"
      by (subst unat_push_bit) simp_all
    then have uv: "unat v = unat b mod 128 + unat w * 128"
      using big low mod_less_divisor [of 128 "unat b"]
      by (simp add: v_def unat_word_ariths)
    have "drop_bit 7 v = w" by (simp add: word_unat_eq_iff unat_drop7 uv)
    moreover have "128 \<le> unat v"
    proof -
      have "unat w \<noteq> 0" using w(4) by (simp only: unat_eq_0) simp
      then show ?thesis using uv by simp
    qed
    moreover have "word_of_nat (unat v mod 128 + 128) = b"
    proof -
      have "unat b < 256" using unsigned_less [of b, where 'a = nat] by simp
      then have "unat b mod 128 = unat b - 128" using True by (simp add: le_mod_geq)
      moreover have "unat v mod 128 = unat b mod 128" by (simp add: uv)
      ultimately have "unat v mod 128 + 128 = unat b" using True by linarith
      then show ?thesis by (metis of_nat_unat ucast_id)
    qed
    ultimately have "varint_write_loop v = b # varint_write_loop w"
      using varint_write_loop_big [of v] by simp
    moreover have "x = res + push_bit bits v"
      by (simp add: w(1) v_def push_bit_add push_bit_push_bit add.assoc)
    moreover have "unat v < 2 ^ (U_BITS - bits)"
      using uv w(3) pow mod_less_divisor [of 128 "unat b"] by linarith
    moreover have "v \<noteq> 0" using uv w(4) by (auto simp: word_unat_eq_iff)
    ultimately show ?thesis using w(2) by auto
  qed
qed simp
subsection \<open>VarInt is a codec\<close>

lemma unat_into_u64: "LENGTH('a) \<le> 64 \<Longrightarrow> unat (into_u64 (x :: 'a::len word)) = unat x"
  by (simp add: into_u64_def unat_ucast_up)

lemma varint_codec_width:
  assumes "LENGTH('a) \<le> 64"
  shows "codec (varint_write :: 'a::len word \<Rightarrow> bytes) varint_read (\<lambda>_. True)"
proof
  fix x :: "'a word" and rest
  have bound: "unat (into_u64 x) < 2 ^ LENGTH('a)"
    using assms unsigned_less [of x, where 'a = nat] by (simp add: unat_into_u64)
  then have "varint_read_loop LENGTH('a) 0 0 (varint_write x @ rest) = Inr (into_u64 x, rest)"
    using varint_read_write_loop [of 0 "LENGTH('a)" "into_u64 x" 0 rest] by (simp add: varint_write_def)
  moreover have "ucast (into_u64 x) = x"
    using bound by (simp only: word_unat_eq_iff unat_ucast_small) (simp add: unat_into_u64 assms)
  ultimately show "varint_read (varint_write x @ rest) = Inr (x, rest)"
    using bound by (simp add: varint_read_def and_then_def)
next
  fix bs rest and x :: "'a word"
  assume "varint_read bs = Inr (x, rest)"
  then obtain y where y: "varint_read_loop LENGTH('a) 0 0 bs = Inr (y, rest)"
      "unat y < 2 ^ LENGTH('a)" "x = ucast y"
    by (auto simp: varint_read_def and_then_eq_Inr split: if_splits)
  from varint_read_loop_canonical [OF y(1)] assms have "bs = varint_write_loop y @ rest" by auto
  moreover have "into_u64 x = y"
    using y(2) by (simp only: word_unat_eq_iff unat_into_u64 [OF assms]) (simp add: y(3) unat_ucast_small)
  ultimately show "True \<and> bs = varint_write x @ rest" by (simp add: varint_write_def)
qed

text \<open>The conversion that ends \<open>VarInt::read\<close> never fails: the overflow check of the loop already
  keeps the value within the type.\<close>

lemma varint_read_fits:
  assumes "LENGTH('a::len) \<le> 64" and "varint_read_loop LENGTH('a) 0 0 bs = Inr (x, rest)"
  shows "unat x < 2 ^ LENGTH('a)"
  using varint_read_loop_canonical [OF assms(2)] assms(1) by auto

lemma varint_read_error:
  assumes "LENGTH('a::len) \<le> 64" and "(varint_read :: 'a word reader) bs = Inl e"
  shows "varint_read_loop LENGTH('a) 0 0 bs = Inl e"
  using assms varint_read_fits [OF assms(1)]
  by (auto simp: varint_read_def and_then_eq_Inl split: if_splits)

subsection \<open>The length of a VarInt\<close>

lemma length_varint_write_loop_le:
  "1 \<le> k \<Longrightarrow> length (varint_write_loop v) \<le> k \<longleftrightarrow> unat v < 2 ^ (7 * k)"
proof (induction k arbitrary: v)
  case (Suc k)
  show ?case
  proof (cases "unat v < 128")
    case True
    have "(2::nat) ^ 7 \<le> 2 ^ (7 * Suc k)" by (intro power_increasing) auto
    then have "unat v < 2 ^ (7 * Suc k)" using True by simp
    then show ?thesis using True by (simp add: varint_write_loop_small)
  next
    case False
    have "unat v < 2 ^ (7 * Suc k) \<longleftrightarrow> unat (drop_bit 7 v) < 2 ^ (7 * k)"
      by (simp add: unat_drop7 div_less_iff_less_mult power_add mult.commute)
    moreover have "length (varint_write_loop v) \<le> Suc k \<longleftrightarrow> length (varint_write_loop (drop_bit 7 v)) \<le> k"
      using False by (simp add: varint_write_loop_big)
    moreover have "k = 0 \<Longrightarrow> \<not> unat (drop_bit 7 v) < 1"
      using False by (simp add: unat_drop7)
    moreover have "k = 0 \<Longrightarrow> \<not> length (varint_write_loop (drop_bit 7 v)) \<le> k"
      by (subst varint_write_loop.simps) (simp add: write_byte_def Let_def)
    ultimately show ?thesis using Suc.IH [of "drop_bit 7 v"] by (cases "k = 0") auto
  qed
qed simp

lemma length_varint_write_loop_pos: "1 \<le> length (varint_write_loop v)"
  by (subst varint_write_loop.simps) (simp add: write_byte_def Let_def)

lemma leading_zeros_spec:
  fixes x :: "'a::len word"
  defines "z \<equiv> \<lambda>n. length (takeWhile (\<lambda>i. \<not> bit x i) (rev [0..<n]))"
  shows "z n \<le> n \<and> (\<forall>i. n - z n \<le> i \<and> i < n \<longrightarrow> \<not> bit x i) \<and> (z n < n \<longrightarrow> bit x (n - z n - 1))"
proof (induction n)
  case (Suc n)
  have "z (Suc n) = (if bit x n then 0 else Suc (z n))" by (simp add: z_def)
  with Suc show ?case by (auto simp: less_Suc_eq Suc_diff_le)
qed (simp add: z_def)

lemma bit_length_bounds:
  fixes x :: "'a::len word"
  defines "n \<equiv> LENGTH('a) - leading_zeros x"
  shows "unat x < 2 ^ n" and "0 < n \<Longrightarrow> 2 ^ (n - 1) \<le> unat x"
proof -
  note spec = leading_zeros_spec [where x = x and n = "LENGTH('a)", folded leading_zeros_def]
  have "take_bit n x = x"
    using spec by (intro bit_word_eqI) (auto simp: n_def bit_simps not_less)
  then have "unat x = unat x mod 2 ^ n" by (metis unat_take_bit)
  then show "unat x < 2 ^ n" by (metis mod_less_divisor zero_less_numeral zero_less_power)
  assume "0 < n"
  then have "bit x (n - 1)" using spec by (auto simp: n_def)
  then have "odd (unat x div 2 ^ (n - 1))" by (simp add: bit_unsigned_iff flip: bit_iff_odd)
  then show "2 ^ (n - 1) \<le> unat x" by (metis div_less even_zero not_le)
qed

lemma div_ceil_7_le: "div_ceil n 7 \<le> k \<longleftrightarrow> n \<le> 7 * k"
proof (cases "n mod 7 = 0")
  case True
  then have "div_ceil n 7 = n div 7" by (simp add: div_ceil_def)
  then show ?thesis using True by auto
next
  case False
  then have "div_ceil n 7 \<le> k \<longleftrightarrow> n div 7 < k" by (simp add: div_ceil_def Suc_le_eq)
  also have "\<dots> \<longleftrightarrow> n < 7 * k" by (simp add: div_less_iff_less_mult mult.commute)
  also have "\<dots> \<longleftrightarrow> n \<le> 7 * k" using False by (auto simp: order_le_less)
  finally show ?thesis .
qed

lemma length_varint_write:
  fixes x :: "'a::len word"
  assumes "LENGTH('a) \<le> 64"
  shows "length (varint_write x) = varint_len x"
proof -
  let ?v = "into_u64 x" and ?L = "length (varint_write x)"
  let ?n = "64 - leading_zeros (into_u64 x)"
  have le: "1 \<le> k \<Longrightarrow> ?L \<le> k \<longleftrightarrow> ?n \<le> 7 * k" for k
  proof -
    assume "1 \<le> k"
    have "unat ?v < 2 ^ (7 * k) \<longleftrightarrow> ?n \<le> 7 * k"
    proof
      assume "?n \<le> 7 * k"
      then have "(2::nat) ^ ?n \<le> 2 ^ (7 * k)" by (intro power_increasing) auto
      moreover have "unat ?v < 2 ^ ?n" using bit_length_bounds(1) [of ?v] by simp
      ultimately show "unat ?v < 2 ^ (7 * k)" by (rule order.strict_trans2 [rotated])
    next
      assume lt: "unat ?v < 2 ^ (7 * k)"
      show "?n \<le> 7 * k"
      proof (rule ccontr)
        assume n: "\<not> ?n \<le> 7 * k"
        then have "(2::nat) ^ (7 * k) \<le> 2 ^ (?n - 1)" by (intro power_increasing) auto
        also have "\<dots> \<le> unat ?v" using bit_length_bounds(2) [of ?v] n by simp
        finally show False using lt by simp
      qed
    qed
    then show ?thesis using \<open>1 \<le> k\<close> by (simp add: varint_write_def length_varint_write_loop_le)
  qed
  let ?m = "max (div_ceil ?n 7) 1"
  have pos: "1 \<le> ?L" using length_varint_write_loop_pos [of ?v] by (simp add: varint_write_def)
  have "?n \<le> 7 * ?m" by (simp only: div_ceil_7_le [symmetric] max.cobounded1)
  then have "?L \<le> ?m" using le [of ?m] by simp
  moreover have "?m \<le> ?L"
    using le [OF pos] pos by (simp add: div_ceil_7_le)
  ultimately have "?L = ?m" by (rule order.antisym)
  then show ?thesis by (simp add: varint_len_def Let_def)
qed

lemma length_varint_write_bounds:
  fixes x :: "'a::len word"
  assumes "LENGTH('a) \<le> 64"
  shows "LOWER_BOUND \<le> length (varint_write x)" and "length (varint_write x) \<le> UPPER_BOUND TYPE('a)"
proof -
  show "LOWER_BOUND \<le> length (varint_write x)"
    using length_varint_write_loop_pos by (simp add: LOWER_BOUND_def varint_write_def)
  let ?k = "(LENGTH('a) + 6) div 7"
  have "0 < LENGTH('a)" by simp
  then have "1 \<le> ?k" "LENGTH('a) \<le> 7 * ?k" by presburger+
  moreover from this(2) have "(2::nat) ^ LENGTH('a) \<le> 2 ^ (7 * ?k)" by (intro power_increasing) auto
  then have "unat x < 2 ^ (7 * ?k)" by (rule order.strict_trans2 [OF unsigned_less])
  ultimately have "length (varint_write_loop (into_u64 x)) \<le> ?k"
    using assms by (simp add: length_varint_write_loop_le unat_into_u64)
  then show "length (varint_write x) \<le> UPPER_BOUND TYPE('a)"
    by (simp add: varint_write_def UPPER_BOUND_def upper_bound_def)
qed
interpretation varint_u8: sized_codec "varint_write :: u8 \<Rightarrow> bytes" varint_read "\<lambda>_. True"
    LOWER_BOUND "UPPER_BOUND TYPE(8)"
  using varint_codec_width [where 'a = 8] length_varint_write_bounds [where 'a = 8]
  by (simp add: sized_codec_def sized_codec_axioms_def)

interpretation varint_u32: sized_codec "varint_write :: u32 \<Rightarrow> bytes" varint_read "\<lambda>_. True"
    LOWER_BOUND "UPPER_BOUND TYPE(32)"
  using varint_codec_width [where 'a = 32] length_varint_write_bounds [where 'a = 32]
  by (simp add: sized_codec_def sized_codec_axioms_def)

interpretation varint_u64: sized_codec "varint_write :: u64 \<Rightarrow> bytes" varint_read "\<lambda>_. True"
    LOWER_BOUND "UPPER_BOUND TYPE(64)"
  using varint_codec_width [where 'a = 64] length_varint_write_bounds [where 'a = 64]
  by (simp add: sized_codec_def sized_codec_axioms_def)

lemma UPPER_BOUND_values [simp]:
  "UPPER_BOUND TYPE(8) = 2" "UPPER_BOUND TYPE(32) = 5" "UPPER_BOUND TYPE(64) = 10"
  by (simp_all add: UPPER_BOUND_def upper_bound_def)

lemmas [codec_iff] = bytes_codec.rd_iff byte_codec.rd_iff
  u16_codec.rd_iff u32_codec.rd_iff u64_codec.rd_iff
  varint_u8.rd_iff varint_u32.rd_iff varint_u64.rd_iff

subsection \<open>Vectors\<close>

definition wf_raw_vec :: "('a \<Rightarrow> bool) \<Rightarrow> nat \<Rightarrow> 'a list \<Rightarrow> bool" where
  "wf_raw_vec P n xs \<longleftrightarrow> length xs = n \<and> list_all P xs"

definition wf_vec :: "('a \<Rightarrow> bool) \<Rightarrow> nat option \<Rightarrow> 'a list \<Rightarrow> bool" where
  "wf_vec P length_bound xs \<longleftrightarrow>
     fits_usize xs \<and> (case length_bound of None \<Rightarrow> True | Some bound \<Rightarrow> length xs \<le> bound) \<and>
     list_all P xs"

lemma read_raw_vec_length: "read_raw_vec f n bs = Inr (xs, rest) \<Longrightarrow> length xs = n"
  by (induction n arbitrary: bs xs) (auto simp: and_then_eq_Inr)

lemma read_array_raw_vec: "read_array f n = read_raw_vec f n"
proof (rule ext)
  fix bs
  show "read_array f n bs = read_raw_vec f n bs"
    using read_raw_vec_length [of f n bs] by (cases "read_raw_vec f n bs") (auto simp: read_array_def and_then_def)
qed

context codec
begin

lemma raw_vec_codec: "codec (write_raw_vec wr) (read_raw_vec rd n) (wf_raw_vec wf n)"
proof
  fix xs rest
  assume "wf_raw_vec wf n xs"
  then show "read_raw_vec rd n (write_raw_vec wr xs @ rest) = Inr (xs, rest)"
  proof (induction n arbitrary: xs)
    case (Suc n)
    then obtain y ys where "xs = y # ys" "wf y" "wf_raw_vec wf n ys"
      by (cases xs) (auto simp: wf_raw_vec_def)
    then show ?case by (simp add: rd_wr and_then_def Suc.IH)
  qed (simp add: wf_raw_vec_def)
next
  fix bs xs rest
  assume "read_raw_vec rd n bs = Inr (xs, rest)"
  then show "wf_raw_vec wf n xs \<and> bs = write_raw_vec wr xs @ rest"
  proof (induction n arbitrary: bs xs)
    case (Suc n)
    then show ?case by (fastforce simp: and_then_eq_Inr wf_raw_vec_def dest!: wr_rd)
  qed (simp add: wf_raw_vec_def)
qed

lemma vec_codec: "codec (write_vec wr) (read_vec rd bound) (wf_vec wf bound)"
proof
  fix xs rest
  assume wf: "wf_vec wf bound xs"
  then have "wf_raw_vec wf (length xs) xs" by (simp add: wf_vec_def wf_raw_vec_def)
  from codec.rd_wr [OF raw_vec_codec this] wf
  show "read_vec rd bound (write_vec wr xs @ rest) = Inr (xs, rest)"
    by (auto simp: read_vec_def write_vec_def wf_vec_def and_then_def varint_u64.rd_wr
        split: option.splits)
next
  fix bs xs rest
  assume "read_vec rd bound bs = Inr (xs, rest)"
  then obtain n :: usize and r where n: "varint_read bs = Inr (n, r)"
    and xs: "read_raw_vec rd (unat n) r = Inr (xs, rest)"
    and bound: "case bound of None \<Rightarrow> True | Some b \<Rightarrow> unat n \<le> b"
    by (cases bound) (auto simp: read_vec_def and_then_eq_Inr split: if_splits)
  from codec.wr_rd [OF raw_vec_codec xs] varint_u64.wr_rd [OF n] bound
  show "wf_vec wf bound xs \<and> bs = write_vec wr xs @ rest"
    by (auto simp: wf_vec_def wf_raw_vec_def write_vec_def split: option.splits)
qed

end

context sized_codec
begin

lemma length_write_raw_vec:
  "list_all wf xs \<Longrightarrow> lo * length xs \<le> length (write_raw_vec wr xs) \<and>
                 length (write_raw_vec wr xs) \<le> hi * length xs"
  by (induction xs) (auto dest: wr_lower wr_upper intro: add_mono)

end
subsection \<open>No read panics\<close>

lemma no_panic_read_bytes [no_panic_intros]: "no_panic (read_bytes n)"
  by (simp add: no_panic_def read_bytes_def)

lemma no_panic_read_byte [no_panic_intros]: "no_panic read_byte"
  unfolding read_byte_def by (intro no_panic_intros)

lemma no_panic_read_u32 [no_panic_intros]: "no_panic read_u32"
  unfolding read_u32_def by (intro no_panic_intros)

lemma no_panic_read_u64 [no_panic_intros]: "no_panic read_u64"
  unfolding read_u64_def by (intro no_panic_intros)

lemma varint_read_loop_no_panic: "varint_read_loop U_BITS bits res bs \<noteq> Inl (Panic s)"
  by (induction bs arbitrary: bits res) (simp_all add: varint_read_loop_Cons)

lemma no_panic_varint_read [no_panic_intros]: "no_panic varint_read"
  unfolding varint_read_def
  by (intro no_panic_and_then) (auto simp: no_panic_def varint_read_loop_no_panic)

lemma no_panic_read_raw_vec [no_panic_intros]: "no_panic f \<Longrightarrow> no_panic (read_raw_vec f n)"
  by (induction n) (auto intro!: no_panic_intros)

lemma no_panic_read_array [no_panic_intros]: "no_panic f \<Longrightarrow> no_panic (read_array f n)"
  by (simp add: read_array_raw_vec no_panic_intros)

lemma no_panic_read_vec [no_panic_intros]: "no_panic f \<Longrightarrow> no_panic (read_vec f bound)"
  unfolding read_vec_def by (cases bound) (auto intro!: no_panic_intros)

subsection \<open>What a VarInt guarantees\<close>

text \<open>C36. VarInts of every supported width are read canonically: reading succeeds exactly on the bytes
  \<open>VarInt::write\<close> produces for the value, followed by input it leaves untouched. So no other encoding
  (padded, overlong or overflowing) of a value is accepted.\<close>

theorem varint_read_canonical:
  fixes x :: "'a::len word"
  assumes "LENGTH('a) \<le> 64"
  shows "varint_read bs = Inr (x, rest) \<longleftrightarrow> bs = varint_write x @ rest"
  using codec.rd_iff [OF varint_codec_width [OF assms], of bs x rest] by simp

theorem varint_read_canonical_witness:
  "varint_read [0xac, 2, 9] = Inr (300 :: 32 word, [9]) \<and> varint_write (300 :: 32 word) = [0xac, 2]"
proof -
  have w: "varint_write (300 :: 32 word) = [0xac, 2]" by code_simp
  then have "varint_read [0xac, 2, 9] = Inr (300 :: 32 word, [9])"
    using varint_read_canonical [where 'a = 32, of "[0xac, 2, 9]" 300 "[9]"] by simp
  with w show ?thesis by simp
qed

text \<open>\<open>VarInt::varint_len\<close> is the number of bytes written, and it lies within \<open>LOWER_BOUND\<close> and
  \<open>UPPER_BOUND\<close>, the bounds which the sizes of larger structures are computed from.\<close>

theorem varint_len_correct:
  fixes x :: "'a::len word"
  assumes "LENGTH('a) \<le> 64"
  shows "length (varint_write x) = varint_len x \<and> LOWER_BOUND \<le> varint_len x \<and>
         varint_len x \<le> UPPER_BOUND TYPE('a)"
  using length_varint_write [OF assms, of x] length_varint_write_bounds [OF assms, of x] by simp

theorem varint_len_correct_witness:
  "length (varint_write (300 :: u64)) = varint_len (300 :: u64) \<and> varint_len (300 :: u64) \<le> 10"
  using varint_len_correct [where 'a = 64 and x = 300] by simp

lemma varint_read_loop_errors:
  "varint_read_loop U_BITS bits res bs = Inl e \<Longrightarrow>
   e \<in> {UnexpectedEof, Other ''non-canonical varint'', Other ''varint overflow''}"
  by (induction bs arbitrary: bits res) (auto simp: varint_read_loop_Cons split: if_splits)

text \<open>Reading a VarInt fails only on the end of the input, on a non-canonical encoding or on a value too
  large: the conversion into the type which was read, that ends \<open>VarInt::read\<close>, never fails.\<close>

theorem varint_read_errors:
  assumes "LENGTH('a::len) \<le> 64" and "(varint_read :: 'a word reader) bs = Inl e"
  shows "e \<in> {UnexpectedEof, Other ''non-canonical varint'', Other ''varint overflow''}"
  by (rule varint_read_loop_errors [OF varint_read_error [OF assms]])

end
