(* ===== verification/Ed25519.thy ===== *)
theory Ed25519
  imports Monero_Io
begin

text \<open>
  The \<^verbatim>\<open>monero-ed25519\<close> crate (\<^verbatim>\<open>ed25519/src\<close>): scalars, compressed points, points and Pedersen
  commitments, as wrappers of \<^verbatim>\<open>curve25519_dalek\<close>.

  That library is not part of the sources: the functions of it which the program calls are the
  fields of the record \<open>dalek\<close>, an argument of every definition that uses them. Its scalars are a
  type \<open>'s\<close> and its points a type \<open>'p\<close>; where the program computes with them, \<open>'s\<close> is a commutative
  ring and \<open>'p\<close> a commutative group. What a theorem needs of the library beyond that is a
  hypothesis over the record. \<open>Point\<close>, which wraps a point and nothing else, is \<open>'p\<close> itself.
\<close>

record 's dalek_scalar =
  from_canonical_bytes :: "bytes \<Rightarrow> 's option"
  from_bytes_mod_order :: "bytes \<Rightarrow> 's"
  from_bytes_mod_order_wide :: "bytes \<Rightarrow> 's"
  scalar_from_u64 :: "u64 \<Rightarrow> 's"
  scalar_to_bytes :: "'s \<Rightarrow> bytes"

record ('s, 'p) dalek = "'s dalek_scalar" +
  edwards_decompress :: "bytes \<Rightarrow> 'p option"
  edwards_compress :: "'p \<Rightarrow> bytes"
  edwards_mul :: "'s \<Rightarrow> 'p \<Rightarrow> 'p"
  ED25519_BASEPOINT_POINT :: 'p
  is_torsion_free :: "'p \<Rightarrow> bool"
  mul_by_cofactor :: "'p \<Rightarrow> 'p"
  montgomery_to_edwards :: "bytes \<Rightarrow> u8 \<Rightarrow> 'p option"
  residue_invert :: "int \<Rightarrow> int"

text \<open>A canonical encoding determines its scalar and is the encoding the scalar is written as.\<close>

definition canonical_scalars :: "('s, 'z) dalek_scalar_scheme \<Rightarrow> bool" where
  "canonical_scalars D \<longleftrightarrow>
     (\<forall>b s. from_canonical_bytes D b = Some s \<longrightarrow> length b = 32 \<and> scalar_to_bytes D s = b)"

text \<open>It holds, for one, of scalars which are 32 bytes and their own encoding.\<close>

definition raw_scalars :: "bytes dalek_scalar" where
  "raw_scalars =
     \<lparr>from_canonical_bytes = (\<lambda>b. if length b = 32 then Some b else None),
      from_bytes_mod_order = (\<lambda>b. b), from_bytes_mod_order_wide = take 32, scalar_from_u64 = (\<lambda>x. to_le_bytes x @ replicate 24 0),
      scalar_to_bytes = (\<lambda>b. b)\<rparr>"

lemma canonical_raw_scalars: "canonical_scalars raw_scalars"
  by (simp add: canonical_scalars_def raw_scalars_def)

subsection \<open>Scalar\<close>

datatype Scalar = Scalar bytes

definition Scalar_ZERO :: Scalar where
  "Scalar_ZERO = Scalar (replicate 32 0)"

definition Scalar_ONE :: Scalar where
  "Scalar_ONE = Scalar (1 # replicate 31 0)"

definition Scalar_INV_EIGHT :: Scalar where
  "Scalar_INV_EIGHT = Scalar
     [121,  47, 220, 226,  41, 229,   6,  97, 208, 218,  28, 125, 179, 157, 211,   7,
        0,   0,   0,   0,   0,   0,   0,   0,   0,   0,   0,   0,   0,   0,   0,   6]"

fun Scalar_write :: "Scalar \<Rightarrow> bytes" where
  "Scalar_write (Scalar b) = b"

definition Scalar_read :: "('s, 'z) dalek_scalar_scheme \<Rightarrow> Scalar reader" where
  "Scalar_read D =
     and_then (read_bytes 32) (\<lambda>bytes.
       case from_canonical_bytes D bytes of
         None \<Rightarrow> err (Other ''unreduced scalar'')
       | Some _ \<Rightarrow> ok (Scalar bytes))"

definition Scalar_from :: "('s, 'z) dalek_scalar_scheme \<Rightarrow> 's \<Rightarrow> Scalar" where
  "Scalar_from D scalar = Scalar (scalar_to_bytes D scalar)"

text \<open>\<open>into\<close> panics on bytes which are not canonical: \<open>None\<close>.\<close>

fun Scalar_into :: "('s, 'z) dalek_scalar_scheme \<Rightarrow> Scalar \<Rightarrow> 's option" where
  "Scalar_into D (Scalar b) = from_canonical_bytes D b"

text \<open>\<open>hash\<close> panics on a preimage whose digest is a multiple of the group order: \<open>None\<close>.\<close>

definition Scalar_hash ::
  "('s::zero, 'z) dalek_scalar_scheme \<Rightarrow> (bytes \<Rightarrow> bytes) \<Rightarrow> bytes \<Rightarrow> Scalar option" where
  "Scalar_hash D keccak256 data =
     (let scalar = from_bytes_mod_order D (keccak256 data)
      in if scalar = 0 then None else Some (Scalar_from D scalar))"

text \<open>The random number generator fills 64 bytes: a function of its state.\<close>

definition Scalar_random ::
  "('s, 'z) dalek_scalar_scheme \<Rightarrow> ('r \<Rightarrow> bytes \<times> 'r) \<Rightarrow> 'r \<Rightarrow> Scalar \<times> 'r" where
  "Scalar_random D fill_bytes rng =
     (let (raw, rng) = fill_bytes rng
      in (Scalar (scalar_to_bytes D (from_bytes_mod_order_wide D raw)), rng))"

subsection \<open>UnreducedScalar\<close>

datatype UnreducedScalar = UnreducedScalar bytes

definition UnreducedScalar_read :: "UnreducedScalar reader" where
  "UnreducedScalar_read = and_then (read_bytes 32) (\<lambda>b. ok (UnreducedScalar b))"

fun UnreducedScalar_write :: "UnreducedScalar \<Rightarrow> bytes" where
  "UnreducedScalar_write (UnreducedScalar b) = b"

subsection \<open>CompressedPoint\<close>

datatype CompressedPoint = CompressedPoint bytes

definition CompressedPoint_IDENTITY :: CompressedPoint where
  "CompressedPoint_IDENTITY = CompressedPoint (1 # replicate 31 0)"

definition CompressedPoint_H :: CompressedPoint where
  "CompressedPoint_H = CompressedPoint
     [139, 101,  89, 112,  21,  55, 153, 175,  42, 234, 220, 159, 241, 173, 208, 234,
      108, 114,  81, 213,  65,  84, 207, 169,  44,  23,  58,  13, 211, 156,  31, 148]"

definition CompressedPoint_read :: "CompressedPoint reader" where
  "CompressedPoint_read = and_then (read_bytes 32) (\<lambda>b. ok (CompressedPoint b))"

fun CompressedPoint_write :: "CompressedPoint \<Rightarrow> bytes" where
  "CompressedPoint_write (CompressedPoint b) = b"

fun CompressedPoint_to_bytes :: "CompressedPoint \<Rightarrow> bytes" where
  "CompressedPoint_to_bytes (CompressedPoint b) = b"

fun CompressedPoint_decompress :: "('s, 'p, 'z) dalek_scheme \<Rightarrow> CompressedPoint \<Rightarrow> 'p option" where
  "CompressedPoint_decompress D (CompressedPoint b) =
     (case edwards_decompress D b of
        None \<Rightarrow> None
      | Some point \<Rightarrow> if edwards_compress D point = b then Some point else None)"

text \<open>The order on compressed points, the lexicographic order of their bytes
  (\<open>Less\<close>, \<open>Equal\<close> and \<open>Greater\<close> as -1, 0 and 1).\<close>

fun bytes_cmp :: "bytes \<Rightarrow> bytes \<Rightarrow> int" where
  "bytes_cmp [] [] = 0"
| "bytes_cmp [] (_ # _) = -1"
| "bytes_cmp (_ # _) [] = 1"
| "bytes_cmp (x # xs) (y # ys) =
     (if unat x < unat y then -1 else if unat y < unat x then 1 else bytes_cmp xs ys)"

fun CompressedPoint_cmp :: "CompressedPoint \<Rightarrow> CompressedPoint \<Rightarrow> int" where
  "CompressedPoint_cmp (CompressedPoint x) (CompressedPoint y) = bytes_cmp x y"

subsection \<open>Point\<close>

definition Point_compress :: "('s, 'p, 'z) dalek_scheme \<Rightarrow> 'p \<Rightarrow> CompressedPoint" where
  "Point_compress D point = CompressedPoint (edwards_compress D point)"

definition Point_key_image :: "('s, 'p::zero, 'z) dalek_scheme \<Rightarrow> 'p \<Rightarrow> 'p option" where
  "Point_key_image D point =
     (if point = 0 \<or> \<not> is_torsion_free D point then None else Some point)"

text \<open>
  \<open>Point::biased_hash\<close>, Elligator 2 over the integers modulo \<open>2 ^ 255 - 19\<close>. \<open>residue_invert\<close> is
  \<^verbatim>\<open>crypto_bigint\<close>'s modular inverse and \<open>montgomery_to_edwards\<close> the curve library's map from Curve25519;
  \<open>None\<close> is the panic on a coordinate which is on no point.
\<close>

definition MODULUS :: int where
  "MODULUS = 0x7fffffffffffffffffffffffffffffffffffffffffffffffffffffffffffffed"

fun mod_pow :: "int \<Rightarrow> nat \<Rightarrow> int" where
  "mod_pow x n =
     (if n = 0 then 1
      else let y = mod_pow (x * x mod MODULUS) (n div 2)
           in if odd n then x * y mod MODULUS else y)"

declare mod_pow.simps [simp del]

definition is_quadratic_residue_8_mod_5 :: "int \<Rightarrow> bool" where
  "is_quadratic_residue_8_mod_5 val =
     (let y = mod_pow val (nat (MODULUS div 8 + 1));
          other_candidate = y * mod_pow 2 (nat (MODULUS div 4)) mod MODULUS
      in y * y mod MODULUS = val \<or> other_candidate * other_candidate mod MODULUS = val)"

definition elligator_u :: "(int \<Rightarrow> int) \<Rightarrow> int \<Rightarrow> int \<times> bool" where
  "elligator_u invert r =
     (let A = 486662;
          r_square = r * r mod MODULUS;
          ur_square = (r_square + r_square) mod MODULUS;
          one_plus_ur_square_inv = invert ((1 + ur_square) mod MODULUS);
          upsilon = (- A mod MODULUS) * one_plus_ur_square_inv mod MODULUS;
          other_candidate = (- upsilon - A) mod MODULUS;
          epsilon = is_quadratic_residue_8_mod_5
            ((((upsilon + A) mod MODULUS) * (upsilon * upsilon mod MODULUS) + upsilon) mod MODULUS)
      in (if epsilon then upsilon else other_candidate, epsilon))"

definition Point_biased_hash ::
  "('s, 'p, 'z) dalek_scheme \<Rightarrow> (bytes \<Rightarrow> bytes) \<Rightarrow> bytes \<Rightarrow> 'p option" where
  "Point_biased_hash D keccak256 bs =
     (let r = int (le_value (keccak256 bs)) mod MODULUS;
          (u, epsilon) = elligator_u (residue_invert D) r
      in case montgomery_to_edwards D (le_bytes 32 (nat u)) (if epsilon then 1 else 0) of
           None \<Rightarrow> None
         | Some res \<Rightarrow> Some (mul_by_cofactor D res))"

subsection \<open>Commitment\<close>

record Commitment =
  mask :: Scalar
  amount :: u64

definition Commitment_zero :: "('s::one, 'z) dalek_scalar_scheme \<Rightarrow> Commitment" where
  "Commitment_zero D = \<lparr>mask = Scalar_from D 1, amount = 0\<rparr>"

definition Commitment_new :: "Scalar \<Rightarrow> u64 \<Rightarrow> Commitment" where
  "Commitment_new m a = \<lparr>mask = m, amount = a\<rparr>"

text \<open>\<open>commit\<close> panics if the mask is not a canonical scalar or \<open>H\<close> does not decompress: \<open>None\<close>.\<close>

definition Commitment_commit ::
  "('s::comm_ring_1, 'p::ab_group_add, 'z) dalek_scheme \<Rightarrow> Commitment \<Rightarrow> 'p option" where
  "Commitment_commit D c =
     (case (Scalar_into D (mask c), edwards_decompress D (CompressedPoint_to_bytes CompressedPoint_H)) of
        (Some m, Some H) \<Rightarrow>
          Some (edwards_mul D m (ED25519_BASEPOINT_POINT D) +
                edwards_mul D (scalar_from_u64 D (amount c)) H)
      | _ \<Rightarrow> None)"

definition Commitment_write :: "Commitment \<Rightarrow> bytes" where
  "Commitment_write c = Scalar_write (mask c) @ to_le_bytes (amount c)"

definition Commitment_read :: "('s, 'z) dalek_scalar_scheme \<Rightarrow> Commitment reader" where
  "Commitment_read D =
     and_then (Scalar_read D) (\<lambda>m. and_then read_u64 (\<lambda>a. ok (Commitment_new m a)))"

subsection \<open>Their encodings\<close>

fun wf_Scalar :: "('s, 'z) dalek_scalar_scheme \<Rightarrow> Scalar \<Rightarrow> bool" where
  "wf_Scalar D (Scalar b) \<longleftrightarrow> length b = 32 \<and> from_canonical_bytes D b \<noteq> None"

fun wf_UnreducedScalar :: "UnreducedScalar \<Rightarrow> bool" where
  "wf_UnreducedScalar (UnreducedScalar b) \<longleftrightarrow> length b = 32"

fun wf_CompressedPoint :: "CompressedPoint \<Rightarrow> bool" where
  "wf_CompressedPoint (CompressedPoint b) \<longleftrightarrow> length b = 32"

definition wf_Commitment :: "('s, 'z) dalek_scalar_scheme \<Rightarrow> Commitment \<Rightarrow> bool" where
  "wf_Commitment D c \<longleftrightarrow> wf_Scalar D (mask c)"

lemma Scalar_read_iff:
  "Scalar_read D bs = Inr (x, rest) \<longleftrightarrow> wf_Scalar D x \<and> bs = Scalar_write x @ rest"
  by (cases x) (auto simp: Scalar_read_def and_then_eq_Inr codec_iff split: option.splits)

interpretation scalar_codec: sized_codec Scalar_write "Scalar_read D" "wf_Scalar D" 32 32 for D
proof -
  have "length (Scalar_write x) = 32" if "wf_Scalar D x" for x
    using that by (cases x) simp
  then show "sized_codec Scalar_write (Scalar_read D) (wf_Scalar D) 32 32"
    by (simp add: sized_codec_def sized_codec_axioms_def codec_iffI [OF Scalar_read_iff])
qed

lemma UnreducedScalar_read_iff:
  "UnreducedScalar_read bs = Inr (x, rest) \<longleftrightarrow>
   wf_UnreducedScalar x \<and> bs = UnreducedScalar_write x @ rest"
  by (cases x) (auto simp: UnreducedScalar_read_def and_then_eq_Inr codec_iff)

interpretation unreduced_codec: codec UnreducedScalar_write UnreducedScalar_read wf_UnreducedScalar
  by (rule codec_iffI [OF UnreducedScalar_read_iff])

lemma CompressedPoint_read_iff:
  "CompressedPoint_read bs = Inr (x, rest) \<longleftrightarrow>
   wf_CompressedPoint x \<and> bs = CompressedPoint_write x @ rest"
  by (cases x) (auto simp: CompressedPoint_read_def and_then_eq_Inr codec_iff)

lemma length_CompressedPoint_write [simp]:
  "wf_CompressedPoint x \<Longrightarrow> length (CompressedPoint_write x) = 32"
  by (cases x) simp

interpretation point_codec:
    sized_codec CompressedPoint_write CompressedPoint_read wf_CompressedPoint 32 32
  by (simp add: sized_codec_def sized_codec_axioms_def codec_iffI [OF CompressedPoint_read_iff])

lemma CompressedPoint_to_bytes_write: "CompressedPoint_to_bytes x = CompressedPoint_write x"
  by (cases x) simp

lemmas [codec_iff] = scalar_codec.rd_iff unreduced_codec.rd_iff point_codec.rd_iff

lemma Commitment_read_iff:
  "Commitment_read D bs = Inr (x, rest) \<longleftrightarrow> wf_Commitment D x \<and> bs = Commitment_write x @ rest"
  by (cases x)
     (auto simp: Commitment_read_def Commitment_write_def Commitment_new_def wf_Commitment_def
       and_then_eq_Inr codec_iff)

interpretation commitment_codec: codec Commitment_write "Commitment_read D" "wf_Commitment D" for D
  by (rule codec_iffI [OF Commitment_read_iff])

subsection \<open>Canonical points\<close>

text \<open>
  \<open>CompressedPoint::decompress\<close> accepts a single encoding of each point: two encodings of one
  point are the same encoding, and compressing the result gives the input back.
\<close>

lemma decompress_Some:
  "CompressedPoint_decompress D c = Some p \<Longrightarrow> Point_compress D p = c"
  by (cases c) (auto simp: Point_compress_def split: option.splits if_splits)

definition wf_Point :: "('s, 'p, 'z) dalek_scheme \<Rightarrow> 'p \<Rightarrow> bool" where
  "wf_Point D p \<longleftrightarrow> length (edwards_compress D p) = 32 \<and> edwards_decompress D (edwards_compress D p) = Some p"

lemma decompress_wf:
  "CompressedPoint_decompress D c = Some p \<and> wf_CompressedPoint c \<longleftrightarrow>
   wf_Point D p \<and> c = Point_compress D p"
proof
  assume "CompressedPoint_decompress D c = Some p \<and> wf_CompressedPoint c"
  then show "wf_Point D p \<and> c = Point_compress D p"
    by (cases c) (auto simp: wf_Point_def Point_compress_def split: option.splits if_splits)
next
  assume "wf_Point D p \<and> c = Point_compress D p"
  then show "CompressedPoint_decompress D c = Some p \<and> wf_CompressedPoint c"
    by (simp add: wf_Point_def Point_compress_def)
qed

lemma decompress_inj:
  "CompressedPoint_decompress D c = Some p \<Longrightarrow> CompressedPoint_decompress D c' = Some p \<Longrightarrow> c = c'"
  using decompress_Some by metis

lemma bytes_cmp_refl_iff: "bytes_cmp xs ys = 0 \<longleftrightarrow> xs = ys"
  by (induction xs ys rule: bytes_cmp.induct) (auto simp: word_unat_eq_iff)

lemma bytes_cmp_antisym: "bytes_cmp ys xs = - bytes_cmp xs ys"
  by (induction xs ys rule: bytes_cmp.induct) auto

lemma bytes_cmp_trans: "bytes_cmp xs ys = -1 \<Longrightarrow> bytes_cmp ys zs = -1 \<Longrightarrow> bytes_cmp xs zs = -1"
proof (induction xs ys arbitrary: zs rule: bytes_cmp.induct)
  case (2 v va)
  then show ?case by (cases zs) auto
next
  case (4 x xs y ys)
  then obtain z zs' where zs: "zs = z # zs'" by (cases zs) auto
  have xy: "unat x < unat y \<or> unat x = unat y \<and> bytes_cmp xs ys = -1"
    using "4.prems"(1) by (cases "unat x" "unat y" rule: linorder_cases) auto
  have yz: "unat y < unat z \<or> unat y = unat z \<and> bytes_cmp ys zs' = -1"
    using "4.prems"(2) zs by (cases "unat y" "unat z" rule: linorder_cases) auto
  have IH: "unat x = unat y \<Longrightarrow> bytes_cmp xs ys = -1 \<Longrightarrow> bytes_cmp ys zs' = -1 \<Longrightarrow> bytes_cmp xs zs' = -1"
    using "4.IH" [of zs'] by simp
  have "unat x < unat z \<or> unat x = unat z \<and> bytes_cmp xs zs' = -1"
    using xy yz IH by (elim disjE conjE) simp_all
  then show ?case unfolding zs by (elim disjE conjE) simp_all
qed auto

subsection \<open>No read panics\<close>

lemma no_panic_Scalar_read [no_panic_intros]: "no_panic (Scalar_read D)"
  unfolding Scalar_read_def
  by (intro no_panic_and_then no_panic_read_bytes) (simp add: no_panic_def split: option.split)

lemma no_panic_UnreducedScalar_read [no_panic_intros]: "no_panic UnreducedScalar_read"
  unfolding UnreducedScalar_read_def by (intro no_panic_intros)

lemma no_panic_CompressedPoint_read [no_panic_intros]: "no_panic CompressedPoint_read"
  unfolding CompressedPoint_read_def by (intro no_panic_intros)

lemma no_panic_Commitment_read [no_panic_intros]: "no_panic (Commitment_read D)"
  unfolding Commitment_read_def by (intro no_panic_intros)

subsection \<open>The order of points\<close>

text \<open>Compressed points are totally ordered, byte by byte: comparing equal is being equal, swapping the
  operands negates the result, and being less is transitive.\<close>

theorem compressed_point_order:
  "(CompressedPoint_cmp a b = 0 \<longleftrightarrow> a = b) \<and>
   CompressedPoint_cmp b a = - CompressedPoint_cmp a b \<and>
   (CompressedPoint_cmp a b = -1 \<longrightarrow> CompressedPoint_cmp b c = -1 \<longrightarrow> CompressedPoint_cmp a c = -1)"
proof (cases a; cases b; cases c)
  fix x y z
  assume "a = CompressedPoint x" "b = CompressedPoint y" "c = CompressedPoint z"
  then show ?thesis
    using bytes_cmp_refl_iff [of x y] bytes_cmp_antisym [of y x] bytes_cmp_trans [of x y z]
    by (simp only: CompressedPoint_cmp.simps CompressedPoint.inject simp_thms) blast
qed

theorem compressed_point_order_witness:
  "CompressedPoint_cmp (CompressedPoint [1, 2]) (CompressedPoint [1, 3]) = -1 \<and>
   CompressedPoint_cmp (CompressedPoint [1, 3]) (CompressedPoint [2, 0]) = -1 \<and>
   CompressedPoint_cmp (CompressedPoint [1, 2]) (CompressedPoint [2, 0]) = -1"
proof -
  have "CompressedPoint_cmp (CompressedPoint [1, 2]) (CompressedPoint [1, 3]) = -1"
    "CompressedPoint_cmp (CompressedPoint [1, 3]) (CompressedPoint [2, 0]) = -1" by simp_all
  with compressed_point_order [of "CompressedPoint [1, 2]" "CompressedPoint [1, 3]" "CompressedPoint [2, 0]"]
  show ?thesis by blast
qed

end
