(* ===== verification/Ring_Proofs.thy ===== *)
theory Ring_Proofs
  imports Ed25519
begin

text \<open>
  The proofs a transaction carries and their encodings: CryptoNote ring signatures
  (\<^verbatim>\<open>src/ring_signatures.rs\<close>), Borromean range proofs (\<^verbatim>\<open>ringct/borromean/src/lib.rs\<close>), MLSAGs
  (\<^verbatim>\<open>ringct/mlsag/src/lib.rs\<close>), CLSAGs (\<^verbatim>\<open>ringct/clsag/src/lib.rs\<close>) and Bulletproofs(+)
  (\<^verbatim>\<open>ringct/bulletproofs/src/lib.rs\<close>), with the Bulletproofs' weight penalty. Their verification
  algorithms are in the theories which import this one.
\<close>

subsection \<open>Ring signatures\<close>

record Signature =
  sig_c :: Scalar
  sig_s :: Scalar

record RingSignature =
  rs_sigs :: "Signature list"

definition Signature_write :: "Signature \<Rightarrow> bytes" where
  "Signature_write x = Scalar_write (sig_c x) @ Scalar_write (sig_s x)"

definition Signature_read :: "('s, 'z) dalek_scalar_scheme \<Rightarrow> Signature reader" where
  "Signature_read D =
     and_then (Scalar_read D) (\<lambda>c. and_then (Scalar_read D) (\<lambda>s. ok \<lparr>sig_c = c, sig_s = s\<rparr>))"

definition RingSignature_write :: "RingSignature \<Rightarrow> bytes" where
  "RingSignature_write x = write_raw_vec Signature_write (rs_sigs x)"

definition RingSignature_read :: "('s, 'z) dalek_scalar_scheme \<Rightarrow> nat \<Rightarrow> RingSignature reader" where
  "RingSignature_read D members =
     and_then (read_raw_vec (Signature_read D) members) (\<lambda>sigs. ok \<lparr>rs_sigs = sigs\<rparr>)"

subsection \<open>Borromean range proofs\<close>

record BorromeanSignatures =
  bs_s0 :: "UnreducedScalar list"
  bs_s1 :: "UnreducedScalar list"
  bs_ee :: Scalar

record BorromeanRange =
  br_sigs :: BorromeanSignatures
  br_bit_commitments :: "CompressedPoint list"

definition BorromeanSignatures_read ::
  "('s, 'z) dalek_scalar_scheme \<Rightarrow> BorromeanSignatures reader" where
  "BorromeanSignatures_read D =
     and_then (read_array UnreducedScalar_read 64) (\<lambda>s0.
     and_then (read_array UnreducedScalar_read 64) (\<lambda>s1.
     and_then (Scalar_read D) (\<lambda>ee.
     ok \<lparr>bs_s0 = s0, bs_s1 = s1, bs_ee = ee\<rparr>)))"

definition BorromeanSignatures_write :: "BorromeanSignatures \<Rightarrow> bytes" where
  "BorromeanSignatures_write x =
     write_raw_vec UnreducedScalar_write (bs_s0 x) @
     write_raw_vec UnreducedScalar_write (bs_s1 x) @ Scalar_write (bs_ee x)"

definition BorromeanRange_read :: "('s, 'z) dalek_scalar_scheme \<Rightarrow> BorromeanRange reader" where
  "BorromeanRange_read D =
     and_then (BorromeanSignatures_read D) (\<lambda>sigs.
     and_then (read_array CompressedPoint_read 64) (\<lambda>bit_commitments.
     ok \<lparr>br_sigs = sigs, br_bit_commitments = bit_commitments\<rparr>))"

definition BorromeanRange_write :: "BorromeanRange \<Rightarrow> bytes" where
  "BorromeanRange_write x =
     BorromeanSignatures_write (br_sigs x) @
     write_raw_vec CompressedPoint_write (br_bit_commitments x)"

subsection \<open>MLSAG\<close>

record Mlsag =
  mlsag_ss :: "Scalar list list"
  mlsag_cc :: Scalar

definition Mlsag_write :: "Mlsag \<Rightarrow> bytes" where
  "Mlsag_write x = write_raw_vec (write_raw_vec Scalar_write) (mlsag_ss x) @ Scalar_write (mlsag_cc x)"

text \<open>Collecting \<open>decoys\<close> results stops at the first error, as \<open>read_raw_vec\<close> does.\<close>

definition Mlsag_read :: "('s, 'z) dalek_scalar_scheme \<Rightarrow> nat \<Rightarrow> nat \<Rightarrow> Mlsag reader" where
  "Mlsag_read D decoys ss_2_elements =
     and_then (read_raw_vec (read_raw_vec (Scalar_read D) ss_2_elements) decoys) (\<lambda>ss.
     and_then (Scalar_read D) (\<lambda>cc. ok \<lparr>mlsag_ss = ss, mlsag_cc = cc\<rparr>))"

subsection \<open>CLSAG\<close>

record Clsag =
  clsag_D :: CompressedPoint
  clsag_s :: "Scalar list"
  clsag_c1 :: Scalar

definition Clsag_write :: "Clsag \<Rightarrow> bytes" where
  "Clsag_write x =
     write_raw_vec Scalar_write (clsag_s x) @ Scalar_write (clsag_c1 x) @
     CompressedPoint_write (clsag_D x)"

definition Clsag_read :: "('s, 'z) dalek_scalar_scheme \<Rightarrow> nat \<Rightarrow> Clsag reader" where
  "Clsag_read D decoys =
     and_then (read_raw_vec (Scalar_read D) decoys) (\<lambda>s.
     and_then (Scalar_read D) (\<lambda>c1.
     and_then CompressedPoint_read (\<lambda>d. ok \<lparr>clsag_D = d, clsag_s = s, clsag_c1 = c1\<rparr>)))"

subsection \<open>Bulletproofs\<close>

definition COMMITMENT_BITS :: nat where
  "COMMITMENT_BITS = 64"

definition MAX_COMMITMENTS :: nat where
  "MAX_COMMITMENTS = 16"

definition ilog2 :: "nat \<Rightarrow> nat" where
  "ilog2 n = length (takeWhile (\<lambda>i. 2 ^ Suc i \<le> n) [0..<n])"

definition LOG_COMMITMENT_BITS :: nat where
  "LOG_COMMITMENT_BITS = ilog2 COMMITMENT_BITS"

definition MAX_LR :: nat where
  "MAX_LR = ilog2 MAX_COMMITMENTS + LOG_COMMITMENT_BITS"

text \<open>The scalars of these proofs are the library's own, not the crate's wrapper of them.\<close>

record 's IpProof =
  ip_L :: "CompressedPoint list"
  ip_R :: "CompressedPoint list"
  ip_a :: 's
  ip_b :: 's

record 's OriginalProof =
  bp_A :: CompressedPoint
  bp_S :: CompressedPoint
  bp_T1 :: CompressedPoint
  bp_T2 :: CompressedPoint
  bp_tau_x :: 's
  bp_mu :: 's
  bp_t_hat :: 's
  bp_ip :: "'s IpProof"

record 's WipProof =
  wip_L :: "CompressedPoint list"
  wip_R :: "CompressedPoint list"
  wip_A :: CompressedPoint
  wip_B :: CompressedPoint
  wip_r_answer :: 's
  wip_s_answer :: 's
  wip_delta_answer :: 's

record 's PlusProof =
  bpp_A :: CompressedPoint
  bpp_wip :: "'s WipProof"

datatype 's Bulletproof = Original "'s OriginalProof" | Plus "'s PlusProof"

definition bp_fields :: "bool \<Rightarrow> nat" where
  "bp_fields bp_plus = (if bp_plus then 6 else 9)"

text \<open>The loop of \<open>calculate_clawback\<close>, which ends as \<open>2 ^ LR_len\<close> outgrows any bound.\<close>

function clawback_loop :: "nat \<Rightarrow> nat \<Rightarrow> nat \<Rightarrow> nat \<times> nat" where
  "clawback_loop bound LR_len n_padded_outputs =
     (if n_padded_outputs < bound
      then clawback_loop bound (LR_len + 1) (2 ^ (LR_len + 1))
      else (LR_len, n_padded_outputs))"
  by pat_completeness auto
termination
proof (relation "measures [\<lambda>(b, l, n). (if n < b then Suc b else 0) - l, \<lambda>(b, l, n). if n < b then 1 else 0]")
  fix b l n :: nat
  assume "n < b"
  have "l + 1 < 2 ^ (l + 1)" by (rule less_exp)
  then have "(2 :: nat) ^ (l + 1) < b \<Longrightarrow> l + 1 < b" by (rule order.strict_trans)
  then show "((b, l + 1, 2 ^ (l + 1)), (b, l, n)) \<in>
      measures [\<lambda>(b, l, n). (if n < b then Suc b else 0) - l, \<lambda>(b, l, n). if n < b then 1 else 0]"
    using \<open>n < b\<close> by auto
qed simp

declare clawback_loop.simps [simp del]

text \<open>The subtraction is of \<open>usize\<close>s: \<open>None\<close> is its underflow.\<close>

definition calculate_clawback :: "bool \<Rightarrow> nat \<Rightarrow> (nat \<times> nat) option" where
  "calculate_clawback bp_plus n_outputs =
     (let (LR_len, n_padded_outputs) = clawback_loop (min n_outputs MAX_COMMITMENTS) 0 1;
          LR_len = LR_len + LOG_COMMITMENT_BITS
      in if n_padded_outputs > 2
         then let fields = bp_fields bp_plus;
                  base = ((fields + (2 * (LOG_COMMITMENT_BITS + 1))) * 32) div 2;
                  size = (fields + (2 * LR_len)) * 32
              in if base * n_padded_outputs < size then None
                 else Some ((base * n_padded_outputs - size) * 4 div 5, LR_len)
         else Some (0, LR_len))"

fun Bulletproof_write_core ::
  "('s, 'z) dalek_scalar_scheme \<Rightarrow> (CompressedPoint list \<Rightarrow> bytes) \<Rightarrow> 's Bulletproof \<Rightarrow> bytes" where
  "Bulletproof_write_core D specific_write_vec (Original bp) =
     CompressedPoint_write (bp_A bp) @
     CompressedPoint_write (bp_S bp) @
     CompressedPoint_write (bp_T1 bp) @
     CompressedPoint_write (bp_T2 bp) @
     scalar_to_bytes D (bp_tau_x bp) @
     scalar_to_bytes D (bp_mu bp) @
     specific_write_vec (ip_L (bp_ip bp)) @
     specific_write_vec (ip_R (bp_ip bp)) @
     scalar_to_bytes D (ip_a (bp_ip bp)) @
     scalar_to_bytes D (ip_b (bp_ip bp)) @
     scalar_to_bytes D (bp_t_hat bp)"
| "Bulletproof_write_core D specific_write_vec (Plus bp) =
     CompressedPoint_write (bpp_A bp) @
     CompressedPoint_write (wip_A (bpp_wip bp)) @
     CompressedPoint_write (wip_B (bpp_wip bp)) @
     scalar_to_bytes D (wip_r_answer (bpp_wip bp)) @
     scalar_to_bytes D (wip_s_answer (bpp_wip bp)) @
     scalar_to_bytes D (wip_delta_answer (bpp_wip bp)) @
     specific_write_vec (wip_L (bpp_wip bp)) @
     specific_write_vec (wip_R (bpp_wip bp))"

definition Bulletproof_signature_write ::
  "('s, 'z) dalek_scalar_scheme \<Rightarrow> 's Bulletproof \<Rightarrow> bytes" where
  "Bulletproof_signature_write D = Bulletproof_write_core D (write_raw_vec CompressedPoint_write)"

definition Bulletproof_write :: "('s, 'z) dalek_scalar_scheme \<Rightarrow> 's Bulletproof \<Rightarrow> bytes" where
  "Bulletproof_write D = Bulletproof_write_core D (write_vec CompressedPoint_write)"

text \<open>\<open>Scalar::read(r)?.into()\<close>: the conversion panics on bytes which are not canonical.\<close>

definition dalek_scalar_read :: "('s, 'z) dalek_scalar_scheme \<Rightarrow> 's reader" where
  "dalek_scalar_read D =
     and_then (Scalar_read D) (\<lambda>s.
       case Scalar_into D s of
         None \<Rightarrow> err (Panic ''`Scalar` instantiated with invalid contents'')
       | Some x \<Rightarrow> ok x)"

definition Bulletproof_read :: "('s, 'z) dalek_scalar_scheme \<Rightarrow> 's Bulletproof reader" where
  "Bulletproof_read D =
     and_then CompressedPoint_read (\<lambda>A.
     and_then CompressedPoint_read (\<lambda>S.
     and_then CompressedPoint_read (\<lambda>T1.
     and_then CompressedPoint_read (\<lambda>T2.
     and_then (dalek_scalar_read D) (\<lambda>tau_x.
     and_then (dalek_scalar_read D) (\<lambda>mu.
     and_then (read_vec CompressedPoint_read (Some MAX_LR)) (\<lambda>L.
     and_then (read_vec CompressedPoint_read (Some MAX_LR)) (\<lambda>R.
     and_then (dalek_scalar_read D) (\<lambda>a.
     and_then (dalek_scalar_read D) (\<lambda>b.
     and_then (dalek_scalar_read D) (\<lambda>t_hat.
     ok (Original \<lparr>bp_A = A, bp_S = S, bp_T1 = T1, bp_T2 = T2, bp_tau_x = tau_x, bp_mu = mu,
       bp_t_hat = t_hat, bp_ip = \<lparr>ip_L = L, ip_R = R, ip_a = a, ip_b = b\<rparr>\<rparr>))))))))))))"

definition Bulletproof_read_plus :: "('s, 'z) dalek_scalar_scheme \<Rightarrow> 's Bulletproof reader" where
  "Bulletproof_read_plus D =
     and_then CompressedPoint_read (\<lambda>A.
     and_then CompressedPoint_read (\<lambda>wA.
     and_then CompressedPoint_read (\<lambda>B.
     and_then (dalek_scalar_read D) (\<lambda>r_answer.
     and_then (dalek_scalar_read D) (\<lambda>s_answer.
     and_then (dalek_scalar_read D) (\<lambda>delta_answer.
     and_then (read_vec CompressedPoint_read (Some MAX_LR)) (\<lambda>L.
     and_then (read_vec CompressedPoint_read (Some MAX_LR)) (\<lambda>R.
     ok (Plus \<lparr>bpp_A = A, bpp_wip = \<lparr>wip_L = L, wip_R = R, wip_A = wA, wip_B = B,
       wip_r_answer = r_answer, wip_s_answer = s_answer, wip_delta_answer = delta_answer\<rparr>\<rparr>)))))))))"

subsection \<open>Well-formed proofs\<close>

definition wf_Signature :: "('s, 'z) dalek_scalar_scheme \<Rightarrow> Signature \<Rightarrow> bool" where
  "wf_Signature D x \<longleftrightarrow> wf_Scalar D (sig_c x) \<and> wf_Scalar D (sig_s x)"

definition wf_RingSignature :: "('s, 'z) dalek_scalar_scheme \<Rightarrow> nat \<Rightarrow> RingSignature \<Rightarrow> bool" where
  "wf_RingSignature D members x \<longleftrightarrow> wf_raw_vec (wf_Signature D) members (rs_sigs x)"

definition wf_BorromeanSignatures ::
  "('s, 'z) dalek_scalar_scheme \<Rightarrow> BorromeanSignatures \<Rightarrow> bool" where
  "wf_BorromeanSignatures D x \<longleftrightarrow>
     wf_raw_vec wf_UnreducedScalar 64 (bs_s0 x) \<and> wf_raw_vec wf_UnreducedScalar 64 (bs_s1 x) \<and>
     wf_Scalar D (bs_ee x)"

definition wf_BorromeanRange :: "('s, 'z) dalek_scalar_scheme \<Rightarrow> BorromeanRange \<Rightarrow> bool" where
  "wf_BorromeanRange D x \<longleftrightarrow>
     wf_BorromeanSignatures D (br_sigs x) \<and> wf_raw_vec wf_CompressedPoint 64 (br_bit_commitments x)"

definition wf_Mlsag :: "('s, 'z) dalek_scalar_scheme \<Rightarrow> nat \<Rightarrow> nat \<Rightarrow> Mlsag \<Rightarrow> bool" where
  "wf_Mlsag D decoys ss_2_elements x \<longleftrightarrow>
     wf_raw_vec (wf_raw_vec (wf_Scalar D) ss_2_elements) decoys (mlsag_ss x) \<and>
     wf_Scalar D (mlsag_cc x)"

definition wf_Clsag :: "('s, 'z) dalek_scalar_scheme \<Rightarrow> nat \<Rightarrow> Clsag \<Rightarrow> bool" where
  "wf_Clsag D decoys x \<longleftrightarrow>
     wf_raw_vec (wf_Scalar D) decoys (clsag_s x) \<and> wf_Scalar D (clsag_c1 x) \<and>
     wf_CompressedPoint (clsag_D x)"

text \<open>A scalar of the library which its own encoding denotes.\<close>

definition wf_dalek_scalar :: "('s, 'z) dalek_scalar_scheme \<Rightarrow> 's \<Rightarrow> bool" where
  "wf_dalek_scalar D s \<longleftrightarrow>
     length (scalar_to_bytes D s) = 32 \<and> from_canonical_bytes D (scalar_to_bytes D s) = Some s"

fun wf_Bulletproof :: "('s, 'z) dalek_scalar_scheme \<Rightarrow> 's Bulletproof \<Rightarrow> bool" where
  "wf_Bulletproof D (Original bp) \<longleftrightarrow>
     wf_CompressedPoint (bp_A bp) \<and> wf_CompressedPoint (bp_S bp) \<and>
     wf_CompressedPoint (bp_T1 bp) \<and> wf_CompressedPoint (bp_T2 bp) \<and>
     wf_dalek_scalar D (bp_tau_x bp) \<and> wf_dalek_scalar D (bp_mu bp) \<and>
     wf_dalek_scalar D (bp_t_hat bp) \<and>
     wf_vec wf_CompressedPoint (Some MAX_LR) (ip_L (bp_ip bp)) \<and>
     wf_vec wf_CompressedPoint (Some MAX_LR) (ip_R (bp_ip bp)) \<and>
     wf_dalek_scalar D (ip_a (bp_ip bp)) \<and> wf_dalek_scalar D (ip_b (bp_ip bp))"
| "wf_Bulletproof D (Plus bp) \<longleftrightarrow>
     wf_CompressedPoint (bpp_A bp) \<and> wf_CompressedPoint (wip_A (bpp_wip bp)) \<and>
     wf_CompressedPoint (wip_B (bpp_wip bp)) \<and>
     wf_dalek_scalar D (wip_r_answer (bpp_wip bp)) \<and>
     wf_dalek_scalar D (wip_s_answer (bpp_wip bp)) \<and>
     wf_dalek_scalar D (wip_delta_answer (bpp_wip bp)) \<and>
     wf_vec wf_CompressedPoint (Some MAX_LR) (wip_L (bpp_wip bp)) \<and>
     wf_vec wf_CompressedPoint (Some MAX_LR) (wip_R (bpp_wip bp))"

fun is_plus :: "'s Bulletproof \<Rightarrow> bool" where
  "is_plus (Original _) \<longleftrightarrow> False"
| "is_plus (Plus _) \<longleftrightarrow> True"

subsection \<open>Their codecs\<close>

interpretation scalars_codec: codec "write_raw_vec Scalar_write" "read_raw_vec (Scalar_read D) n"
    "wf_raw_vec (wf_Scalar D) n" for D n
  by (rule scalar_codec.raw_vec_codec)

interpretation scalar_matrix_codec: codec "write_raw_vec (write_raw_vec Scalar_write)"
    "read_raw_vec (read_raw_vec (Scalar_read D) m) n" "wf_raw_vec (wf_raw_vec (wf_Scalar D) m) n" for D m n
  by (rule scalars_codec.raw_vec_codec)

interpretation unreduceds_codec: codec "write_raw_vec UnreducedScalar_write"
    "read_raw_vec UnreducedScalar_read n" "wf_raw_vec wf_UnreducedScalar n" for n
  by (rule unreduced_codec.raw_vec_codec)

interpretation points_codec: codec "write_raw_vec CompressedPoint_write"
    "read_raw_vec CompressedPoint_read n" "wf_raw_vec wf_CompressedPoint n" for n
  by (rule point_codec.raw_vec_codec)

interpretation point_vec_codec: codec "write_vec CompressedPoint_write"
    "read_vec CompressedPoint_read b" "wf_vec wf_CompressedPoint b" for b
  by (rule point_codec.vec_codec)

lemmas [codec_iff] = scalars_codec.rd_iff scalar_matrix_codec.rd_iff unreduceds_codec.rd_iff
  points_codec.rd_iff point_vec_codec.rd_iff

lemma Signature_read_iff:
  "Signature_read D bs = Inr (x, rest) \<longleftrightarrow> wf_Signature D x \<and> bs = Signature_write x @ rest"
  by (cases x)
     (auto simp: Signature_read_def Signature_write_def wf_Signature_def and_then_eq_Inr codec_iff)

interpretation signature_codec: codec Signature_write "Signature_read D" "wf_Signature D" for D
  by (rule codec_iffI [OF Signature_read_iff])

interpretation signatures_codec: codec "write_raw_vec Signature_write"
    "read_raw_vec (Signature_read D) n" "wf_raw_vec (wf_Signature D) n" for D n
  by (rule signature_codec.raw_vec_codec)

lemmas [codec_iff] = signature_codec.rd_iff signatures_codec.rd_iff

lemma RingSignature_read_iff:
  "RingSignature_read D n bs = Inr (x, rest) \<longleftrightarrow>
   wf_RingSignature D n x \<and> bs = RingSignature_write x @ rest"
  by (cases x)
     (auto simp: RingSignature_read_def RingSignature_write_def wf_RingSignature_def
       and_then_eq_Inr codec_iff)

interpretation ring_signature_codec:
    codec RingSignature_write "RingSignature_read D n" "wf_RingSignature D n" for D n
  by (rule codec_iffI [OF RingSignature_read_iff])

lemma BorromeanSignatures_read_iff:
  "BorromeanSignatures_read D bs = Inr (x, rest) \<longleftrightarrow>
   wf_BorromeanSignatures D x \<and> bs = BorromeanSignatures_write x @ rest"
  by (cases x)
     (auto simp: BorromeanSignatures_read_def BorromeanSignatures_write_def
       wf_BorromeanSignatures_def read_array_raw_vec and_then_eq_Inr codec_iff)

interpretation borromean_signatures_codec: codec BorromeanSignatures_write
    "BorromeanSignatures_read D" "wf_BorromeanSignatures D" for D
  by (rule codec_iffI [OF BorromeanSignatures_read_iff])

lemma BorromeanRange_read_iff:
  "BorromeanRange_read D bs = Inr (x, rest) \<longleftrightarrow>
   wf_BorromeanRange D x \<and> bs = BorromeanRange_write x @ rest"
  by (cases x)
     (auto simp: BorromeanRange_read_def BorromeanRange_write_def wf_BorromeanRange_def
       read_array_raw_vec and_then_eq_Inr borromean_signatures_codec.rd_iff codec_iff)

interpretation borromean_range_codec:
    codec BorromeanRange_write "BorromeanRange_read D" "wf_BorromeanRange D" for D
  by (rule codec_iffI [OF BorromeanRange_read_iff])

lemma Mlsag_read_iff:
  "Mlsag_read D n m bs = Inr (x, rest) \<longleftrightarrow> wf_Mlsag D n m x \<and> bs = Mlsag_write x @ rest"
  by (cases x) (auto simp: Mlsag_read_def Mlsag_write_def wf_Mlsag_def and_then_eq_Inr codec_iff)

interpretation mlsag_codec: codec Mlsag_write "Mlsag_read D n m" "wf_Mlsag D n m" for D n m
  by (rule codec_iffI [OF Mlsag_read_iff])

lemma Clsag_read_iff:
  "Clsag_read D n bs = Inr (x, rest) \<longleftrightarrow> wf_Clsag D n x \<and> bs = Clsag_write x @ rest"
  by (cases x) (auto simp: Clsag_read_def Clsag_write_def wf_Clsag_def and_then_eq_Inr codec_iff)

interpretation clsag_codec: codec Clsag_write "Clsag_read D n" "wf_Clsag D n" for D n
  by (rule codec_iffI [OF Clsag_read_iff])

lemmas [codec_iff] = ring_signature_codec.rd_iff borromean_signatures_codec.rd_iff
  borromean_range_codec.rd_iff mlsag_codec.rd_iff clsag_codec.rd_iff

lemma dalek_scalar_read_iff:
  assumes "canonical_scalars D"
  shows "dalek_scalar_read D bs = Inr (x, rest) \<longleftrightarrow>
         wf_dalek_scalar D x \<and> bs = scalar_to_bytes D x @ rest"
proof
  assume "dalek_scalar_read D bs = Inr (x, rest)"
  then obtain y where y: "Scalar_read D bs = Inr (y, rest)" "Scalar_into D y = Some x"
    by (auto simp: dalek_scalar_read_def and_then_eq_Inr split: option.splits)
  obtain b where b: "y = Scalar b" by (cases y)
  with y assms have "scalar_to_bytes D x = b" "length b = 32" by (auto simp: canonical_scalars_def)
  then show "wf_dalek_scalar D x \<and> bs = scalar_to_bytes D x @ rest"
    using y by (auto simp: b wf_dalek_scalar_def codec_iff)
next
  assume "wf_dalek_scalar D x \<and> bs = scalar_to_bytes D x @ rest"
  then show "dalek_scalar_read D bs = Inr (x, rest)"
    using scalar_codec.rd_wr [of D "Scalar (scalar_to_bytes D x)" rest]
    by (simp add: dalek_scalar_read_def and_then_def wf_dalek_scalar_def)
qed

lemma Bulletproof_read_iff:
  assumes "canonical_scalars D"
  shows "Bulletproof_read D bs = Inr (x, rest) \<longleftrightarrow>
         (wf_Bulletproof D x \<and> \<not> is_plus x) \<and> bs = Bulletproof_write D x @ rest"
proof (cases x)
  case (Original bp)
  show ?thesis unfolding Original
    by (cases bp; cases "bp_ip bp")
       (auto simp: Bulletproof_read_def Bulletproof_write_def and_then_eq_Inr codec_iff
         dalek_scalar_read_iff [OF assms])
qed (auto simp: Bulletproof_read_def and_then_eq_Inr)

lemma Bulletproof_read_plus_iff:
  assumes "canonical_scalars D"
  shows "Bulletproof_read_plus D bs = Inr (x, rest) \<longleftrightarrow>
         (wf_Bulletproof D x \<and> is_plus x) \<and> bs = Bulletproof_write D x @ rest"
proof (cases x)
  case (Plus bp)
  show ?thesis unfolding Plus
    by (cases bp; cases "bpp_wip bp")
       (auto simp: Bulletproof_read_plus_def Bulletproof_write_def and_then_eq_Inr codec_iff
         dalek_scalar_read_iff [OF assms])
qed (auto simp: Bulletproof_read_plus_def and_then_eq_Inr)

subsection \<open>No read of a proof panics\<close>

text \<open>The conversions of \<open>Bulletproof::read\<close> only see scalars which \<open>Scalar::read\<close> accepted.\<close>

lemma no_panic_dalek_scalar_read [no_panic_intros]: "no_panic (dalek_scalar_read D)"
  unfolding dalek_scalar_read_def
proof (rule no_panic_and_then_when [OF no_panic_Scalar_read])
  fix bs y r s
  assume "Scalar_read D bs = Inr (y, r)"
  then have "wf_Scalar D y" by (simp add: codec_iff)
  then show "(case Scalar_into D y of
      None \<Rightarrow> err (Panic ''`Scalar` instantiated with invalid contents'') | Some x \<Rightarrow> ok x) r
      \<noteq> Inl (Panic s)"
    by (cases y) auto
qed

lemma no_panic_RingSignature_read [no_panic_intros]: "no_panic (RingSignature_read D n)"
  unfolding RingSignature_read_def Signature_read_def by (intro no_panic_intros)

lemma no_panic_BorromeanRange_read [no_panic_intros]: "no_panic (BorromeanRange_read D)"
  unfolding BorromeanRange_read_def BorromeanSignatures_read_def by (intro no_panic_intros)

lemma no_panic_Mlsag_read [no_panic_intros]: "no_panic (Mlsag_read D n m)"
  unfolding Mlsag_read_def by (intro no_panic_intros)

lemma no_panic_Clsag_read [no_panic_intros]: "no_panic (Clsag_read D n)"
  unfolding Clsag_read_def by (intro no_panic_intros)

lemma no_panic_Bulletproof_read [no_panic_intros]: "no_panic (Bulletproof_read D)"
  unfolding Bulletproof_read_def by (intro no_panic_intros)

lemma no_panic_Bulletproof_read_plus [no_panic_intros]: "no_panic (Bulletproof_read_plus D)"
  unfolding Bulletproof_read_plus_def by (intro no_panic_intros)

subsection \<open>The weight penalty\<close>

lemma LOG_COMMITMENT_BITS_value [simp]: "LOG_COMMITMENT_BITS = 6"
  by code_simp

lemma MAX_LR_value [simp]: "MAX_LR = 10"
  by code_simp

lemma clawback_loop_exit: "bound \<le> n \<Longrightarrow> clawback_loop bound l n = (l, n)"
  by (subst clawback_loop.simps) simp

lemma clawback_loop_step: "n < bound \<Longrightarrow> clawback_loop bound l n = clawback_loop bound (l + 1) (2 ^ (l + 1))"
  by (subst clawback_loop.simps) simp

lemma clawback_loop_values:
  "m \<le> Suc 0 \<Longrightarrow> clawback_loop m 0 (Suc 0) = (0, Suc 0)"
  "m = 2 \<Longrightarrow> clawback_loop m 0 (Suc 0) = (1, 2)"
  "2 < m \<and> m \<le> 4 \<Longrightarrow> clawback_loop m 0 (Suc 0) = (2, 4)"
  "4 < m \<and> m \<le> 8 \<Longrightarrow> clawback_loop m 0 (Suc 0) = (3, 8)"
  "8 < m \<and> m \<le> 16 \<Longrightarrow> clawback_loop m 0 (Suc 0) = (4, 16)"
  by (simp_all add: clawback_loop_exit clawback_loop_step)

lemma calculate_clawback_lemma:
  "\<exists>clawback k. calculate_clawback bp_plus n_outputs = Some (clawback, k + LOG_COMMITMENT_BITS) \<and>
     min n_outputs MAX_COMMITMENTS \<le> 2 ^ k \<and>
     (k = 0 \<or> 2 ^ (k - 1) < min n_outputs MAX_COMMITMENTS) \<and>
     k + LOG_COMMITMENT_BITS \<le> MAX_LR \<and> (clawback = 0 \<longleftrightarrow> n_outputs \<le> 2)"
proof -
  define m where "m = min n_outputs MAX_COMMITMENTS"
  have n: "n_outputs \<le> 2 \<longleftrightarrow> m \<le> 2" by (auto simp: m_def MAX_COMMITMENTS_def)
  have "m \<le> 16" by (simp add: m_def MAX_COMMITMENTS_def)
  then consider "m \<le> Suc 0" | "m = 2" | "2 < m \<and> m \<le> 4" | "4 < m \<and> m \<le> 8" | "8 < m \<and> m \<le> 16"
    by linarith
  then show ?thesis
    unfolding calculate_clawback_def bp_fields_def Let_def n m_def [symmetric]
    by cases (auto simp: clawback_loop_values intro: exI [of _ 2] exI [of _ 3] exI [of _ 4])
qed

lemma calculate_clawback_cases:
  obtains clawback k where "calculate_clawback bp_plus n_outputs = Some (clawback, k)"
    and "clawback = 0 \<longleftrightarrow> n_outputs \<le> 2"
  using calculate_clawback_lemma [of bp_plus n_outputs] by blast

text \<open>\<open>calculate_clawback\<close> ends and its subtraction never underflows; the number of \<open>L\<close>/\<open>R\<close> pairs
  it returns is that of a proof padded to the least power of two of at least as many outputs
  (at most the 16 supported), and proofs for one or two outputs are not penalised.\<close>

theorem calculate_clawback_spec:
  "\<exists>clawback k. calculate_clawback bp_plus n_outputs = Some (clawback, k + LOG_COMMITMENT_BITS) \<and>
     min n_outputs MAX_COMMITMENTS \<le> 2 ^ k \<and>
     (k = 0 \<or> 2 ^ (k - 1) < min n_outputs MAX_COMMITMENTS) \<and>
     k + LOG_COMMITMENT_BITS \<le> MAX_LR \<and> (clawback = 0 \<longleftrightarrow> n_outputs \<le> 2)"
  by (rule calculate_clawback_lemma)

end
