(* ===== verification/Ringct.thy ===== *)
theory Ringct
  imports Ring_Proofs
begin

text \<open>
  The RingCT data of a version 2 transaction (\<^verbatim>\<open>src/ringct.rs\<close>): encrypted amounts, the base which a
  pruned transaction keeps, the prunable proofs, and both together. Several enums of the source
  share constructor names; here as there they are told apart by their type's name.
\<close>

subsection \<open>EncryptedAmount\<close>

datatype EncryptedAmount = Original bytes bytes | Compact bytes

definition EncryptedAmount_read :: "bool \<Rightarrow> EncryptedAmount reader" where
  "EncryptedAmount_read compact =
     (if \<not> compact
      then and_then (read_bytes 32) (\<lambda>msk. and_then (read_bytes 32) (\<lambda>amt.
             ok (EncryptedAmount.Original msk amt)))
      else and_then (read_bytes 8) (\<lambda>amt. ok (Compact amt)))"

fun EncryptedAmount_write :: "EncryptedAmount \<Rightarrow> bytes" where
  "EncryptedAmount_write (EncryptedAmount.Original msk amt) = msk @ amt"
| "EncryptedAmount_write (Compact amt) = amt"

subsection \<open>RctType\<close>

datatype RctType =
  AggregateMlsagBorromean | MlsagBorromean | MlsagBulletproofs | MlsagBulletproofsCompactAmount
| ClsagBulletproof | ClsagBulletproofPlus

fun RctType_to_u8 :: "RctType \<Rightarrow> u8" where
  "RctType_to_u8 AggregateMlsagBorromean = 1"
| "RctType_to_u8 MlsagBorromean = 2"
| "RctType_to_u8 MlsagBulletproofs = 3"
| "RctType_to_u8 MlsagBulletproofsCompactAmount = 4"
| "RctType_to_u8 ClsagBulletproof = 5"
| "RctType_to_u8 ClsagBulletproofPlus = 6"

definition RctType_try_from :: "u8 \<Rightarrow> RctType option" where
  "RctType_try_from b =
     (if b = 1 then Some AggregateMlsagBorromean
      else if b = 2 then Some MlsagBorromean
      else if b = 3 then Some MlsagBulletproofs
      else if b = 4 then Some MlsagBulletproofsCompactAmount
      else if b = 5 then Some ClsagBulletproof
      else if b = 6 then Some ClsagBulletproofPlus
      else None)"

fun compact_encrypted_amounts :: "RctType \<Rightarrow> bool" where
  "compact_encrypted_amounts AggregateMlsagBorromean = False"
| "compact_encrypted_amounts MlsagBorromean = False"
| "compact_encrypted_amounts MlsagBulletproofs = False"
| "compact_encrypted_amounts MlsagBulletproofsCompactAmount = True"
| "compact_encrypted_amounts ClsagBulletproof = True"
| "compact_encrypted_amounts ClsagBulletproofPlus = True"

fun RctType_bulletproof :: "RctType \<Rightarrow> bool" where
  "RctType_bulletproof AggregateMlsagBorromean = False"
| "RctType_bulletproof MlsagBorromean = False"
| "RctType_bulletproof MlsagBulletproofs = True"
| "RctType_bulletproof MlsagBulletproofsCompactAmount = True"
| "RctType_bulletproof ClsagBulletproof = True"
| "RctType_bulletproof ClsagBulletproofPlus = False"

fun RctType_bulletproof_plus :: "RctType \<Rightarrow> bool" where
  "RctType_bulletproof_plus ClsagBulletproofPlus = True"
| "RctType_bulletproof_plus _ = False"

subsection \<open>RctBase\<close>

record RctBase =
  rct_fee :: u64
  rct_pseudo_outs :: "CompressedPoint list"
  rct_encrypted_amounts :: "EncryptedAmount list"
  rct_commitments :: "CompressedPoint list"

definition RctBase_write :: "RctBase \<Rightarrow> RctType \<Rightarrow> bytes" where
  "RctBase_write base rct_type =
     [RctType_to_u8 rct_type] @ varint_write (rct_fee base) @
     (if rct_type = MlsagBorromean
      then write_raw_vec CompressedPoint_write (rct_pseudo_outs base) else []) @
     write_raw_vec EncryptedAmount_write (rct_encrypted_amounts base) @
     write_raw_vec CompressedPoint_write (rct_commitments base)"

text \<open>The fields of the structure \<open>RctBase::read\<close> returns, in the order it reads them.\<close>

definition RctBase_read_fields :: "RctType \<Rightarrow> nat \<Rightarrow> nat \<Rightarrow> RctBase reader" where
  "RctBase_read_fields rct_type inputs outputs =
     and_then varint_read (\<lambda>fee.
     and_then (if rct_type = MlsagBorromean
               then read_raw_vec CompressedPoint_read inputs else ok []) (\<lambda>pseudo_outs.
     and_then (read_raw_vec (EncryptedAmount_read (compact_encrypted_amounts rct_type)) outputs)
       (\<lambda>encrypted_amounts.
     and_then (read_raw_vec CompressedPoint_read outputs) (\<lambda>commitments.
     ok \<lparr>rct_fee = fee, rct_pseudo_outs = pseudo_outs,
         rct_encrypted_amounts = encrypted_amounts, rct_commitments = commitments\<rparr>))))"

definition RctBase_read :: "nat \<Rightarrow> nat \<Rightarrow> (RctType \<times> RctBase) option reader" where
  "RctBase_read inputs outputs =
     and_then read_byte (\<lambda>rct_type.
     if rct_type = 0 then ok None
     else case RctType_try_from rct_type of
       None \<Rightarrow> err (Other ''invalid RCT type'')
     | Some rct_type \<Rightarrow>
         if (case rct_type of
               AggregateMlsagBorromean \<Rightarrow> False
             | MlsagBorromean \<Rightarrow> False
             | _ \<Rightarrow> outputs = 0)
         then err (Other ''RCT with Bulletproofs(+) had 0 outputs'')
         else and_then (RctBase_read_fields rct_type inputs outputs) (\<lambda>base.
                ok (Some (rct_type, base))))"

subsection \<open>RctPrunable\<close>

datatype 's RctPrunable =
  AggregateMlsagBorromean Mlsag "BorromeanRange list"
| MlsagBorromean "Mlsag list" "BorromeanRange list"
| MlsagBulletproofs "Mlsag list" "CompressedPoint list" "'s Bulletproof"
| MlsagBulletproofsCompactAmount "Mlsag list" "CompressedPoint list" "'s Bulletproof"
| Clsag "Clsag list" "CompressedPoint list" "'s Bulletproof"

definition write_mlsag_bulletproofs ::
  "('s, 'z) dalek_scalar_scheme \<Rightarrow> RctType \<Rightarrow> Mlsag list \<Rightarrow> CompressedPoint list \<Rightarrow> 's Bulletproof \<Rightarrow>
   bytes" where
  "write_mlsag_bulletproofs D rct_type mlsags pseudo_outs bulletproof =
     (if rct_type = RctType.MlsagBulletproofs then to_le_bytes (1 :: u32) else [1]) @
     Bulletproof_write D bulletproof @
     write_raw_vec Mlsag_write mlsags @
     write_raw_vec CompressedPoint_write pseudo_outs"

fun RctPrunable_write ::
  "('s, 'z) dalek_scalar_scheme \<Rightarrow> 's RctPrunable \<Rightarrow> RctType \<Rightarrow> bytes" where
  "RctPrunable_write D (RctPrunable.AggregateMlsagBorromean mlsag borromean) rct_type =
     write_raw_vec BorromeanRange_write borromean @ Mlsag_write mlsag"
| "RctPrunable_write D (RctPrunable.MlsagBorromean mlsags borromean) rct_type =
     write_raw_vec BorromeanRange_write borromean @ write_raw_vec Mlsag_write mlsags"
| "RctPrunable_write D (RctPrunable.MlsagBulletproofs mlsags pseudo_outs bulletproof) rct_type =
     write_mlsag_bulletproofs D rct_type mlsags pseudo_outs bulletproof"
| "RctPrunable_write D (RctPrunable.MlsagBulletproofsCompactAmount mlsags pseudo_outs bulletproof) rct_type =
     write_mlsag_bulletproofs D rct_type mlsags pseudo_outs bulletproof"
| "RctPrunable_write D (Clsag clsags pseudo_outs bulletproof) rct_type =
     [1] @ Bulletproof_write D bulletproof @
     write_raw_vec Clsag_write clsags @
     write_raw_vec CompressedPoint_write pseudo_outs"

definition read_mlsag_bulletproofs ::
  "('s, 'z) dalek_scalar_scheme \<Rightarrow> RctType \<Rightarrow> nat \<Rightarrow> nat \<Rightarrow> 's RctPrunable reader" where
  "read_mlsag_bulletproofs D rct_type ring_length inputs =
     and_then (if rct_type = RctType.MlsagBulletproofs
               then and_then read_u32 (\<lambda>n. ok (ucast n)) else varint_read) (\<lambda>n :: u64.
     if n \<noteq> 1 then err (Other ''n bulletproofs instead of one'')
     else
       and_then (Bulletproof_read D) (\<lambda>bulletproof.
       and_then (read_raw_vec (Mlsag_read D ring_length 2) inputs) (\<lambda>mlsags.
       and_then (read_raw_vec CompressedPoint_read inputs) (\<lambda>pseudo_outs.
       ok (if rct_type = RctType.MlsagBulletproofs
           then RctPrunable.MlsagBulletproofs mlsags pseudo_outs bulletproof
           else RctPrunable.MlsagBulletproofsCompactAmount mlsags pseudo_outs bulletproof)))))"

definition read_clsag_bulletproof ::
  "('s, 'z) dalek_scalar_scheme \<Rightarrow> RctType \<Rightarrow> nat \<Rightarrow> nat \<Rightarrow> 's RctPrunable reader" where
  "read_clsag_bulletproof D rct_type ring_length inputs =
     and_then read_byte (\<lambda>n.
     if n \<noteq> 1 then err (Other ''n bulletproofs instead of one'')
     else
       and_then ((if rct_type = ClsagBulletproof then Bulletproof_read else Bulletproof_read_plus) D)
         (\<lambda>bulletproof.
       and_then (read_raw_vec (Clsag_read D ring_length) inputs) (\<lambda>clsags.
       and_then (read_raw_vec CompressedPoint_read inputs) (\<lambda>pseudo_outs.
       ok (Clsag clsags pseudo_outs bulletproof)))))"

fun RctPrunable_read ::
  "('s, 'z) dalek_scalar_scheme \<Rightarrow> RctType \<Rightarrow> nat \<Rightarrow> nat \<Rightarrow> nat \<Rightarrow> 's RctPrunable reader" where
  "RctPrunable_read D RctType.AggregateMlsagBorromean ring_length inputs outputs =
     and_then (read_raw_vec (BorromeanRange_read D) outputs) (\<lambda>borromean.
     if inputs + 1 \<ge> 2 ^ 64
     then err (Other ''reading a MLSAG for more inputs than representable'')
     else
       and_then (Mlsag_read D ring_length (inputs + 1)) (\<lambda>mlsag.
       ok (RctPrunable.AggregateMlsagBorromean mlsag borromean)))"
| "RctPrunable_read D RctType.MlsagBorromean ring_length inputs outputs =
     and_then (read_raw_vec (BorromeanRange_read D) outputs) (\<lambda>borromean.
     and_then (read_raw_vec (Mlsag_read D ring_length 2) inputs) (\<lambda>mlsags.
     ok (RctPrunable.MlsagBorromean mlsags borromean)))"
| "RctPrunable_read D RctType.MlsagBulletproofs ring_length inputs outputs =
     read_mlsag_bulletproofs D RctType.MlsagBulletproofs ring_length inputs"
| "RctPrunable_read D RctType.MlsagBulletproofsCompactAmount ring_length inputs outputs =
     read_mlsag_bulletproofs D RctType.MlsagBulletproofsCompactAmount ring_length inputs"
| "RctPrunable_read D ClsagBulletproof ring_length inputs outputs =
     read_clsag_bulletproof D ClsagBulletproof ring_length inputs"
| "RctPrunable_read D ClsagBulletproofPlus ring_length inputs outputs =
     read_clsag_bulletproof D ClsagBulletproofPlus ring_length inputs"

fun RctPrunable_signature_write ::
  "('s, 'z) dalek_scalar_scheme \<Rightarrow> 's RctPrunable \<Rightarrow> bytes" where
  "RctPrunable_signature_write D (RctPrunable.AggregateMlsagBorromean _ borromean) =
     write_raw_vec BorromeanRange_write borromean"
| "RctPrunable_signature_write D (RctPrunable.MlsagBorromean _ borromean) =
     write_raw_vec BorromeanRange_write borromean"
| "RctPrunable_signature_write D (RctPrunable.MlsagBulletproofs _ _ bulletproof) =
     Bulletproof_signature_write D bulletproof"
| "RctPrunable_signature_write D (RctPrunable.MlsagBulletproofsCompactAmount _ _ bulletproof) =
     Bulletproof_signature_write D bulletproof"
| "RctPrunable_signature_write D (Clsag _ _ bulletproof) =
     Bulletproof_signature_write D bulletproof"

subsection \<open>RctProofs\<close>

record 's RctProofs =
  proofs_base :: RctBase
  proofs_prunable :: "'s RctPrunable"

record PrunedRctProofs =
  pruned_rct_type :: RctType
  pruned_base :: RctBase

fun prunable_rct_type :: "'s RctPrunable \<Rightarrow> RctType" where
  "prunable_rct_type (RctPrunable.AggregateMlsagBorromean _ _) = RctType.AggregateMlsagBorromean"
| "prunable_rct_type (RctPrunable.MlsagBorromean _ _) = RctType.MlsagBorromean"
| "prunable_rct_type (RctPrunable.MlsagBulletproofs _ _ _) = RctType.MlsagBulletproofs"
| "prunable_rct_type (RctPrunable.MlsagBulletproofsCompactAmount _ _ _) =
     RctType.MlsagBulletproofsCompactAmount"
| "prunable_rct_type (Clsag _ _ (Bulletproof.Original _)) = ClsagBulletproof"
| "prunable_rct_type (Clsag _ _ (Bulletproof.Plus _)) = ClsagBulletproofPlus"

definition RctProofs_rct_type :: "'s RctProofs \<Rightarrow> RctType" where
  "RctProofs_rct_type proofs = prunable_rct_type (proofs_prunable proofs)"

definition RctProofs_write :: "('s, 'z) dalek_scalar_scheme \<Rightarrow> 's RctProofs \<Rightarrow> bytes" where
  "RctProofs_write D proofs =
     (let rct_type = RctProofs_rct_type proofs
      in RctBase_write (proofs_base proofs) rct_type @
         RctPrunable_write D (proofs_prunable proofs) rct_type)"

definition RctProofs_read ::
  "('s, 'z) dalek_scalar_scheme \<Rightarrow> nat \<Rightarrow> nat \<Rightarrow> nat \<Rightarrow> 's RctProofs option reader" where
  "RctProofs_read D ring_length inputs outputs =
     and_then (RctBase_read inputs outputs) (\<lambda>res.
       case res of
         None \<Rightarrow> ok None
       | Some (rct_type, base) \<Rightarrow>
           and_then (RctPrunable_read D rct_type ring_length inputs outputs) (\<lambda>prunable.
           ok (Some \<lparr>proofs_base = base, proofs_prunable = prunable\<rparr>)))"

subsection \<open>Well-formed RingCT data\<close>

fun wf_EncryptedAmount :: "bool \<Rightarrow> EncryptedAmount \<Rightarrow> bool" where
  "wf_EncryptedAmount compact (EncryptedAmount.Original msk amt) \<longleftrightarrow>
     \<not> compact \<and> length msk = 32 \<and> length amt = 32"
| "wf_EncryptedAmount compact (Compact amt) \<longleftrightarrow> compact \<and> length amt = 8"

definition wf_RctBase :: "nat \<Rightarrow> nat \<Rightarrow> RctType \<Rightarrow> RctBase \<Rightarrow> bool" where
  "wf_RctBase inputs outputs rct_type base \<longleftrightarrow>
     (rct_type \<notin> {RctType.AggregateMlsagBorromean, RctType.MlsagBorromean} \<longrightarrow> outputs \<noteq> 0) \<and>
     (if rct_type = RctType.MlsagBorromean
      then wf_raw_vec wf_CompressedPoint inputs (rct_pseudo_outs base)
      else rct_pseudo_outs base = []) \<and>
     wf_raw_vec (wf_EncryptedAmount (compact_encrypted_amounts rct_type)) outputs
       (rct_encrypted_amounts base) \<and>
     wf_raw_vec wf_CompressedPoint outputs (rct_commitments base)"

fun wf_RctPrunable ::
  "('s, 'z) dalek_scalar_scheme \<Rightarrow> nat \<Rightarrow> nat \<Rightarrow> nat \<Rightarrow> 's RctPrunable \<Rightarrow> bool" where
  "wf_RctPrunable D ring_length inputs outputs (RctPrunable.AggregateMlsagBorromean mlsag borromean) \<longleftrightarrow>
     inputs + 1 < 2 ^ 64 \<and> wf_Mlsag D ring_length (inputs + 1) mlsag \<and>
     wf_raw_vec (wf_BorromeanRange D) outputs borromean"
| "wf_RctPrunable D ring_length inputs outputs (RctPrunable.MlsagBorromean mlsags borromean) \<longleftrightarrow>
     wf_raw_vec (wf_Mlsag D ring_length 2) inputs mlsags \<and>
     wf_raw_vec (wf_BorromeanRange D) outputs borromean"
| "wf_RctPrunable D ring_length inputs outputs (RctPrunable.MlsagBulletproofs mlsags pseudo_outs bulletproof) \<longleftrightarrow>
     wf_raw_vec (wf_Mlsag D ring_length 2) inputs mlsags \<and>
     wf_raw_vec wf_CompressedPoint inputs pseudo_outs \<and>
     wf_Bulletproof D bulletproof \<and> \<not> is_plus bulletproof"
| "wf_RctPrunable D ring_length inputs outputs
       (RctPrunable.MlsagBulletproofsCompactAmount mlsags pseudo_outs bulletproof) \<longleftrightarrow>
     wf_raw_vec (wf_Mlsag D ring_length 2) inputs mlsags \<and>
     wf_raw_vec wf_CompressedPoint inputs pseudo_outs \<and>
     wf_Bulletproof D bulletproof \<and> \<not> is_plus bulletproof"
| "wf_RctPrunable D ring_length inputs outputs (RctPrunable.Clsag clsags pseudo_outs bulletproof) \<longleftrightarrow>
     wf_raw_vec (wf_Clsag D ring_length) inputs clsags \<and>
     wf_raw_vec wf_CompressedPoint inputs pseudo_outs \<and> wf_Bulletproof D bulletproof"

text \<open>An absent set of proofs is written as a zero byte, as the transaction does.\<close>

fun option_RctBase_write :: "(RctType \<times> RctBase) option \<Rightarrow> bytes" where
  "option_RctBase_write None = [0]"
| "option_RctBase_write (Some (rct_type, base)) = RctBase_write base rct_type"

fun wf_option_RctBase :: "nat \<Rightarrow> nat \<Rightarrow> (RctType \<times> RctBase) option \<Rightarrow> bool" where
  "wf_option_RctBase inputs outputs None \<longleftrightarrow> True"
| "wf_option_RctBase inputs outputs (Some (rct_type, base)) \<longleftrightarrow> wf_RctBase inputs outputs rct_type base"

fun option_RctProofs_write :: "('s, 'z) dalek_scalar_scheme \<Rightarrow> 's RctProofs option \<Rightarrow> bytes" where
  "option_RctProofs_write D None = [0]"
| "option_RctProofs_write D (Some proofs) = RctProofs_write D proofs"

fun wf_option_RctProofs ::
  "('s, 'z) dalek_scalar_scheme \<Rightarrow> nat \<Rightarrow> nat \<Rightarrow> nat \<Rightarrow> 's RctProofs option \<Rightarrow> bool" where
  "wf_option_RctProofs D ring_length inputs outputs None \<longleftrightarrow> True"
| "wf_option_RctProofs D ring_length inputs outputs (Some proofs) \<longleftrightarrow>
     wf_RctBase inputs outputs (RctProofs_rct_type proofs) (proofs_base proofs) \<and>
     wf_RctPrunable D ring_length inputs outputs (proofs_prunable proofs)"

subsection \<open>Their codecs\<close>

lemma RctType_try_from_iff: "RctType_try_from b = Some t \<longleftrightarrow> b = RctType_to_u8 t"
  by (cases t) (auto simp: RctType_try_from_def)

lemma RctType_to_u8_nonzero [simp]: "RctType_to_u8 t \<noteq> 0"
  by (cases t) auto

lemma EncryptedAmount_read_iff:
  "EncryptedAmount_read compact bs = Inr (x, rest) \<longleftrightarrow>
   wf_EncryptedAmount compact x \<and> bs = EncryptedAmount_write x @ rest"
  by (cases x) (auto simp: EncryptedAmount_read_def and_then_eq_Inr codec_iff)

interpretation encrypted_amount_codec:
    codec EncryptedAmount_write "EncryptedAmount_read c" "wf_EncryptedAmount c" for c
  by (rule codec_iffI [OF EncryptedAmount_read_iff])

interpretation encrypted_amounts_codec: codec "write_raw_vec EncryptedAmount_write"
    "read_raw_vec (EncryptedAmount_read c) n" "wf_raw_vec (wf_EncryptedAmount c) n" for c n
  by (rule encrypted_amount_codec.raw_vec_codec)

interpretation borromeans_codec: codec "write_raw_vec BorromeanRange_write"
    "read_raw_vec (BorromeanRange_read D) n" "wf_raw_vec (wf_BorromeanRange D) n" for D n
  by (rule borromean_range_codec.raw_vec_codec)

interpretation mlsags_codec: codec "write_raw_vec Mlsag_write"
    "read_raw_vec (Mlsag_read D k m) n" "wf_raw_vec (wf_Mlsag D k m) n" for D k m n
  by (rule mlsag_codec.raw_vec_codec)

interpretation clsags_codec: codec "write_raw_vec Clsag_write"
    "read_raw_vec (Clsag_read D k) n" "wf_raw_vec (wf_Clsag D k) n" for D k n
  by (rule clsag_codec.raw_vec_codec)

lemmas [codec_iff] = encrypted_amounts_codec.rd_iff borromeans_codec.rd_iff mlsags_codec.rd_iff
  clsags_codec.rd_iff

lemma RctBase_read_fields_iff:
  assumes "rct_type \<notin> {RctType.AggregateMlsagBorromean, RctType.MlsagBorromean} \<longrightarrow> outputs \<noteq> 0"
  shows "RctBase_read_fields rct_type inputs outputs bs = Inr (base, rest) \<longleftrightarrow>
         wf_RctBase inputs outputs rct_type base \<and>
         RctType_to_u8 rct_type # bs = RctBase_write base rct_type @ rest"
proof (cases "rct_type = RctType.MlsagBorromean")
  case True
  with assms show ?thesis
    by (cases base) (auto simp: RctBase_read_fields_def RctBase_write_def wf_RctBase_def
        and_then_eq_Inr codec_iff)
next
  case False
  with assms show ?thesis
    by (cases base) (auto simp: RctBase_read_fields_def RctBase_write_def wf_RctBase_def
        and_then_eq_Inr codec_iff)
qed

lemma RctBase_write_Cons: "\<exists>tl. RctBase_write base t = RctType_to_u8 t # tl"
  by (simp add: RctBase_write_def)

lemma RctBase_outputs_guard:
  "(case t of RctType.AggregateMlsagBorromean \<Rightarrow> False | RctType.MlsagBorromean \<Rightarrow> False | _ \<Rightarrow> outputs = 0)
   \<longleftrightarrow> \<not> (t \<notin> {RctType.AggregateMlsagBorromean, RctType.MlsagBorromean} \<longrightarrow> outputs \<noteq> 0)"
  by (cases t) auto

lemma RctBase_read_iff:
  "RctBase_read inputs outputs bs = Inr (x, rest) \<longleftrightarrow>
   wf_option_RctBase inputs outputs x \<and> bs = option_RctBase_write x @ rest"
proof (cases x)
  case None
  then show ?thesis
    by (auto simp: RctBase_read_def and_then_eq_Inr byte_codec.rd_iff write_byte_def
        split: option.splits if_splits)
next
  case (Some p)
  then obtain t base where x: "x = Some (t, base)" by (cases p) auto
  let ?guard = "t \<notin> {RctType.AggregateMlsagBorromean, RctType.MlsagBorromean} \<longrightarrow> outputs \<noteq> 0"
  have "RctBase_read inputs outputs bs = Inr (x, rest) \<longleftrightarrow>
      ?guard \<and> (\<exists>r. bs = RctType_to_u8 t # r \<and> RctBase_read_fields t inputs outputs r = Inr (base, rest))"
  proof (cases bs)
    case Nil
    then show ?thesis by (simp add: RctBase_read_def and_then_def)
  next
    case (Cons b r)
    consider "b = 0" | "b \<noteq> 0" "RctType_try_from b = None"
      | u where "RctType_try_from b = Some u" "b = RctType_to_u8 u" "b \<noteq> 0"
      by (cases "RctType_try_from b") (auto simp: RctType_try_from_iff)
    then show ?thesis
    proof cases
      case 2
      then have "b \<noteq> RctType_to_u8 t" using RctType_try_from_iff [of b t] by auto
      with 2 Cons show ?thesis by (simp add: RctBase_read_def and_then_def)
    next
      case (3 u)
      have "RctType_to_u8 u = RctType_to_u8 t \<longleftrightarrow> u = t"
        by (metis RctType_try_from_iff option.inject)
      with 3 Cons show ?thesis
        unfolding x RctBase_read_def RctBase_outputs_guard
        by (auto simp: and_then_eq_Inr read_byte_Inr)
    qed (use Cons x in \<open>simp add: RctBase_read_def and_then_def\<close>)
  qed
  also have "\<dots> \<longleftrightarrow> wf_RctBase inputs outputs t base \<and> bs = RctBase_write base t @ rest"
  proof (cases ?guard)
    case True
    then show ?thesis
      using RctBase_write_Cons [of base t] by (auto simp: RctBase_read_fields_iff [OF True])
  qed (auto simp: wf_RctBase_def)
  finally show ?thesis by (simp add: x)
qed

interpretation rct_base_codec: codec option_RctBase_write "RctBase_read inputs outputs"
    "wf_option_RctBase inputs outputs" for inputs outputs
  by (rule codec_iffI [OF RctBase_read_iff])

lemma read_mlsag_bulletproofs_iff:
  assumes "canonical_scalars D"
    and "rct_type \<in> {RctType.MlsagBulletproofs, RctType.MlsagBulletproofsCompactAmount}"
  shows "read_mlsag_bulletproofs D rct_type ring_length inputs bs = Inr (x, rest) \<longleftrightarrow>
         prunable_rct_type x = rct_type \<and> wf_RctPrunable D ring_length inputs outputs x \<and>
         bs = RctPrunable_write D x rct_type @ rest"
proof (cases "rct_type = RctType.MlsagBulletproofs")
  case True
  have u: "(ucast n :: u64) = 1 \<longleftrightarrow> n = 1" for n :: u32
    by (simp add: word_unat_eq_iff unat_ucast_up)
  show ?thesis unfolding True
    by (cases x rule: prunable_rct_type.cases)
       (auto simp: read_mlsag_bulletproofs_def write_mlsag_bulletproofs_def and_then_eq_Inr codec_iff
         Bulletproof_read_iff [OF assms(1)] u split: if_splits)
next
  case False
  with assms(2) have t: "rct_type = RctType.MlsagBulletproofsCompactAmount" by simp
  have w: "varint_write (1 :: u64) = [1]"
    using varint_write_loop_small [of 1] by (simp add: varint_write_def into_u64_def)
  show ?thesis unfolding t
    by (cases x rule: prunable_rct_type.cases)
       (auto simp: read_mlsag_bulletproofs_def write_mlsag_bulletproofs_def and_then_eq_Inr codec_iff
         Bulletproof_read_iff [OF assms(1)] w split: if_splits)
qed

lemma read_clsag_bulletproof_iff:
  assumes "canonical_scalars D" and "rct_type \<in> {ClsagBulletproof, ClsagBulletproofPlus}"
  shows "read_clsag_bulletproof D rct_type ring_length inputs bs = Inr (x, rest) \<longleftrightarrow>
         prunable_rct_type x = rct_type \<and> wf_RctPrunable D ring_length inputs outputs x \<and>
         bs = RctPrunable_write D x rct_type @ rest"
proof (cases "rct_type = ClsagBulletproof")
  case True
  show ?thesis unfolding True
    by (cases x rule: prunable_rct_type.cases)
       (auto simp: read_clsag_bulletproof_def and_then_eq_Inr codec_iff write_byte_def
         Bulletproof_read_iff [OF assms(1)] split: if_splits)
next
  case False
  with assms(2) have t: "rct_type = ClsagBulletproofPlus" by simp
  show ?thesis unfolding t
    by (cases x rule: prunable_rct_type.cases)
       (auto simp: read_clsag_bulletproof_def and_then_eq_Inr codec_iff write_byte_def
         Bulletproof_read_plus_iff [OF assms(1)] split: if_splits)
qed

lemma RctPrunable_read_iff:
  assumes "canonical_scalars D"
  shows "RctPrunable_read D rct_type ring_length inputs outputs bs = Inr (x, rest) \<longleftrightarrow>
         prunable_rct_type x = rct_type \<and> wf_RctPrunable D ring_length inputs outputs x \<and>
         bs = RctPrunable_write D x rct_type @ rest"
proof (cases rct_type)
  case AggregateMlsagBorromean
  then show ?thesis
    by (cases x rule: prunable_rct_type.cases) (auto simp: and_then_eq_Inr codec_iff split: if_splits)
next
  case MlsagBorromean
  then show ?thesis
    by (cases x rule: prunable_rct_type.cases) (auto simp: and_then_eq_Inr codec_iff)
qed (simp_all only: RctPrunable_read.simps read_mlsag_bulletproofs_iff [OF assms, where outputs = outputs]
       read_clsag_bulletproof_iff [OF assms, where outputs = outputs] insert_iff simp_thms)

lemma RctProofs_read_iff:
  assumes "canonical_scalars D"
  shows "RctProofs_read D ring_length inputs outputs bs = Inr (x, rest) \<longleftrightarrow>
         wf_option_RctProofs D ring_length inputs outputs x \<and> bs = option_RctProofs_write D x @ rest"
proof (cases x)
  case None
  then show ?thesis
    by (auto simp: RctProofs_read_def and_then_eq_Inr RctBase_read_iff split: option.splits)
next
  case (Some p)
  then show ?thesis
    by (cases p)
      (auto simp: RctProofs_read_def RctProofs_write_def RctProofs_rct_type_def Let_def
        and_then_eq_Inr RctBase_read_iff RctPrunable_read_iff [OF assms] split: option.splits)
qed

lemma RctProofs_codec:
  assumes "canonical_scalars D"
  shows "codec (option_RctProofs_write D) (RctProofs_read D ring_length inputs outputs)
           (wf_option_RctProofs D ring_length inputs outputs)"
  by (rule codec_iffI [OF RctProofs_read_iff [OF assms]])

subsection \<open>No read of RingCT data panics\<close>

lemma no_panic_EncryptedAmount_read [no_panic_intros]: "no_panic (EncryptedAmount_read c)"
  unfolding EncryptedAmount_read_def by (intro no_panic_intros)

lemma no_panic_RctBase_read [no_panic_intros]: "no_panic (RctBase_read inputs outputs)"
  unfolding RctBase_read_def RctBase_read_fields_def by (intro no_panic_intros) simp_all

lemma no_panic_read_mlsag_bulletproofs [no_panic_intros]:
  "no_panic (read_mlsag_bulletproofs D rct_type ring_length inputs)"
  unfolding read_mlsag_bulletproofs_def by (intro no_panic_intros) simp_all

lemma no_panic_read_clsag_bulletproof [no_panic_intros]:
  "no_panic (read_clsag_bulletproof D rct_type ring_length inputs)"
  unfolding read_clsag_bulletproof_def by (auto intro!: no_panic_intros)

lemma no_panic_RctPrunable_read [no_panic_intros]:
  "no_panic (RctPrunable_read D rct_type ring_length inputs outputs)"
  by (cases rct_type) (auto simp only: RctPrunable_read.simps intro!: no_panic_intros)

lemma no_panic_RctProofs_read [no_panic_intros]:
  "no_panic (RctProofs_read D ring_length inputs outputs)"
  unfolding RctProofs_read_def
  by (rule no_panic_and_then [OF no_panic_RctBase_read])
     (auto split: option.splits intro!: no_panic_intros)

end
