(* ===== verification/Transaction.thy ===== *)
theory Transaction
  imports Ringct
begin

text \<open>
  Transactions (\<^verbatim>\<open>src/transaction.rs\<close>). The trait \<open>PotentiallyPruned\<close>, which the source implements
  for \<open>NotPruned\<close> and \<open>Pruned\<close>, is the record \<open>potentially_pruned\<close> of its operations with the same
  two instances; \<open>Transaction<P>\<close> is a datatype in the types of its signatures and proofs, and its
  generic functions take the record. Keccak-256 is the parameter \<open>keccak256\<close>.
\<close>

subsection \<open>Input\<close>

datatype Input = Gen usize | ToKey "u64 option" "u64 list" CompressedPoint

definition NON_MINER_SIZE_UPPER_BOUND :: nat where
  "NON_MINER_SIZE_UPPER_BOUND = 1000000"

definition NON_GEN_SIZE_LOWER_BOUND :: nat where
  "NON_GEN_SIZE_LOWER_BOUND = 1 + LOWER_BOUND + LOWER_BOUND + 32"

definition unwrap_or_0 :: "u64 option \<Rightarrow> u64" where
  "unwrap_or_0 x = (case x of None \<Rightarrow> 0 | Some v \<Rightarrow> v)"

fun Input_write :: "Input \<Rightarrow> bytes" where
  "Input_write (Gen height) = [255] @ varint_write height"
| "Input_write (ToKey amt key_offsets key_image) =
     [2] @ varint_write (unwrap_or_0 amt) @
     write_vec varint_write key_offsets @ CompressedPoint_write key_image"

definition Input_read :: "Input reader" where
  "Input_read =
     and_then read_byte (\<lambda>b.
     if b = 255 then and_then varint_read (\<lambda>height. ok (Gen height))
     else if b = 2 then
       and_then varint_read (\<lambda>amt.
       let amt = (if amt = 0 then None else Some amt)
       in and_then (read_vec varint_read (Some NON_MINER_SIZE_UPPER_BOUND)) (\<lambda>key_offsets.
          and_then CompressedPoint_read (\<lambda>key_image.
          ok (ToKey amt key_offsets key_image))))
     else err (Other ''Tried to deserialize unknown/unused input type''))"

fun is_Gen :: "Input \<Rightarrow> bool" where
  "is_Gen (Gen _) = True"
| "is_Gen (ToKey _ _ _) = False"

subsection \<open>Output\<close>

record Output =
  out_amount :: "u64 option"
  out_key :: CompressedPoint
  out_view_tag :: "u8 option"

definition Output_SIZE_LOWER_BOUND :: nat where
  "Output_SIZE_LOWER_BOUND = LOWER_BOUND + 1 + 32"

definition Output_SIZE_UPPER_BOUND :: nat where
  "Output_SIZE_UPPER_BOUND = UPPER_BOUND TYPE(64) + 1 + 32 + 1"

definition Output_write :: "Output \<Rightarrow> bytes" where
  "Output_write out =
     varint_write (unwrap_or_0 (out_amount out)) @
     [2 + (if out_view_tag out \<noteq> None then 1 else 0)] @
     CompressedPoint_to_bytes (out_key out) @
     (case out_view_tag out of None \<Rightarrow> [] | Some view_tag \<Rightarrow> [view_tag])"

definition Output_read :: "bool \<Rightarrow> Output reader" where
  "Output_read rct =
     and_then varint_read (\<lambda>amt.
     if rct \<and> amt \<noteq> 0 then err (Other ''RCT TX output wasn't 0'')
     else
       let amt = (if rct then None else Some amt)
       in and_then read_byte (\<lambda>b.
          if b \<noteq> 2 \<and> b \<noteq> 3 then err (Other ''Tried to deserialize unknown/unused output type'')
          else
            and_then CompressedPoint_read (\<lambda>key.
            and_then (if b = 3 then and_then read_byte (\<lambda>t. ok (Some t)) else ok None) (\<lambda>view_tag.
            ok \<lparr>out_amount = amt, out_key = key, out_view_tag = view_tag\<rparr>))))"

subsection \<open>Timelock\<close>

datatype Timelock = Timelock_None | Timelock_Block usize | Timelock_Time u64

datatype Ordering = Less | Equal | Greater

definition TIMELOCK_BLOCK_THRESHOLD :: u64 where
  "TIMELOCK_BLOCK_THRESHOLD = 500000000"

fun Timelock_write :: "Timelock \<Rightarrow> bytes" where
  "Timelock_write Timelock_None = varint_write (0 :: u8)"
| "Timelock_write (Timelock_Block block) = varint_write block"
| "Timelock_write (Timelock_Time time) = varint_write time"

definition Timelock_read :: "Timelock reader" where
  "Timelock_read =
     and_then varint_read (\<lambda>raw :: u64.
     ok (if raw = 0 then Timelock_None
         else if raw < TIMELOCK_BLOCK_THRESHOLD then Timelock_Block raw
         else Timelock_Time raw))"

definition u64_cmp :: "u64 \<Rightarrow> u64 \<Rightarrow> Ordering" where
  "u64_cmp a b = (if a < b then Less else if a = b then Equal else Greater)"

fun Timelock_partial_cmp :: "Timelock \<Rightarrow> Timelock \<Rightarrow> Ordering option" where
  "Timelock_partial_cmp Timelock_None Timelock_None = Some Equal"
| "Timelock_partial_cmp Timelock_None _ = Some Less"
| "Timelock_partial_cmp _ Timelock_None = Some Greater"
| "Timelock_partial_cmp (Timelock_Block a) (Timelock_Block b) = Some (u64_cmp a b)"
| "Timelock_partial_cmp (Timelock_Time a) (Timelock_Time b) = Some (u64_cmp a b)"
| "Timelock_partial_cmp _ _ = None"

subsection \<open>TransactionPrefix\<close>

record TransactionPrefix =
  additional_timelock :: Timelock
  tx_inputs :: "Input list"
  tx_outputs :: "Output list"
  tx_extra :: bytes

definition MINER_INPUTS :: nat where
  "MINER_INPUTS = 1"

definition NON_MINER_INPUTS_UPPER_BOUND :: nat where
  "NON_MINER_INPUTS_UPPER_BOUND = NON_MINER_SIZE_UPPER_BOUND div NON_GEN_SIZE_LOWER_BOUND"

definition INPUTS_UPPER_BOUND :: nat where
  "INPUTS_UPPER_BOUND = max MINER_INPUTS NON_MINER_INPUTS_UPPER_BOUND"

definition NON_MINER_OUTPUTS_UPPER_BOUND :: nat where
  "NON_MINER_OUTPUTS_UPPER_BOUND = NON_MINER_SIZE_UPPER_BOUND div Output_SIZE_LOWER_BOUND"

definition TransactionPrefix_write :: "TransactionPrefix \<Rightarrow> bytes" where
  "TransactionPrefix_write prefix =
     Timelock_write (additional_timelock prefix) @
     write_vec Input_write (tx_inputs prefix) @
     write_vec Output_write (tx_outputs prefix) @
     varint_write (vec_len (tx_extra prefix)) @ tx_extra prefix"

definition TransactionPrefix_read :: "u64 \<Rightarrow> TransactionPrefix reader" where
  "TransactionPrefix_read version =
     and_then Timelock_read (\<lambda>timelock.
     and_then (read_vec Input_read (Some INPUTS_UPPER_BOUND)) (\<lambda>inputs.
     if inputs = [] then err (Other ''transaction had no inputs'')
     else
       let is_miner_tx = is_Gen (inputs ! 0);
           max_outputs = (if is_miner_tx then None else Some NON_MINER_OUTPUTS_UPPER_BOUND);
           max_extra = (if is_miner_tx then None else Some NON_MINER_SIZE_UPPER_BOUND)
       in and_then (read_vec (Output_read (\<not> is_miner_tx \<and> version = 2)) max_outputs) (\<lambda>outputs.
          and_then (read_vec read_byte max_extra) (\<lambda>extra.
          ok \<lparr>additional_timelock = timelock, tx_inputs = inputs, tx_outputs = outputs,
              tx_extra = extra\<rparr>))))"

definition TransactionPrefix_hash :: "(bytes \<Rightarrow> bytes) \<Rightarrow> TransactionPrefix \<Rightarrow> u64 \<Rightarrow> bytes" where
  "TransactionPrefix_hash keccak256 prefix version =
     keccak256 (varint_write version @ TransactionPrefix_write prefix)"

subsection \<open>Pruned and unpruned proofs\<close>

record ('sigs, 'proofs) potentially_pruned =
  default_signatures :: 'sigs
  signatures_to_write :: "'sigs \<Rightarrow> RingSignature list"
  read_signatures :: "Input list \<Rightarrow> 'sigs reader"
  potentially_pruned_write :: "'proofs \<Rightarrow> bytes"
  potentially_pruned_read :: "nat \<Rightarrow> nat \<Rightarrow> nat \<Rightarrow> 'proofs option reader"
  potentially_pruned_rct_type :: "'proofs \<Rightarrow> RctType"
  potentially_pruned_base :: "'proofs \<Rightarrow> RctBase"

fun RingSignatures_read_signatures ::
  "('s, 'z) dalek_scalar_scheme \<Rightarrow> Input list \<Rightarrow> RingSignature list reader" where
  "RingSignatures_read_signatures D [] = ok []"
| "RingSignatures_read_signatures D (ToKey _ key_offsets _ # inputs) =
     and_then (RingSignature_read D (length key_offsets)) (\<lambda>signature.
     and_then (RingSignatures_read_signatures D inputs) (\<lambda>signatures.
     ok (signature # signatures)))"
| "RingSignatures_read_signatures D (Gen _ # inputs) =
     err (Other ''reading signatures for a transaction with non-`ToKey` inputs'')"

definition NotPruned ::
  "('s, 'z) dalek_scalar_scheme \<Rightarrow> (RingSignature list, 's RctProofs) potentially_pruned" where
  "NotPruned D =
     \<lparr>default_signatures = [],
      signatures_to_write = \<lambda>signatures. signatures,
      read_signatures = RingSignatures_read_signatures D,
      potentially_pruned_write = RctProofs_write D,
      potentially_pruned_read = RctProofs_read D,
      potentially_pruned_rct_type = RctProofs_rct_type,
      potentially_pruned_base = proofs_base\<rparr>"

definition PrunedRctProofs_read :: "nat \<Rightarrow> nat \<Rightarrow> nat \<Rightarrow> PrunedRctProofs option reader" where
  "PrunedRctProofs_read ring_length inputs outputs =
     and_then (RctBase_read inputs outputs) (\<lambda>res.
       ok (map_option (\<lambda>(rct_type, base). \<lparr>pruned_rct_type = rct_type, pruned_base = base\<rparr>) res))"

definition Pruned :: "(unit, PrunedRctProofs) potentially_pruned" where
  "Pruned =
     \<lparr>default_signatures = (),
      signatures_to_write = \<lambda>_. [],
      read_signatures = \<lambda>_. ok (),
      potentially_pruned_write = \<lambda>proofs. RctBase_write (pruned_base proofs) (pruned_rct_type proofs),
      potentially_pruned_read = PrunedRctProofs_read,
      potentially_pruned_rct_type = pruned_rct_type,
      potentially_pruned_base = pruned_base\<rparr>"

subsection \<open>Transaction\<close>

datatype ('sigs, 'proofs) Transaction =
  V1 (tx_prefix: TransactionPrefix) (tx_signatures: 'sigs)
| V2 (tx_prefix: TransactionPrefix) (tx_proofs: "'proofs option")

type_synonym 's transaction = "(RingSignature list, 's RctProofs) Transaction"
type_synonym pruned_transaction = "(unit, PrunedRctProofs) Transaction"

datatype PrunableHash = PrunableHash_V1 "RingSignature list" | PrunableHash_V2 bytes

fun tx_version :: "('sigs, 'proofs) Transaction \<Rightarrow> u8" where
  "tx_version (V1 _ _) = 1"
| "tx_version (V2 _ _) = 2"

fun Transaction_write ::
  "('sigs, 'proofs) potentially_pruned \<Rightarrow> ('sigs, 'proofs) Transaction \<Rightarrow> bytes" where
  "Transaction_write P (V1 prefix signatures) =
     varint_write (1 :: u8) @ TransactionPrefix_write prefix @
     write_raw_vec RingSignature_write (signatures_to_write P signatures)"
| "Transaction_write P (V2 prefix proofs) =
     varint_write (2 :: u8) @ TransactionPrefix_write prefix @
     (case proofs of None \<Rightarrow> [0] | Some proofs \<Rightarrow> potentially_pruned_write P proofs)"

definition is_miner_inputs :: "Input list \<Rightarrow> bool" where
  "is_miner_inputs inputs \<longleftrightarrow> length inputs = 1 \<and> is_Gen (inputs ! 0)"

fun first_ring_length :: "Input list \<Rightarrow> nat" where
  "first_ring_length [] = 0"
| "first_ring_length (Gen _ # _) = 0"
| "first_ring_length (ToKey _ key_offsets _ # _) = length key_offsets"

definition Transaction_read ::
  "('sigs, 'proofs) potentially_pruned \<Rightarrow> ('sigs, 'proofs) Transaction reader" where
  "Transaction_read P =
     and_then varint_read (\<lambda>version :: u64.
     and_then (TransactionPrefix_read version) (\<lambda>prefix.
     if version = 1 then
       and_then (if is_miner_inputs (tx_inputs prefix) then ok (default_signatures P)
                 else read_signatures P (tx_inputs prefix)) (\<lambda>signatures.
       ok (V1 prefix signatures))
     else if version = 2 then
       and_then (potentially_pruned_read P (first_ring_length (tx_inputs prefix))
                   (length (tx_inputs prefix)) (length (tx_outputs prefix))) (\<lambda>proofs.
       ok (V2 prefix proofs))
     else err (Other ''tried to deserialize unknown version'')))"

text \<open>Hashing a transaction with the prunable data of another version panics: \<open>None\<close>.\<close>

fun hash_with_prunable_hash_internal ::
  "('sigs, 'proofs) potentially_pruned \<Rightarrow> (bytes \<Rightarrow> bytes) \<Rightarrow> ('sigs, 'proofs) Transaction \<Rightarrow>
   PrunableHash \<Rightarrow> bytes option" where
  "hash_with_prunable_hash_internal P keccak256 (V1 prefix _) (PrunableHash_V1 signatures) =
     Some (keccak256 (varint_write (1 :: u8) @ TransactionPrefix_write prefix @
       write_raw_vec RingSignature_write signatures))"
| "hash_with_prunable_hash_internal P keccak256 (V1 prefix _) (PrunableHash_V2 _) = None"
| "hash_with_prunable_hash_internal P keccak256 (V2 prefix proofs) (PrunableHash_V2 prunable_hash) =
     Some (keccak256 (TransactionPrefix_hash keccak256 prefix 2 @
       (case proofs of
          Some proofs \<Rightarrow> keccak256
            (RctBase_write (potentially_pruned_base P proofs) (potentially_pruned_rct_type P proofs))
        | None \<Rightarrow> keccak256 [0]) @
       prunable_hash))"
| "hash_with_prunable_hash_internal P keccak256 (V2 prefix _) (PrunableHash_V1 _) = None"

fun Transaction_prunable_hash ::
  "('s, 'z) dalek_scalar_scheme \<Rightarrow> (bytes \<Rightarrow> bytes) \<Rightarrow> 's transaction \<Rightarrow> bytes option" where
  "Transaction_prunable_hash D keccak256 (V1 _ _) = None"
| "Transaction_prunable_hash D keccak256 (V2 _ (Some proofs)) =
     Some (keccak256 (RctPrunable_write D (proofs_prunable proofs) (RctProofs_rct_type proofs)))"
| "Transaction_prunable_hash D keccak256 (V2 _ None) = Some (replicate 32 0)"

fun Transaction_hash ::
  "('s, 'z) dalek_scalar_scheme \<Rightarrow> (bytes \<Rightarrow> bytes) \<Rightarrow> 's transaction \<Rightarrow> bytes option" where
  "Transaction_hash D keccak256 (V1 prefix signatures) =
     hash_with_prunable_hash_internal (NotPruned D) keccak256 (V1 prefix signatures)
       (PrunableHash_V1 signatures)"
| "Transaction_hash D keccak256 (V2 prefix proofs) =
     Option.bind (Transaction_prunable_hash D keccak256 (V2 prefix proofs)) (\<lambda>prunable_hash.
     hash_with_prunable_hash_internal (NotPruned D) keccak256 (V2 prefix proofs)
       (PrunableHash_V2 prunable_hash))"

text \<open>\<open>signature_hash\<close> returns an option itself; a panic would be a second source of \<open>None\<close>, which
  \<open>signature_hash_None\<close> below excludes.\<close>

fun Transaction_signature_hash ::
  "('s, 'z) dalek_scalar_scheme \<Rightarrow> (bytes \<Rightarrow> bytes) \<Rightarrow> 's transaction \<Rightarrow> bytes option" where
  "Transaction_signature_hash D keccak256 (V1 prefix signatures) =
     (if is_miner_inputs (tx_inputs prefix) then None
      else hash_with_prunable_hash_internal (NotPruned D) keccak256 (V1 prefix signatures)
             (PrunableHash_V1 []))"
| "Transaction_signature_hash D keccak256 (V2 prefix None) = None"
| "Transaction_signature_hash D keccak256 (V2 prefix (Some proofs)) =
     hash_with_prunable_hash_internal (NotPruned D) keccak256 (V2 prefix (Some proofs))
       (PrunableHash_V2 (keccak256 (RctPrunable_signature_write D (proofs_prunable proofs))))"

definition prune_proofs :: "'s RctProofs \<Rightarrow> PrunedRctProofs" where
  "prune_proofs proofs =
     \<lparr>pruned_rct_type = RctProofs_rct_type proofs, pruned_base = proofs_base proofs\<rparr>"

fun pruned_with_prunable ::
  "('s, 'z) dalek_scalar_scheme \<Rightarrow> 's transaction \<Rightarrow> pruned_transaction \<times> bytes" where
  "pruned_with_prunable D (V1 prefix signatures) =
     (V1 prefix (), write_raw_vec RingSignature_write signatures)"
| "pruned_with_prunable D (V2 prefix proofs) =
     (V2 prefix (map_option prune_proofs proofs),
      case proofs of
        None \<Rightarrow> []
      | Some proofs \<Rightarrow> RctPrunable_write D (proofs_prunable proofs) (RctProofs_rct_type proofs))"

fun is_rct_bulletproof :: "'s transaction \<Rightarrow> bool" where
  "is_rct_bulletproof (V1 _ _) = False"
| "is_rct_bulletproof (V2 _ None) = False"
| "is_rct_bulletproof (V2 _ (Some proofs)) = RctType_bulletproof (RctProofs_rct_type proofs)"

fun is_rct_bulletproof_plus :: "'s transaction \<Rightarrow> bool" where
  "is_rct_bulletproof_plus (V1 _ _) = False"
| "is_rct_bulletproof_plus (V2 _ None) = False"
| "is_rct_bulletproof_plus (V2 _ (Some proofs)) = RctType_bulletproof_plus (RctProofs_rct_type proofs)"

text \<open>\<open>None\<close> is a panic, of \<open>calculate_clawback\<close> or on a version 1 transaction with Bulletproofs.\<close>

definition Transaction_weight :: "('s, 'z) dalek_scalar_scheme \<Rightarrow> 's transaction \<Rightarrow> nat option" where
  "Transaction_weight D tx =
     (let blob_size = length (Transaction_write (NotPruned D) tx);
          bp = is_rct_bulletproof tx;
          bp_plus = is_rct_bulletproof_plus tx
      in if \<not> (bp \<or> bp_plus) then Some blob_size
         else case tx of
           V1 _ _ \<Rightarrow> None
         | V2 prefix _ \<Rightarrow>
             map_option (\<lambda>(clawback, _). blob_size + clawback)
               (calculate_clawback bp_plus (length (tx_outputs prefix))))"

fun hash_with_prunable_hash ::
  "(bytes \<Rightarrow> bytes) \<Rightarrow> pruned_transaction \<Rightarrow> bytes \<Rightarrow> bytes option" where
  "hash_with_prunable_hash keccak256 (V1 _ _) prunable_hash = None"
| "hash_with_prunable_hash keccak256 (V2 prefix proofs) prunable_hash =
     hash_with_prunable_hash_internal Pruned keccak256 (V2 prefix proofs) (PrunableHash_V2 prunable_hash)"

fun Transaction_into_pruned :: "'s transaction \<Rightarrow> pruned_transaction" where
  "Transaction_into_pruned (V1 prefix _) = V1 prefix ()"
| "Transaction_into_pruned (V2 prefix proofs) = V2 prefix (map_option prune_proofs proofs)"

subsection \<open>Well-formed prefixes\<close>

fun wf_Input :: "Input \<Rightarrow> bool" where
  "wf_Input (Gen height) \<longleftrightarrow> True"
| "wf_Input (ToKey amt key_offsets key_image) \<longleftrightarrow>
     amt \<noteq> Some 0 \<and> wf_vec (\<lambda>_. True) (Some NON_MINER_SIZE_UPPER_BOUND) key_offsets \<and>
     wf_CompressedPoint key_image"

definition wf_Output :: "bool \<Rightarrow> Output \<Rightarrow> bool" where
  "wf_Output rct out \<longleftrightarrow> (rct \<longleftrightarrow> out_amount out = None) \<and> wf_CompressedPoint (out_key out)"

fun wf_Timelock :: "Timelock \<Rightarrow> bool" where
  "wf_Timelock Timelock_None \<longleftrightarrow> True"
| "wf_Timelock (Timelock_Block block) \<longleftrightarrow> block \<noteq> 0 \<and> block < TIMELOCK_BLOCK_THRESHOLD"
| "wf_Timelock (Timelock_Time time) \<longleftrightarrow> TIMELOCK_BLOCK_THRESHOLD \<le> time"

definition wf_TransactionPrefix :: "u64 \<Rightarrow> TransactionPrefix \<Rightarrow> bool" where
  "wf_TransactionPrefix version prefix \<longleftrightarrow>
     (let is_miner_tx = is_Gen (tx_inputs prefix ! 0)
      in wf_Timelock (additional_timelock prefix) \<and>
         tx_inputs prefix \<noteq> [] \<and>
         wf_vec wf_Input (Some INPUTS_UPPER_BOUND) (tx_inputs prefix) \<and>
         wf_vec (wf_Output (\<not> is_miner_tx \<and> version = 2))
           (if is_miner_tx then None else Some NON_MINER_OUTPUTS_UPPER_BOUND) (tx_outputs prefix) \<and>
         wf_vec (\<lambda>_. True)
           (if is_miner_tx then None else Some NON_MINER_SIZE_UPPER_BOUND) (tx_extra prefix))"

subsection \<open>Codecs of a prefix\<close>

interpretation offsets_codec: codec "write_vec (varint_write :: u64 \<Rightarrow> bytes)"
    "read_vec varint_read b" "wf_vec (\<lambda>_. True) b" for b
  by (rule varint_u64.vec_codec)

interpretation byte_vec_codec: codec "\<lambda>xs. varint_write (vec_len xs) @ xs"
    "read_vec read_byte b" "wf_vec (\<lambda>_. True) b" for b
  using byte_codec.vec_codec [of b] by (simp add: write_vec_def [abs_def])

lemmas [codec_iff] = offsets_codec.rd_iff byte_vec_codec.rd_iff

lemma varint_write_0: "varint_write (0 :: 'a::len word) = [0]"
  using varint_write_loop_small [of 0] by (simp add: varint_write_def into_u64_def)

lemmas prefix_rd_wr = varint_u64.rd_wr offsets_codec.rd_wr point_codec.rd_wr

lemma Input_read_iff: "Input_read bs = Inr (x, rest) \<longleftrightarrow> wf_Input x \<and> bs = Input_write x @ rest"
proof
  assume "Input_read bs = Inr (x, rest)"
  then show "wf_Input x \<and> bs = Input_write x @ rest"
    by (auto simp: Input_read_def and_then_eq_Inr codec_iff write_byte_def unwrap_or_0_def Let_def
        split: if_splits)
next
  assume "wf_Input x \<and> bs = Input_write x @ rest"
  then show "Input_read bs = Inr (x, rest)"
    by (cases x) (auto simp: Input_read_def and_then_def prefix_rd_wr unwrap_or_0_def Let_def
        split: option.splits)
qed

lemma Output_read_iff:
  "Output_read rct bs = Inr (x, rest) \<longleftrightarrow> wf_Output rct x \<and> bs = Output_write x @ rest"
proof
  assume "Output_read rct bs = Inr (x, rest)"
  then show "wf_Output rct x \<and> bs = Output_write x @ rest"
    by (auto simp: Output_read_def Output_write_def wf_Output_def and_then_eq_Inr codec_iff
        write_byte_def unwrap_or_0_def Let_def CompressedPoint_to_bytes_write split: if_splits)
next
  assume "wf_Output rct x \<and> bs = Output_write x @ rest"
  then show "Output_read rct bs = Inr (x, rest)"
    by (cases x) (auto simp: Output_read_def Output_write_def wf_Output_def and_then_def prefix_rd_wr
        unwrap_or_0_def Let_def CompressedPoint_to_bytes_write split: option.splits)
qed

lemma Timelock_read_iff:
  "Timelock_read bs = Inr (x, rest) \<longleftrightarrow> wf_Timelock x \<and> bs = Timelock_write x @ rest"
proof
  assume "Timelock_read bs = Inr (x, rest)"
  then show "wf_Timelock x \<and> bs = Timelock_write x @ rest"
    by (auto simp: Timelock_read_def and_then_eq_Inr codec_iff varint_write_0 not_less)
next
  assume "wf_Timelock x \<and> bs = Timelock_write x @ rest"
  moreover have "varint_read ([0] @ rest) = Inr (0 :: u64, rest)"
    using varint_u64.rd_wr [of 0 rest] by (simp add: varint_write_0)
  ultimately show "Timelock_read bs = Inr (x, rest)"
    by (cases x) (auto simp: Timelock_read_def and_then_def varint_u64.rd_wr varint_write_0
        TIMELOCK_BLOCK_THRESHOLD_def)
qed

interpretation input_codec: codec Input_write Input_read wf_Input
  by (rule codec_iffI [OF Input_read_iff])

interpretation output_codec: codec Output_write "Output_read rct" "wf_Output rct" for rct
  by (rule codec_iffI [OF Output_read_iff])

interpretation timelock_codec: codec Timelock_write Timelock_read wf_Timelock
  by (rule codec_iffI [OF Timelock_read_iff])

interpretation inputs_codec: codec "write_vec Input_write" "read_vec Input_read b" "wf_vec wf_Input b" for b
  by (rule input_codec.vec_codec)

interpretation outputs_codec: codec "write_vec Output_write" "read_vec (Output_read rct) b"
    "wf_vec (wf_Output rct) b" for rct b
  by (rule output_codec.vec_codec)

lemmas [codec_iff] = timelock_codec.rd_iff inputs_codec.rd_iff outputs_codec.rd_iff

lemma TransactionPrefix_read_iff:
  "TransactionPrefix_read version bs = Inr (x, rest) \<longleftrightarrow>
   wf_TransactionPrefix version x \<and> bs = TransactionPrefix_write x @ rest"
  by (cases x)
     (auto simp: TransactionPrefix_read_def TransactionPrefix_write_def wf_TransactionPrefix_def Let_def
       and_then_eq_Inr codec_iff)

interpretation prefix_codec: codec TransactionPrefix_write "TransactionPrefix_read version"
    "wf_TransactionPrefix version" for version
  by (rule codec_iffI [OF TransactionPrefix_read_iff])

lemmas [codec_iff] = prefix_codec.rd_iff

subsection \<open>What a transaction relies on of its proofs\<close>

text \<open>
  The contract of \<open>PotentiallyPruned\<close>: the signatures of given inputs and the proofs of given
  numbers of inputs and outputs are codecs which do not panic, and the signatures a miner
  transaction defaults to are written as nothing.
\<close>

definition option_proofs_write :: "('sigs, 'proofs) potentially_pruned \<Rightarrow> 'proofs option \<Rightarrow> bytes" where
  "option_proofs_write P proofs =
     (case proofs of None \<Rightarrow> [0] | Some proofs \<Rightarrow> potentially_pruned_write P proofs)"

definition signatures_write :: "('sigs, 'proofs) potentially_pruned \<Rightarrow> 'sigs \<Rightarrow> bytes" where
  "signatures_write P signatures =
     write_raw_vec RingSignature_write (signatures_to_write P signatures)"

fun wf_Transaction ::
  "('sigs, 'proofs) potentially_pruned \<Rightarrow> (Input list \<Rightarrow> 'sigs \<Rightarrow> bool) \<Rightarrow>
   (nat \<Rightarrow> nat \<Rightarrow> nat \<Rightarrow> 'proofs option \<Rightarrow> bool) \<Rightarrow> ('sigs, 'proofs) Transaction \<Rightarrow> bool" where
  "wf_Transaction P wf_sigs wf_proofs (V1 prefix signatures) \<longleftrightarrow>
     wf_TransactionPrefix 1 prefix \<and>
     (if is_miner_inputs (tx_inputs prefix) then signatures = default_signatures P
      else wf_sigs (tx_inputs prefix) signatures)"
| "wf_Transaction P wf_sigs wf_proofs (V2 prefix proofs) \<longleftrightarrow>
     wf_TransactionPrefix 2 prefix \<and>
     wf_proofs (first_ring_length (tx_inputs prefix)) (length (tx_inputs prefix))
       (length (tx_outputs prefix)) proofs"

lemma varint_write_version:
  "varint_write (1 :: u8) = varint_write (1 :: u64)" "varint_write (2 :: u8) = varint_write (2 :: u64)"
  by (simp_all add: varint_write_def into_u64_def)

locale total_pruning =
  fixes P :: "('sigs, 'proofs) potentially_pruned"
  assumes sigs_no_panic: "no_panic (read_signatures P inputs)"
    and proofs_no_panic: "no_panic (potentially_pruned_read P ring inputs' outputs)"

locale pruning = total_pruning P for P :: "('sigs, 'proofs) potentially_pruned" +
  fixes wf_sigs :: "Input list \<Rightarrow> 'sigs \<Rightarrow> bool"
    and wf_proofs :: "nat \<Rightarrow> nat \<Rightarrow> nat \<Rightarrow> 'proofs option \<Rightarrow> bool"
  assumes default_written: "signatures_write P (default_signatures P) = []"
    and sigs_codec: "codec (signatures_write P) (read_signatures P inputs) (wf_sigs inputs)"
    and proofs_codec: "codec (option_proofs_write P) (potentially_pruned_read P ring inputs' outputs)
                         (wf_proofs ring inputs' outputs)"
begin

lemma Transaction_read_iff:
  "Transaction_read P bs = Inr (x, rest) \<longleftrightarrow>
   wf_Transaction P wf_sigs wf_proofs x \<and> bs = Transaction_write P x @ rest"
proof
  assume "Transaction_read P bs = Inr (x, rest)"
  then show "wf_Transaction P wf_sigs wf_proofs x \<and> bs = Transaction_write P x @ rest"
    using default_written
    by (auto simp: Transaction_read_def and_then_eq_Inr codec_iff varint_write_version
        codec.rd_iff [OF sigs_codec] codec.rd_iff [OF proofs_codec] signatures_write_def
        option_proofs_write_def split: if_splits)
next
  assume wf: "wf_Transaction P wf_sigs wf_proofs x \<and> bs = Transaction_write P x @ rest"
  show "Transaction_read P bs = Inr (x, rest)"
  proof (cases x)
    case (V1 prefix signatures)
    with wf show ?thesis
      using codec.rd_wr [OF sigs_codec, of "tx_inputs prefix" signatures rest] default_written
      by (auto simp: Transaction_read_def and_then_def varint_write_version varint_u64.rd_wr
          prefix_codec.rd_wr signatures_write_def)
  next
    case (V2 prefix proofs)
    with wf show ?thesis
      using codec.rd_wr [OF proofs_codec, of "first_ring_length (tx_inputs prefix)"
          "length (tx_inputs prefix)" "length (tx_outputs prefix)" proofs rest]
      by (auto simp: Transaction_read_def and_then_def varint_write_version varint_u64.rd_wr
          prefix_codec.rd_wr option_proofs_write_def)
  qed
qed

lemma Transaction_codec: "codec (Transaction_write P) (Transaction_read P) (wf_Transaction P wf_sigs wf_proofs)"
  by (rule codec_iffI [OF Transaction_read_iff])

end

lemma no_panic_Timelock_read [no_panic_intros]: "no_panic Timelock_read"
  unfolding Timelock_read_def by (intro no_panic_intros)

lemma no_panic_Input_read [no_panic_intros]: "no_panic Input_read"
  unfolding Input_read_def Let_def by (intro no_panic_intros) simp

lemma no_panic_Output_read [no_panic_intros]: "no_panic (Output_read rct)"
  unfolding Output_read_def Let_def by (intro no_panic_intros) simp_all

lemma no_panic_TransactionPrefix_read [no_panic_intros]: "no_panic (TransactionPrefix_read version)"
  unfolding TransactionPrefix_read_def Let_def by (intro no_panic_intros) simp_all

context total_pruning
begin

lemma no_panic_Transaction_read: "no_panic (Transaction_read P)"
  unfolding Transaction_read_def
  by (intro no_panic_intros sigs_no_panic proofs_no_panic) simp_all

end

subsection \<open>Both instances meet it\<close>

fun wf_RingSignatures :: "('s, 'z) dalek_scalar_scheme \<Rightarrow> Input list \<Rightarrow> RingSignature list \<Rightarrow> bool" where
  "wf_RingSignatures D [] signatures \<longleftrightarrow> signatures = []"
| "wf_RingSignatures D (ToKey _ key_offsets _ # inputs) signatures \<longleftrightarrow>
     (case signatures of
        [] \<Rightarrow> False
      | signature # signatures \<Rightarrow>
          wf_RingSignature D (length key_offsets) signature \<and> wf_RingSignatures D inputs signatures)"
| "wf_RingSignatures D (Gen _ # inputs) signatures \<longleftrightarrow> False"

fun wf_PrunedRctProofs :: "nat \<Rightarrow> nat \<Rightarrow> nat \<Rightarrow> PrunedRctProofs option \<Rightarrow> bool" where
  "wf_PrunedRctProofs ring_length inputs outputs None \<longleftrightarrow> True"
| "wf_PrunedRctProofs ring_length inputs outputs (Some proofs) \<longleftrightarrow>
     wf_RctBase inputs outputs (pruned_rct_type proofs) (pruned_base proofs)"

abbreviation wf_transaction :: "('s, 'z) dalek_scalar_scheme \<Rightarrow> 's transaction \<Rightarrow> bool" where
  "wf_transaction D \<equiv> wf_Transaction (NotPruned D) (wf_RingSignatures D) (wf_option_RctProofs D)"

abbreviation wf_pruned_transaction :: "pruned_transaction \<Rightarrow> bool" where
  "wf_pruned_transaction \<equiv> wf_Transaction Pruned (\<lambda>_ _. True) wf_PrunedRctProofs"

lemma RingSignatures_read_iff:
  "RingSignatures_read_signatures D inputs bs = Inr (x, rest) \<longleftrightarrow>
   wf_RingSignatures D inputs x \<and> bs = write_raw_vec RingSignature_write x @ rest"
proof (induction D inputs arbitrary: bs x rule: RingSignatures_read_signatures.induct)
  case (2 D amt offs img inputs)
  then show ?case by (cases x) (auto simp: and_then_eq_Inr codec_iff)
qed (auto split: list.splits)

lemma no_panic_RingSignatures_read [no_panic_intros]:
  "no_panic (RingSignatures_read_signatures D inputs)"
  by (induction D inputs rule: RingSignatures_read_signatures.induct)
     (auto simp only: RingSignatures_read_signatures.simps intro!: no_panic_intros)

lemma PrunedRctProofs_read_iff:
  "PrunedRctProofs_read ring_length inputs outputs bs = Inr (x, rest) \<longleftrightarrow>
   wf_PrunedRctProofs ring_length inputs outputs x \<and> bs = option_proofs_write Pruned x @ rest"
proof (cases x)
  case None
  then show ?thesis
    by (auto simp: PrunedRctProofs_read_def option_proofs_write_def and_then_eq_Inr RctBase_read_iff)
next
  case (Some p)
  then show ?thesis
    by (cases p)
      (auto simp: PrunedRctProofs_read_def option_proofs_write_def Pruned_def and_then_eq_Inr
        RctBase_read_iff)
qed

interpretation not_pruned_total: total_pruning "NotPruned D" for D
  by unfold_locales (simp_all add: NotPruned_def no_panic_intros)

interpretation pruned_total: total_pruning Pruned
  by unfold_locales (auto simp: Pruned_def PrunedRctProofs_read_def intro!: no_panic_intros)

interpretation pruned: pruning Pruned "\<lambda>_ _. True" wf_PrunedRctProofs
proof (unfold pruning_def pruning_axioms_def, intro conjI allI pruned_total.total_pruning_axioms)
  show "signatures_write Pruned (default_signatures Pruned) = []"
    by (simp add: signatures_write_def Pruned_def)
next
  fix inputs
  show "codec (signatures_write Pruned) (read_signatures Pruned inputs) (\<lambda>_. True)"
    by (rule codec_iffI) (simp add: Pruned_def signatures_write_def)
next
  fix ring inputs outputs
  show "codec (option_proofs_write Pruned) (potentially_pruned_read Pruned ring inputs outputs)
      (wf_PrunedRctProofs ring inputs outputs)"
    by (rule codec_iffI) (simp add: Pruned_def PrunedRctProofs_read_iff [unfolded Pruned_def])
qed

lemma not_pruned_pruning:
  assumes "canonical_scalars D"
  shows "pruning (NotPruned D) (wf_RingSignatures D) (wf_option_RctProofs D)"
proof (unfold pruning_def pruning_axioms_def, intro conjI allI not_pruned_total.total_pruning_axioms)
  have w: "option_proofs_write (NotPruned D) = option_RctProofs_write D"
    by (rule ext) (simp add: option_proofs_write_def NotPruned_def split: option.split)
  fix ring inputs outputs
  show "codec (option_proofs_write (NotPruned D)) (potentially_pruned_read (NotPruned D) ring inputs outputs)
      (wf_option_RctProofs D ring inputs outputs)"
    unfolding w using RctProofs_codec [OF assms] by (simp add: NotPruned_def)
next
  fix inputs
  show "codec (signatures_write (NotPruned D)) (read_signatures (NotPruned D) inputs)
      (wf_RingSignatures D inputs)"
    by (rule codec_iffI) (simp add: NotPruned_def signatures_write_def RingSignatures_read_iff)
qed (simp_all add: NotPruned_def signatures_write_def no_panic_intros)

subsection \<open>Transactions are read canonically\<close>

text \<open>C1. A transaction is read from exactly the bytes it is written as: every well-formed transaction is
  read back with the rest of the input untouched, a successful read yields a well-formed transaction,
  and no other bytes decode to it. The scalars are assumed to have one canonical encoding each.\<close>

theorem transaction_read_canonical:
  assumes "canonical_scalars D"
  shows "Transaction_read (NotPruned D) bs = Inr (tx, rest) \<longleftrightarrow>
         wf_transaction D tx \<and> bs = Transaction_write (NotPruned D) tx @ rest"
  by (rule pruning.Transaction_read_iff [OF not_pruned_pruning [OF assms]])

text \<open>A miner transaction of a genesis-like block, for the witnesses.\<close>

definition example_prefix :: TransactionPrefix where
  "example_prefix =
     \<lparr>additional_timelock = Timelock_Block 60, tx_inputs = [Gen 0],
      tx_outputs = [\<lparr>out_amount = Some 17, out_key = CompressedPoint (replicate 32 9), out_view_tag = Some 5\<rparr>],
      tx_extra = [1, 2, 3]\<rparr>"

lemma wf_example_prefix: "wf_TransactionPrefix version example_prefix"
  by (simp add: wf_TransactionPrefix_def example_prefix_def wf_vec_def fits_usize_def wf_Output_def
      TIMELOCK_BLOCK_THRESHOLD_def INPUTS_UPPER_BOUND_def MINER_INPUTS_def)

lemma wf_example_tx: "wf_transaction D (V1 example_prefix [])"
  using wf_example_prefix [of 1]
  by (simp add: is_miner_inputs_def) (simp add: example_prefix_def NotPruned_def)

theorem transaction_read_canonical_witness:
  "Transaction_read (NotPruned raw_scalars)
     (Transaction_write (NotPruned raw_scalars) (V1 example_prefix []) @ [7]) =
   Inr (V1 example_prefix [], [7])"
  by (simp only: transaction_read_canonical [OF canonical_raw_scalars] wf_example_tx simp_thms)

text \<open>No input makes the reader of a transaction panic, pruned or not.\<close>

theorem transaction_read_no_panic:
  "Transaction_read (NotPruned D) bs \<noteq> Inl (Panic s) \<and> Transaction_read Pruned bs \<noteq> Inl (Panic s)"
  using not_pruned_total.no_panic_Transaction_read [of D] pruned_total.no_panic_Transaction_read
  by (simp add: no_panic_def)

subsection \<open>Pruning\<close>

lemma write_pruned_with_prunable:
  "Transaction_write (NotPruned D) tx =
   Transaction_write Pruned (fst (pruned_with_prunable D tx)) @ snd (pruned_with_prunable D tx)"
proof (cases tx)
  case (V2 prefix proofs)
  then show ?thesis
    by (cases proofs) (simp_all add: NotPruned_def Pruned_def RctProofs_write_def prune_proofs_def Let_def)
qed (simp add: NotPruned_def Pruned_def)

lemma wf_into_pruned:
  assumes "wf_transaction D tx"
  shows "wf_pruned_transaction (fst (pruned_with_prunable D tx))"
proof (cases tx)
  case (V2 prefix proofs)
  with assms show ?thesis by (cases proofs) (simp_all add: prune_proofs_def)
qed (use assms in \<open>simp add: Pruned_def\<close>)

text \<open>The bytes of a transaction are those of its pruned form followed by the prunable data: reading
  the serialisation of a transaction as a pruned transaction yields what \<open>pruned_with_prunable\<close>
  splits it into, the prunable bytes being left unread.\<close>

theorem read_pruned_of_written:
  assumes "wf_transaction D tx"
  shows "Transaction_read Pruned (Transaction_write (NotPruned D) tx) = Inr (pruned_with_prunable D tx) \<and>
         fst (pruned_with_prunable D tx) = Transaction_into_pruned tx"
proof
  show "Transaction_read Pruned (Transaction_write (NotPruned D) tx) = Inr (pruned_with_prunable D tx)"
    using pruned.Transaction_read_iff [of _ "fst (pruned_with_prunable D tx)" "snd (pruned_with_prunable D tx)"]
      wf_into_pruned [OF assms]
    by (simp add: write_pruned_with_prunable)
  show "fst (pruned_with_prunable D tx) = Transaction_into_pruned tx"
    by (cases tx) simp_all
qed

subsection \<open>Hashes\<close>

lemma Transaction_hash_total: "\<exists>h. Transaction_hash D keccak256 tx = Some h"
proof (cases tx)
  case (V2 prefix proofs)
  then show ?thesis by (cases proofs) simp_all
qed simp

lemma signature_hash_None:
  "Transaction_signature_hash D keccak256 tx = None \<longleftrightarrow>
   (case tx of V1 prefix _ \<Rightarrow> is_miner_inputs (tx_inputs prefix) | V2 _ proofs \<Rightarrow> proofs = None)"
proof (cases tx)
  case (V2 prefix proofs)
  then show ?thesis by (cases proofs) simp_all
qed simp

text \<open>Hashing never panics, and the hash of a version 2 transaction can be recomputed from its pruned
  form and the hash of the prunable data alone, which is the all-zero hash where there are no proofs;
  a version 1 transaction has no prunable hash and its pruned form no hash.\<close>

theorem hash_from_pruned:
  "(\<exists>h. Transaction_hash D keccak256 tx = Some h) \<and>
   Option.bind (Transaction_prunable_hash D keccak256 tx)
     (hash_with_prunable_hash keccak256 (Transaction_into_pruned tx)) =
     (if tx_version tx = 2 then Transaction_hash D keccak256 tx else None)"
proof (cases tx)
  case (V2 prefix proofs)
  then show ?thesis
    by (cases proofs) (simp_all add: NotPruned_def Pruned_def prune_proofs_def)
qed simp

subsection \<open>What the hashes bind\<close>

text \<open>The strings which are hashed to compute the hash of a transaction, or its signature hash.\<close>

fun tx_preimages ::
  "('s, 'z) dalek_scalar_scheme \<Rightarrow> (bytes \<Rightarrow> bytes) \<Rightarrow> 's transaction \<Rightarrow> bytes set" where
  "tx_preimages D h (V1 prefix signatures) = {Transaction_write (NotPruned D) (V1 prefix signatures)}"
| "tx_preimages D h (V2 prefix None) =
     (let prefix_bytes = varint_write (2 :: u64) @ TransactionPrefix_write prefix
      in {prefix_bytes, [0], h prefix_bytes @ h [0] @ replicate 32 0})"
| "tx_preimages D h (V2 prefix (Some proofs)) =
     (let prefix_bytes = varint_write (2 :: u64) @ TransactionPrefix_write prefix;
          base_bytes = RctBase_write (proofs_base proofs) (RctProofs_rct_type proofs);
          prunable_bytes = RctPrunable_write D (proofs_prunable proofs) (RctProofs_rct_type proofs);
          signed_bytes = RctPrunable_signature_write D (proofs_prunable proofs)
      in {prefix_bytes, base_bytes, prunable_bytes, signed_bytes,
          h prefix_bytes @ h base_bytes @ h prunable_bytes,
          h prefix_bytes @ h base_bytes @ h signed_bytes})"

lemma hash3_inj:
  assumes "inj_on h S" and "hash32 h" and "h a @ h b @ x \<in> S" "h a' @ h b' @ x' \<in> S"
    and "a \<in> S" "a' \<in> S" "b \<in> S" "b' \<in> S" and "h (h a @ h b @ x) = h (h a' @ h b' @ x')"
  shows "a = a' \<and> b = b' \<and> x = x'"
proof -
  have "h a @ h b @ x = h a' @ h b' @ x'" using inj_onD [OF assms(1) assms(9,3,4)] .
  moreover have "length (h a) = length (h a')" "length (h b) = length (h b')"
    using assms(2) by (simp_all add: hash32_def)
  ultimately have "h a = h a'" "h b = h b'" "x = x'" by simp_all
  then show ?thesis using inj_onD [OF assms(1)] assms(5-8) by blast
qed

lemma prefix_bytes_inj:
  assumes "wf_TransactionPrefix version p" and "wf_TransactionPrefix version p'"
    and "varint_write (2 :: u64) @ TransactionPrefix_write p = varint_write (2 :: u64) @ TransactionPrefix_write p'"
  shows "p = p'"
  using prefix_codec.wr_inj [OF assms(1,2)] assms(3) by simp

lemma hash_inj_V2:
  assumes D: "canonical_scalars D" and h: "hash32 h"
    and wf: "wf_transaction D (V2 p x)" "wf_transaction D (V2 q y)"
    and inj: "inj_on h (tx_preimages D h (V2 p x) \<union> tx_preimages D h (V2 q y))"
    and eq: "Transaction_hash D h (V2 p x) = Transaction_hash D h (V2 q y)"
  shows "V2 p x = V2 q y"
proof -
  let ?S = "tx_preimages D h (V2 p x) \<union> tx_preimages D h (V2 q y)"
  let ?pre = "\<lambda>p. varint_write (2 :: u64) @ TransactionPrefix_write p"
  let ?base = "\<lambda>x. case x of None \<Rightarrow> [0] | Some z \<Rightarrow> RctBase_write (proofs_base z) (RctProofs_rct_type z)"
  let ?prun = "\<lambda>z. RctPrunable_write D (proofs_prunable z) (RctProofs_rct_type z)"
  let ?last = "\<lambda>x. case x of None \<Rightarrow> replicate 32 0 | Some z \<Rightarrow> h (?prun z)"
  have hash: "Transaction_hash D h (V2 p x) = Some (h (h (?pre p) @ h (?base x) @ ?last x))" for p x
    by (cases x) (simp_all add: NotPruned_def TransactionPrefix_hash_def)
  have mem: "{?pre r, ?base z, h (?pre r) @ h (?base z) @ ?last z} \<subseteq> tx_preimages D h (V2 r z)" for r z
    by (cases z) (simp_all add: Let_def)
  have "?pre p = ?pre q \<and> ?base x = ?base y \<and> ?last x = ?last y"
    using mem [of p x] mem [of q y] eq unfolding hash option.inject
    by (intro hash3_inj [OF inj h]) (simp_all only: Un_iff insert_subset simp_thms)
  then have pre: "?pre p = ?pre q" and base: "?base x = ?base y" and last: "?last x = ?last y" by blast+
  have p: "p = q" using wf pre by (intro prefix_bytes_inj [of 2 p q]) simp_all
  have wfx: "wf_option_RctProofs D (first_ring_length (tx_inputs p)) (length (tx_inputs p))
      (length (tx_outputs p)) z" if "z \<in> {x, y}" for z
    using that wf p by auto
  have "option_RctProofs_write D x = option_RctProofs_write D y"
  proof (cases x; cases y)
    fix a b
    assume ab: "x = Some a" "y = Some b"
    have "?prun a \<in> ?S" "?prun b \<in> ?S" by (simp_all add: ab Let_def)
    moreover have "h (?prun a) = h (?prun b)" using last ab by simp
    ultimately have "?prun a = ?prun b" using inj_onD [OF inj] by blast
    with base show ?thesis by (simp add: ab RctProofs_write_def Let_def)
  qed (use base in \<open>simp_all add: RctBase_write_def\<close>)
  then have "x = y" using codec.wr_inj [OF RctProofs_codec [OF D]] wfx by blast
  with p show ?thesis by simp
qed

lemma hash_inj_V1:
  fixes D :: "('s, 'z) dalek_scalar_scheme"
  assumes D: "canonical_scalars D"
    and wf: "wf_transaction D (V1 p x)" "wf_transaction D (V1 q y)"
    and inj: "inj_on h (tx_preimages D h (V1 p x) \<union> tx_preimages D h (V1 q y))"
    and eq: "Transaction_hash D h (V1 p x) = Transaction_hash D h (V1 q y)"
  shows "(V1 p x :: 's transaction) = V1 q y"
proof -
  have hash: "Transaction_hash D h (V1 p x) = Some (h (Transaction_write (NotPruned D) (V1 p x)))" for p x
    by (simp add: NotPruned_def)
  have "Transaction_write (NotPruned D) (V1 p x) = Transaction_write (NotPruned D) (V1 q y)"
  proof (rule inj_onD [OF inj])
    show "h (Transaction_write (NotPruned D) (V1 p x)) = h (Transaction_write (NotPruned D) (V1 q y))"
      using eq by (simp only: hash option.inject)
  qed (simp_all only: tx_preimages.simps Un_iff singleton_iff simp_thms)
  then show ?thesis
    by (rule codec.wr_inj [OF pruning.Transaction_codec [OF not_pruned_pruning [OF D]] wf])
qed

text \<open>C37. The hash commits to the transaction: two well-formed transactions of the same version with the
  same hash are the same transaction, unless the strings hashed for them contain a collision of
  Keccak-256.\<close>

theorem transaction_hash_binding:
  assumes "canonical_scalars D" and "hash32 keccak256"
    and "wf_transaction D tx" and "wf_transaction D tx'" and "tx_version tx = tx_version tx'"
    and "inj_on keccak256 (tx_preimages D keccak256 tx \<union> tx_preimages D keccak256 tx')"
    and "Transaction_hash D keccak256 tx = Transaction_hash D keccak256 tx'"
  shows "tx = tx'"
proof (cases tx; cases tx')
  fix p x q y
  assume tx: "tx = V1 p x" "tx' = V1 q y"
  show ?thesis
    using assms(3,4,6,7) unfolding tx by (rule hash_inj_V1 [OF assms(1)])
next
  fix p x q y
  assume tx: "tx = V2 p x" "tx' = V2 q y"
  show ?thesis
    using assms(3,4,6,7) unfolding tx by (rule hash_inj_V2 [OF assms(1,2)])
qed (use assms(5) in simp_all)

theorem transaction_hash_binding_witness:
  "let h = (\<lambda>b. take 32 (b @ replicate 32 0)) :: bytes \<Rightarrow> bytes;
       tx = V1 example_prefix [] in
   Transaction_hash raw_scalars h tx \<noteq> None \<and>
   inj_on h (tx_preimages raw_scalars h tx) \<and> tx = V1 (tx_prefix tx) []"
proof -
  let ?h = "(\<lambda>b. take 32 (b @ replicate 32 0)) :: bytes \<Rightarrow> bytes"
  let ?tx = "V1 example_prefix [] :: bytes transaction"
  have "hash32 ?h" by (auto simp: hash32_def)
  then have "?tx = V1 (tx_prefix ?tx) []"
    by (rule transaction_hash_binding [OF canonical_raw_scalars _ wf_example_tx])
      (simp_all only: Transaction.sel tx_preimages.simps Un_absorb inj_on_insert inj_on_empty image_empty empty_Diff empty_iff simp_thms not_False_eq_True wf_example_tx)
  then show ?thesis by (simp add: Let_def)
qed

lemma signature_hash_V2:
  "Transaction_signature_hash D h (V2 p (Some z)) =
   Some (h (h (varint_write (2 :: u64) @ TransactionPrefix_write p) @
            h (RctBase_write (proofs_base z) (RctProofs_rct_type z)) @
            h (RctPrunable_signature_write D (proofs_prunable z))))"
  by (simp add: NotPruned_def TransactionPrefix_hash_def)


text \<open>The smallest version 2 transaction with proofs, for the witness: no outputs and an empty ring.\<close>

definition example_proofs :: "bytes RctProofs" where
  "example_proofs =
     \<lparr>proofs_base = \<lparr>rct_fee = 0, rct_pseudo_outs = [], rct_encrypted_amounts = [], rct_commitments = []\<rparr>,
      proofs_prunable =
        RctPrunable.AggregateMlsagBorromean \<lparr>mlsag_ss = [], mlsag_cc = Scalar (replicate 32 7)\<rparr> []\<rparr>"

definition example_rct_prefix :: TransactionPrefix where
  "example_rct_prefix =
     \<lparr>additional_timelock = Timelock_None, tx_inputs = [Gen 0], tx_outputs = [], tx_extra = []\<rparr>"

definition example_hash :: "bytes \<Rightarrow> bytes" where
  "example_hash b = take 32 (word_of_nat (length b) # rev b @ replicate 32 0)"

lemma wf_example_rct: "wf_transaction raw_scalars (V2 example_rct_prefix (Some example_proofs))"
  by (simp add: example_rct_prefix_def example_proofs_def wf_TransactionPrefix_def wf_vec_def wf_raw_vec_def
      fits_usize_def INPUTS_UPPER_BOUND_def MINER_INPUTS_def wf_RctBase_def wf_Mlsag_def
      RctProofs_rct_type_def raw_scalars_def)

lemma example_rct_bytes:
  "varint_write (2 :: u64) @ TransactionPrefix_write example_rct_prefix = [2, 0, 1, 255, 0, 0, 0]"
  "RctBase_write (proofs_base example_proofs) (RctProofs_rct_type example_proofs) = [1, 0]"
  "RctPrunable_write raw_scalars (proofs_prunable example_proofs) (RctProofs_rct_type example_proofs) =
     replicate 32 7"
  "RctPrunable_signature_write raw_scalars (proofs_prunable example_proofs) = []"
proof -
  have "varint_write (1 :: u64) = [1]" "varint_write (2 :: u64) = [2]"
    using varint_write_loop_small [of 1] varint_write_loop_small [of 2]
    by (simp_all add: varint_write_def into_u64_def)
  then show "varint_write (2 :: u64) @ TransactionPrefix_write example_rct_prefix = [2, 0, 1, 255, 0, 0, 0]"
    by (simp add: TransactionPrefix_write_def example_rct_prefix_def write_vec_def vec_len_def varint_write_0)
qed (simp_all add: example_proofs_def RctBase_write_def RctProofs_rct_type_def varint_write_0
      Mlsag_write_def)

lemma hash32_example: "hash32 example_hash"
  by (auto simp: hash32_def example_hash_def)

lemma example_hash_inj:
  "inj_on example_hash (tx_preimages raw_scalars example_hash (V2 example_rct_prefix (Some example_proofs)))"
proof -
  let ?h = example_hash
  let ?l = "[[2, 0, 1, 255, 0, 0, 0], [1, 0], replicate 32 7, [],
      ?h [2, 0, 1, 255, 0, 0, 0] @ ?h [1, 0] @ ?h (replicate 32 7),
      ?h [2, 0, 1, 255, 0, 0, 0] @ ?h [1, 0] @ ?h []] :: bytes list"
  have "distinct (map ?h ?l)" by code_simp
  then have "inj_on ?h (set ?l)" by (simp only: distinct_map)
  then show ?thesis by (simp only: tx_preimages.simps Let_def example_rct_bytes list.set)
qed


text \<open>What is signed does not depend on the signatures: filling in ring signatures, of a version 1
  transaction or of a CLSAG transaction, with the latter's pseudo-outputs, leaves the signature hash
  unchanged.\<close>

theorem signature_hash_ignores_signatures:
  "Transaction_signature_hash D keccak256 (V1 prefix signatures) =
     Transaction_signature_hash D keccak256 (V1 prefix signatures') \<and>
   Transaction_signature_hash D keccak256
     (V2 prefix (Some \<lparr>proofs_base = base, proofs_prunable = RctPrunable.Clsag clsags pseudo_outs bulletproof\<rparr>)) =
   Transaction_signature_hash D keccak256
     (V2 prefix (Some \<lparr>proofs_base = base, proofs_prunable = RctPrunable.Clsag clsags' pseudo_outs' bulletproof\<rparr>))"
  by (cases bulletproof) (simp_all add: signature_hash_V2 RctProofs_rct_type_def del: Transaction_signature_hash.simps(3))

subsection \<open>Timelocks\<close>

fun flip :: "Ordering \<Rightarrow> Ordering" where
  "flip Less = Greater"
| "flip Equal = Equal"
| "flip Greater = Less"

lemma u64_cmp_simps [simp]:
  "u64_cmp a b = Equal \<longleftrightarrow> a = b" "u64_cmp a b = Less \<longleftrightarrow> a < b" "flip (u64_cmp a b) = u64_cmp b a"
  by (auto simp: u64_cmp_def)

text \<open>\<open>Timelock\<close>'s \<open>partial_cmp\<close> is a strict partial order consistent with equality: comparing equal means
  being equal, swapping the operands flips the result, being less is transitive, no timelock is less
  than any other one, and only a block and a time cannot be compared.\<close>

theorem timelock_partial_order:
  "(Timelock_partial_cmp a b = Some Equal \<longleftrightarrow> a = b) \<and>
   Timelock_partial_cmp b a = map_option flip (Timelock_partial_cmp a b) \<and>
   (Timelock_partial_cmp a b = Some Less \<longrightarrow> Timelock_partial_cmp b c = Some Less \<longrightarrow>
      Timelock_partial_cmp a c = Some Less) \<and>
   (Timelock_partial_cmp Timelock_None a = Some Less \<longleftrightarrow> a \<noteq> Timelock_None) \<and>
   (Timelock_partial_cmp a b = None \<longleftrightarrow>
      (\<exists>n t. (a, b) = (Timelock_Block n, Timelock_Time t) \<or> (a, b) = (Timelock_Time t, Timelock_Block n)))"
  by (cases a; cases b; cases c) auto

theorem timelock_partial_order_witness:
  "Timelock_partial_cmp (Timelock_Block 5) (Timelock_Block 6) = Some Less \<and>
   Timelock_partial_cmp (Timelock_Block 6) (Timelock_Block 9) = Some Less \<and>
   Timelock_partial_cmp (Timelock_Block 5) (Timelock_Block 9) = Some Less"
  using timelock_partial_order [of "Timelock_Block 5" "Timelock_Block 6" "Timelock_Block 9"]
  by (simp add: u64_cmp_def)

subsection \<open>Sizes and weight\<close>

lemma Input_write_lower:
  assumes "wf_Input i" and "\<not> is_Gen i"
  shows "NON_GEN_SIZE_LOWER_BOUND \<le> length (Input_write i)"
proof (cases i)
  case (ToKey amt offs img)
  have "LOWER_BOUND \<le> length (varint_write (unwrap_or_0 amt))"
      "LOWER_BOUND \<le> length (write_vec varint_write offs)"
    using varint_u64.wr_lower by (auto simp: write_vec_def intro: trans_le_add1)
  with assms(1) ToKey show ?thesis by (simp add: NON_GEN_SIZE_LOWER_BOUND_def)
qed (use assms in simp)

interpretation output_sized: sized_codec Output_write "Output_read rct" "wf_Output rct"
    Output_SIZE_LOWER_BOUND Output_SIZE_UPPER_BOUND for rct
proof unfold_locales
  fix x
  assume wf: "wf_Output rct x"
  have "LOWER_BOUND \<le> length (varint_write (unwrap_or_0 (out_amount x)))"
      "length (varint_write (unwrap_or_0 (out_amount x))) \<le> UPPER_BOUND TYPE(64)"
    by (rule varint_u64.wr_lower varint_u64.wr_upper; simp)+
  with wf show "Output_SIZE_LOWER_BOUND \<le> length (Output_write x)"
      "length (Output_write x) \<le> Output_SIZE_UPPER_BOUND"
    by (auto simp: Output_write_def wf_Output_def Output_SIZE_LOWER_BOUND_def Output_SIZE_UPPER_BOUND_def
        CompressedPoint_to_bytes_write split: option.splits)
qed

lemma count_le_bound:
  "c * n \<le> m \<Longrightarrow> m \<le> b \<Longrightarrow> 0 < c \<Longrightarrow> n \<le> b div c" for b c m n :: nat
  by (simp add: less_eq_div_iff_mult_less_eq mult.commute)

text \<open>The limits on the numbers of inputs and outputs the reader enforces never reject a transaction of
  an admissible size: the inputs (none a miner's) and the outputs of a transaction of at most
  1,000,000 bytes are within them. Every output's size is within the bounds the constants promise.\<close>

theorem prefix_counts_within_bounds:
  assumes "list_all wf_Input inputs" and "list_all (\<lambda>i. \<not> is_Gen i) inputs"
    and "list_all (wf_Output rct) outputs"
    and "length (write_vec Input_write inputs @ write_vec Output_write outputs) \<le> NON_MINER_SIZE_UPPER_BOUND"
  shows "length inputs \<le> INPUTS_UPPER_BOUND \<and> length outputs \<le> NON_MINER_OUTPUTS_UPPER_BOUND \<and>
         (\<forall>x \<in> set outputs. Output_SIZE_LOWER_BOUND \<le> length (Output_write x) \<and>
                          length (Output_write x) \<le> Output_SIZE_UPPER_BOUND)"
proof (intro conjI ballI)
  have "NON_GEN_SIZE_LOWER_BOUND * length inputs \<le> length (write_raw_vec Input_write inputs)"
    using assms(1,2) by (induction inputs) (auto dest!: Input_write_lower intro: add_mono)
  then have "length inputs \<le> NON_MINER_INPUTS_UPPER_BOUND"
    unfolding NON_MINER_INPUTS_UPPER_BOUND_def
    using assms(4) by (rule_tac count_le_bound) (simp_all add: write_vec_def NON_GEN_SIZE_LOWER_BOUND_def)
  then show "length inputs \<le> INPUTS_UPPER_BOUND" by (simp add: INPUTS_UPPER_BOUND_def)
  have "Output_SIZE_LOWER_BOUND * length outputs \<le> length (write_raw_vec Output_write outputs)"
    using output_sized.length_write_raw_vec [OF assms(3)] by simp
  then show "length outputs \<le> NON_MINER_OUTPUTS_UPPER_BOUND"
    unfolding NON_MINER_OUTPUTS_UPPER_BOUND_def
    using assms(4) by (rule_tac count_le_bound) (simp_all add: write_vec_def Output_SIZE_LOWER_BOUND_def)
  fix x
  assume "x \<in> set outputs"
  with assms(3) have "wf_Output rct x" by (simp add: list_all_iff)
  then show "Output_SIZE_LOWER_BOUND \<le> length (Output_write x)"
      "length (Output_write x) \<le> Output_SIZE_UPPER_BOUND"
    by (rule output_sized.wr_lower, rule output_sized.wr_upper)
qed

theorem prefix_counts_within_bounds_witness:
  "let out = \<lparr>out_amount = None, out_key = CompressedPoint (replicate 32 9), out_view_tag = Some 5\<rparr>;
       inp = ToKey None [] (CompressedPoint (replicate 32 3)) in
   wf_Input inp \<and> wf_Output True out \<and> length [inp] \<le> INPUTS_UPPER_BOUND \<and>
   length (Output_write out) \<le> Output_SIZE_UPPER_BOUND"
proof -
  let ?out = "\<lparr>out_amount = None, out_key = CompressedPoint (replicate 32 9), out_view_tag = Some 5\<rparr>"
  let ?inp = "ToKey None [] (CompressedPoint (replicate 32 3))"
  have one: "varint_write (1 :: u64) = [1]"
    using varint_write_loop_small [of 1] by (simp add: varint_write_def into_u64_def)
  have "length (write_vec Input_write [?inp] @ write_vec Output_write [?out]) \<le> NON_MINER_SIZE_UPPER_BOUND"
    by (simp add: write_vec_def vec_len_def one Output_write_def unwrap_or_0_def varint_write_0
        NON_MINER_SIZE_UPPER_BOUND_def)
  then show ?thesis
    using prefix_counts_within_bounds [of "[?inp]" True "[?out]"]
    by (simp add: Let_def wf_vec_def fits_usize_def wf_Output_def)
qed

text \<open>The weight of a transaction is always defined and is its size, plus a penalty exactly when it has
  Bulletproofs(+) over more than two outputs.\<close>

theorem transaction_weight:
  "\<exists>weight. Transaction_weight D tx = Some weight \<and>
     length (Transaction_write (NotPruned D) tx) \<le> weight \<and>
     (length (Transaction_write (NotPruned D) tx) < weight \<longleftrightarrow>
        (is_rct_bulletproof tx \<or> is_rct_bulletproof_plus tx) \<and> 2 < length (tx_outputs (tx_prefix tx)))"
proof (cases "is_rct_bulletproof tx \<or> is_rct_bulletproof_plus tx")
  case True
  then obtain prefix proofs where tx: "tx = V2 prefix proofs" by (cases tx) auto
  obtain clawback k where
    "calculate_clawback (is_rct_bulletproof_plus tx) (length (tx_outputs prefix)) = Some (clawback, k)"
    "clawback = 0 \<longleftrightarrow> length (tx_outputs prefix) \<le> 2"
    using calculate_clawback_cases by blast
  with True tx show ?thesis by (auto simp: Transaction_weight_def Let_def)
qed (auto simp: Transaction_weight_def Let_def)

end
