(* ===== verification/Merkle.thy ===== *)
theory Merkle
  imports Monero_Io
begin

text \<open>
  \<^verbatim>\<open>src/merkle.rs\<close>: the Merkle root of a block's transactions, computed in place over the leaves.
  Keccak-256 is a parameter. A run that would panic (an index or a subtraction out of range) or not
  end is \<open>None\<close> of \<open>merkle_loop\<close>; the correctness theorem shows there is no such run.
\<close>

definition merkle_pair :: "(bytes \<Rightarrow> bytes) \<Rightarrow> bytes \<Rightarrow> bytes \<Rightarrow> bytes" where
  "merkle_pair keccak256 left right = keccak256 (left @ right)"

text \<open>The \<open>for\<close> loop: branch \<open>i\<close> overwrites entry \<open>start + i\<close>.\<close>

definition pair_step :: "(bytes \<Rightarrow> bytes) \<Rightarrow> nat \<Rightarrow> nat \<Rightarrow> bytes list \<Rightarrow> bytes list option" where
  "pair_step keccak256 start i leaves =
     (if start + (2 * i) + 1 < length leaves
      then
        let left = leaves ! (start + (2 * i));
            right = leaves ! (start + (2 * i) + 1)
        in Some (leaves[start + i := merkle_pair keccak256 left right])
      else None)"

primrec pair_off :: "(bytes \<Rightarrow> bytes) \<Rightarrow> nat \<Rightarrow> nat \<Rightarrow> bytes list \<Rightarrow> bytes list option" where
  "pair_off keccak256 start 0 leaves = Some leaves"
| "pair_off keccak256 start (Suc overage) leaves =
     Option.bind (pair_off keccak256 start overage leaves) (pair_step keccak256 start overage)"

partial_function (option) merkle_loop ::
  "(bytes \<Rightarrow> bytes) \<Rightarrow> bytes list \<Rightarrow> nat \<Rightarrow> bytes option" where
  "merkle_loop keccak256 leaves low_pow_2 =
     (if length leaves \<noteq> 1
      then
        let low_pow_2 = (if length leaves = low_pow_2 then low_pow_2 div 2 else low_pow_2)
        in if length leaves < low_pow_2 then None
           else
             let overage = length leaves - low_pow_2
             in if low_pow_2 < overage then None
                else
                  let start = low_pow_2 - overage
                  in Option.bind (pair_off keccak256 start overage leaves) (\<lambda>leaves.
                       merkle_loop keccak256 (take low_pow_2 leaves) low_pow_2)
      else Some (leaves ! 0))"

definition merkle_root :: "(bytes \<Rightarrow> bytes) \<Rightarrow> bytes list \<Rightarrow> bytes option" where
  "merkle_root keccak256 leaves =
     (if length leaves = 0 then None
      else if length leaves = 1 then Some (leaves ! 0)
      else if length leaves = 2 then Some (merkle_pair keccak256 (leaves ! 0) (leaves ! 1))
      else
        let highest_bit_set = 64 - leading_zeros (vec_len leaves);
            low_pow_2 = 2 ^ (highest_bit_set - 1)
        in merkle_loop keccak256 leaves low_pow_2)"

subsection \<open>The tree, as a recursion\<close>

text \<open>
  \<open>perfect_tree h k xs\<close> is the root over \<open>2 ^ k\<close> leaves, each branch the hash of its two children.
  \<open>tree_hash h xs\<close> pairs off the last leaves so that a power of two nodes is left.
\<close>

fun hash_pairs :: "(bytes \<Rightarrow> bytes) \<Rightarrow> bytes list \<Rightarrow> bytes list" where
  "hash_pairs h (x # y # xs) = h (x @ y) # hash_pairs h xs"
| "hash_pairs h xs = xs"

primrec perfect_tree :: "(bytes \<Rightarrow> bytes) \<Rightarrow> nat \<Rightarrow> bytes list \<Rightarrow> bytes" where
  "perfect_tree h 0 xs = xs ! 0"
| "perfect_tree h (Suc k) xs =
     h (perfect_tree h k (take (2 ^ k) xs) @ perfect_tree h k (drop (2 ^ k) xs))"

definition reduce_leaves :: "(bytes \<Rightarrow> bytes) \<Rightarrow> nat \<Rightarrow> bytes list \<Rightarrow> bytes list" where
  "reduce_leaves h p xs =
     take (2 * p - length xs) xs @ hash_pairs h (drop (2 * p - length xs) xs)"

text \<open>The power of two the tree is reduced to: \<open>2 ^ k < n \<le> 2 ^ (k + 1)\<close>.\<close>

fun tree_depth :: "nat \<Rightarrow> nat" where
  "tree_depth n = (if n \<le> 2 then 0 else Suc (tree_depth ((n + 1) div 2)))"

declare tree_depth.simps [simp del]

definition tree_hash :: "(bytes \<Rightarrow> bytes) \<Rightarrow> bytes list \<Rightarrow> bytes option" where
  "tree_hash h xs =
     (case xs of
        [] \<Rightarrow> None
      | [x] \<Rightarrow> Some x
      | _ \<Rightarrow> let k = tree_depth (length xs)
             in Some (perfect_tree h k (reduce_leaves h (2 ^ k) xs)))"

lemma tree_depth_bounds: "2 \<le> n \<Longrightarrow> 2 ^ tree_depth n < n \<and> n \<le> 2 * 2 ^ tree_depth n"
proof (induction n rule: tree_depth.induct)
  case (1 n)
  show ?case
  proof (cases "n \<le> 2")
    case True
    then show ?thesis using 1(2) by (subst (1 2) tree_depth.simps) simp
  next
    case False
    then have "2 \<le> (n + 1) div 2" by simp
    with 1(1) [OF False] have "2 ^ tree_depth ((n + 1) div 2) < (n + 1) div 2 \<and>
        (n + 1) div 2 \<le> 2 * 2 ^ tree_depth ((n + 1) div 2)" by simp
    moreover have "2 ^ tree_depth n = 2 * (2::nat) ^ tree_depth ((n + 1) div 2)"
      using False by (subst tree_depth.simps) simp
    ultimately show ?thesis by linarith
  qed
qed

lemma length_hash_pairs: "even (length xs) \<Longrightarrow> length (hash_pairs h xs) = length xs div 2"
  by (induction h xs rule: hash_pairs.induct) auto

lemma hash_pairs_append:
  "even (length xs) \<Longrightarrow> hash_pairs h (xs @ ys) = hash_pairs h xs @ hash_pairs h ys"
  by (induction h xs rule: hash_pairs.induct) auto

lemma pair_off_pairs:
  "start + 2 * m \<le> length xs \<Longrightarrow>
   pair_off h start m xs =
     Some (take start xs @ hash_pairs h (take (2 * m) (drop start xs)) @ drop (start + m) xs)"
proof (induction m)
  case (Suc m)
  let ?done = "take start xs @ hash_pairs h (take (2 * m) (drop start xs))"
  let ?ls = "?done @ drop (start + m) xs"
  have len: "length ?done = start + m" using Suc.prems by (simp add: length_hash_pairs)
  have nth: "?ls ! i = xs ! i" if "start + m \<le> i" "i < length xs" for i
    using that len by (simp add: nth_append del: append_assoc)
  have "?ls ! (start + 2 * m) = xs ! (start + 2 * m)"
    by (rule nth) (use Suc.prems in simp_all)
  moreover have "?ls ! (start + 2 * m + 1) = xs ! (start + 2 * m + 1)"
    by (rule nth) (use Suc.prems in simp_all)
  ultimately have at: "?ls ! (start + 2 * m) = xs ! (start + 2 * m)"
      "?ls ! (start + 2 * m + 1) = xs ! (start + 2 * m + 1)" .
  have "take (2 * Suc m) (drop start xs) =
        take (2 * m) (drop start xs) @ [xs ! (start + 2 * m), xs ! (start + 2 * m + 1)]"
    using Suc.prems by (simp add: take_Suc_conv_app_nth)
  then have pairs: "hash_pairs h (take (2 * Suc m) (drop start xs)) =
      hash_pairs h (take (2 * m) (drop start xs)) @ [h (xs ! (start + 2 * m) @ xs ! (start + 2 * m + 1))]"
    using Suc.prems by (simp add: hash_pairs_append)
  have drop: "drop (start + m) xs = xs ! (start + m) # drop (start + Suc m) xs"
    using Suc.prems by (simp add: Cons_nth_drop_Suc)
  have "?ls[start + m := y] = ?done @ y # drop (start + Suc m) xs" for y
    using list_update_length [of ?done "xs ! (start + m)" "drop (start + Suc m) xs" y]
    by (simp only: len drop)
  then show ?case
    using Suc len at pairs by (simp add: pair_step_def merkle_pair_def Let_def)
qed simp

lemma pair_off_reduce:
  assumes "p < length xs" and "length xs \<le> 2 * p"
  shows "map_option (take p) (pair_off h (p - (length xs - p)) (length xs - p) xs) =
         Some (reduce_leaves h p xs)"
proof -
  let ?s = "2 * p - length xs" and ?m = "length xs - p"
  have s: "p - (length xs - p) = ?s" and sm: "?s + 2 * ?m = length xs" and p: "?s + ?m = p"
    using assms by auto
  have "length (take ?s xs @ hash_pairs h (drop ?s xs)) = p"
    using sm p assms by (simp add: length_hash_pairs)
  moreover have "take (2 * ?m) (drop ?s xs) = drop ?s xs" using sm by simp
  ultimately show ?thesis
    using pair_off_pairs [of ?s ?m xs h] sm by (simp add: s reduce_leaves_def)
qed

lemma length_reduce_leaves:
  assumes "p < length xs" and "length xs \<le> 2 * p"
  shows "length (reduce_leaves h p xs) = p"
  using assms by (simp add: reduce_leaves_def length_hash_pairs)

lemma perfect_tree_pairs:
  "length xs = 2 * 2 ^ k \<Longrightarrow> perfect_tree h (Suc k) xs = perfect_tree h k (hash_pairs h xs)"
proof (induction k arbitrary: xs)
  case 0
  then obtain a b where "xs = [a, b]" by (auto simp: numeral_eq_Suc length_Suc_conv)
  then show ?case by simp
next
  case (Suc k)
  let ?l = "take (2 * 2 ^ k) xs" and ?r = "drop (2 * 2 ^ k) xs"
  have xs: "hash_pairs h xs = hash_pairs h ?l @ hash_pairs h ?r"
    using Suc.prems hash_pairs_append [of ?l h ?r] by simp
  have len: "length (hash_pairs h ?l) = 2 ^ k" using Suc.prems by (simp add: length_hash_pairs)
  have "perfect_tree h (Suc (Suc k)) xs = h (perfect_tree h (Suc k) ?l @ perfect_tree h (Suc k) ?r)"
    by (subst perfect_tree.simps) simp
  also have "\<dots> = h (perfect_tree h k (hash_pairs h ?l) @ perfect_tree h k (hash_pairs h ?r))"
    using Suc.prems by (simp add: Suc.IH del: perfect_tree.simps)
  finally show ?case using len by (simp add: xs)
qed

lemma merkle_loop_step:
  assumes "length xs \<noteq> 1" and "p < length xs" and "length xs \<le> 2 * p"
    and "low = p \<or> low = length xs \<and> length xs div 2 = p"
  shows "merkle_loop h xs low = merkle_loop h (reduce_leaves h p xs) p"
proof -
  obtain ys where ys: "pair_off h (p - (length xs - p)) (length xs - p) xs = Some ys"
      "take p ys = reduce_leaves h p xs"
    using pair_off_reduce [OF assms(2,3), of h] by auto
  have "(if length xs = low then low div 2 else low) = p" using assms by auto
  moreover have "\<not> p < length xs - p" "\<not> length xs < p" using assms(2,3) by auto
  ultimately show ?thesis
    using assms(1) ys by (subst merkle_loop.simps) (simp add: Let_def)
qed

lemma merkle_loop_perfect:
  "length xs = 2 ^ k \<Longrightarrow> merkle_loop h xs (2 ^ k) = Some (perfect_tree h k xs)"
proof (induction k arbitrary: xs)
  case 0
  then show ?case by (subst merkle_loop.simps) simp
next
  case (Suc k)
  have red: "reduce_leaves h (2 ^ k) xs = hash_pairs h xs"
    using Suc.prems by (simp add: reduce_leaves_def)
  have "merkle_loop h xs (2 ^ Suc k) = merkle_loop h (hash_pairs h xs) (2 ^ k)"
    using Suc.prems merkle_loop_step [of xs "2 ^ k" "2 ^ Suc k" h] red by simp
  also have "\<dots> = Some (perfect_tree h k (hash_pairs h xs))"
    using Suc.prems by (intro Suc.IH) (simp add: length_hash_pairs)
  finally show ?case using Suc.prems by (simp add: perfect_tree_pairs del: perfect_tree.simps)
qed


subsection \<open>The root\<close>

lemma highest_bit:
  assumes "1 \<le> length xs" and "fits_usize xs"
  defines "b \<equiv> 64 - leading_zeros (vec_len xs)"
  shows "2 ^ (b - 1) \<le> length xs \<and> length xs < 2 * 2 ^ (b - 1)"
proof -
  have u: "unat (vec_len xs) = length xs" using assms(2) by simp
  have "length xs < 2 ^ b" using bit_length_bounds(1) [of "vec_len xs"] by (simp add: u b_def)
  moreover from this have "0 < b" using assms(1) by (cases b) auto
  moreover from this have "2 ^ (b - 1) \<le> length xs"
    using bit_length_bounds(2) [of "vec_len xs"] by (simp add: u b_def)
  ultimately show ?thesis by (cases b) auto
qed

lemma pow2_unique:
  fixes a b n :: nat
  assumes "2 ^ a < n" "n \<le> 2 * 2 ^ a" "2 ^ b < n" "n \<le> 2 * 2 ^ b"
  shows "a = b"
proof (rule ccontr)
  assume "a \<noteq> b"
  then consider "Suc a \<le> b" | "Suc b \<le> a" by linarith
  then show False
  proof cases
    case 1
    then have "(2::nat) ^ Suc a \<le> 2 ^ b" by (intro power_increasing) auto
    then show False using assms by simp
  next
    case 2
    then have "(2::nat) ^ Suc b \<le> 2 ^ a" by (intro power_increasing) auto
    then show False using assms by simp
  qed
qed

lemma merkle_root_eq_tree_hash:
  assumes "fits_usize xs"
  shows "merkle_root keccak256 xs = tree_hash keccak256 xs"
proof -
  consider "xs = []" | x where "xs = [x]" | x y where "xs = [x, y]" | "3 \<le> length xs"
    by (cases xs rule: remdups_adj.cases) (auto simp: numeral_eq_Suc Suc_le_eq)
  then show ?thesis
  proof cases
    case 4
    let ?k = "tree_depth (length xs)" and ?b = "64 - leading_zeros (vec_len xs) - 1"
    have k: "2 ^ ?k < length xs" "length xs \<le> 2 * 2 ^ ?k" using tree_depth_bounds [of "length xs"] 4 by auto
    have b: "2 ^ ?b \<le> length xs" "length xs < 2 * 2 ^ ?b" using highest_bit [of xs] assms 4 by auto
    have low: "2 ^ ?b = (2::nat) ^ ?k \<or> 2 ^ ?b = length xs \<and> length xs div 2 = 2 ^ ?k"
    proof (cases "2 ^ ?b = length xs")
      case False
      then have "?b = ?k" using pow2_unique [of ?b "length xs" ?k] b k by simp
      then show ?thesis by simp
    next
      case True
      then obtain c where c: "?b = Suc c" using 4 by (cases ?b) auto
      then have "2 * 2 ^ c = length xs" using True by simp
      then have "c = ?k" using pow2_unique [of c "length xs" ?k] k 4 by simp
      then show ?thesis using True c by (metis nonzero_mult_div_cancel_left power_Suc zero_neq_numeral)
    qed
    have "merkle_loop keccak256 xs (2 ^ ?b) =
        merkle_loop keccak256 (reduce_leaves keccak256 (2 ^ ?k) xs) (2 ^ ?k)"
      using merkle_loop_step [of xs "2 ^ ?k" "2 ^ ?b" keccak256] k low 4 by simp
    also have "\<dots> = Some (perfect_tree keccak256 ?k (reduce_leaves keccak256 (2 ^ ?k) xs))"
      using k by (intro merkle_loop_perfect length_reduce_leaves)
    finally have loop: "merkle_loop keccak256 xs (2 ^ ?b) = \<dots>" .
    obtain x y zs where "xs = x # y # zs" using 4 by (cases xs rule: remdups_adj.cases) auto
    then have "tree_hash keccak256 xs = Some (perfect_tree keccak256 ?k (reduce_leaves keccak256 (2 ^ ?k) xs))"
      by (simp add: tree_hash_def Let_def)
    moreover have "merkle_root keccak256 xs = merkle_loop keccak256 xs (2 ^ ?b)"
      using 4 by (auto simp: merkle_root_def Let_def)
    ultimately show ?thesis using loop by simp
  qed (simp_all add: merkle_root_def tree_hash_def merkle_pair_def reduce_leaves_def tree_depth.simps)
qed

text \<open>
  C29. \<open>merkle_root\<close>, which overwrites its leaves in place, computes the recursive tree: the last leaves
  are hashed in pairs so that a power of two nodes is left, over which the root is that of the perfect
  binary tree. It returns \<open>None\<close> exactly for no leaves, and for any other number of leaves it returns,
  no index or subtraction being out of range.
\<close>

theorem merkle_root_tree_hash:
  assumes "fits_usize xs"
  shows "merkle_root keccak256 xs = tree_hash keccak256 xs"
  by (rule merkle_root_eq_tree_hash [OF assms])

theorem merkle_root_tree_hash_witness:
  "fits_usize [[1], [2], [3 :: u8]] \<and>
   merkle_root (\<lambda>b. 7 # b) [[1], [2], [3 :: u8]] = Some [7, 1, 7, 2, 3] \<and>
   merkle_root (\<lambda>b. 7 # b) [[1], [2], [3 :: u8]] = tree_hash (\<lambda>b. 7 # b) [[1], [2], [3]]"
proof -
  have fits: "fits_usize [[1], [2], [3 :: u8]]" by (simp add: fits_usize_def)
  have "tree_hash (\<lambda>b. 7 # b) [[1], [2], [3 :: u8]] = Some [7, 1, 7, 2, 3]"
    by (simp add: tree_hash_def reduce_leaves_def tree_depth.simps)
  with merkle_root_tree_hash [OF fits, of "\<lambda>b. 7 # b"] fits show ?thesis by simp
qed

subsection \<open>The root binds the leaves\<close>

text \<open>The strings which are hashed to compute a root, a finite set for any leaves.\<close>

fun pair_preimages :: "bytes list \<Rightarrow> bytes set" where
  "pair_preimages (x # y # xs) = insert (x @ y) (pair_preimages xs)"
| "pair_preimages xs = {}"

primrec tree_preimages :: "(bytes \<Rightarrow> bytes) \<Rightarrow> nat \<Rightarrow> bytes list \<Rightarrow> bytes set" where
  "tree_preimages h 0 xs = {}"
| "tree_preimages h (Suc k) xs =
     insert (perfect_tree h k (take (2 ^ k) xs) @ perfect_tree h k (drop (2 ^ k) xs))
       (tree_preimages h k (take (2 ^ k) xs) \<union> tree_preimages h k (drop (2 ^ k) xs))"

definition merkle_preimages :: "(bytes \<Rightarrow> bytes) \<Rightarrow> bytes list \<Rightarrow> bytes set" where
  "merkle_preimages h xs =
     (if length xs \<le> 1 then {}
      else let k = tree_depth (length xs)
           in pair_preimages (drop (2 * 2 ^ k - length xs) xs) \<union>
              tree_preimages h k (reduce_leaves h (2 ^ k) xs))"

abbreviation nodes :: "bytes list \<Rightarrow> bool" where
  "nodes xs \<equiv> list_all (\<lambda>x. length x = 32) xs"

lemma branch_inj:
  assumes "inj_on h S" and "h (a @ b) = h (c @ d)" and "a @ b \<in> S" "c @ d \<in> S"
    and "length a = length c"
  shows "a = c \<and> b = d"
  using inj_onD [OF assms(1-4)] assms(5) by simp

lemma hash_pairs_nodes:
  "hash32 h \<Longrightarrow> nodes xs \<Longrightarrow> nodes (hash_pairs h xs)"
  by (induction h xs rule: hash_pairs.induct) (simp_all add: hash32_def)

lemma hash_pairs_inj:
  "inj_on h S \<Longrightarrow> pair_preimages xs \<subseteq> S \<Longrightarrow> pair_preimages ys \<subseteq> S \<Longrightarrow>
    length xs = length ys \<Longrightarrow> nodes xs \<Longrightarrow> nodes ys \<Longrightarrow>
    hash_pairs h xs = hash_pairs h ys \<Longrightarrow> xs = ys"
proof (induction h xs arbitrary: ys rule: hash_pairs.induct)
  case (1 h x y xs)
  then obtain a b zs where ys: "ys = a # b # zs" by (cases ys; cases "tl ys") auto
  then have ab: "x = a \<and> y = b" using "1.prems" by (intro branch_inj [of h S x y a b]) simp_all
  have "xs = zs" using "1.prems" ys by (intro "1.IH") simp_all
  with ab ys show ?case by simp
qed (auto simp: length_Suc_conv eq_commute [of "Suc 0"])

lemma perfect_tree_node:
  assumes "hash32 h"
  shows "length xs = 2 ^ k \<Longrightarrow> nodes xs \<Longrightarrow> length (perfect_tree h k xs) = 32"
  using assms by (cases k; cases xs) (simp_all add: hash32_def)

lemma perfect_tree_inj:
  assumes inj: "inj_on h S" and len: "hash32 h"
  shows "tree_preimages h k xs \<subseteq> S \<Longrightarrow> tree_preimages h k ys \<subseteq> S \<Longrightarrow>
    length xs = 2 ^ k \<Longrightarrow> length ys = 2 ^ k \<Longrightarrow> nodes xs \<Longrightarrow> nodes ys \<Longrightarrow>
    perfect_tree h k xs = perfect_tree h k ys \<Longrightarrow> xs = ys"
proof (induction k arbitrary: xs ys)
  case 0
  then show ?case by (auto simp: length_Suc_conv)
next
  case (Suc k)
  let ?l = "take (2 ^ k)" and ?r = "drop (2 ^ k)"
  have n: "nodes (?l zs)" "nodes (?r zs)" if "nodes zs" for zs
    using that by (auto simp: list_all_iff dest: in_set_takeD in_set_dropD)
  have l: "length (?l zs) = 2 ^ k" "length (?r zs) = 2 ^ k" if "length zs = 2 ^ Suc k" for zs :: "bytes list"
    using that by simp_all
  have t: "length (perfect_tree h k (?l zs)) = 32" if "length zs = 2 ^ Suc k" "nodes zs" for zs
    using perfect_tree_node [OF len] l [OF that(1)] n [OF that(2)] by blast
  have S: "tree_preimages h k (?l zs) \<subseteq> S" "tree_preimages h k (?r zs) \<subseteq> S"
      "perfect_tree h k (?l zs) @ perfect_tree h k (?r zs) \<in> S"
    if "tree_preimages h (Suc k) zs \<subseteq> S" for zs using that by simp_all
  have "h (perfect_tree h k (?l xs) @ perfect_tree h k (?r xs)) =
        h (perfect_tree h k (?l ys) @ perfect_tree h k (?r ys))"
    using Suc.prems(7) by simp
  from branch_inj [OF inj this S(3) [OF Suc.prems(1)] S(3) [OF Suc.prems(2)]]
  have eq: "perfect_tree h k (?l xs) = perfect_tree h k (?l ys)"
      "perfect_tree h k (?r xs) = perfect_tree h k (?r ys)"
    using t Suc.prems(3-6) by simp_all
  have "?l xs = ?l ys" using Suc.IH [OF _ _ _ _ _ _ eq(1)] l n S Suc.prems(1-6) by blast
  moreover have "?r xs = ?r ys" using Suc.IH [OF _ _ _ _ _ _ eq(2)] l n S Suc.prems(1-6) by blast
  ultimately show ?case by (metis append_take_drop_id)
qed

lemma nodes_reduce_leaves:
  assumes "hash32 h" and "nodes zs"
  shows "nodes (reduce_leaves h p zs)"
  using assms hash_pairs_nodes [of h "drop (2 * p - length zs) zs"]
  by (auto simp: reduce_leaves_def list_all_iff dest: in_set_takeD in_set_dropD)

lemma tree_hash_inj:
  assumes "hash32 h" and inj: "inj_on h (merkle_preimages h xs \<union> merkle_preimages h ys)"
    and len: "length xs = length ys" and nodes: "nodes xs" "nodes ys"
    and eq: "tree_hash h xs = tree_hash h ys"
  shows "xs = ys"
proof (cases "length xs \<le> 1")
  case True
  then show ?thesis using eq len by (cases xs; cases ys) (auto simp: tree_hash_def)
next
  case False
  define k where "k = tree_depth (length xs)"
  define s where "s = 2 * 2 ^ k - length xs"
  let ?S = "merkle_preimages h xs \<union> merkle_preimages h ys"
  have k: "2 ^ k < length xs" "length xs \<le> 2 * 2 ^ k"
    using tree_depth_bounds [of "length xs"] False by (auto simp: k_def)
  have root: "tree_hash h zs = Some (perfect_tree h k (reduce_leaves h (2 ^ k) zs))"
    if "length zs = length xs" for zs
    using that False by (auto simp: tree_hash_def Let_def k_def split: list.split)
  have S: "pair_preimages (drop s zs) \<subseteq> ?S" "tree_preimages h k (reduce_leaves h (2 ^ k) zs) \<subseteq> ?S"
    if "zs \<in> {xs, ys}" for zs
    using that False len by (auto simp: merkle_preimages_def Let_def k_def s_def)
  note n = nodes_reduce_leaves [OF assms(1)]
  have rl: "length (reduce_leaves h (2 ^ k) zs) = 2 ^ k" if "length zs = length xs" for zs
    using k that by (intro length_reduce_leaves) auto
  have "perfect_tree h k (reduce_leaves h (2 ^ k) xs) = perfect_tree h k (reduce_leaves h (2 ^ k) ys)"
    using eq root [of xs] root [of ys] len by simp
  then have "reduce_leaves h (2 ^ k) xs = reduce_leaves h (2 ^ k) ys"
    using S rl n nodes len by (intro perfect_tree_inj [OF inj assms(1)]) auto
  then have "take s xs = take s ys" and pairs: "hash_pairs h (drop s xs) = hash_pairs h (drop s ys)"
    using len by (auto simp: reduce_leaves_def s_def)
  moreover have "drop s xs = drop s ys"
    using S nodes len by (intro hash_pairs_inj [OF inj _ _ _ _ _ pairs])
      (auto simp: list_all_iff dest: in_set_dropD)
  ultimately show ?thesis by (metis append_take_drop_id)
qed

text \<open>
  The root commits to the leaves: of two lists of as many 32-byte leaves with the same root, either
  they are the same list, or the computation of their roots hashes two distinct strings to the same
  Keccak-256 digest. (Without the number of leaves the root does not bind them, as the comment of
  \<open>merkle_root\<close> warns.)
\<close>

theorem merkle_root_binding:
  assumes "hash32 keccak256"
    and "inj_on keccak256 (merkle_preimages keccak256 xs \<union> merkle_preimages keccak256 ys)"
    and "length xs = length ys" and "fits_usize xs" and "nodes xs" and "nodes ys"
    and "merkle_root keccak256 xs = merkle_root keccak256 ys"
  shows "xs = ys"
  using assms merkle_root_eq_tree_hash [of xs keccak256] merkle_root_eq_tree_hash [of ys keccak256]
  by (intro tree_hash_inj [of keccak256]) (auto simp: fits_usize_def)

text \<open>A hash of 32-byte digests without a collision on the few strings of the example: the first half of
  its input.\<close>

theorem merkle_root_binding_witness:
  "let h = (\<lambda>b. take 32 (b @ replicate 32 0)) :: bytes \<Rightarrow> bytes;
       xs = [replicate 32 1, replicate 32 2, replicate 32 3]; ys = map (replicate 32) [1, 2, 3] in
   inj_on h (merkle_preimages h xs \<union> merkle_preimages h ys) \<and>
   merkle_root h xs = Some (replicate 32 1) \<and> xs = ys"
proof -
  let ?h = "(\<lambda>b. take 32 (b @ replicate 32 0)) :: bytes \<Rightarrow> bytes"
  let ?xs = "[replicate 32 1, replicate 32 2, replicate 32 3] :: bytes list"
  let ?ys = "map (replicate 32) [1, 2, 3] :: bytes list"
  have pre: "merkle_preimages ?h zs = {replicate 32 1 @ replicate 32 2, replicate 32 2 @ replicate 32 3}"
    if "zs \<in> {?xs, ?ys}" for zs
    using that by (auto simp: merkle_preimages_def Let_def tree_depth.simps reduce_leaves_def)
  have "inj_on ?h {replicate 32 1 @ replicate 32 2, replicate 32 2 @ replicate 32 3}"
    by (simp add: numeral_eq_Suc)
  then have inj: "inj_on ?h (merkle_preimages ?h ?xs \<union> merkle_preimages ?h ?ys)"
    by (simp only: pre [OF insertI1] pre [OF insertI2 [OF singletonI]] Un_absorb)
  have fits: "fits_usize ?xs" by (simp add: fits_usize_def)
  have root: "merkle_root ?h ?xs = Some (replicate 32 1)"
    by (simp add: merkle_root_eq_tree_hash [OF fits] tree_hash_def tree_depth.simps reduce_leaves_def)
  have "?xs = ?ys"
    by (rule merkle_root_binding [OF _ inj]) (auto simp: hash32_def fits_usize_def)
  with inj root show ?thesis by (simp only: Let_def simp_thms)
qed

end
