(* ===== verification/Block.thy ===== *)
theory Block
  imports Transaction Merkle
begin

text \<open>
  Blocks (\<^verbatim>\<open>src/block.rs\<close>): the header, the miner transaction and the hashes of the other
  transactions; the proof of work preimage and the block hash with its historical exception.
\<close>

definition CORRECT_BLOCK_HASH_202612 :: bytes where
  "CORRECT_BLOCK_HASH_202612 =
     [66, 109, 22, 207, 240, 76, 113, 248, 177, 99, 64, 183, 34, 220, 64, 16,
      162, 221, 56, 49, 194, 32, 65, 67, 31, 119, 37, 71, 186, 110, 51, 26]"

definition EXISTING_BLOCK_HASH_202612 :: bytes where
  "EXISTING_BLOCK_HASH_202612 =
     [187, 214, 4, 210, 186, 17, 186, 39, 147, 94, 0, 110, 211, 156, 155, 253,
      217, 155, 118, 191, 74, 80, 101, 75, 193, 225, 230, 18, 23, 150, 38, 152]"

subsection \<open>BlockHeader\<close>

record BlockHeader =
  hardfork_version :: u8
  hardfork_signal :: u8
  header_timestamp :: u64
  header_previous :: bytes
  header_nonce :: u32

definition BlockHeader_SIZE_UPPER_BOUND :: nat where
  "BlockHeader_SIZE_UPPER_BOUND =
     UPPER_BOUND TYPE(8) + UPPER_BOUND TYPE(8) + UPPER_BOUND TYPE(64) + 32 + 4"

definition BlockHeader_write :: "BlockHeader \<Rightarrow> bytes" where
  "BlockHeader_write x =
     varint_write (hardfork_version x) @ varint_write (hardfork_signal x) @
     varint_write (header_timestamp x) @ header_previous x @ to_le_bytes (header_nonce x)"

definition BlockHeader_read :: "BlockHeader reader" where
  "BlockHeader_read =
     and_then varint_read (\<lambda>version.
     and_then varint_read (\<lambda>signal.
     and_then varint_read (\<lambda>timestamp.
     and_then (read_bytes 32) (\<lambda>previous.
     and_then (and_then (read_bytes 4) (\<lambda>bs. ok (from_le_bytes bs))) (\<lambda>nonce.
     ok \<lparr>hardfork_version = version, hardfork_signal = signal, header_timestamp = timestamp,
         header_previous = previous, header_nonce = nonce\<rparr>)))))"

subsection \<open>Block\<close>

record 's Block =
  block_header :: BlockHeader
  miner_transaction :: "'s transaction"
  block_transactions :: "bytes list"

definition MAX_TRANSACTIONS :: nat where
  "MAX_TRANSACTIONS = 0x10000000"

definition Block_new :: "BlockHeader \<Rightarrow> 's transaction \<Rightarrow> bytes list \<Rightarrow> 's Block option" where
  "Block_new header miner_tx transactions =
     (let inputs = tx_inputs (tx_prefix miner_tx)
      in if length inputs \<noteq> 1 then None
         else case inputs ! 0 of
           Gen _ \<Rightarrow> Some \<lparr>block_header = header, miner_transaction = miner_tx,
                        block_transactions = transactions\<rparr>
         | ToKey _ _ _ \<Rightarrow> None)"

text \<open>\<open>None\<close> is the panic on an invalid miner transaction.\<close>

definition Block_number :: "'s Block \<Rightarrow> usize option" where
  "Block_number block =
     (case tx_inputs (tx_prefix (miner_transaction block)) of
        Gen number # _ \<Rightarrow> Some number
      | _ \<Rightarrow> None)"

definition Block_write :: "('s, 'z) dalek_scalar_scheme \<Rightarrow> 's Block \<Rightarrow> bytes" where
  "Block_write D block =
     BlockHeader_write (block_header block) @
     Transaction_write (NotPruned D) (miner_transaction block) @
     varint_write (vec_len (block_transactions block)) @
     write_raw_vec (\<lambda>tx. tx) (block_transactions block)"

text \<open>\<open>None\<close> is the panic where the tree is empty or the miner transaction cannot be hashed.\<close>

definition serialize_pow_hash ::
  "('s, 'z) dalek_scalar_scheme \<Rightarrow> (bytes \<Rightarrow> bytes) \<Rightarrow> 's Block \<Rightarrow> bytes option" where
  "serialize_pow_hash D keccak256 block =
     Option.bind (Transaction_hash D keccak256 (miner_transaction block)) (\<lambda>miner_hash.
     Option.bind (merkle_root keccak256 (miner_hash # block_transactions block)) (\<lambda>root.
     Some (BlockHeader_write (block_header block) @ root @
       varint_write (1 + vec_len (block_transactions block)))))"

definition Block_hash ::
  "('s, 'z) dalek_scalar_scheme \<Rightarrow> (bytes \<Rightarrow> bytes) \<Rightarrow> 's Block \<Rightarrow> bytes option" where
  "Block_hash D keccak256 block =
     Option.bind (serialize_pow_hash D keccak256 block) (\<lambda>hashable.
     let hashing_blob = varint_write (vec_len hashable) @ hashable;
         hash = keccak256 hashing_blob
     in Some (if hash = CORRECT_BLOCK_HASH_202612 then EXISTING_BLOCK_HASH_202612 else hash))"

definition Block_read :: "('s, 'z) dalek_scalar_scheme \<Rightarrow> 's Block reader" where
  "Block_read D =
     and_then BlockHeader_read (\<lambda>header.
     and_then (Transaction_read (NotPruned D)) (\<lambda>miner_tx.
     and_then varint_read (\<lambda>transactions :: usize.
     if unat transactions \<ge> MAX_TRANSACTIONS then err (Other ''amount of transaction exceeds limit'')
     else
       and_then (read_raw_vec (read_bytes 32) (unat transactions)) (\<lambda>transactions.
       case Block_new header miner_tx transactions of
         None \<Rightarrow> err (Other ''block failed sanity checks'')
       | Some block \<Rightarrow> ok block))))"

subsection \<open>Headers and blocks are read canonically\<close>

definition wf_BlockHeader :: "BlockHeader \<Rightarrow> bool" where
  "wf_BlockHeader x \<longleftrightarrow> length (header_previous x) = 32"

definition wf_Block :: "('s, 'z) dalek_scalar_scheme \<Rightarrow> 's Block \<Rightarrow> bool" where
  "wf_Block D block \<longleftrightarrow>
     wf_BlockHeader (block_header block) \<and> wf_transaction D (miner_transaction block) \<and>
     is_miner_inputs (tx_inputs (tx_prefix (miner_transaction block))) \<and>
     length (block_transactions block) < MAX_TRANSACTIONS \<and>
     list_all (\<lambda>tx. length tx = 32) (block_transactions block)"

lemma BlockHeader_read_iff:
  "BlockHeader_read bs = Inr (x, rest) \<longleftrightarrow> wf_BlockHeader x \<and> bs = BlockHeader_write x @ rest"
  by (cases x)
     (auto simp: BlockHeader_read_def BlockHeader_write_def wf_BlockHeader_def and_then_eq_Inr
       codec_iff simp flip: read_u32_def)

interpretation header_codec: sized_codec BlockHeader_write BlockHeader_read wf_BlockHeader
    "3 * LOWER_BOUND + 32 + 4" BlockHeader_SIZE_UPPER_BOUND
proof -
  have "3 * LOWER_BOUND + 32 + 4 \<le> length (BlockHeader_write x) \<and>
      length (BlockHeader_write x) \<le> BlockHeader_SIZE_UPPER_BOUND" if "wf_BlockHeader x" for x
    using that varint_u8.wr_lower [of "hardfork_version x"] varint_u8.wr_lower [of "hardfork_signal x"]
      varint_u64.wr_lower [of "header_timestamp x"] varint_u8.wr_upper [of "hardfork_version x"]
      varint_u8.wr_upper [of "hardfork_signal x"] varint_u64.wr_upper [of "header_timestamp x"]
    by (simp add: BlockHeader_write_def wf_BlockHeader_def BlockHeader_SIZE_UPPER_BOUND_def)
  then show "sized_codec BlockHeader_write BlockHeader_read wf_BlockHeader
      (3 * LOWER_BOUND + 32 + 4) BlockHeader_SIZE_UPPER_BOUND"
    by (simp add: sized_codec_def sized_codec_axioms_def codec_iffI [OF BlockHeader_read_iff])
qed

interpretation hashes_codec: codec "write_raw_vec (\<lambda>x. x)" "read_raw_vec (read_bytes 32) n"
    "wf_raw_vec (\<lambda>x. length x = 32) n" for n
  by (rule bytes_codec.raw_vec_codec)

lemma Block_new_iff:
  "Block_new header miner_tx transactions = Some block \<longleftrightarrow>
   is_miner_inputs (tx_inputs (tx_prefix miner_tx)) \<and>
   block = \<lparr>block_header = header, miner_transaction = miner_tx, block_transactions = transactions\<rparr>"
  by (auto simp: Block_new_def is_miner_inputs_def Let_def split: Input.splits)

lemma Block_read_iff:
  assumes "canonical_scalars D"
  shows "Block_read D bs = Inr (x, rest) \<longleftrightarrow> wf_Block D x \<and> bs = Block_write D x @ rest"
proof
  note tx_iff = pruning.Transaction_read_iff [OF not_pruned_pruning [OF assms]]
  {
    assume "Block_read D bs = Inr (x, rest)"
    then obtain header tx n txs r1 r2 r3 where
      "BlockHeader_read bs = Inr (header, r1)" "Transaction_read (NotPruned D) r1 = Inr (tx, r2)"
      "varint_read r2 = Inr (n :: u64, r3)" "unat n < MAX_TRANSACTIONS"
      "read_raw_vec (read_bytes 32) (unat n) r3 = Inr (txs, rest)" "Block_new header tx txs = Some x"
      by (auto simp: Block_read_def and_then_eq_Inr not_le split: option.splits if_splits)
    then show "wf_Block D x \<and> bs = Block_write D x @ rest"
      by (auto simp: BlockHeader_read_iff tx_iff varint_u64.rd_iff hashes_codec.rd_iff Block_new_iff
          wf_Block_def Block_write_def wf_raw_vec_def)
  next
    assume "wf_Block D x \<and> bs = Block_write D x @ rest"
    then have wf: "wf_Block D x" and bs: "bs = Block_write D x @ rest" by simp_all
    let ?txs = "block_transactions x"
    have fits: "fits_usize ?txs" and raw: "wf_raw_vec (\<lambda>x. length x = 32) (length ?txs) ?txs"
      using wf by (simp_all add: wf_Block_def fits_usize_def MAX_TRANSACTIONS_def wf_raw_vec_def)
    have tx: "Transaction_read (NotPruned D) (Transaction_write (NotPruned D) (miner_transaction x) @ r) =
        Inr (miner_transaction x, r)" for r
      using wf by (simp add: tx_iff wf_Block_def)
    show "Block_read D bs = Inr (x, rest)"
      using wf fits hashes_codec.rd_wr [OF raw, of rest]
        Block_new_iff [of "block_header x" "miner_transaction x" ?txs x]
      by (simp add: Block_read_def bs Block_write_def and_then_def header_codec.rd_wr wf_Block_def tx
          varint_u64.rd_wr)
  }
qed

text \<open>C2. A block is read from exactly the bytes it is written as, and only a block with a miner transaction
  of a single generating input and fewer than 268,435,456 other transactions is accepted.\<close>

theorem block_read_canonical:
  assumes "canonical_scalars D"
  shows "Block_read D bs = Inr (block, rest) \<longleftrightarrow> wf_Block D block \<and> bs = Block_write D block @ rest"
  by (rule Block_read_iff [OF assms])

definition example_block :: "bytes Block" where
  "example_block =
     \<lparr>block_header = \<lparr>hardfork_version = 1, hardfork_signal = 0, header_timestamp = 1397818193,
        header_previous = replicate 32 4, header_nonce = 10000\<rparr>,
      miner_transaction = V1 example_prefix [], block_transactions = [replicate 32 1, replicate 32 2]\<rparr>"

lemma wf_example_block: "wf_Block raw_scalars example_block"
proof -
  have "is_miner_inputs (tx_inputs example_prefix)"
    by (simp add: is_miner_inputs_def example_prefix_def)
  then show ?thesis
    using wf_example_tx [of raw_scalars]
    by (simp add: wf_Block_def example_block_def wf_BlockHeader_def MAX_TRANSACTIONS_def)
qed

theorem block_read_canonical_witness:
  "wf_Block raw_scalars example_block \<and>
   Block_read raw_scalars (Block_write raw_scalars example_block @ [1]) = Inr (example_block, [1])"
  by (simp only: block_read_canonical [OF canonical_raw_scalars] wf_example_block simp_thms)

lemma no_panic_BlockHeader_read [no_panic_intros]: "no_panic BlockHeader_read"
  unfolding BlockHeader_read_def by (intro no_panic_intros)

lemma no_panic_Block_read: "no_panic (Block_read D)"
  unfolding Block_read_def
  by (intro no_panic_intros not_pruned_total.no_panic_Transaction_read) simp_all

lemma Block_number_miner:
  "is_miner_inputs (tx_inputs (tx_prefix (miner_transaction b))) \<Longrightarrow> \<exists>n. Block_number b = Some n"
  by (cases "tx_inputs (tx_prefix (miner_transaction b))"; cases "tx_inputs (tx_prefix (miner_transaction b)) ! 0")
     (auto simp: Block_number_def is_miner_inputs_def)

text \<open>Neither reading a block nor asking for its number panics: \<open>Block::new\<close>, the only constructor, and
  \<open>Block::read\<close> let no block without a number through, whatever the bytes or arguments.\<close>

theorem block_number_infallible:
  "Block_read D bs \<noteq> Inl (Panic s) \<and>
   (Block_read D bs = Inr (block, rest) \<longrightarrow> (\<exists>n. Block_number block = Some n)) \<and>
   (Block_new header miner_tx transactions = Some block' \<longrightarrow> (\<exists>n. Block_number block' = Some n))"
proof (intro conjI impI)
  show "Block_read D bs \<noteq> Inl (Panic s)" using no_panic_Block_read [of D] by (simp add: no_panic_def)
  assume "Block_read D bs = Inr (block, rest)"
  then obtain header tx txs where "Block_new header tx txs = Some block"
    by (auto simp: Block_read_def and_then_eq_Inr split: option.splits if_splits)
  then show "\<exists>n. Block_number block = Some n"
    by (intro Block_number_miner) (auto simp: Block_new_iff)
next
  assume "Block_new header miner_tx transactions = Some block'"
  then show "\<exists>n. Block_number block' = Some n"
    by (intro Block_number_miner) (auto simp: Block_new_iff)
qed

subsection \<open>The block hash\<close>

lemma merkle_root_Cons: "fits_usize (x # xs) \<Longrightarrow> \<exists>r. merkle_root h (x # xs) = Some r"
  by (cases xs) (simp_all add: merkle_root_eq_tree_hash tree_hash_def Let_def)

lemma length_Transaction_hash:
  assumes "hash32 h" and "Transaction_hash D h tx = Some d"
  shows "length d = 32"
proof (cases tx)
  case (V2 prefix proofs)
  with assms show ?thesis by (cases proofs) (auto simp: hash32_def)
qed (use assms in \<open>auto simp: hash32_def\<close>)

lemma length_merkle_root:
  assumes "hash32 h" and "fits_usize xs" and "nodes xs" and "merkle_root h xs = Some r"
  shows "length r = 32"
proof -
  have root: "tree_hash h xs = Some r" using assms by (simp add: merkle_root_eq_tree_hash)
  show ?thesis
  proof (cases "length xs \<le> 1")
    case True
    with root assms(3) show ?thesis by (cases xs) (auto simp: tree_hash_def split: list.splits)
  next
    case False
    define k where "k = tree_depth (length xs)"
    have r: "r = perfect_tree h k (reduce_leaves h (2 ^ k) xs)"
      using root False by (auto simp: tree_hash_def Let_def k_def split: list.splits)
    have "length (reduce_leaves h (2 ^ k) xs) = 2 ^ k"
      using tree_depth_bounds [of "length xs"] False by (intro length_reduce_leaves) (auto simp: k_def)
    then show ?thesis
      unfolding r using nodes_reduce_leaves [OF assms(1,3)] by (rule perfect_tree_node [OF assms(1)])
  qed
qed

text \<open>The proof of work preimage and the hash of a block with fewer than \<open>MAX_TRANSACTIONS\<close> transactions
  are always defined: the Merkle tree has a leaf for the miner transaction. The preimage of a
  well-formed block is at most 92 bytes and its hash has 32.\<close>

theorem block_hash_total:
  assumes "hash32 keccak256" and "wf_Block D block"
  shows "\<exists>blob hash. serialize_pow_hash D keccak256 block = Some blob \<and> length blob \<le> 92 \<and>
           Block_hash D keccak256 block = Some hash \<and> length hash = 32"
proof -
  let ?txs = "block_transactions block"
  obtain m where m: "Transaction_hash D keccak256 (miner_transaction block) = Some m"
    using Transaction_hash_total by blast
  have fits: "fits_usize (m # ?txs)"
    using assms(2) by (simp add: wf_Block_def fits_usize_def MAX_TRANSACTIONS_def)
  obtain r where r: "merkle_root keccak256 (m # ?txs) = Some r"
    using merkle_root_Cons [OF fits] by blast
  have "nodes (m # ?txs)"
    using assms length_Transaction_hash [OF assms(1) m] by (simp add: wf_Block_def)
  then have "length r = 32" by (rule length_merkle_root [OF assms(1) fits _ r])
  moreover have "length (BlockHeader_write (block_header block)) \<le> BlockHeader_SIZE_UPPER_BOUND"
    using assms(2) by (intro header_codec.wr_upper) (simp add: wf_Block_def)
  moreover have "length (varint_write (1 + vec_len ?txs)) \<le> UPPER_BOUND TYPE(64)"
    by (rule varint_u64.wr_upper) simp
  moreover have "length EXISTING_BLOCK_HASH_202612 = 32" by (simp add: EXISTING_BLOCK_HASH_202612_def)
  ultimately show ?thesis
    using assms(1) m r
    by (simp add: serialize_pow_hash_def Block_hash_def Let_def BlockHeader_SIZE_UPPER_BOUND_def hash32_def)
qed

text \<open>The strings which are hashed over the leaves of a block to compute its hash.\<close>

definition block_preimages ::
  "('s, 'z) dalek_scalar_scheme \<Rightarrow> (bytes \<Rightarrow> bytes) \<Rightarrow> 's Block \<Rightarrow> bytes set" where
  "block_preimages D h block =
     {varint_write (vec_len blob) @ blob |blob. serialize_pow_hash D h block = Some blob} \<union>
     (\<Union>m \<in> set_option (Transaction_hash D h (miner_transaction block)).
        merkle_preimages h (m # block_transactions block))"

lemma Block_hash_obtain:
  assumes "hash32 h" and "wf_Block D b" and "Block_hash D h b = Some d" and "d \<noteq> EXISTING_BLOCK_HASH_202612"
  obtains m r where "Transaction_hash D h (miner_transaction b) = Some m"
    and "merkle_root h (m # block_transactions b) = Some r"
    and "nodes (m # block_transactions b)" and "fits_usize (m # block_transactions b)" and "length r = 32"
    and "serialize_pow_hash D h b = Some (BlockHeader_write (block_header b) @ r @
           varint_write (1 + vec_len (block_transactions b)))"
    and "d = h (varint_write (vec_len (the (serialize_pow_hash D h b))) @ the (serialize_pow_hash D h b))"
proof -
  obtain blob where blob: "serialize_pow_hash D h b = Some blob"
      "d = h (varint_write (vec_len blob) @ blob)"
    using assms(3,4) by (auto simp: Block_hash_def Let_def bind_eq_Some_conv split: if_splits)
  then obtain m r where m: "Transaction_hash D h (miner_transaction b) = Some m"
      "merkle_root h (m # block_transactions b) = Some r"
      "blob = BlockHeader_write (block_header b) @ r @ varint_write (1 + vec_len (block_transactions b))"
    by (auto simp: serialize_pow_hash_def bind_eq_Some_conv)
  have fits: "fits_usize (m # block_transactions b)"
    using assms(2) by (simp add: wf_Block_def fits_usize_def MAX_TRANSACTIONS_def)
  have nodes: "nodes (m # block_transactions b)"
    using assms(2) length_Transaction_hash [OF assms(1) m(1)] by (simp add: wf_Block_def)
  show thesis
    using that [OF m(1,2) nodes fits length_merkle_root [OF assms(1) fits nodes m(2)]] blob m(3) by simp
qed

lemma count_inj:
  assumes "varint_write (1 + vec_len xs) = varint_write (1 + vec_len ys)" and "fits_usize xs" "fits_usize ys"
  shows "length xs = length ys"
proof -
  have "1 + vec_len xs = 1 + vec_len ys" by (rule varint_u64.wr_inj [OF TrueI TrueI assms(1)])
  then have "unat (vec_len xs) = unat (vec_len ys)" by simp
  then show ?thesis using assms(2,3) by simp
qed

lemma block_hash_inj:
  assumes "hash32 keccak256" and "wf_Block D b" and "wf_Block D b'"
    and "inj_on keccak256 (block_preimages D keccak256 b \<union> block_preimages D keccak256 b')"
    and "Block_hash D keccak256 b = Some d" and "Block_hash D keccak256 b' = Some d"
    and "d \<noteq> EXISTING_BLOCK_HASH_202612"
  shows "block_header b = block_header b' \<and> block_transactions b = block_transactions b' \<and>
         Transaction_hash D keccak256 (miner_transaction b) = Transaction_hash D keccak256 (miner_transaction b')"
proof -
  obtain m r where b:
    "Transaction_hash D keccak256 (miner_transaction b) = Some m"
    "merkle_root keccak256 (m # block_transactions b) = Some r"
    "nodes (m # block_transactions b)" "fits_usize (m # block_transactions b)" "length r = 32"
    "serialize_pow_hash D keccak256 b = Some (BlockHeader_write (block_header b) @ r @
       varint_write (1 + vec_len (block_transactions b)))"
    "d = keccak256 (varint_write (vec_len (the (serialize_pow_hash D keccak256 b))) @ the (serialize_pow_hash D keccak256 b))"
    by (rule Block_hash_obtain [OF assms(1,2,5,7)])
  obtain m' r' where b':
    "Transaction_hash D keccak256 (miner_transaction b') = Some m'"
    "merkle_root keccak256 (m' # block_transactions b') = Some r'"
    "nodes (m' # block_transactions b')" "fits_usize (m' # block_transactions b')" "length r' = 32"
    "serialize_pow_hash D keccak256 b' = Some (BlockHeader_write (block_header b') @ r' @
       varint_write (1 + vec_len (block_transactions b')))"
    "d = keccak256 (varint_write (vec_len (the (serialize_pow_hash D keccak256 b'))) @ the (serialize_pow_hash D keccak256 b'))"
    by (rule Block_hash_obtain [OF assms(1,3,6,7)])
  let ?S = "block_preimages D keccak256 b \<union> block_preimages D keccak256 b'"
  let ?blob = "\<lambda>b. varint_write (vec_len (the (serialize_pow_hash D keccak256 b))) @ the (serialize_pow_hash D keccak256 b)"
  have "?blob b \<in> ?S" "?blob b' \<in> ?S" using b(6) b'(6) by (auto simp: block_preimages_def)
  moreover have "keccak256 (?blob b) = keccak256 (?blob b')" using b(7) b'(7) by simp
  ultimately have "?blob b = ?blob b'" using inj_onD [OF assms(4)] by blast
  then have blob: "the (serialize_pow_hash D keccak256 b) = the (serialize_pow_hash D keccak256 b')"
    using varint_u64.wr_prefix_free [OF TrueI TrueI] by blast
  have headers: "wf_BlockHeader (block_header b)" "wf_BlockHeader (block_header b')"
    using assms(2,3) by (simp_all add: wf_Block_def)
  have "block_header b = block_header b' \<and> r @ varint_write (1 + vec_len (block_transactions b)) =
      r' @ varint_write (1 + vec_len (block_transactions b'))"
    using header_codec.wr_prefix_free [OF headers] blob unfolding b(6) b'(6) option.sel .
  then have header: "block_header b = block_header b'" and root: "r = r'"
    and count: "varint_write (1 + vec_len (block_transactions b)) = varint_write (1 + vec_len (block_transactions b'))"
    using b(5) b'(5) by simp_all
  have "length (block_transactions b) = length (block_transactions b')"
    using b(4) b'(4) by (intro count_inj [OF count]) (auto simp: fits_usize_def)
  moreover have "merkle_preimages keccak256 (m # block_transactions b) \<union>
      merkle_preimages keccak256 (m' # block_transactions b') \<subseteq> ?S"
    using b(1) b'(1) by (auto simp: block_preimages_def)
  then have "inj_on keccak256 (merkle_preimages keccak256 (m # block_transactions b) \<union>
      merkle_preimages keccak256 (m' # block_transactions b'))"
    by (rule inj_on_subset [OF assms(4)])
  ultimately have "m # block_transactions b = m' # block_transactions b'"
    using b(2-4) b'(2-4) root assms(1)
    by (intro tree_hash_inj [of keccak256]) (simp_all add: merkle_root_eq_tree_hash)
  with header b(1) b'(1) show ?thesis by simp
qed


definition example_block' :: "bytes Block" where
  "example_block' = example_block\<lparr>miner_transaction := V1 (example_prefix\<lparr>tx_extra := []\<rparr>) []\<rparr>"

lemma wf_example_block': "wf_Block raw_scalars example_block'"
proof -
  have "is_miner_inputs (tx_inputs example_prefix)"
    by (simp add: is_miner_inputs_def example_prefix_def)
  moreover have "wf_TransactionPrefix 1 (example_prefix\<lparr>tx_extra := []\<rparr>)"
    by (simp add: wf_TransactionPrefix_def example_prefix_def wf_vec_def fits_usize_def wf_Output_def
        TIMELOCK_BLOCK_THRESHOLD_def INPUTS_UPPER_BOUND_def MINER_INPUTS_def)
  ultimately show ?thesis
    using wf_example_block by (simp add: wf_Block_def example_block'_def NotPruned_def)
qed


end
