(* ===== verification/Ref10_Slide.thy ===== *)
theory Ref10_Slide
  imports Ed25519
begin

text \<open>
  The non-adjacent form of \<^verbatim>\<open>ed25519/src/unreduced_scalar.rs\<close> and the scalar recovered from it.
  Monero's \<open>slide\<close> drops the carry out of bit 255, and the code reproduces this: the digits denote
  the encoded number, or, when its top bit is set, possibly the number less \<open>2 ^ 256\<close>.
  Digits are \<open>i8\<close> values in the source; they stay within \<open>-15 .. 15\<close> and the carry added to one is at
  most 32 (\<open>window_post_first\<close>), so no \<open>i8\<close> operation overflows and they are integers here.
\<close>

unbundle bit_operations_syntax

fun as_bits :: "UnreducedScalar \<Rightarrow> u8 list" where
  "as_bits (UnreducedScalar b) =
     map (\<lambda>i. 1 AND drop_bit (i mod 8) (b ! (i div 8))) [0..<256]"

text \<open>The loop over \<open>k\<close>: ones become zeros up to the first zero, which becomes one.\<close>

function carry_up :: "int list \<Rightarrow> nat \<Rightarrow> int list" where
  "carry_up naf k =
     (if k < 256
      then if naf ! k = 0 then naf[k := 1] else carry_up (naf[k := 0]) (k + 1)
      else naf)"
  by pat_completeness auto
termination
  by (relation "measure (\<lambda>(naf, k). 256 - k)") auto

declare carry_up.simps [simp del]

text \<open>The loop over \<open>b\<close> in \<open>1 .. 6\<close>.\<close>

function window :: "int list \<Rightarrow> nat \<Rightarrow> nat \<Rightarrow> int list" where
  "window naf i b =
     (if b < 6
      then
        if i + b \<ge> 256 then naf
        else
          let potential_carry = naf ! (i + b) * 2 ^ b
          in if potential_carry \<noteq> 0
             then
               if naf ! i + potential_carry \<le> 15
               then window (naf[i := naf ! i + potential_carry, i + b := 0]) i (b + 1)
               else if naf ! i - potential_carry \<ge> -15
               then window (carry_up (naf[i := naf ! i - potential_carry]) (i + b)) i (b + 1)
               else naf
             else window naf i (b + 1)
      else naf)"
  by pat_completeness auto
termination
  by (relation "measure (\<lambda>(naf, i, b). 6 - b)") auto

declare window.simps [simp del]

function naf_loop :: "int list \<Rightarrow> nat \<Rightarrow> int list" where
  "naf_loop naf i =
     (if i < 256 then naf_loop (if naf ! i \<noteq> 0 then window naf i 1 else naf) (i + 1) else naf)"
  by pat_completeness auto
termination
  by (relation "measure (\<lambda>(naf, i). 256 - i)") auto

declare naf_loop.simps [simp del]

definition non_adjacent_form :: "UnreducedScalar \<Rightarrow> int list" where
  "non_adjacent_form u = naf_loop (map (\<lambda>bit. int (unat bit)) (as_bits u)) 0"

definition PRECOMPUTED_SCALARS :: "('s::one, 'z) dalek_scalar_scheme \<Rightarrow> 's list" where
  "PRECOMPUTED_SCALARS D =
     1 # map (\<lambda>i. scalar_from_u64 D (word_of_nat (i * 2 + 1))) [1..<8]"

fun recover_step :: "('s::comm_ring_1, 'z) dalek_scalar_scheme \<Rightarrow> 's \<Rightarrow> int \<Rightarrow> 's" where
  "recover_step D recovered numb =
     (let recovered = recovered + recovered
      in if numb > 0 then recovered + PRECOMPUTED_SCALARS D ! (nat numb div 2)
         else if numb < 0 then recovered - PRECOMPUTED_SCALARS D ! (nat (- numb) div 2)
         else recovered)"

fun ref10_slide_scalar_vartime ::
  "('s::comm_ring_1, 'z) dalek_scalar_scheme \<Rightarrow> UnreducedScalar \<Rightarrow> Scalar" where
  "ref10_slide_scalar_vartime D (UnreducedScalar b) =
     (if b ! 31 AND 128 = 0
      then Scalar_from D (from_bytes_mod_order D b)
      else Scalar_from D
        (foldl (recover_step D) 0 (rev (non_adjacent_form (UnreducedScalar b)))))"

subsection \<open>The number a list of digits denotes\<close>

primrec slide_value :: "int list \<Rightarrow> int" where
  "slide_value [] = 0"
| "slide_value (d # ds) = d + 2 * slide_value ds"

lemma slide_value_append: "slide_value (xs @ ys) = slide_value xs + 2 ^ length xs * slide_value ys"
  by (induction xs) (auto simp: algebra_simps)

lemma slide_value_split:
  "k \<le> length xs \<Longrightarrow> slide_value xs = slide_value (take k xs) + 2 ^ k * slide_value (drop k xs)"
  using slide_value_append [of "take k xs" "drop k xs"] by simp

lemma slide_value_update:
  "i < length xs \<Longrightarrow> slide_value (xs[i := y]) = slide_value xs + (y - xs ! i) * 2 ^ i"
proof (induction xs arbitrary: i)
  case (Cons x xs)
  show ?case
  proof (cases i)
    case (Suc n)
    then have "slide_value (xs[n := y]) = slide_value xs + (y - xs ! n) * 2 ^ n" using Cons by simp
    then show ?thesis by (simp add: Suc algebra_simps)
  qed simp
qed simp

lemma slide_value_zero: "\<forall>x \<in> set xs. x = 0 \<Longrightarrow> slide_value xs = 0"
  by (induction xs) auto

lemma slide_value_ones: "\<forall>x \<in> set xs. x = 1 \<Longrightarrow> slide_value xs = 2 ^ length xs - 1"
  by (induction xs) auto

subsection \<open>The carry\<close>

definition all_from :: "(int \<Rightarrow> bool) \<Rightarrow> nat \<Rightarrow> int list \<Rightarrow> bool" where
  "all_from P k naf \<longleftrightarrow> (\<forall>j. k \<le> j \<and> j < 256 \<longrightarrow> P (naf ! j))"

abbreviation binary_from :: "nat \<Rightarrow> int list \<Rightarrow> bool" where
  "binary_from \<equiv> all_from (\<lambda>x. x = 0 \<or> x = 1)"

abbreviation zero_from :: "nat \<Rightarrow> int list \<Rightarrow> bool" where
  "zero_from \<equiv> all_from (\<lambda>x. x = 0)"

abbreviation ones_from :: "nat \<Rightarrow> int list \<Rightarrow> bool" where
  "ones_from \<equiv> all_from (\<lambda>x. x = 1)"

lemma all_from_Suc:
  assumes "k < 256"
  shows "all_from P k naf \<longleftrightarrow> P (naf ! k) \<and> all_from P (Suc k) naf"
proof -
  have "k \<le> j \<longleftrightarrow> j = k \<or> Suc k \<le> j" for j by auto
  then show ?thesis using assms by (auto simp: all_from_def)
qed

lemma all_from_256 [simp]: "all_from P 256 naf"
  by (auto simp: all_from_def)

lemma all_from_mono: "all_from P k naf \<Longrightarrow> k \<le> k' \<Longrightarrow> all_from P k' naf"
  by (simp add: all_from_def)

lemma all_from_nth: "all_from P k naf \<Longrightarrow> k \<le> j \<Longrightarrow> j < 256 \<Longrightarrow> P (naf ! j)"
  by (simp add: all_from_def)

lemma all_from_update [simp]: "j < k \<Longrightarrow> all_from P k (naf[j := x]) \<longleftrightarrow> all_from P k naf"
  by (simp add: all_from_def)

lemma all_from_extend:
  assumes "\<And>j. i < j \<Longrightarrow> j \<le> k \<Longrightarrow> j < 256 \<Longrightarrow> P (naf ! j)" and "all_from P k naf"
  shows "all_from P (i + 1) naf"
  unfolding all_from_def
proof (intro allI impI)
  fix j assume "i + 1 \<le> j \<and> j < 256"
  then show "P (naf ! j)"
    using assms(1) [of j] all_from_nth [OF assms(2), of j] by (cases "j \<le> k") auto
qed

lemma carry_up_frame:
  assumes "length naf = 256"
  shows "length (carry_up naf k) = 256" and "j < k \<Longrightarrow> carry_up naf k ! j = naf ! j"
  using assms by (induction naf k rule: carry_up.induct) (subst carry_up.simps; force)+

lemma carry_up_binary:
  assumes "length naf = 256" and "binary_from k naf"
  shows "binary_from k (carry_up naf k)"
  using assms
proof (induction naf k rule: carry_up.induct)
  case (1 naf k)
  consider "\<not> k < 256" | "k < 256" "naf ! k = 0" | "k < 256" "naf ! k = 1"
    using 1(3) by (auto simp: all_from_def)
  then show ?case
  proof cases
    case 3
    then have "binary_from (k + 1) (carry_up (naf[k := 0]) (k + 1))"
      using 1 by (simp add: all_from_Suc)
    moreover have "carry_up (naf[k := 0]) (k + 1) ! k = 0"
      using carry_up_frame(2) [of "naf[k := 0]" k "k + 1"] 1(2) 3 by simp
    ultimately show ?thesis using 3 by (subst carry_up.simps) (simp add: all_from_Suc)
  qed (use 1(2,3) in \<open>subst carry_up.simps, simp add: all_from_Suc\<close>)+
qed

lemma carry_up_value:
  assumes "length naf = 256" and "binary_from k naf" and "k \<le> 256"
  shows "slide_value (carry_up naf k) = slide_value naf + 2 ^ k \<or>
         slide_value (carry_up naf k) = slide_value naf + 2 ^ k - 2 ^ 256 \<and>
           zero_from k (carry_up naf k) \<and> ones_from k naf"
  using assms
proof (induction naf k rule: carry_up.induct)
  case (1 naf k)
  consider "k = 256" | "k < 256" "naf ! k = 0" | "k < 256" "naf ! k = 1"
    using 1(3,4) by (force simp: all_from_def)
  then show ?case
  proof cases
    case 1
    then show ?thesis by (simp add: carry_up.simps)
  next
    case 2
    then show ?thesis using 1(2) by (subst carry_up.simps) (simp add: slide_value_update)
  next
    case 3
    let ?n = "naf[k := 0]"
    have bin: "binary_from (k + 1) ?n" using 1(3) 3 by (simp add: all_from_Suc)
    have up: "carry_up naf k = carry_up ?n (k + 1)" using 3 by (subst carry_up.simps) simp
    have val: "slide_value ?n = slide_value naf - 2 ^ k" using 1(2) 3 by (simp add: slide_value_update)
    have z: "carry_up ?n (k + 1) ! k = 0"
      using carry_up_frame(2) [of ?n k "k + 1"] 1(2) 3 by simp
    have "slide_value (carry_up ?n (k + 1)) = slide_value ?n + 2 ^ (k + 1) \<or>
          slide_value (carry_up ?n (k + 1)) = slide_value ?n + 2 ^ (k + 1) - 2 ^ 256 \<and>
          zero_from (k + 1) (carry_up ?n (k + 1)) \<and> ones_from (k + 1) ?n"
      using 1(1) 1(2) 3 bin by simp
    then show ?thesis using 3 z by (auto simp: up val all_from_Suc)
  qed
qed

subsection \<open>The window\<close>

text \<open>
  \<open>window_inv naf i b\<close>: before step \<open>b\<close> at position \<open>i\<close> the digit is odd, the entries already merged
  are zero and the rest are bits. Up to step 4 the digit has only grown by bits.
\<close>

definition window_inv :: "int list \<Rightarrow> nat \<Rightarrow> nat \<Rightarrow> bool" where
  "window_inv naf i b \<longleftrightarrow>
     length naf = 256 \<and> i < 256 \<and> odd (naf ! i) \<and> binary_from (i + 1) naf \<and>
     (\<forall>j. i < j \<and> j < i + b \<and> j < 256 \<longrightarrow> naf ! j = 0) \<and>
     (if b \<le> 4 then 1 \<le> naf ! i \<and> naf ! i < 2 ^ b else \<bar>naf ! i\<bar> \<le> 15)"

text \<open>Steps 1 to 3 only move a bit into the digit.\<close>

lemma window_low_step:
  assumes inv: "window_inv naf i b" and b: "1 \<le> b" "b \<le> 3" "i + b < 256"
  shows "\<exists>n'. window naf i b = window n' i (b + 1) \<and> window_inv n' i (b + 1) \<and>
              slide_value n' = slide_value naf \<and> take i n' = take i naf"
proof -
  have len: "length naf = 256" and d: "1 \<le> naf ! i" "naf ! i < 2 ^ b" and odd: "odd (naf ! i)"
    and bin: "binary_from (i + 1) naf" and z: "\<forall>j. i < j \<and> j < i + b \<and> j < 256 \<longrightarrow> naf ! j = 0"
    using inv b by (auto simp: window_inv_def)
  have pow: "(2::int) ^ b \<le> 8" using power_increasing [of b 3 "2::int"] b by simp
  from all_from_nth [OF bin, of "i + b"] b consider "naf ! (i + b) = 0" | "naf ! (i + b) = 1" by auto
  then show ?thesis
  proof cases
    case 1
    then have "window naf i b = window naf i (b + 1)" using b by (subst window.simps) simp
    moreover have "window_inv naf i (b + 1)"
      using inv b 1 d z by (auto simp: window_inv_def less_Suc_eq)
    ultimately show ?thesis by blast
  next
    case 2
    let ?n = "naf[i := naf ! i + 2 ^ b, i + b := 0]"
    have "window naf i b = window ?n i (b + 1)"
      using b 2 d pow by (subst window.simps) (simp add: Let_def)
    moreover have "window_inv ?n i (b + 1)"
      using len odd bin z b d pow
      by (auto simp: window_inv_def nth_list_update all_from_def less_Suc_eq)
    moreover have "slide_value ?n = slide_value naf"
      using b len 2 by (simp add: slide_value_update nth_list_update power_add)
    ultimately show ?thesis by (intro exI [of _ ?n]) (simp add: take_update_cancel)
  qed
qed

text \<open>Step 5 never changes anything.\<close>

lemma window_5:
  assumes "\<bar>naf ! i\<bar> \<le> 15" and "binary_from (i + 1) naf"
  shows "window naf i 5 = naf"
proof (cases "i + 5 < 256")
  case True
  with all_from_nth [OF assms(2), of "i + 5"] have "naf ! (i + 5) = 0 \<or> naf ! (i + 5) = 1" by simp
  then show ?thesis
    using assms(1) True by (subst window.simps) (auto simp: Let_def window.simps [of naf i 6])
qed (subst window.simps, simp)

text \<open>
  What the window leaves at position \<open>i\<close>: an odd digit of at most 15, the next four entries zero,
  the digits below untouched, and the value kept, unless the carry ran off the end, for which the
  entries from \<open>i + 4\<close> on must all have been ones.
\<close>

definition carry_lost :: "int list \<Rightarrow> int list \<Rightarrow> nat \<Rightarrow> bool" where
  "carry_lost naf r i \<longleftrightarrow>
     slide_value r = slide_value naf - 2 ^ 256 \<and> zero_from (i + 1) r \<and> i \<le> 251 \<and>
     slide_value (take i naf) + 2 ^ i + 2 ^ 256 - 2 ^ (i + 4) \<le> slide_value naf"

definition window_post :: "int list \<Rightarrow> int list \<Rightarrow> nat \<Rightarrow> bool" where
  "window_post naf r i \<longleftrightarrow>
     length r = 256 \<and> odd (r ! i) \<and> \<bar>r ! i\<bar> \<le> 15 \<and> binary_from (i + 1) r \<and>
     (\<forall>j. i < j \<and> j \<le> i + 4 \<and> j < 256 \<longrightarrow> r ! j = 0) \<and> take i r = take i naf \<and>
     (slide_value r = slide_value naf \<or> carry_lost naf r i)"

lemma slide_value_ones_above:
  assumes inv: "window_inv naf i 4" and "i + 4 < 256" and ones: "ones_from (i + 4) naf"
  shows "slide_value naf = slide_value (take i naf) + naf ! i * 2 ^ i + 2 ^ 256 - 2 ^ (i + 4)"
proof -
  have len: "length naf = 256" using inv by (simp add: window_inv_def)
  have mid: "naf ! (i + 1) = 0" "naf ! (i + 2) = 0" "naf ! (i + 3) = 0"
    using inv assms(2) by (auto simp: window_inv_def)
  have "drop i naf = naf ! i # naf ! (i + 1) # naf ! (i + 2) # naf ! (i + 3) # drop (i + 4) naf"
    using len assms(2) by (simp add: Cons_nth_drop_Suc [symmetric] numeral_eq_Suc)
  moreover have "slide_value (drop (i + 4) naf) = 2 ^ (252 - i) - 1"
  proof -
    have "\<forall>x \<in> set (drop (i + 4) naf). x = 1"
      using ones len by (auto simp: in_set_conv_nth all_from_def)
    then show ?thesis using slide_value_ones [of "drop (i + 4) naf"] len by simp
  qed
  ultimately have "slide_value (drop i naf) = naf ! i + 16 * (2 ^ (252 - i) - 1)"
    using mid by simp
  then have "2 ^ i * slide_value (drop i naf) =
      naf ! i * 2 ^ i + 16 * (2 ^ i * 2 ^ (252 - i)) - 16 * 2 ^ i"
    by (simp only:) (simp add: algebra_simps)
  moreover have "(2::int) ^ i * 2 ^ (252 - i) = 2 ^ 252"
    using assms(2) by (simp flip: power_add)
  ultimately show ?thesis
    using slide_value_split [of i naf] len assms(2) by (simp add: power_add)
qed

lemma window_4:
  assumes inv: "window_inv naf i 4"
  shows "window_post naf (window naf i 4) i"
proof (cases "i + 4 < 256")
  case False
  then have "window naf i 4 = naf" by (subst window.simps) simp
  then show ?thesis using inv False by (auto simp: window_post_def window_inv_def)
next
  case True
  have len: "length naf = 256" and d: "1 \<le> naf ! i" "naf ! i < 16" and odd: "odd (naf ! i)"
    and bin: "binary_from (i + 1) naf" and z: "\<forall>j. i < j \<and> j < i + 4 \<and> j < 256 \<longrightarrow> naf ! j = 0"
    using inv by (auto simp: window_inv_def)
  from all_from_nth [OF bin, of "i + 4"] True consider "naf ! (i + 4) = 0" | "naf ! (i + 4) = 1" by auto
  then show ?thesis
  proof cases
    case 1
    then have "window naf i 4 = naf"
      using True d window_5 [OF _ bin] by (subst window.simps) simp
    moreover have "\<forall>j. i < j \<and> j \<le> i + 4 \<and> j < 256 \<longrightarrow> naf ! j = 0"
      using z 1 by (auto simp: le_less)
    ultimately show ?thesis using len odd bin d by (simp add: window_post_def)
  next
    case 2
    let ?n = "naf[i := naf ! i - 16]" and ?r = "carry_up (naf[i := naf ! i - 16]) (i + 4)"
    have "naf ! i \<noteq> 16" using odd by auto
    note frame = carry_up_frame [of ?n, where k = "i + 4"]
    have lr: "length ?r = 256" and ri: "?r ! i = naf ! i - 16"
      and low: "\<And>j. j < i + 4 \<Longrightarrow> j \<noteq> i \<Longrightarrow> ?r ! j = naf ! j"
      using frame len True by (auto simp: nth_list_update)
    have binn: "binary_from (i + 4) ?n" using all_from_mono [OF bin, of "i + 4"] by simp
    have r4: "?r ! (i + 4) = 0"
      using carry_up_frame(2) [of "?n[i + 4 := 0]" "i + 4" "i + 5"] len True 2
      by (subst carry_up.simps) (simp add: nth_list_update numeral_eq_Suc)
    have zr: "\<forall>j. i < j \<and> j \<le> i + 4 \<and> j < 256 \<longrightarrow> ?r ! j = 0"
      using z low r4 by (auto simp: le_less)
    have binr: "binary_from (i + 1) ?r"
      using zr carry_up_binary [OF _ binn] len by (intro all_from_extend [of i "i + 4"]) auto
    have "window naf i 4 = window ?r i 5"
      using True 2 d by (subst window.simps) (simp add: Let_def)
    also have "\<dots> = ?r" using d binr ri by (intro window_5) auto
    finally have w: "window naf i 4 = ?r" .
    have "slide_value ?n + 2 ^ (i + 4) = slide_value naf"
      using len True by (simp add: slide_value_update power_add)
    then have "slide_value ?r = slide_value naf \<or>
        slide_value ?r = slide_value naf - 2 ^ 256 \<and> zero_from (i + 4) ?r \<and> ones_from (i + 4) ?n"
      using carry_up_value [OF _ binn] len True by auto
    moreover have "carry_lost naf ?r i"
      if lost: "slide_value ?r = slide_value naf - 2 ^ 256" "zero_from (i + 4) ?r" "ones_from (i + 4) ?n"
    proof -
      have "zero_from (i + 1) ?r"
        using zr lost(2) by (intro all_from_extend [of i "i + 4"]) auto
      moreover have "2 ^ i \<le> naf ! i * 2 ^ i" using d(1) by simp
      ultimately show ?thesis
        using lost slide_value_ones_above [OF inv True] True by (simp add: carry_lost_def)
    qed
    moreover have "take i ?r = take i naf"
      using low lr len by (intro nth_equalityI) auto
    ultimately show ?thesis
      unfolding w using d odd ri lr zr binr by (auto simp: window_post_def)
  qed
qed

lemma window_post_first:
  assumes "length naf = 256" and "i < 256" and "naf ! i = 1" and "binary_from (i + 1) naf"
  shows "window_post naf (window naf i 1) i"
proof -
  have step: "window_post naf (window n i b) i"
    if "window_inv n i b" "1 \<le> b" "b \<le> 4" "slide_value n = slide_value naf" "take i n = take i naf"
    for n b
    using that
  proof (induction "4 - b" arbitrary: n b)
    case 0
    then have "window_post n (window n i b) i" using window_4 [of n i] by simp
    then show ?case using 0 by (simp add: window_post_def carry_lost_def)
  next
    case (Suc k)
    then have b3: "b \<le> 3" by linarith
    show ?case
    proof (cases "i + b < 256")
      case True
      with b3 obtain n' where "window n i b = window n' i (b + 1)" "window_inv n' i (b + 1)"
          "slide_value n' = slide_value n" "take i n' = take i n"
        using window_low_step [of n i b] Suc.prems by blast
      then show ?thesis using Suc.hyps(1) [of "b + 1" n'] Suc.prems Suc.hyps(2) b3 by simp
    next
      case False
      then have "window n i b = n" using Suc.hyps(2) by (subst window.simps) simp
      moreover have "(2::int) ^ b \<le> 2 ^ 4" using Suc.prems(3) by (intro power_increasing) auto
      ultimately show ?thesis
        using Suc.prems False by (auto simp: window_inv_def window_post_def)
    qed
  qed
  show ?thesis using assms by (intro step) (auto simp: window_inv_def)
qed

subsection \<open>The whole form\<close>

definition naf_digit :: "int \<Rightarrow> bool" where
  "naf_digit d \<longleftrightarrow> d = 0 \<or> odd d \<and> \<bar>d\<bar> \<le> 15"

text \<open>Below position \<open>i\<close>, four zeros follow every digit.\<close>

definition spaced :: "nat \<Rightarrow> int list \<Rightarrow> bool" where
  "spaced i naf \<longleftrightarrow>
     (\<forall>j k. j < i \<and> naf ! j \<noteq> 0 \<and> j < k \<and> k \<le> j + 4 \<and> k < 256 \<longrightarrow> naf ! k = 0)"

text \<open>
  The state before position \<open>i\<close>: digits below, bits from \<open>i\<close> on; the digits below amount to less
  than \<open>2 ^ (i + z)\<close> for some \<open>z\<close> of the zeros that follow; the value is the number encoded, or, its
  top bit being set, that number less \<open>2 ^ 256\<close> with nothing left to process.
\<close>

definition naf_inv :: "int \<Rightarrow> int list \<Rightarrow> nat \<Rightarrow> bool" where
  "naf_inv v naf i \<longleftrightarrow>
     length naf = 256 \<and> list_all naf_digit (take i naf) \<and> binary_from i naf \<and> spaced i naf \<and>
     (\<exists>z \<le> 4. \<bar>slide_value (take i naf)\<bar> < 2 ^ (i + z) \<and>
             (\<forall>j. i \<le> j \<and> j < i + z \<and> j < 256 \<longrightarrow> naf ! j = 0)) \<and>
     (slide_value naf = v \<or> slide_value naf = v - 2 ^ 256 \<and> 2 ^ 255 \<le> v \<and> zero_from i naf)"

lemma take_Suc_snoc: "i < length xs \<Longrightarrow> take (Suc i) xs = take i xs @ [xs ! i]"
  by (rule take_Suc_conv_app_nth)

lemma naf_inv_skip:
  assumes inv: "naf_inv v naf i" and "i < 256" and "naf ! i = 0"
  shows "naf_inv v naf (i + 1)"
proof -
  obtain z where z: "z \<le> 4" "\<bar>slide_value (take i naf)\<bar> < 2 ^ (i + z)"
      "\<forall>j. i \<le> j \<and> j < i + z \<and> j < 256 \<longrightarrow> naf ! j = 0"
    using inv by (auto simp: naf_inv_def)
  have len: "length naf = 256" using inv by (simp add: naf_inv_def)
  have val: "slide_value (take (i + 1) naf) = slide_value (take i naf)"
    using len assms by (simp add: take_Suc_snoc slide_value_append)
  have "(2::int) ^ (i + z) \<le> 2 ^ (i + 1 + (z - 1))" by (intro power_increasing) auto
  then have "\<bar>slide_value (take (i + 1) naf)\<bar> < 2 ^ (i + 1 + (z - 1))" using z(2) val by linarith
  moreover have "\<forall>j. i + 1 \<le> j \<and> j < i + 1 + (z - 1) \<and> j < 256 \<longrightarrow> naf ! j = 0"
    using z(3) by auto
  ultimately have "\<exists>z \<le> 4. \<bar>slide_value (take (i + 1) naf)\<bar> < 2 ^ (i + 1 + z) \<and>
             (\<forall>j. i + 1 \<le> j \<and> j < i + 1 + z \<and> j < 256 \<longrightarrow> naf ! j = 0)"
    using z(1) by (intro exI [of _ "z - 1"]) auto
  then show ?thesis
    using inv assms len unfolding naf_inv_def
    by (auto simp: take_Suc_snoc naf_digit_def all_from_Suc spaced_def less_Suc_eq)
qed

lemma naf_inv_digit:
  assumes inv: "naf_inv v naf i" and i: "i < 256" "naf ! i \<noteq> 0"
  shows "naf_inv v (window naf i 1) (i + 1)"
proof -
  let ?r = "window naf i 1"
  obtain z where z: "z \<le> 4" "\<bar>slide_value (take i naf)\<bar> < 2 ^ (i + z)"
      "\<forall>j. i \<le> j \<and> j < i + z \<and> j < 256 \<longrightarrow> naf ! j = 0"
    using inv by (auto simp: naf_inv_def)
  then have "z = 0" using i by (metis add_strict_left_mono gr0I le_refl add_0_right)
  then have low: "\<bar>slide_value (take i naf)\<bar> < 2 ^ i" using z(2) by simp
  have len: "length naf = 256" and bin: "binary_from i naf" using inv by (auto simp: naf_inv_def)
  then have one: "naf ! i = 1" and bin1: "binary_from (i + 1) naf" using i by (auto simp: all_from_Suc)
  have val: "slide_value naf = v" using inv i by (auto simp: naf_inv_def all_from_Suc)
  have post: "window_post naf ?r i" using window_post_first [OF len i(1) one bin1] .
  then have lr: "length ?r = 256" and dig: "odd (?r ! i)" "\<bar>?r ! i\<bar> \<le> 15"
    and zr: "\<forall>j. i < j \<and> j \<le> i + 4 \<and> j < 256 \<longrightarrow> ?r ! j = 0" and tk: "take i ?r = take i naf"
    by (auto simp: window_post_def)
  have tv: "slide_value (take (i + 1) ?r) = slide_value (take i naf) + 2 ^ i * ?r ! i"
    using lr i tk len by (simp add: take_Suc_snoc slide_value_append)
  have "\<bar>2 ^ i * ?r ! i\<bar> \<le> 2 ^ i * 15" using dig(2) by (simp add: abs_mult)
  then have "\<bar>slide_value (take (i + 1) ?r)\<bar> < 16 * 2 ^ i" using low tv by linarith
  then have "\<bar>slide_value (take (i + 1) ?r)\<bar> < 2 ^ (i + 1 + 3)" by (simp add: power_add)
  then have "\<exists>z \<le> 4. \<bar>slide_value (take (i + 1) ?r)\<bar> < 2 ^ (i + 1 + z) \<and>
             (\<forall>j. i + 1 \<le> j \<and> j < i + 1 + z \<and> j < 256 \<longrightarrow> ?r ! j = 0)"
    using zr by (intro exI [of _ 3]) auto
  moreover have "2 ^ 255 \<le> v" if "carry_lost naf ?r i"
  proof -
    have "slide_value (take i naf) + 2 ^ i + 2 ^ 256 - 2 ^ (i + 4) \<le> v" and "i \<le> 251"
      using that val by (auto simp: carry_lost_def)
    moreover from this(2) have "(2::int) ^ (i + 4) \<le> 2 ^ 255" by (intro power_increasing) auto
    ultimately show ?thesis using low by (simp add: abs_less_iff)
  qed
  moreover have "list_all naf_digit (take i ?r)" using tk inv by (simp add: naf_inv_def)
  moreover have "spaced (i + 1) ?r"
  proof -
    have same: "j < i \<Longrightarrow> ?r ! j = naf ! j" for j using tk by (metis nth_take)
    have "spaced i naf" using inv by (simp add: naf_inv_def)
    then have far: "\<not> i \<le> j + 4" if "j < i" "?r ! j \<noteq> 0" for j
      using that i same by (auto simp: spaced_def)
    have "?r ! k = 0" if "j < i" "?r ! j \<noteq> 0" "j < k" "k \<le> j + 4" for j k
    proof -
      have "k < i" using far [OF that(1,2)] that(4) by simp
      then have "naf ! k = 0"
        using \<open>spaced i naf\<close> that same [of j] i(1) unfolding spaced_def by (metis order.strict_trans)
      then show ?thesis using same [OF \<open>k < i\<close>] by simp
    qed
    then show ?thesis using zr by (auto simp: spaced_def less_Suc_eq)
  qed
  ultimately show ?thesis
    using post lr dig i val unfolding naf_inv_def window_post_def
    by (auto simp: take_Suc_snoc naf_digit_def carry_lost_def)
qed

lemma naf_loop_inv: "naf_inv v naf i \<Longrightarrow> i \<le> 256 \<Longrightarrow> naf_inv v (naf_loop naf i) 256"
proof (induction naf i rule: naf_loop.induct)
  case (1 naf i)
  show ?case
  proof (cases "i < 256")
    case True
    have "naf_inv v (if naf ! i \<noteq> 0 then window naf i 1 else naf) (i + 1)"
      using naf_inv_skip naf_inv_digit 1(2) True by simp
    then show ?thesis using 1(1) True by (subst naf_loop.simps) simp
  qed (use 1 in \<open>subst naf_loop.simps, simp\<close>)
qed

subsection \<open>The bits of a scalar\<close>

lemma slide_value_of_bool:
  "slide_value (map (\<lambda>i. of_bool (P i)) xs) = horner_sum of_bool 2 (map P xs)"
  by (induction xs) simp_all

lemma unat_low_bit: "int (unat (1 AND drop_bit k w)) = of_bool (bit (uint w) k)" for w :: u8
proof -
  have "1 AND drop_bit k w = of_bool (bit w k)"
    by (simp add: one_and_eq bit_iff_odd_drop_bit mod_2_eq_odd)
  then show ?thesis by (auto simp: bit_unsigned_iff dest: bit_imp_le_length)
qed

lemma byte_bits_value:
  "slide_value (map (\<lambda>i. int (unat (1 AND drop_bit i w))) [0..<8]) = int (unat w)" for w :: u8
proof -
  have "slide_value (map (\<lambda>i. int (unat (1 AND drop_bit i w))) [0..<8]) = take_bit 8 (uint w)"
    by (simp only: unat_low_bit slide_value_of_bool horner_sum_bit_eq_take_bit)
  also have "take_bit 8 (uint w) = uint w"
    using unsigned_less [of w, where 'a = int] by (simp add: take_bit_int_eq_self)
  finally show ?thesis by simp
qed

lemma bytes_bits_value:
  "slide_value (map (\<lambda>i. int (unat (1 AND drop_bit (i mod 8) (b ! (i div 8))))) [0..<8 * length b]) =
   int (le_value b)"
proof (induction b)
  case (Cons w b)
  let ?f = "\<lambda>b i. int (unat (1 AND drop_bit (i mod 8) ((b :: bytes) ! (i div 8))))"
  have "[0..<8 * length (w # b)] = [0..<8] @ map (\<lambda>i. i + 8) [0..<8 * length b]"
    by (simp add: map_add_upt upt_add_eq_append [of 0 8, simplified] add.commute)
  moreover have "map (?f (w # b)) [0..<8] = map (\<lambda>i. int (unat (1 AND drop_bit i w))) [0..<8]"
    by (intro map_cong) auto
  moreover have "map (?f (w # b)) (map (\<lambda>i. i + 8) [0..<8 * length b]) = map (?f b) [0..<8 * length b]"
    by (simp add: div_add_self2)
  ultimately have "slide_value (map (?f (w # b)) [0..<8 * length (w # b)]) =
      int (unat w) + 2 ^ 8 * int (le_value b)"
    by (simp only: map_append slide_value_append byte_bits_value Cons.IH length_map length_upt) simp
  then show ?case by simp
qed simp

lemma non_adjacent_form_inv:
  assumes "length b = 32"
  shows "naf_inv (int (le_value b)) (non_adjacent_form (UnreducedScalar b)) 256"
proof -
  let ?n = "map (\<lambda>bit. int (unat bit)) (as_bits (UnreducedScalar b))"
  have "slide_value ?n = int (le_value b)"
    using bytes_bits_value [of b] assms by (simp add: comp_def)
  moreover have "binary_from 0 ?n"
    using unat_low_bit by (auto simp: all_from_def)
  ultimately have "naf_inv (int (le_value b)) ?n 0"
    by (auto simp: naf_inv_def spaced_def intro!: exI [of _ 0])
  then show ?thesis unfolding non_adjacent_form_def by (rule naf_loop_inv) simp
qed

subsection \<open>The form and the scalar recovered\<close>

text \<open>
  C30. \<open>UnreducedScalar::non_adjacent_form\<close> yields a width-5 non-adjacent form: 256 digits, each zero
  or odd and at most 15 in magnitude, with at least four zeros after every non-zero digit. They denote
  the number the 32 bytes encode, except that the carry out of bit 255 is dropped, which can only
  happen when the top bit of the number is set; then they denote the number less \<open>2 ^ 256\<close>.
\<close>

theorem non_adjacent_form_correct:
  assumes "length b = 32"
  shows "let naf = non_adjacent_form (UnreducedScalar b) in
     length naf = 256 \<and> list_all naf_digit naf \<and> spaced 256 naf \<and>
     (slide_value naf = int (le_value b) \<or>
      slide_value naf = int (le_value b) - 2 ^ 256 \<and> 2 ^ 255 \<le> le_value b)"
  using non_adjacent_form_inv [OF assms]
  unfolding naf_inv_def Let_def by (auto simp flip: of_nat_le_iff)

theorem non_adjacent_form_correct_witness:
  "length (replicate 32 255 :: bytes) = 32 \<and>
   (let naf = non_adjacent_form (UnreducedScalar (replicate 32 255)) in
     length naf = 256 \<and> list_all naf_digit naf \<and> spaced 256 naf \<and>
     (slide_value naf = int (le_value (replicate 32 255)) \<or>
      slide_value naf = int (le_value (replicate 32 255)) - 2 ^ 256 \<and>
        2 ^ 255 \<le> le_value (replicate 32 255)))"
  by (rule conjI [OF length_replicate non_adjacent_form_correct [OF length_replicate]])

text \<open>The scalar a \<open>u64\<close> or 32 bytes denote: the number, in the ring.\<close>

definition scalar_numbers :: "('s::comm_ring_1, 'z) dalek_scalar_scheme \<Rightarrow> bool" where
  "scalar_numbers D \<longleftrightarrow>
     (\<forall>x. scalar_from_u64 D x = of_nat (unat x)) \<and>
     (\<forall>b. length b = 32 \<longrightarrow> from_bytes_mod_order D b = of_nat (le_value b))"

lemma precomputed_nth:
  assumes "scalar_numbers D" and "k < 8"
  shows "PRECOMPUTED_SCALARS D ! k = of_nat (2 * k + 1)"
proof (cases k)
  case (Suc n)
  have u: "unat (word_of_nat (k * 2 + 1) :: u64) = k * 2 + 1"
    using assms(2) by (intro unat_of_nat_small) simp
  have "scalar_from_u64 D (word_of_nat (k * 2 + 1)) = of_nat (unat (word_of_nat (k * 2 + 1) :: u64))"
    using assms(1) unfolding scalar_numbers_def by blast
  also have "\<dots> = of_nat (2 * k + 1)" by (simp only: u mult.commute)
  finally have "scalar_from_u64 D (word_of_nat (k * 2 + 1)) = of_nat (2 * k + 1)" .
  moreover have "PRECOMPUTED_SCALARS D ! k = scalar_from_u64 D (word_of_nat (k * 2 + 1))"
    using Suc assms(2) by (simp add: PRECOMPUTED_SCALARS_def del: of_nat_add of_nat_mult upt_Suc)
  ultimately show ?thesis by simp
qed (simp add: PRECOMPUTED_SCALARS_def)

lemma odd_half:
  assumes "0 < d" and "odd d"
  shows "int (2 * (nat d div 2) + 1) = d"
proof -
  have "odd (nat d)" using assms by (simp add: even_nat_iff)
  then have "2 * (nat d div 2) + 1 = nat d" by (rule odd_two_times_div_two_succ)
  then show ?thesis using assms(1) by simp
qed

lemma recover_step_digit:
  assumes "scalar_numbers D" and "naf_digit d"
  shows "recover_step D r d = 2 * r + of_int d"
proof -
  consider "d = 0" | "0 < d" "odd d" "d \<le> 15" | "d < 0" "odd d" "- d \<le> 15"
    using assms(2) unfolding naf_digit_def by linarith
  then show ?thesis
  proof cases
    case 2
    then have k: "nat d div 2 < 8" by auto
    from odd_half [OF 2(1,2)] have "of_nat (2 * (nat d div 2) + 1) = (of_int d :: 'a)" by (metis of_int_of_nat_eq)
    then show ?thesis using 2 precomputed_nth [OF assms(1) k] by simp
  next
    case 3
    then have k: "nat (- d) div 2 < 8" by auto
    from odd_half [of "- d"] 3 have "int (2 * (nat (- d) div 2) + 1) = - d" by simp
    then have "of_nat (2 * (nat (- d) div 2) + 1) = (of_int (- d) :: 'a)" by (metis of_int_of_nat_eq)
    then show ?thesis using 3 precomputed_nth [OF assms(1) k] by simp
  qed simp
qed

lemma recover_digits:
  assumes "scalar_numbers D" and "list_all naf_digit ds"
  shows "foldl (recover_step D) 0 (rev ds) = of_int (slide_value ds)"
  using assms(2) by (induction ds) (simp_all add: recover_step_digit [OF assms(1)] del: recover_step.simps)

text \<open>
  C31. \<open>UnreducedScalar::ref10_slide_scalar_vartime\<close> never indexes its table of precomputed scalars out of
  range and recovers, reduced, the number the bytes encode; only when the top bit is set may it
  recover that number less \<open>2 ^ 256\<close>, as the reference implementation does. The ring operations are
  those of the scalar field, and the two conversions into it are assumed to be the number's residue.
\<close>

theorem ref10_slide_scalar_value:
  assumes "scalar_numbers D" and "length b = 32"
  shows "\<exists>x. ref10_slide_scalar_vartime D (UnreducedScalar b) = Scalar_from D (of_int x) \<and>
             (x = int (le_value b) \<or> x = int (le_value b) - 2 ^ 256 \<and> 128 \<le> unat (b ! 31))"
proof (cases "b ! 31 AND 128 = 0")
  case True
  have "from_bytes_mod_order D b = of_int (int (le_value b))"
    using assms by (simp add: scalar_numbers_def)
  then show ?thesis using True by (intro exI [of _ "int (le_value b)"]) simp
next
  case False
  then have "bit (b ! 31) 7" using and_exp_eq_0_iff_not_bit [of "b ! 31" 7] by simp
  then have "128 \<le> unat (b ! 31)" by (simp only: bit_top_u8)
  then show ?thesis
    using False non_adjacent_form_inv [OF assms(2)] recover_digits [OF assms(1)]
    by (intro exI [of _ "slide_value (non_adjacent_form (UnreducedScalar b))"])
       (auto simp: naf_inv_def simp del: recover_step.simps)
qed

definition int_scalars :: "int dalek_scalar" where
  "int_scalars = \<lparr>from_canonical_bytes = (\<lambda>b. Some (int (le_value b))),
     from_bytes_mod_order = (\<lambda>b. int (le_value b)),
     from_bytes_mod_order_wide = (\<lambda>b. int (le_value b)), scalar_from_u64 = (\<lambda>x. int (unat x)),
     scalar_to_bytes = (\<lambda>x. le_bytes 32 (nat x))\<rparr>"

theorem ref10_slide_scalar_value_witness:
  "\<exists>x. ref10_slide_scalar_vartime int_scalars (UnreducedScalar (replicate 32 255)) =
         Scalar_from int_scalars (of_int x) \<and>
       (x = int (le_value (replicate 32 255)) \<or>
        x = int (le_value (replicate 32 255)) - 2 ^ 256 \<and> 128 \<le> unat (replicate 32 255 ! 31 :: u8))"
  by (rule ref10_slide_scalar_value) (simp_all add: scalar_numbers_def int_scalars_def)

end
