(* ===== verification/Curve.thy ===== *)
theory Curve
  imports Ring_Proofs "HOL-Library.Numeral_Type"
begin

text \<open>
  What the signatures and the wallet rely on of the curve and of the hashes to it, as predicates over the record of the
  curve library's functions, and an instance which satisfies them.
\<close>

subsection \<open>What is relied on of the curve\<close>

text \<open>
  Scalars and points are determined by their canonical encodings. On points without torsion,
  multiplication by scalars has the laws of a vector space, multiplication by the cofactor is that by 8,
  and \<open>INV_EIGHT\<close> encodes the inverse of 8. Nothing is assumed of points with torsion, such as ring
  members may be.
\<close>

definition torsion_free_laws :: "('s::comm_ring_1, 'p::ab_group_add, 'z) dalek_scheme \<Rightarrow> bool" where
  "torsion_free_laws D \<longleftrightarrow>
     is_torsion_free D (ED25519_BASEPOINT_POINT D) \<and>
     (\<forall>p. is_torsion_free D (mul_by_cofactor D p)) \<and>
     (\<forall>p q. is_torsion_free D p \<longrightarrow> is_torsion_free D q \<longrightarrow> is_torsion_free D (p + q)) \<and>
     (\<forall>a p. is_torsion_free D p \<longrightarrow> is_torsion_free D (edwards_mul D a p)) \<and>
     (\<forall>a b p. is_torsion_free D p \<longrightarrow> edwards_mul D (a + b) p = edwards_mul D a p + edwards_mul D b p) \<and>
     (\<forall>a b p. is_torsion_free D p \<longrightarrow> edwards_mul D (a * b) p = edwards_mul D a (edwards_mul D b p)) \<and>
     (\<forall>p. is_torsion_free D p \<longrightarrow> edwards_mul D 1 p = p) \<and>
     (\<forall>p. is_torsion_free D p \<longrightarrow> mul_by_cofactor D p = edwards_mul D 8 p)"

definition curve_laws :: "('s::comm_ring_1, 'p::ab_group_add, 'z) dalek_scheme \<Rightarrow> bool" where
  "curve_laws D \<longleftrightarrow>
     (\<forall>s. wf_dalek_scalar D s) \<and> (\<forall>p. wf_Point D p) \<and> torsion_free_laws D \<and>
     (\<exists>i. Scalar_into D Scalar_INV_EIGHT = Some i \<and> 8 * i = 1)"

lemma edwards_mul_diff:
  assumes "torsion_free_laws D" and "is_torsion_free D p"
  shows "edwards_mul D (a - b) p = edwards_mul D a p - edwards_mul D b p"
proof -
  have "edwards_mul D (a - b) p + edwards_mul D b p = edwards_mul D ((a - b) + b) p"
    using assms unfolding torsion_free_laws_def by metis
  then show ?thesis by (simp add: eq_diff_eq)
qed

lemma curve_scalar:
  assumes "curve_laws D"
  shows "Scalar_into D (Scalar_from D s) = Some s" and "length (scalar_to_bytes D s) = 32"
  using assms by (simp_all add: curve_laws_def wf_dalek_scalar_def Scalar_from_def)

lemma curve_point:
  assumes "curve_laws D"
  shows "CompressedPoint_decompress D (CompressedPoint (edwards_compress D p)) = Some p"
    and "length (edwards_compress D p) = 32"
  using assms by (simp_all add: curve_laws_def wf_Point_def)

text \<open>\<open>H\<close> is a point without torsion, and a \<open>u64\<close> becomes the scalar of its value.\<close>

definition amount_laws :: "('s::comm_ring_1, 'p::ab_group_add, 'z) dalek_scheme \<Rightarrow> bool" where
  "amount_laws D \<longleftrightarrow>
     (\<exists>H. edwards_decompress D (CompressedPoint_to_bytes CompressedPoint_H) = Some H \<and> is_torsion_free D H) \<and>
     (\<forall>a. scalar_from_u64 D a = of_nat (unat a))"

definition H_mul :: "('s, 'p::zero, 'z) dalek_scheme \<Rightarrow> 's \<Rightarrow> 'p" where
  "H_mul D a =
     (case edwards_decompress D (CompressedPoint_to_bytes CompressedPoint_H) of
        None \<Rightarrow> 0 | Some H \<Rightarrow> edwards_mul D a H)"

lemma H_mul_add:
  assumes "curve_laws D" and "amount_laws D"
  shows "H_mul D (a + b) = H_mul D a + H_mul D b"
  using assms by (auto simp: H_mul_def curve_laws_def torsion_free_laws_def amount_laws_def)

lemma H_mul_0:
  assumes "curve_laws D" and "amount_laws D"
  shows "H_mul D 0 = 0"
  using H_mul_add [OF assms, of 0 0] by simp

lemma basepoint_mul_0:
  assumes "curve_laws D"
  shows "edwards_mul D 0 (ED25519_BASEPOINT_POINT D) = 0"
proof -
  have "edwards_mul D (0 + 0) (ED25519_BASEPOINT_POINT D) =
      edwards_mul D 0 (ED25519_BASEPOINT_POINT D) + edwards_mul D 0 (ED25519_BASEPOINT_POINT D)"
    using assms unfolding curve_laws_def torsion_free_laws_def by metis
  then show ?thesis by simp
qed

text \<open>No preimage hashes to zero or off the curve: neither is known to be feasible, and either would panic.\<close>

definition hashes_total :: "('s::zero, 'p, 'z) dalek_scheme \<Rightarrow> (bytes \<Rightarrow> bytes) \<Rightarrow> bool" where
  "hashes_total D keccak256 \<longleftrightarrow>
     (\<forall>data. from_bytes_mod_order D (keccak256 data) \<noteq> 0) \<and>
     (\<forall>data. Point_biased_hash D keccak256 data \<noteq> None)"

lemma Scalar_hash_value:
  "hashes_total D k \<Longrightarrow> Scalar_hash D k data = Some (Scalar_from D (from_bytes_mod_order D (k data)))"
  by (simp add: hashes_total_def Scalar_hash_def)

subsection \<open>An instance\<close>

text \<open>The integers modulo 3, as scalars and as points, satisfy the laws: 2 is the inverse of 8, encoded as
  \<open>INV_EIGHT\<close> among the scalars and as \<open>H\<close> among the points. Every preimage hashes to 1.\<close>

lemma all_3: "(\<forall>x :: 3. P x) \<longleftrightarrow> P 0 \<and> P 1 \<and> P 2"
proof -
  have "UNIV = {0, 1, 2 :: 3}" by (rule card_subset_eq [symmetric]) (simp_all add: card_insert_if)
  then show ?thesis by (metis UNIV_I insertE singletonD)
qed

definition bytes_3 :: "bytes \<Rightarrow> 3 \<Rightarrow> bytes" where
  "bytes_3 two x = (if x = 0 then replicate 32 0 else if x = 1 then 1 # replicate 31 0 else two)"

definition from_bytes_3 :: "bytes \<Rightarrow> bytes \<Rightarrow> 3 option" where
  "from_bytes_3 two b = (if b = bytes_3 two 0 then Some 0 else if b = bytes_3 two 1 then Some 1
     else if b = two then Some 2 else None)"

definition example_curve :: "(3, 3) dalek" where
  "example_curve =
     \<lparr>from_canonical_bytes = from_bytes_3 (Scalar_write Scalar_INV_EIGHT), from_bytes_mod_order = (\<lambda>_. 1),
      from_bytes_mod_order_wide = (\<lambda>_. 1), scalar_from_u64 = (\<lambda>x. of_nat (unat x)),
      scalar_to_bytes = bytes_3 (Scalar_write Scalar_INV_EIGHT),
      edwards_decompress = from_bytes_3 (CompressedPoint_write CompressedPoint_H),
      edwards_compress = bytes_3 (CompressedPoint_write CompressedPoint_H),
      edwards_mul = (*), ED25519_BASEPOINT_POINT = 1, is_torsion_free = (\<lambda>_. True),
      mul_by_cofactor = (*) 8, montgomery_to_edwards = (\<lambda>_ _. Some 1), residue_invert = (\<lambda>x. x)\<rparr>"

lemma bytes_3_distinct:
  assumes "hd two \<noteq> 0" and "hd two \<noteq> 1" and "length two = 32"
  shows "length (bytes_3 two x) = 32" and "from_bytes_3 two (bytes_3 two x) = Some x"
proof -
  obtain h t where two: "two = h # t" "h \<noteq> 0" "h \<noteq> 1" "length t = 31" using assms by (cases two) auto
  have zeros: "replicate 32 (0 :: u8) = 0 # replicate 31 0" by (simp add: numeral_eq_Suc)
  have "\<forall>x. length (bytes_3 two x) = 32 \<and> from_bytes_3 two (bytes_3 two x) = Some x"
    using two(2-) unfolding all_3 by (simp add: bytes_3_def from_bytes_3_def zeros two(1))
  then show "length (bytes_3 two x) = 32" and "from_bytes_3 two (bytes_3 two x) = Some x" by blast+
qed

lemma example_bytes:
  shows "length (bytes_3 (Scalar_write Scalar_INV_EIGHT) x) = 32"
    and "from_bytes_3 (Scalar_write Scalar_INV_EIGHT) (bytes_3 (Scalar_write Scalar_INV_EIGHT) x) = Some x"
    and "length (bytes_3 (CompressedPoint_write CompressedPoint_H) x) = 32"
    and "from_bytes_3 (CompressedPoint_write CompressedPoint_H) (bytes_3 (CompressedPoint_write CompressedPoint_H) x) = Some x"
  by (rule bytes_3_distinct; simp add: Scalar_INV_EIGHT_def CompressedPoint_H_def)+

lemma example_curve_fields [simp]:
  "scalar_to_bytes example_curve = bytes_3 (Scalar_write Scalar_INV_EIGHT)"
  "from_canonical_bytes example_curve = from_bytes_3 (Scalar_write Scalar_INV_EIGHT)"
  "from_bytes_mod_order example_curve b = 1" "from_bytes_mod_order_wide example_curve b = 1"
  "edwards_compress example_curve = bytes_3 (CompressedPoint_write CompressedPoint_H)"
  "edwards_decompress example_curve = from_bytes_3 (CompressedPoint_write CompressedPoint_H)"
  "edwards_mul example_curve = (*)" "ED25519_BASEPOINT_POINT example_curve = 1"
  "is_torsion_free example_curve p" "mul_by_cofactor example_curve = (*) 8"
  "montgomery_to_edwards example_curve b x = Some 1" "scalar_from_u64 example_curve = (\<lambda>x. of_nat (unat x))"
  by (simp_all add: example_curve_def)

lemma example_into: "Scalar_into example_curve (Scalar_from example_curve s) = Some s"
  by (simp add: Scalar_from_def example_bytes)

lemma example_curve_laws: "curve_laws example_curve"
proof -
  have "torsion_free_laws example_curve"
    by (simp add: torsion_free_laws_def algebra_simps)
  moreover have "Scalar_INV_EIGHT = Scalar_from example_curve 2"
    by (simp add: Scalar_from_def bytes_3_def Scalar_INV_EIGHT_def)
  then have "Scalar_into example_curve Scalar_INV_EIGHT = Some 2" using example_into by metis
  ultimately show ?thesis
    by (simp add: curve_laws_def wf_dalek_scalar_def wf_Point_def example_bytes)
qed

lemma example_biased_hash [simp]: "Point_biased_hash example_curve k t = Some 2"
  by (simp add: Point_biased_hash_def Let_def split: prod.split)

lemma example_random [simp]: "Scalar_random example_curve (\<lambda>rng. ([], rng)) rng = (Scalar_from example_curve 1, rng)"
  by (simp add: Scalar_random_def Scalar_from_def)

lemma example_hashes_total: "hashes_total example_curve k"
  by (simp add: hashes_total_def)

lemma example_H: "edwards_decompress example_curve (CompressedPoint_to_bytes CompressedPoint_H) = Some 2"
  using example_bytes(4) [of 2] by (simp add: bytes_3_def CompressedPoint_to_bytes_write)

lemma example_amount_laws: "amount_laws example_curve"
  using example_H by (simp add: amount_laws_def)

end
