(* ===== verification/Decoys.thy ===== *)
theory Decoys
  imports Ed25519
begin

text \<open>
  The ring a CLSAG is made over (\<^verbatim>\<open>ringct/clsag/src/decoys.rs\<close>): the offsets of its members within
  the blockchain, the signer's index and the members' keys and commitments. Comparisons the source
  makes in constant time are plain comparisons here.
\<close>

record 'p Decoys =
  decoy_offsets :: "u64 list"
  decoy_signer_index :: u8
  decoy_ring :: "('p \<times> 'p) list"

definition MAX_RING_SIZE :: u8 where
  "MAX_RING_SIZE = 255"

text \<open>The loop over the offsets: \<open>first\<close> is whether \<open>i\<close> is 0, \<open>acc\<close> the position so far.\<close>

fun offsets_representable :: "bool \<Rightarrow> u64 \<Rightarrow> u64 list \<Rightarrow> bool" where
  "offsets_representable first acc [] \<longleftrightarrow> True"
| "offsets_representable first acc (offset # offsets) \<longleftrightarrow>
     (let new_sum = acc + offset
      in (first \<or> new_sum > acc) \<and> offsets_representable False new_sum offsets)"

definition Decoys_new :: "u64 list \<Rightarrow> u8 \<Rightarrow> ('p \<times> 'p) list \<Rightarrow> 'p Decoys option" where
  "Decoys_new offsets signer_index ring =
     (let ring_len_does_not_exceed_max =
            drop_bit 8 (vec_len ring) = 0 \<and> \<not> (ucast (vec_len ring) :: u8) > MAX_RING_SIZE;
          signer_index_points_to_ring_member = signer_index < ucast (vec_len ring);
          offsets_align_with_ring = (vec_len offsets = vec_len ring)
      in if ring_len_does_not_exceed_max \<and> signer_index_points_to_ring_member \<and>
            offsets_align_with_ring \<and> offsets_representable True 0 offsets
         then Some \<lparr>decoy_offsets = offsets, decoy_signer_index = signer_index, decoy_ring = ring\<rparr>
         else None)"

definition Decoys_len :: "'p Decoys \<Rightarrow> nat" where
  "Decoys_len d = length (decoy_offsets d)"

text \<open>\<open>positions\<close> adds \<open>u64\<close>s and indexes the first offset: \<open>None\<close> is a panic of either.\<close>

fun positions_from :: "u64 \<Rightarrow> u64 list \<Rightarrow> u64 list option" where
  "positions_from prev [] = Some []"
| "positions_from prev (offset # offsets) =
     (if unat prev + unat offset < 2 ^ 64
      then map_option ((#) (prev + offset)) (positions_from (prev + offset) offsets)
      else None)"

definition Decoys_positions :: "'p Decoys \<Rightarrow> u64 list option" where
  "Decoys_positions d =
     (case decoy_offsets d of
        [] \<Rightarrow> None
      | offset # offsets \<Rightarrow> map_option ((#) offset) (positions_from offset offsets))"

text \<open>The loop from the second member on; \<open>i\<close> is the index of the next member. An empty ring panics.\<close>

fun select_member :: "nat \<Rightarrow> nat \<Rightarrow> 'p \<times> 'p \<Rightarrow> ('p \<times> 'p) list \<Rightarrow> 'p \<times> 'p" where
  "select_member signer i result [] = result"
| "select_member signer i result (member # members) =
     select_member signer (i + 1) (if i = signer then member else result) members"

definition signer_ring_members :: "'p Decoys \<Rightarrow> ('p \<times> 'p) option" where
  "signer_ring_members d =
     (case decoy_ring d of
        [] \<Rightarrow> None
      | member # members \<Rightarrow> Some (select_member (unat (decoy_signer_index d)) 1 member members))"

definition ring_member_write :: "('s, 'p, 'z) dalek_scheme \<Rightarrow> 'p \<times> 'p \<Rightarrow> bytes" where
  "ring_member_write D pair =
     CompressedPoint_write (Point_compress D (fst pair)) @
     CompressedPoint_write (Point_compress D (snd pair))"

definition Decoys_write :: "('s, 'p, 'z) dalek_scheme \<Rightarrow> 'p Decoys \<Rightarrow> bytes" where
  "Decoys_write D d =
     write_vec varint_write (decoy_offsets d) @ [decoy_signer_index d] @
     write_raw_vec (ring_member_write D) (decoy_ring d)"

definition ring_member_read :: "('s, 'p, 'z) dalek_scheme \<Rightarrow> ('p \<times> 'p) reader" where
  "ring_member_read D =
     and_then CompressedPoint_read (\<lambda>k.
     case CompressedPoint_decompress D k of
       None \<Rightarrow> err (Other ''Decoys had invalid key in ring'')
     | Some key \<Rightarrow>
         and_then CompressedPoint_read (\<lambda>c.
         case CompressedPoint_decompress D c of
           None \<Rightarrow> err (Other ''Decoys had invalid commitment in ring'')
         | Some commitment \<Rightarrow> ok (key, commitment)))"

definition Decoys_read :: "('s, 'p, 'z) dalek_scheme \<Rightarrow> 'p Decoys reader" where
  "Decoys_read D =
     and_then (read_vec varint_read (Some (unat MAX_RING_SIZE))) (\<lambda>offsets.
     and_then read_byte (\<lambda>signer_index.
     and_then (read_raw_vec (ring_member_read D) (length offsets)) (\<lambda>ring.
     case Decoys_new offsets signer_index ring of
       None \<Rightarrow> err (Other ''invalid Decoys'')
     | Some d \<Rightarrow> ok d)))"

subsection \<open>What \<open>Decoys::new\<close> accepts\<close>

text \<open>The positions the offsets denote, as numbers.\<close>

fun offset_sums :: "nat \<Rightarrow> u64 list \<Rightarrow> nat list" where
  "offset_sums n [] = []"
| "offset_sums n (offset # offsets) = (n + unat offset) # offset_sums (n + unat offset) offsets"

lemma offset_sums_ge: "x \<in> set (offset_sums n os) \<Longrightarrow> n \<le> x"
  by (induction n os rule: offset_sums.induct) fastforce+

lemma add_greater_iff:
  "a < a + b \<longleftrightarrow> b \<noteq> 0 \<and> unat a + unat b < 2 ^ 64" for a b :: u64
proof -
  have bound: "unat a < 2 ^ 64" "unat b < 2 ^ 64"
    using unsigned_less [of a, where 'a = nat] unsigned_less [of b, where 'a = nat] by simp_all
  have "unat (a + b) = (unat a + unat b) mod 2 ^ 64" by (simp add: unat_word_ariths)
  also have "\<dots> = (if unat a + unat b < 2 ^ 64 then unat a + unat b else unat a + unat b - 2 ^ 64)"
    using bound by (simp add: mod_if)
  finally have acc_eq: "unat (a + b) = (if unat a + unat b < 2 ^ 64 then unat a + unat b else unat a + unat b - 2 ^ 64)" .
  have "b \<noteq> 0 \<longleftrightarrow> 0 < unat b" by (simp add: word_unat_eq_iff)
  then show ?thesis unfolding word_less_nat_alt acc_eq using bound by auto
qed

lemma unat_add_small: "unat a + unat b < 2 ^ 64 \<Longrightarrow> unat (a + b) = unat a + unat b" for a b :: u64
  by (simp add: unat_word_ariths)

lemma offsets_representable_iff:
  "offsets_representable False acc os \<longleftrightarrow>
   (\<forall>x \<in> set (offset_sums (unat acc) os). x < 2 ^ 64) \<and>
   sorted_wrt (<) (unat acc # offset_sums (unat acc) os)"
proof (induction os arbitrary: acc)
  case (Cons o1 os)
  show ?case
  proof (cases "unat acc + unat o1 < 2 ^ 64")
    case True
    have "acc < acc + o1 \<longleftrightarrow> unat acc < unat acc + unat o1"
      using True by (simp add: add_greater_iff word_unat_eq_iff)
    moreover have "sorted_wrt (<) (unat acc # (unat acc + unat o1) # l) \<longleftrightarrow>
        unat acc < unat acc + unat o1 \<and> sorted_wrt (<) ((unat acc + unat o1) # l)" for l
      by (auto dest: order.strict_trans)
    ultimately show ?thesis
      using True Cons.IH [of "acc + o1"]
      by (simp only: unat_add_small [OF True] offsets_representable.simps offset_sums.simps Let_def
          list.set ball_simps simp_thms conj_assoc conj_left_commute)
  qed (simp add: add_greater_iff)
qed simp

lemma offsets_representable_first:
  "offsets_representable True 0 os \<longleftrightarrow>
   (\<forall>x \<in> set (offset_sums 0 os). x < 2 ^ 64) \<and> sorted_wrt (<) (offset_sums 0 os)"
proof (cases os)
  case (Cons o1 rest)
  have "unat o1 < 2 ^ 64" using unsigned_less [of o1, where 'a = nat] by simp
  then show ?thesis by (auto simp: Cons offsets_representable_iff [of o1 rest])
qed simp

lemma positions_from_sums:
  "\<forall>x \<in> set (offset_sums (unat prev) os). x < 2 ^ 64 \<Longrightarrow>
   \<exists>ps. positions_from prev os = Some ps \<and> map unat ps = offset_sums (unat prev) os"
proof (induction os arbitrary: prev)
  case (Cons o1 os)
  then have small: "unat prev + unat o1 < 2 ^ 64" by simp
  have "\<exists>ps. positions_from (prev + o1) os = Some ps \<and> map unat ps = offset_sums (unat prev + unat o1) os"
    using Cons.IH [of "prev + o1"] Cons.prems by (simp add: unat_add_small [OF small])
  then show ?case using small by (auto simp: unat_add_small [OF small])
qed simp

lemma select_member_nth:
  "signer < i \<Longrightarrow> select_member signer i result members = result"
  "i \<le> signer \<Longrightarrow> signer < i + length members \<Longrightarrow>
     select_member signer i result members = members ! (signer - i)"
proof (induction members arbitrary: i result)
  case (Cons m ms)
  {
    case 1
    then show ?case using Cons.IH(1) [of "i + 1"] by simp
  next
    case 2
    show ?case
    proof (cases "i = signer")
      case True
      then show ?thesis using Cons.IH(1) [of "i + 1"] by simp
    next
      case False
      with 2 have "select_member signer (i + 1) result ms = ms ! (signer - (i + 1))"
        by (intro Cons.IH(2)) simp_all
      moreover have "signer - i = Suc (signer - (i + 1))" using False 2 by simp
      ultimately show ?thesis using False by simp
    qed
  }
qed simp_all

lemma signer_ring_members_nth:
  assumes "unat (decoy_signer_index d) < length (decoy_ring d)"
  shows "signer_ring_members d = Some (decoy_ring d ! unat (decoy_signer_index d))"
proof -
  obtain m ms where ring: "decoy_ring d = m # ms" using assms by (cases "decoy_ring d") auto
  then show ?thesis
    using assms
      select_member_nth [where signer = "unat (decoy_signer_index d)" and i = 1 and result = m and members = ms]
    by (cases "unat (decoy_signer_index d)") (auto simp: signer_ring_members_def ring)
qed

lemma unat_u8_less: "unat (x :: u8) < 256"
  using unsigned_less [of x, where 'a = nat] by simp

lemma ring_len_check:
  assumes "fits_usize ring"
  shows "drop_bit 8 (vec_len ring) = 0 \<longleftrightarrow> length ring \<le> 255"
    and "length ring \<le> 255 \<Longrightarrow> unat (ucast (vec_len ring) :: u8) = length ring"
proof -
  have "drop_bit 8 (vec_len ring) = 0 \<longleftrightarrow> unat (drop_bit 8 (vec_len ring)) = 0"
    by (simp only: word_unat_eq_iff) simp
  then show "drop_bit 8 (vec_len ring) = 0 \<longleftrightarrow> length ring \<le> 255"
    using assms by (auto simp: unat_drop_bit div_eq_0_iff)
  assume "length ring \<le> 255"
  then show "unat (ucast (vec_len ring) :: u8) = length ring"
    using assms by (subst unat_ucast_small) simp_all
qed

lemma Decoys_new_iff:
  assumes "fits_usize offsets" and "fits_usize ring"
  shows "Decoys_new offsets signer_index ring = Some d \<longleftrightarrow>
    d = \<lparr>decoy_offsets = offsets, decoy_signer_index = signer_index, decoy_ring = ring\<rparr> \<and>
    length ring \<le> 255 \<and> unat signer_index < length ring \<and> length offsets = length ring \<and>
    (\<forall>x \<in> set (offset_sums 0 offsets). x < 2 ^ 64) \<and> sorted_wrt (<) (offset_sums 0 offsets)"
proof -
  have max: "unat x \<le> unat MAX_RING_SIZE" for x :: u8
    using unat_u8_less [of x] by (simp add: MAX_RING_SIZE_def)
  have len: "vec_len offsets = vec_len ring \<longleftrightarrow> length offsets = length ring"
    using assms by (auto simp: word_unat_eq_iff)
  show ?thesis
    using ring_len_check [OF assms(2)]
    by (auto simp: Decoys_new_def Let_def max len offsets_representable_first word_less_nat_alt not_less)
qed

subsection \<open>The codec\<close>

definition wf_Decoys :: "('s, 'p, 'z) dalek_scheme \<Rightarrow> 'p Decoys \<Rightarrow> bool" where
  "wf_Decoys D d \<longleftrightarrow>
     Decoys_new (decoy_offsets d) (decoy_signer_index d) (decoy_ring d) = Some d \<and>
     length (decoy_offsets d) = length (decoy_ring d) \<and> length (decoy_ring d) \<le> 255 \<and>
     list_all (\<lambda>x. wf_Point D (fst x) \<and> wf_Point D (snd x)) (decoy_ring d)"

lemma ring_member_read_iff:
  "ring_member_read D bs = Inr (x, rest) \<longleftrightarrow>
   (wf_Point D (fst x) \<and> wf_Point D (snd x)) \<and> bs = ring_member_write D x @ rest"
proof
  assume "ring_member_read D bs = Inr (x, rest)"
  then obtain k c r where "wf_CompressedPoint k" "bs = CompressedPoint_write k @ r"
      "CompressedPoint_decompress D k = Some (fst x)"
      "wf_CompressedPoint c" "r = CompressedPoint_write c @ rest" "CompressedPoint_decompress D c = Some (snd x)"
    by (auto simp: ring_member_read_def and_then_eq_Inr codec_iff split: option.splits)
  then show "(wf_Point D (fst x) \<and> wf_Point D (snd x)) \<and> bs = ring_member_write D x @ rest"
    using decompress_wf [of D k "fst x"] decompress_wf [of D c "snd x"] by (simp add: ring_member_write_def)
next
  assume "(wf_Point D (fst x) \<and> wf_Point D (snd x)) \<and> bs = ring_member_write D x @ rest"
  then show "ring_member_read D bs = Inr (x, rest)"
    using decompress_wf [of D "Point_compress D (fst x)" "fst x"]
      decompress_wf [of D "Point_compress D (snd x)" "snd x"]
    by (simp add: ring_member_read_def ring_member_write_def and_then_def point_codec.rd_wr)
qed

interpretation ring_member_codec: codec "ring_member_write D" "ring_member_read D"
    "\<lambda>x. wf_Point D (fst x) \<and> wf_Point D (snd x)" for D
  by (rule codec_iffI [OF ring_member_read_iff])

interpretation ring_codec: codec "write_raw_vec (ring_member_write D)" "read_raw_vec (ring_member_read D) n"
    "wf_raw_vec (\<lambda>x. wf_Point D (fst x) \<and> wf_Point D (snd x)) n" for D n
  by (rule ring_member_codec.raw_vec_codec)

interpretation offset_vec_codec: codec "write_vec (varint_write :: u64 \<Rightarrow> bytes)" "read_vec varint_read b"
    "wf_vec (\<lambda>_. True) b" for b
  by (rule varint_u64.vec_codec)

lemma Decoys_new_fields:
  "Decoys_new offsets i ring = Some d \<Longrightarrow>
   d = \<lparr>decoy_offsets = offsets, decoy_signer_index = i, decoy_ring = ring\<rparr>"
  by (auto simp: Decoys_new_def Let_def split: if_splits)

lemma Decoys_read_iff:
  "Decoys_read D bs = Inr (x, rest) \<longleftrightarrow> wf_Decoys D x \<and> bs = Decoys_write D x @ rest"
proof
  assume "Decoys_read D bs = Inr (x, rest)"
  then obtain offsets i ring r1 r2 where
    "read_vec varint_read (Some (unat MAX_RING_SIZE)) bs = Inr (offsets, r1)"
    "read_byte r1 = Inr (i, r2)" "read_raw_vec (ring_member_read D) (length offsets) r2 = Inr (ring, rest)"
    and new: "Decoys_new offsets i ring = Some x"
    by (auto simp: Decoys_read_def and_then_eq_Inr split: option.splits)
  then show "wf_Decoys D x \<and> bs = Decoys_write D x @ rest"
    using Decoys_new_fields [OF new]
    by (auto simp: offset_vec_codec.rd_iff read_byte_Inr ring_codec.rd_iff wf_vec_def wf_raw_vec_def
        wf_Decoys_def Decoys_write_def MAX_RING_SIZE_def split_beta)
next
  assume "wf_Decoys D x \<and> bs = Decoys_write D x @ rest"
  then have wf: "wf_Decoys D x" and bs: "bs = Decoys_write D x @ rest" by simp_all
  have "wf_vec (\<lambda>_. True) (Some (unat MAX_RING_SIZE)) (decoy_offsets x)"
    using wf by (simp add: wf_Decoys_def wf_vec_def fits_usize_def MAX_RING_SIZE_def list_all_iff)
  moreover have "wf_raw_vec (\<lambda>x. wf_Point D (fst x) \<and> wf_Point D (snd x)) (length (decoy_offsets x)) (decoy_ring x)"
    using wf by (simp add: wf_Decoys_def wf_raw_vec_def split_beta)
  ultimately show "Decoys_read D bs = Inr (x, rest)"
    using wf
    by (simp add: bs Decoys_read_def Decoys_write_def and_then_def offset_vec_codec.rd_wr ring_codec.rd_wr
        wf_Decoys_def)
qed

interpretation decoys_codec: codec "Decoys_write D" "Decoys_read D" "wf_Decoys D" for D
  by (rule codec_iffI [OF Decoys_read_iff])

text \<open>A set of decoys is read from exactly the bytes it is written as, and what is read has passed the
  checks of \<open>Decoys::new\<close>.\<close>

theorem decoys_read_canonical:
  "Decoys_read D bs = Inr (d, rest) \<longleftrightarrow> wf_Decoys D d \<and> bs = Decoys_write D d @ rest"
  by (rule Decoys_read_iff)

text \<open>Whatever decoys \<open>Decoys::new\<close> accepts, selecting the signer's ring member and computing the
  positions do not panic: the member selected is the one at the signer's index, and the positions are
  strictly increasing (so no output is a ring member twice) and representable.\<close>

theorem decoys_new_sound:
  assumes "Decoys_new offsets signer_index ring = Some d" and "fits_usize offsets" and "fits_usize ring"
  shows "signer_ring_members d = Some (ring ! unat signer_index) \<and> unat signer_index < length ring \<and>
         (\<exists>ps. Decoys_positions d = Some ps \<and> length ps = length ring \<and> sorted_wrt (<) ps)"
proof -
  from assms have d: "d = \<lparr>decoy_offsets = offsets, decoy_signer_index = signer_index, decoy_ring = ring\<rparr>"
    and i: "unat signer_index < length ring" and len: "length offsets = length ring"
    and sums: "\<forall>x \<in> set (offset_sums 0 offsets). x < 2 ^ 64" "sorted_wrt (<) (offset_sums 0 offsets)"
    by (simp_all add: Decoys_new_iff)
  have "signer_ring_members d = Some (ring ! unat signer_index)"
    using signer_ring_members_nth [of d] i by (simp add: d)
  moreover obtain o1 os where os: "offsets = o1 # os" using len i by (cases offsets) auto
  obtain ps where "positions_from o1 os = Some ps" "map unat ps = offset_sums (unat o1) os"
    using positions_from_sums [of o1 os] sums(1) by (auto simp: os)
  then have ps: "Decoys_positions d = Some (o1 # ps)" "map unat (o1 # ps) = offset_sums 0 offsets"
    by (simp_all add: Decoys_positions_def d os)
  have "length (offset_sums n xs) = length xs" for n xs by (induction n xs rule: offset_sums.induct) simp_all
  with ps(2) len have "length (o1 # ps) = length ring" by (metis length_map)
  moreover have "sorted_wrt (<) (o1 # ps)"
    using sums(2) by (simp only: ps(2) [symmetric] sorted_wrt_map word_less_nat_alt [abs_def])
  ultimately show ?thesis using i ps(1) by blast
qed

end
