(* ===== verification/Clsag_Signature.thy ===== *)
theory Clsag_Signature
  imports Curve Decoys
begin

text \<open>
  Making and verifying CLSAGs (\<^verbatim>\<open>ringct/clsag/src/lib.rs\<close>). A function of the source which returns a
  \<open>Result\<close> returns a sum here, in an option whose \<open>None\<close> is a panic (a hash which is zero, a scalar
  which is not canonical, an index out of range). The selections the source makes in constant time
  are conditionals, and its precomputed tables and multi-scalar multiplications the sums of products
  they stand for. Zeroising and the \<open>debug_assert\<close> on the result are left out; that the assertion
  holds is the theorem of this theory.
\<close>

datatype ClsagError =
  InvalidRing | InvalidKey | InvalidCommitment | InvalidImage | InvalidD | InvalidS | InvalidC1

record 'p ClsagContext =
  ctx_commitment :: Commitment
  ctx_decoys :: "'p Decoys"

definition ClsagContext_new ::
  "('s::comm_ring_1, 'p::ab_group_add, 'z) dalek_scheme \<Rightarrow> 'p Decoys \<Rightarrow> Commitment \<Rightarrow>
   (ClsagError + 'p ClsagContext) option" where
  "ClsagContext_new D decoys commitment =
     Option.bind (signer_ring_members decoys) (\<lambda>member.
     Option.bind (Commitment_commit D commitment) (\<lambda>c.
     Some (if snd member \<noteq> c then Inl InvalidCommitment
           else Inr \<lparr>ctx_commitment = commitment, ctx_decoys = decoys\<rparr>)))"

datatype ('s, 'p) Mode = Sign u8 'p 'p | Verify 's CompressedPoint

subsection \<open>The core\<close>

definition hash_scalar ::
  "('s::zero, 'z) dalek_scalar_scheme \<Rightarrow> (bytes \<Rightarrow> bytes) \<Rightarrow> bytes \<Rightarrow> 's option" where
  "hash_scalar D keccak256 data = Option.bind (Scalar_hash D keccak256 data) (Scalar_into D)"

text \<open>\<open>CLSAG_\<close>, \<open>agg_0\<close> and \<open>round\<close>, as bytes.\<close>

definition PREFIX :: bytes where
  "PREFIX = [0x43, 0x4c, 0x53, 0x41, 0x47, 0x5f]"

definition AGG_0 :: bytes where
  "AGG_0 = [0x61, 0x67, 0x67, 0x5f, 0x30]"

definition ROUND :: bytes where
  "ROUND = [0x72, 0x6f, 0x75, 0x6e, 0x64]"

definition PREFIX_AGG_0_LEN :: nat where
  "PREFIX_AGG_0_LEN = length PREFIX + length AGG_0"

text \<open>The transcript for \<open>mu_P\<close>.\<close>

definition agg_transcript ::
  "('s, 'p, 'z) dalek_scheme \<Rightarrow> ('p \<times> 'p) list \<Rightarrow> 'p \<Rightarrow> 'p \<Rightarrow> bytes \<Rightarrow> bytes" where
  "agg_transcript D ring I pseudo_out D_bytes =
     PREFIX @ AGG_0 @ replicate (32 - PREFIX_AGG_0_LEN) 0 @
     concat (map (\<lambda>member. edwards_compress D (fst member)) ring) @
     concat (map (\<lambda>member. edwards_compress D (snd member)) ring) @
     edwards_compress D I @ D_bytes @ edwards_compress D pseudo_out"

text \<open>Its edit into the transcript of a round, up to the message.\<close>

fun overwrite :: "nat \<Rightarrow> bytes \<Rightarrow> bytes \<Rightarrow> bytes" where
  "overwrite i [] to_hash = to_hash"
| "overwrite i (b # bs) to_hash = overwrite (i + 1) bs (to_hash[i := b])"

definition round_transcript ::
  "('s, 'p, 'z) dalek_scheme \<Rightarrow> nat \<Rightarrow> 'p \<Rightarrow> bytes \<Rightarrow> bytes \<Rightarrow> bytes" where
  "round_transcript D n pseudo_out msg_hash to_hash =
     overwrite (length PREFIX) ROUND (take ((2 * n + 1) * 32) to_hash) @
     edwards_compress D pseudo_out @ msg_hash"

record ('s, 'p) core_params =
  core_ring :: "('p \<times> 'p) list"
  core_I :: 'p
  core_pseudo_out :: 'p
  core_D :: 'p
  core_s :: "Scalar list"
  core_mu_P :: 's
  core_mu_C :: 's
  core_start :: nat
  core_end :: nat

text \<open>The transcript once \<open>L\<close> and \<open>R\<close> of ring member \<open>i\<close> were appended to it.\<close>

definition core_transcript ::
  "('s::comm_ring_1, 'p::ab_group_add, 'z) dalek_scheme \<Rightarrow> (bytes \<Rightarrow> bytes) \<Rightarrow> ('s, 'p) core_params \<Rightarrow>
   nat \<Rightarrow> 's \<Rightarrow> bytes \<Rightarrow> bytes option" where
  "core_transcript D keccak256 params i c to_hash =
     (let n = length (core_ring params);
          c_p = core_mu_P params * c;
          c_c = core_mu_C params * c
      in if i < length (core_s params) then
           Option.bind (Scalar_into D (core_s params ! i)) (\<lambda>s_i.
           let P_i = fst (core_ring params ! i);
               C_i = snd (core_ring params ! i) - core_pseudo_out params;
               L = edwards_mul D s_i (ED25519_BASEPOINT_POINT D) + edwards_mul D c_p P_i +
                   edwards_mul D c_c C_i
           in Option.bind (Point_biased_hash D keccak256 (edwards_compress D P_i)) (\<lambda>PH.
              let R = edwards_mul D c_p (core_I params) + edwards_mul D c_c (core_D params) +
                      edwards_mul D s_i PH
              in Some (take ((2 * n + 3) * 32) to_hash @ edwards_compress D L @ edwards_compress D R)))
         else None)"

text \<open>An iteration of the core loop, over whether the index is in range, \<open>c\<close>, \<open>c1\<close> and the transcript.\<close>

definition core_step ::
  "('s::comm_ring_1, 'p::ab_group_add, 'z) dalek_scheme \<Rightarrow> (bytes \<Rightarrow> bytes) \<Rightarrow> ('s, 'p) core_params \<Rightarrow>
   nat \<Rightarrow> bool \<times> 's \<times> 's \<times> bytes \<Rightarrow> (bool \<times> 's \<times> 's \<times> bytes) option" where
  "core_step D keccak256 params i st =
     (case st of (in_range, c, c1, to_hash) \<Rightarrow>
        let n = length (core_ring params);
            in_range = (in_range \<or> i = core_start params);
            in_range = (in_range \<noteq> (i = core_end params));
            i = i mod n
        in Option.bind (core_transcript D keccak256 params i c to_hash) (\<lambda>to_hash.
           Option.bind (hash_scalar D keccak256 to_hash) (\<lambda>h.
           let c = (if in_range then h else c);
               c1 = (if in_range \<and> i = n - 1 then c else c1)
           in Some (in_range, c, c1, to_hash))))"

primrec core_loop ::
  "('s::comm_ring_1, 'p::ab_group_add, 'z) dalek_scheme \<Rightarrow> (bytes \<Rightarrow> bytes) \<Rightarrow> ('s, 'p) core_params \<Rightarrow>
   nat list \<Rightarrow> bool \<times> 's \<times> 's \<times> bytes \<Rightarrow> (bool \<times> 's \<times> 's \<times> bytes) option" where
  "core_loop D keccak256 params [] st = Some st"
| "core_loop D keccak256 params (i # is) st =
     Option.bind (core_step D keccak256 params i st) (core_loop D keccak256 params is)"

definition clsag_core ::
  "('s::comm_ring_1, 'p::ab_group_add, 'z) dalek_scheme \<Rightarrow> (bytes \<Rightarrow> bytes) \<Rightarrow>
   ('p \<times> 'p) list \<Rightarrow> 'p \<Rightarrow> 'p \<Rightarrow> bytes \<Rightarrow> 'p \<Rightarrow> Scalar list \<Rightarrow> ('s, 'p) Mode \<Rightarrow>
   (('p \<times> 's \<times> 's) \<times> 's) option" where
  "clsag_core D keccak256 ring I pseudo_out msg_hash D_torsion_free s A_c1 =
     (let n = length ring
      in Option.bind (Scalar_into D Scalar_INV_EIGHT) (\<lambda>inv_eight.
         let D_inv_eight = edwards_mul D inv_eight D_torsion_free;
             D_bytes = (case A_c1 of Sign _ _ _ \<Rightarrow> edwards_compress D D_inv_eight
                                   | Verify _ D_serialized \<Rightarrow> CompressedPoint_to_bytes D_serialized);
             agg = agg_transcript D ring I pseudo_out D_bytes
         in Option.bind (hash_scalar D keccak256 agg) (\<lambda>mu_P.
            let agg_1 = agg[PREFIX_AGG_0_LEN - 1 := 0x31]
            in Option.bind (hash_scalar D keccak256 agg_1) (\<lambda>mu_C.
               let to_hash = round_transcript D n pseudo_out msg_hash agg_1;
                   params = \<lparr>core_ring = ring, core_I = I, core_pseudo_out = pseudo_out,
                     core_D = D_torsion_free, core_s = s, core_mu_P = mu_P, core_mu_C = mu_C,
                     core_start = (case A_c1 of Sign signer_index _ _ \<Rightarrow> unat signer_index + 1
                                              | Verify _ _ \<Rightarrow> 0),
                     core_end = (case A_c1 of Sign signer_index _ _ \<Rightarrow> unat signer_index + n
                                            | Verify _ _ \<Rightarrow> n)\<rparr>;
                   iter_end = (case A_c1 of Sign _ _ _ \<Rightarrow> 2 * n | Verify _ _ \<Rightarrow> n);
                   to_hash = (case A_c1 of
                       Sign _ A AH \<Rightarrow> to_hash @ edwards_compress D A @ edwards_compress D AH
                     | Verify _ _ \<Rightarrow> to_hash)
               in Option.bind (case A_c1 of Sign _ _ _ \<Rightarrow> hash_scalar D keccak256 to_hash
                                          | Verify c1 _ \<Rightarrow> Some c1) (\<lambda>c.
                  Option.bind (core_loop D keccak256 params [0..<iter_end] (False, c, c, to_hash))
                    (\<lambda>(in_range, c, c1, to_hash).
                  Some ((D_inv_eight, c * mu_P, c * mu_C), c1)))))))"

subsection \<open>Signing\<close>

primrec random_scalars ::
  "('s, 'z) dalek_scalar_scheme \<Rightarrow> ('r \<Rightarrow> bytes \<times> 'r) \<Rightarrow> nat \<Rightarrow> 'r \<Rightarrow> Scalar list \<times> 'r" where
  "random_scalars D fill_bytes 0 rng = ([], rng)"
| "random_scalars D fill_bytes (Suc n) rng =
     (let (s, rng) = Scalar_random D fill_bytes rng;
          (ss, rng) = random_scalars D fill_bytes n rng
      in (s # ss, rng))"

record ('s, 'p) ClsagSignCore =
  incomplete_clsag :: Clsag
  sign_pseudo_out :: 'p
  key_challenge :: 's
  challenged_mask :: 's

definition sign_core ::
  "('s::comm_ring_1, 'p::ab_group_add, 'z) dalek_scheme \<Rightarrow> (bytes \<Rightarrow> bytes) \<Rightarrow> ('r \<Rightarrow> bytes \<times> 'r) \<Rightarrow> 'r \<Rightarrow>
   'p \<Rightarrow> 'p ClsagContext \<Rightarrow> 's \<Rightarrow> bytes \<Rightarrow> 'p \<Rightarrow> 'p \<Rightarrow> (('s, 'p) ClsagSignCore \<times> 'r) option" where
  "sign_core D keccak256 fill_bytes rng I input mask' msg_hash A AH =
     (let signer_index = decoy_signer_index (ctx_decoys input);
          ring = decoy_ring (ctx_decoys input)
      in Option.bind (Commitment_commit D (Commitment_new (Scalar_from D mask') (amount (ctx_commitment input))))
           (\<lambda>pseudo_out.
         Option.bind (Scalar_into D (mask (ctx_commitment input))) (\<lambda>input_mask.
         let mask_delta = input_mask - mask'
         in Option.bind (signer_ring_members (ctx_decoys input)) (\<lambda>member.
            Option.bind (Point_biased_hash D keccak256 (edwards_compress D (fst member))) (\<lambda>H.
            let Dp = edwards_mul D mask_delta H;
                (s, rng) = random_scalars D fill_bytes (length ring) rng
            in Option.bind (clsag_core D keccak256 ring I pseudo_out msg_hash Dp s (Sign signer_index A AH))
                 (\<lambda>((D_inv_eight, c_p, c_c), c1).
               Some (\<lparr>incomplete_clsag = \<lparr>clsag_D = CompressedPoint (edwards_compress D D_inv_eight),
                         clsag_s = s, clsag_c1 = Scalar_from D c1\<rparr>,
                       sign_pseudo_out = pseudo_out, key_challenge = c_p,
                       challenged_mask = c_c * mask_delta\<rparr>, rng)))))))"

text \<open>The loop over \<open>0 ..= MAX_RING_SIZE\<close> which places the signer's response.\<close>

fun place_signer_s :: "u8 \<Rightarrow> Scalar \<Rightarrow> nat list \<Rightarrow> Scalar list \<Rightarrow> Scalar list" where
  "place_signer_s signer_index signer_s [] s = s"
| "place_signer_s signer_index signer_s (s_index # rest) s =
     (if s_index = length s then s
      else place_signer_s signer_index signer_s rest
             (if s_index = unat signer_index then s[s_index := signer_s] else s))"

text \<open>Signing for one input: the body of the second loop of \<open>sign\<close>, given the mask it chose.\<close>

definition sign_input ::
  "('s::comm_ring_1, 'p::ab_group_add, 'z) dalek_scheme \<Rightarrow> (bytes \<Rightarrow> bytes) \<Rightarrow> ('r \<Rightarrow> bytes \<times> 'r) \<Rightarrow> 'r \<Rightarrow>
   Scalar \<times> 'p ClsagContext \<Rightarrow> 'p \<times> 'p \<Rightarrow> 's \<Rightarrow> bytes \<Rightarrow> ((Clsag \<times> 'p) \<times> 'r) option" where
  "sign_input D keccak256 fill_bytes rng input key_image mask' msg_hash =
     (let (nonce_s, rng) = Scalar_random D fill_bytes rng;
          (generator, ki) = key_image
      in Option.bind (Scalar_into D nonce_s) (\<lambda>nonce.
         Option.bind (sign_core D keccak256 fill_bytes rng ki (snd input) mask' msg_hash
             (edwards_mul D nonce (ED25519_BASEPOINT_POINT D)) (edwards_mul D nonce generator)) (\<lambda>(core, rng).
         Option.bind (Scalar_into D (fst input)) (\<lambda>key.
         let signer_s = Scalar_from D (nonce - (key_challenge core * key + challenged_mask core));
             clsag = incomplete_clsag core;
             s = place_signer_s (decoy_signer_index (ctx_decoys (snd input))) signer_s
                   [0..<unat MAX_RING_SIZE + 1] (clsag_s clsag)
         in Some ((clsag\<lparr>clsag_s := s\<rparr>, sign_pseudo_out core), rng)))))"

text \<open>The first loop of \<open>sign\<close>: the key image generators and key images.\<close>

fun sign_key_images ::
  "('s::comm_ring_1, 'p::ab_group_add, 'z) dalek_scheme \<Rightarrow> (bytes \<Rightarrow> bytes) \<Rightarrow>
   (Scalar \<times> 'p ClsagContext) list \<Rightarrow> (ClsagError + ('p \<times> 'p) list) option" where
  "sign_key_images D keccak256 [] = Some (Inr [])"
| "sign_key_images D keccak256 (input # inputs) =
     Option.bind (Scalar_into D (fst input)) (\<lambda>key.
     Option.bind (signer_ring_members (ctx_decoys (snd input))) (\<lambda>member.
     let public_key = fst member
     in if edwards_mul D key (ED25519_BASEPOINT_POINT D) \<noteq> public_key then Some (Inl InvalidKey)
        else
          Option.bind (Point_biased_hash D keccak256 (edwards_compress D public_key)) (\<lambda>generator.
          Option.bind (sign_key_images D keccak256 inputs) (\<lambda>res.
          Some (case res of
                  Inl e \<Rightarrow> Inl e
                | Inr images \<Rightarrow> Inr ((generator, edwards_mul D key generator) # images))))))"

text \<open>The second loop: the last input's mask balances the sum, the others are random.\<close>

fun sign_loop ::
  "('s::comm_ring_1, 'p::ab_group_add, 'z) dalek_scheme \<Rightarrow> (bytes \<Rightarrow> bytes) \<Rightarrow> ('r \<Rightarrow> bytes \<times> 'r) \<Rightarrow> 'r \<Rightarrow>
   's \<Rightarrow> 's \<Rightarrow> bytes \<Rightarrow> ((Scalar \<times> 'p ClsagContext) \<times> 'p \<times> 'p) list \<Rightarrow> (Clsag \<times> 'p) list option" where
  "sign_loop D keccak256 fill_bytes rng sum_outputs sum_pseudo_outs msg_hash [] = Some []"
| "sign_loop D keccak256 fill_bytes rng sum_outputs sum_pseudo_outs msg_hash ((input, key_image) # rest) =
     Option.bind
       (if rest = [] then Some (sum_outputs - sum_pseudo_outs, rng, sum_pseudo_outs)
        else let (m, rng) = Scalar_random D fill_bytes rng
             in Option.bind (Scalar_into D m) (\<lambda>mask'. Some (mask', rng, sum_pseudo_outs + mask')))
       (\<lambda>(mask', rng, sum_pseudo_outs).
     Option.bind (sign_input D keccak256 fill_bytes rng input key_image mask' msg_hash) (\<lambda>(res, rng).
     Option.bind (sign_loop D keccak256 fill_bytes rng sum_outputs sum_pseudo_outs msg_hash rest) (\<lambda>results.
     Some (res # results))))"

definition Clsag_sign ::
  "('s::comm_ring_1, 'p::ab_group_add, 'z) dalek_scheme \<Rightarrow> (bytes \<Rightarrow> bytes) \<Rightarrow> ('r \<Rightarrow> bytes \<times> 'r) \<Rightarrow> 'r \<Rightarrow>
   (Scalar \<times> 'p ClsagContext) list \<Rightarrow> Scalar \<Rightarrow> bytes \<Rightarrow> (ClsagError + (Clsag \<times> 'p) list) option" where
  "Clsag_sign D keccak256 fill_bytes rng inputs sum_outputs msg_hash =
     Option.bind (sign_key_images D keccak256 inputs) (\<lambda>res.
     case res of
       Inl e \<Rightarrow> Some (Inl e)
     | Inr images \<Rightarrow>
         if inputs = [] then Some (Inr [])
         else
           Option.bind (Scalar_into D sum_outputs) (\<lambda>sum_outputs.
           map_option Inr
             (sign_loop D keccak256 fill_bytes rng sum_outputs 0 msg_hash (zip inputs images))))"

subsection \<open>Verifying\<close>

definition decompress_ring ::
  "('s, 'p, 'z) dalek_scheme \<Rightarrow> (CompressedPoint \<times> CompressedPoint) list \<Rightarrow> ('p \<times> 'p) list option" where
  "decompress_ring D ring =
     those (map (\<lambda>r. Option.bind (CompressedPoint_decompress D (fst r)) (\<lambda>k.
                     Option.bind (CompressedPoint_decompress D (snd r)) (\<lambda>c. Some (k, c)))) ring)"

definition Clsag_verify ::
  "('s::comm_ring_1, 'p::ab_group_add, 'z) dalek_scheme \<Rightarrow> (bytes \<Rightarrow> bytes) \<Rightarrow> Clsag \<Rightarrow>
   (CompressedPoint \<times> CompressedPoint) list \<Rightarrow> CompressedPoint \<Rightarrow> CompressedPoint \<Rightarrow> bytes \<Rightarrow>
   (ClsagError + unit) option" where
  "Clsag_verify D keccak256 clsag ring I pseudo_out msg_hash =
     (if ring = [] then Some (Inl InvalidRing)
      else if length ring \<noteq> length (clsag_s clsag) then Some (Inl InvalidS)
      else case Option.bind (CompressedPoint_decompress D I) (Point_key_image D) of
        None \<Rightarrow> Some (Inl InvalidImage)
      | Some I \<Rightarrow>
      case CompressedPoint_decompress D pseudo_out of
        None \<Rightarrow> Some (Inl InvalidCommitment)
      | Some pseudo_out \<Rightarrow>
      case CompressedPoint_decompress D (clsag_D clsag) of
        None \<Rightarrow> Some (Inl InvalidD)
      | Some Dp \<Rightarrow>
      let D_torsion_free = mul_by_cofactor D Dp
      in if D_torsion_free = 0 then Some (Inl InvalidD)
         else case decompress_ring D ring of
           None \<Rightarrow> Some (Inl InvalidRing)
         | Some ring \<Rightarrow>
             Option.bind (Scalar_into D (clsag_c1 clsag)) (\<lambda>self_c1.
             Option.bind (clsag_core D keccak256 ring I pseudo_out msg_hash D_torsion_free (clsag_s clsag)
               (Verify self_c1 (clsag_D clsag))) (\<lambda>(_, c1).
             Some (if c1 \<noteq> self_c1 then Inl InvalidC1 else Inr ()))))"

subsection \<open>The transcripts\<close>

lemma length_concat_const: "(\<And>x. length (f x) = k) \<Longrightarrow> length (concat (map f xs)) = k * length xs"
  by (induction xs) simp_all

lemma length_overwrite [simp]: "length (overwrite i bs xs) = length xs"
  by (induction i bs xs rule: overwrite.induct) simp_all

lemma length_agg_transcript:
  assumes "curve_laws D" and "length D_bytes = 32"
  shows "length (agg_transcript D ring I pseudo_out D_bytes) = 64 * length ring + 128"
  using assms curve_point(2) [OF assms(1)]
  by (simp add: agg_transcript_def PREFIX_def AGG_0_def PREFIX_AGG_0_LEN_def length_concat_const)

lemma length_round_transcript:
  assumes "curve_laws D" and "length msg_hash = 32" and "(2 * n + 1) * 32 \<le> length to_hash"
  shows "length (round_transcript D n pseudo_out msg_hash to_hash) = (2 * n + 3) * 32"
  using assms curve_point(2) [OF assms(1)] by (simp add: round_transcript_def)

subsection \<open>The ring of challenges\<close>

text \<open>The challenge which follows ring member \<open>j\<close>, given its own and the transcript of the round.\<close>

definition ring_step ::
  "('s::comm_ring_1, 'p::ab_group_add, 'z) dalek_scheme \<Rightarrow> (bytes \<Rightarrow> bytes) \<Rightarrow> ('s, 'p) core_params \<Rightarrow>
   bytes \<Rightarrow> nat \<Rightarrow> 's \<Rightarrow> 's option" where
  "ring_step D keccak256 params T j c =
     Option.bind (core_transcript D keccak256 params j c T) (hash_scalar D keccak256)"

primrec ring_chain :: "(nat \<Rightarrow> 's \<Rightarrow> 's option) \<Rightarrow> nat list \<Rightarrow> 's \<Rightarrow> 's option" where
  "ring_chain f [] c = Some c"
| "ring_chain f (j # js) c = Option.bind (f j c) (ring_chain f js)"

text \<open>The chain, together with the challenge which followed member \<open>m\<close> last.\<close>

primrec tracked_chain :: "(nat \<Rightarrow> 's \<Rightarrow> 's option) \<Rightarrow> nat \<Rightarrow> nat list \<Rightarrow> 's \<times> 's \<Rightarrow> ('s \<times> 's) option" where
  "tracked_chain f m [] cc = Some cc"
| "tracked_chain f m (j # js) cc =
     Option.bind (f j (fst cc)) (\<lambda>h. tracked_chain f m js (h, if j = m then h else snd cc))"

lemma ring_chain_append: "ring_chain f (xs @ ys) c = Option.bind (ring_chain f xs c) (ring_chain f ys)"
proof (induction xs arbitrary: c)
  case (Cons j xs)
  then show ?case by (cases "f j c") simp_all
qed simp

lemma ring_chain_cong: "(\<And>j c. j \<in> set js \<Longrightarrow> f j c = g j c) \<Longrightarrow> ring_chain f js c = ring_chain g js c"
proof (induction js arbitrary: c)
  case (Cons j js)
  then show ?case by (cases "g j c") auto
qed simp

lemma tracked_chain_append:
  "tracked_chain f m (xs @ ys) cc = Option.bind (tracked_chain f m xs cc) (tracked_chain f m ys)"
proof (induction xs arbitrary: cc)
  case (Cons j xs)
  then show ?case by (cases "f j (fst cc)") simp_all
qed simp

lemma tracked_chain_fst:
  "tracked_chain f m js cc = Some cc' \<Longrightarrow> ring_chain f js (fst cc) = Some (fst cc')"
  by (induction js arbitrary: cc) (auto simp: bind_eq_Some_conv)

lemma tracked_chain_snd:
  "m \<notin> set js \<Longrightarrow> tracked_chain f m js cc = Some cc' \<Longrightarrow> snd cc' = snd cc"
  by (induction js arbitrary: cc) (auto simp: bind_eq_Some_conv)

lemma tracked_chain_last:
  assumes "tracked_chain f m (xs @ [m]) cc = Some cc'"
  shows "snd cc' = fst cc'"
  using assms by (auto simp: tracked_chain_append bind_eq_Some_conv)

text \<open>The loop of \<open>core\<close> in its phases: out of range it leaves the challenges as they are, in range it
  follows the ring. Both keep the transcript of the round, which the loop truncates to.\<close>

definition round_of :: "('s, 'p) core_params \<Rightarrow> bytes \<Rightarrow> bytes" where
  "round_of params th = take ((2 * length (core_ring params) + 3) * 32) th"

lemma core_transcript_round:
  "core_transcript D k params j c th = core_transcript D k params j c (round_of params th)"
  by (simp add: core_transcript_def Let_def round_of_def)

lemma core_transcript_keeps:
  assumes "core_transcript D k params j c th = Some th'"
    and "length (round_of params th) = (2 * length (core_ring params) + 3) * 32"
  shows "round_of params th' = round_of params th"
  using assms
  by (auto simp: core_transcript_def round_of_def Let_def bind_eq_Some_conv min_def split: if_splits)

lemma core_step_Some:
  assumes "core_step D k params i (r, c, c1, th) = Some (r', c', c1', th')"
    and "round_of params th = T" and "length T = (2 * length (core_ring params) + 3) * 32"
  shows "round_of params th' = T \<and> r' = ((r \<or> i = core_start params) \<noteq> (i = core_end params)) \<and>
    (\<exists>h. ring_step D k params T (i mod length (core_ring params)) c = Some h \<and>
         c' = (if r' then h else c) \<and>
         c1' = (if r' \<and> i mod length (core_ring params) = length (core_ring params) - 1 then h else c1))"
proof -
  let ?j = "i mod length (core_ring params)"
  define q where "q \<longleftrightarrow> (r \<or> i = core_start params) \<noteq> (i = core_end params)"
  have "core_step D k params i (r, c, c1, th) =
      Option.bind (core_transcript D k params ?j c th) (\<lambda>th'. Option.bind (hash_scalar D k th') (\<lambda>h.
        Some (q, if q then h else c, if q \<and> ?j = length (core_ring params) - 1 then h else c1, th')))"
    by (simp add: core_step_def Let_def q_def cong: if_cong)
  with assms(1) obtain h where th': "core_transcript D k params ?j c th = Some th'"
    and h: "hash_scalar D k th' = Some h"
    and r': "r' = q" "c' = (if q then h else c)"
      "c1' = (if q \<and> ?j = length (core_ring params) - 1 then h else c1)"
    by (auto simp only: bind_eq_Some_conv option.inject prod.inject)
  have "ring_step D k params T ?j c = Some h"
    using th' h assms(2) core_transcript_round [of D k params ?j c th] by (simp add: ring_step_def)
  with r' core_transcript_keeps [OF th'] assms(2,3) show ?thesis
    unfolding q_def [symmetric] by simp
qed

lemma core_step_exists:
  assumes "ring_step D k params T (i mod length (core_ring params)) c = Some h"
    and "round_of params th = T"
  shows "\<exists>st. core_step D k params i (r, c, c1, th) = Some st"
proof -
  let ?j = "i mod length (core_ring params)"
  obtain th' where "core_transcript D k params ?j c T = Some th'" "hash_scalar D k th' = Some h"
    using assms(1) by (auto simp: ring_step_def bind_eq_Some_conv)
  with core_transcript_round [of D k params ?j c th] assms(2) show ?thesis
    by (simp add: core_step_def Let_def)
qed

lemma core_loop_append:
  "core_loop D k params (xs @ ys) st = Option.bind (core_loop D k params xs st) (core_loop D k params ys)"
proof (induction xs arbitrary: st)
  case (Cons i xs)
  then show ?case by (cases "core_step D k params i st") simp_all
qed simp

lemma core_loop_outside:
  assumes "core_loop D k params is (False, c, c1, th) = Some (r', c', c1', th')"
    and "\<forall>i \<in> set is. (i = core_start params) = (i = core_end params)"
    and "round_of params th = T" and "length T = (2 * length (core_ring params) + 3) * 32"
  shows "r' = False \<and> c' = c \<and> c1' = c1 \<and> round_of params th' = T"
  using assms
proof (induction "is" arbitrary: th)
  case (Cons i "is")
  then obtain r2 c2 c12 th2 where s: "core_step D k params i (False, c, c1, th) = Some (r2, c2, c12, th2)"
      and rest: "core_loop D k params is (r2, c2, c12, th2) = Some (r', c', c1', th')"
    by (auto simp: bind_eq_Some_conv)
  from core_step_Some [OF s Cons.prems(3,4)] Cons.prems(2)
  have "\<not> r2" "c2 = c" "c12 = c1" "round_of params th2 = T" by auto
  with rest Cons.IH [of th2] Cons.prems show ?case by simp
qed simp

lemma core_loop_inside:
  assumes "core_loop D k params is (True, c, c1, th) = Some (r', c', c1', th')"
    and "\<forall>i \<in> set is. i \<noteq> core_end params"
    and "round_of params th = T" and "length T = (2 * length (core_ring params) + 3) * 32"
  shows "r' = True \<and> round_of params th' = T \<and>
    tracked_chain (ring_step D k params T) (length (core_ring params) - 1)
      (map (\<lambda>i. i mod length (core_ring params)) is) (c, c1) = Some (c', c1')"
  using assms
proof (induction "is" arbitrary: c c1 th)
  case (Cons i "is")
  then obtain r2 c2 c12 th2 where s: "core_step D k params i (True, c, c1, th) = Some (r2, c2, c12, th2)"
      and rest: "core_loop D k params is (r2, c2, c12, th2) = Some (r', c', c1', th')"
    by (auto simp: bind_eq_Some_conv)
  from core_step_Some [OF s Cons.prems(3,4)] Cons.prems(2)
  have "r2" "ring_step D k params T (i mod length (core_ring params)) c = Some c2"
    "c12 = (if i mod length (core_ring params) = length (core_ring params) - 1 then c2 else c1)"
    "round_of params th2 = T" by auto
  with rest Cons.IH [of c2 c12 th2] Cons.prems show ?case by (simp split: if_splits)
qed simp

lemma core_loop_verify:
  assumes "ring_chain (ring_step D k params T) (map (\<lambda>i. i mod length (core_ring params)) is) c = Some c'"
    and "\<forall>i \<in> set is. i \<noteq> core_end params" and "round_of params th = T"
    and "length T = (2 * length (core_ring params) + 3) * 32"
  shows "core_loop D k params is (True, c, c1, th) \<noteq> None"
  using assms
proof (induction "is" arbitrary: c c1 th)
  case (Cons i "is")
  then obtain h where h: "ring_step D k params T (i mod length (core_ring params)) c = Some h"
      and rest: "ring_chain (ring_step D k params T) (map (\<lambda>i. i mod length (core_ring params)) is) h = Some c'"
    by (auto simp: bind_eq_Some_conv)
  obtain r2 c2 c12 th2 where s: "core_step D k params i (True, c, c1, th) = Some (r2, c2, c12, th2)"
    using core_step_exists [OF h Cons.prems(3)] by (metis prod_cases4)
  from core_step_Some [OF s Cons.prems(3,4)] Cons.prems(2) h
  have "r2" "c2 = h" "round_of params th2 = T" by auto
  with s rest Cons.IH [of h th2 c12] Cons.prems show ?case by simp
qed simp

lemma core_step_enter:
  "core_step D k params (core_start params) (False, c, c1, th) =
   core_step D k params (core_start params) (True, c, c1, th)"
  by (simp add: core_step_def)

lemma upt_split: "a \<le> b \<Longrightarrow> b \<le> c \<Longrightarrow> [a..<c] = [a..<b] @ [b..<c]" for a b c :: nat
  by (metis le_Suc_ex upt_add_eq_append)

lemma mod_around:
  assumes "signer < n"
  shows "map (\<lambda>i. i mod n) [signer + 1..<signer + n] = [signer + 1..<n] @ [0..<signer]"
proof -
  have "[signer + 1..<signer + n] = [signer + 1..<n] @ [n..<n + signer]"
    using assms upt_add_eq_append [of "signer + 1" n signer] by (simp add: add.commute)
  moreover have "map (\<lambda>i. i mod n) [signer + 1..<n] = [signer + 1..<n]"
    by (rule map_idI) simp
  moreover have "map (\<lambda>i. i mod n) [n..<n + signer] = [0..<signer]"
    using assms
    by (auto simp: map_add_upt [of n signer, symmetric, simplified add.commute [of _ n]] comp_def intro!: map_idI)
  ultimately show ?thesis by simp
qed

lemma tracked_chain_around:
  assumes "signer < n"
    and "tracked_chain f (n - 1) (map (\<lambda>i. i mod n) [signer + 1..<signer + n]) (c0, c0) = Some (c', c1)"
  shows "ring_chain f [signer + 1..<n] c0 = Some c1 \<and> ring_chain f [0..<signer] c1 = Some c'"
proof -
  obtain d where d: "tracked_chain f (n - 1) [signer + 1..<n] (c0, c0) = Some d"
    and rest: "tracked_chain f (n - 1) [0..<signer] d = Some (c', c1)"
    using assms(2) unfolding mod_around [OF assms(1)] tracked_chain_append by (auto simp: bind_eq_Some_conv)
  have "snd d = fst d"
  proof (cases "signer = n - 1")
    case True
    then show ?thesis using d assms(1) by auto
  next
    case False
    then have "[signer + 1..<n] = [signer + 1..<n - 1] @ [n - 1]"
      using assms(1) upt_Suc_append [of "signer + 1" "n - 1"] by simp
    with d show ?thesis by (metis tracked_chain_last)
  qed
  moreover have "c1 = snd d" using tracked_chain_snd [OF _ rest] assms(1) by simp
  ultimately show ?thesis using tracked_chain_fst [OF d] tracked_chain_fst [OF rest] by simp
qed

text \<open>The loop in \<open>Mode::Sign\<close> goes around the ring once, from the member after the signer to the one
  before.\<close>

lemma core_loop_sign:
  assumes "core_loop D k params [0..<2 * n] (False, c0, c0, th) = Some (r', c', c1, th')"
    and n: "length (core_ring params) = n" and "signer < n"
    and ends: "core_start params = signer + 1" "core_end params = signer + n"
    and T: "round_of params th = T" "length T = (2 * n + 3) * 32"
  shows "ring_chain (ring_step D k params T) [signer + 1..<n] c0 = Some c1 \<and>
         ring_chain (ring_step D k params T) [0..<signer] c1 = Some c'"
proof -
  let ?loop = "core_loop D k params" and ?f = "ring_step D k params T"
  have split: "[0..<2 * n] = [0..<signer + 1] @ [signer + 1..<signer + n] @ [signer + n..<2 * n]"
    using assms(3) upt_split [of 0 "signer + 1" "2 * n"] upt_split [of "signer + 1" "signer + n" "2 * n"] by simp
  obtain ra ca c1a tha where a: "?loop [0..<signer + 1] (False, c0, c0, th) = Some (ra, ca, c1a, tha)"
    and rest: "?loop ([signer + 1..<signer + n] @ [signer + n..<2 * n]) (ra, ca, c1a, tha) = Some (r', c', c1, th')"
    using assms(1) unfolding split core_loop_append by (auto simp: bind_eq_Some_conv)
  have "ra = False \<and> ca = c0 \<and> c1a = c0 \<and> round_of params tha = T"
    by (rule core_loop_outside [OF a _ T(1)]) (use ends n T assms(3) in auto)
  then have st: "ra = False" "ca = c0" "c1a = c0" "round_of params tha = T" by simp_all
  then obtain rb cb c1b thb where
      b: "?loop [signer + 1..<signer + n] (False, c0, c0, tha) = Some (rb, cb, c1b, thb)"
    and c: "?loop [signer + n..<2 * n] (rb, cb, c1b, thb) = Some (r', c', c1, th')"
    using rest unfolding core_loop_append by (auto simp: bind_eq_Some_conv)
  show ?thesis
  proof (cases "n = 1")
    case True
    then have "rb = False" "cb = c0" "c1b = c0" "thb = tha" using b by auto
    moreover have "r' = False \<and> c' = cb \<and> c1 = c1b \<and> round_of params th' = T"
      by (rule core_loop_outside [OF c [unfolded \<open>rb = False\<close>]]) (use calculation st ends n T True in auto)
    ultimately show ?thesis using True assms(3) by simp
  next
    case False
    have cons: "[signer + 1..<signer + n] = (signer + 1) # [signer + 2..<signer + n]"
      using False assms(3) by (simp add: upt_conv_Cons)
    have "?loop [signer + 1..<signer + n] (True, c0, c0, tha) = Some (rb, cb, c1b, thb)"
      using b core_step_enter [of D k params c0 c0 tha] unfolding cons core_loop.simps ends(1) by simp
    from core_loop_inside [OF this _ st(4)] ends n T
    have rb: "rb" "round_of params thb = T"
      and tr: "tracked_chain ?f (n - 1) (map (\<lambda>i. i mod n) [signer + 1..<signer + n]) (c0, c0) = Some (cb, c1b)"
      by auto
    have cons2: "[signer + n..<2 * n] = (signer + n) # [signer + n + 1..<2 * n]"
      using assms(3) by (simp add: upt_conv_Cons)
    obtain r2 c2 c12 th2 where s: "core_step D k params (signer + n) (rb, cb, c1b, thb) = Some (r2, c2, c12, th2)"
      and out: "?loop [signer + n + 1..<2 * n] (r2, c2, c12, th2) = Some (r', c', c1, th')"
      using c unfolding cons2 by (auto simp: bind_eq_Some_conv)
    from core_step_Some [OF s rb(2)] n T ends rb(1) False
    have s2: "r2 = False" "c2 = cb" "c12 = c1b" "round_of params th2 = T" by auto
    from core_loop_outside [OF out [unfolded s2(1)] _ s2(4)] ends n T s2
    have "c' = cb" "c1 = c1b" by auto
    with tracked_chain_around [OF assms(3) tr] show ?thesis by simp
  qed
qed

text \<open>The loop in \<open>Mode::Verify\<close> goes around the ring from its first member, and \<open>c1\<close> is the last challenge.\<close>

lemma core_loop_round:
  assumes chain: "ring_chain (ring_step D k params T) [0..<n] c = Some c'"
    and n: "length (core_ring params) = n" and "0 < n"
    and ends: "core_start params = 0" "core_end params = n"
    and T: "round_of params th = T" "length T = (2 * n + 3) * 32"
  shows "\<exists>r th'. core_loop D k params [0..<n] (False, c, c, th) = Some (r, c', c', th')"
proof -
  have id: "map (\<lambda>i. i mod n) [0..<n] = [0..<n]" by (rule map_idI) simp
  have "[0..<n] = 0 # [1..<n]" using assms(3) by (simp add: upt_conv_Cons)
  then have enter: "core_loop D k params [0..<n] (False, c, c, th) = core_loop D k params [0..<n] (True, c, c, th)"
    using core_step_enter [of D k params c c th] by (simp add: ends(1))
  have "core_loop D k params [0..<n] (True, c, c, th) \<noteq> None"
    by (rule core_loop_verify [where T = T]) (use chain n ends T id in simp_all)
  then obtain r c2 c1 th' where run: "core_loop D k params [0..<n] (True, c, c, th) = Some (r, c2, c1, th')"
    by (metis option.exhaust prod_cases4)
  have "tracked_chain (ring_step D k params T) (n - 1) [0..<n] (c, c) = Some (c2, c1)"
    using core_loop_inside [OF run _ T(1)] n ends T(2) id by simp
  moreover have "[0..<n] = [0..<n - 1] @ [n - 1]"
    using assms(3) upt_Suc_append [of 0 "n - 1"] by simp
  ultimately have "c1 = c2" "ring_chain (ring_step D k params T) [0..<n] c = Some c2"
    using tracked_chain_last tracked_chain_fst by (metis fst_conv snd_conv)+
  with chain run enter show ?thesis by auto
qed

subsection \<open>Completeness\<close>

text \<open>The signer's response closes the ring: with it the commitments of the signer's ring member are
  the ones the first challenge was hashed of.\<close>

lemma signer_response:
  assumes laws: "torsion_free_laws D" and PH: "is_torsion_free D PH"
    and "a - (c * p * x + c * q * z) = s"
  shows "edwards_mul D s (ED25519_BASEPOINT_POINT D) + edwards_mul D (p * c) (edwards_mul D x (ED25519_BASEPOINT_POINT D)) +
           edwards_mul D (q * c) (edwards_mul D z (ED25519_BASEPOINT_POINT D)) =
         edwards_mul D a (ED25519_BASEPOINT_POINT D)"
    and "edwards_mul D (p * c) (edwards_mul D x PH) + edwards_mul D (q * c) (edwards_mul D z PH) + edwards_mul D s PH =
         edwards_mul D a PH"
proof -
  have *: "edwards_mul D s B + edwards_mul D (p * c) (edwards_mul D x B) + edwards_mul D (q * c) (edwards_mul D z B) =
      edwards_mul D a B" if "is_torsion_free D B" for B
  proof -
    have add: "edwards_mul D u B + edwards_mul D v B = edwards_mul D (u + v) B"
      and mul: "edwards_mul D u (edwards_mul D v B) = edwards_mul D (u * v) B" for u v
      using laws that unfolding torsion_free_laws_def by metis+
    have "s + p * c * x + q * c * z = a" using assms(3) by (simp add: algebra_simps)
    then show ?thesis by (simp only: add mul)
  qed
  show "edwards_mul D s (ED25519_BASEPOINT_POINT D) + edwards_mul D (p * c) (edwards_mul D x (ED25519_BASEPOINT_POINT D)) +
      edwards_mul D (q * c) (edwards_mul D z (ED25519_BASEPOINT_POINT D)) = edwards_mul D a (ED25519_BASEPOINT_POINT D)"
    using laws by (intro *) (simp add: torsion_free_laws_def)
  show "edwards_mul D (p * c) (edwards_mul D x PH) + edwards_mul D (q * c) (edwards_mul D z PH) + edwards_mul D s PH =
      edwards_mul D a PH"
    using * [OF PH] by (simp add: add.commute add.left_commute)
qed

lemma cofactor_inv_eight:
  assumes "curve_laws D" and "is_torsion_free D p" and "Scalar_into D Scalar_INV_EIGHT = Some i"
  shows "mul_by_cofactor D (edwards_mul D i p) = p"
proof -
  have "8 * i = 1" and laws: "torsion_free_laws D" using assms(1,3) by (auto simp: curve_laws_def)
  have "mul_by_cofactor D (edwards_mul D i p) = edwards_mul D 8 (edwards_mul D i p)"
    using laws assms(2) by (simp add: torsion_free_laws_def)
  also have "\<dots> = edwards_mul D (8 * i) p"
    using laws assms(2) unfolding torsion_free_laws_def by metis
  also have "\<dots> = p" using laws assms(2) \<open>8 * i = 1\<close> by (simp add: torsion_free_laws_def)
  finally show ?thesis .
qed

lemma biased_hash_torsion_free:
  "torsion_free_laws D \<Longrightarrow> Point_biased_hash D k bs = Some p \<Longrightarrow> is_torsion_free D p"
  by (auto simp: Point_biased_hash_def torsion_free_laws_def Let_def split: prod.splits option.splits)

text \<open>What a signer knows: the discrete logarithm of its key and the one of its commitment's difference
  to the pseudo-out, over which the key image and \<open>D\<close> are made.\<close>

definition signer_opens ::
  "('s::comm_ring_1, 'p::ab_group_add, 'z) dalek_scheme \<Rightarrow> (bytes \<Rightarrow> bytes) \<Rightarrow> 'p \<times> 'p \<Rightarrow> 'p \<Rightarrow> 'p \<Rightarrow> 'p \<Rightarrow>
   's \<Rightarrow> 's \<Rightarrow> 'p \<Rightarrow> bool" where
  "signer_opens D keccak256 member I pseudo_out Dp x z PH \<longleftrightarrow>
     Point_biased_hash D keccak256 (edwards_compress D (fst member)) = Some PH \<and>
     fst member = edwards_mul D x (ED25519_BASEPOINT_POINT D) \<and>
     snd member - pseudo_out = edwards_mul D z (ED25519_BASEPOINT_POINT D) \<and>
     I = edwards_mul D x PH \<and> Dp = edwards_mul D z PH"

lemma ring_step_signer:
  assumes laws: "curve_laws D"
    and opens: "signer_opens D k (core_ring params ! i) (core_I params) (core_pseudo_out params) (core_D params) x z PH"
    and i: "i < length (core_s params)"
    and s: "core_s params ! i = Scalar_from D (a - (c * core_mu_P params * x + c * core_mu_C params * z))"
    and T: "length T = (2 * length (core_ring params) + 3) * 32"
  shows "ring_step D k params T i c =
    hash_scalar D k (T @ edwards_compress D (edwards_mul D a (ED25519_BASEPOINT_POINT D)) @
                     edwards_compress D (edwards_mul D a PH))"
proof -
  have tf: "torsion_free_laws D" using laws by (simp add: curve_laws_def)
  have "is_torsion_free D PH" using opens biased_hash_torsion_free [OF tf] unfolding signer_opens_def by blast
  note closed = signer_response [OF tf this refl, where a = a and c = c and p = "core_mu_P params" and x = x and q = "core_mu_C params" and z = z]
  have "Point_biased_hash D k (edwards_compress D (edwards_mul D x (ED25519_BASEPOINT_POINT D))) = Some PH"
    using opens by (auto simp: signer_opens_def)
  with opens i T show ?thesis
    unfolding signer_opens_def ring_step_def core_transcript_def Let_def s curve_scalar(1) [OF laws]
    by (simp add: closed)
qed

text \<open>The parameters of the loop, which the two modes differ in only by the responses and the ends.\<close>

lemma ring_step_cong:
  assumes "core_ring p = core_ring q" "core_I p = core_I q" "core_pseudo_out p = core_pseudo_out q"
    "core_D p = core_D q" "core_mu_P p = core_mu_P q" "core_mu_C p = core_mu_C q"
    "length (core_s p) = length (core_s q)" "core_s p ! j = core_s q ! j"
  shows "ring_step D k p T j c = ring_step D k q T j c"
  unfolding ring_step_def core_transcript_def Let_def assms by (rule refl)

lemma ring_chain_closed:
  assumes "ring_chain f [signer + 1..<n] c0 = Some c1" and "ring_chain f [0..<signer] c1 = Some c"
    and "f' signer c = Some c0" and "\<And>j c. j \<noteq> signer \<Longrightarrow> f' j c = f j c" and "signer < n"
  shows "ring_chain f' [0..<n] c1 = Some c1"
proof -
  have "[0..<n] = [0..<signer] @ signer # [signer + 1..<n]"
    using assms(5) upt_split [of 0 signer n] by (simp add: upt_conv_Cons)
  moreover have "ring_chain f' [0..<signer] c1 = Some c"
    using assms(2,4) ring_chain_cong [of "[0..<signer]" f' f c1] by simp
  moreover have "ring_chain f' [signer + 1..<n] c0 = Some c1"
    using assms(1,4) ring_chain_cong [of "[signer + 1..<n]" f' f c0] by simp
  ultimately show ?thesis using assms(3) by (simp add: ring_chain_append)
qed

text \<open>The transcripts and parameters of \<open>core\<close>, whichever the mode.\<close>

lemma core_round:
  assumes "curve_laws D" and "length msg_hash = 32" and "length D_bytes = 32"
  shows "length (round_transcript D (length ring) pseudo_out msg_hash
           ((agg_transcript D ring I pseudo_out D_bytes)[PREFIX_AGG_0_LEN - 1 := 0x31])) =
         (2 * length ring + 3) * 32"
  using length_agg_transcript [OF assms(1,3)]
  by (intro length_round_transcript [OF assms(1,2)]) simp

lemma clsag_core_complete:
  assumes laws: "curve_laws D"
    and run: "clsag_core D k ring I pseudo_out msg_hash Dp s (Sign signer A AH) = Some ((D_inv_eight, c_p, c_c), c1)"
    and signer: "unat signer < length ring" "length s = length ring" and msg: "length msg_hash = 32"
    and opens: "signer_opens D k (ring ! unat signer) I pseudo_out Dp x z PH"
    and A: "A = edwards_mul D a (ED25519_BASEPOINT_POINT D)" "AH = edwards_mul D a PH"
  shows "Option.bind (Scalar_into D Scalar_INV_EIGHT) (\<lambda>i. Some (edwards_mul D i Dp)) = Some D_inv_eight \<and>
    (\<exists>r. clsag_core D k ring I pseudo_out msg_hash Dp
       (s[unat signer := Scalar_from D (a - (c_p * x + c_c * z))])
       (Verify c1 (CompressedPoint (edwards_compress D D_inv_eight))) = Some (r, c1))"
proof -
  let ?n = "length ring"
  from run obtain i mu_P mu_C c0 r c th where i: "Scalar_into D Scalar_INV_EIGHT = Some i"
    and D8: "D_inv_eight = edwards_mul D i Dp" and c: "c_p = c * mu_P" "c_c = c * mu_C"
    and mu_P: "hash_scalar D k (agg_transcript D ring I pseudo_out (edwards_compress D D_inv_eight)) = Some mu_P"
    and mu_C: "hash_scalar D k ((agg_transcript D ring I pseudo_out (edwards_compress D D_inv_eight))
                 [PREFIX_AGG_0_LEN - 1 := 0x31]) = Some mu_C"
    and c0: "hash_scalar D k (round_transcript D ?n pseudo_out msg_hash
        ((agg_transcript D ring I pseudo_out (edwards_compress D D_inv_eight))[PREFIX_AGG_0_LEN - 1 := 0x31]) @
        edwards_compress D A @ edwards_compress D AH) = Some c0"
    and loop: "core_loop D k \<lparr>core_ring = ring, core_I = I, core_pseudo_out = pseudo_out,
        core_D = Dp, core_s = s, core_mu_P = mu_P, core_mu_C = mu_C,
        core_start = unat signer + 1, core_end = unat signer + ?n\<rparr> [0..<2 * ?n]
        (False, c0, c0, round_transcript D ?n pseudo_out msg_hash
        ((agg_transcript D ring I pseudo_out (edwards_compress D D_inv_eight))[PREFIX_AGG_0_LEN - 1 := 0x31]) @
        edwards_compress D A @ edwards_compress D AH) = Some (r, c, c1, th)"
    by (auto simp: clsag_core_def Let_def bind_eq_Some_conv)
  define T where "T = round_transcript D ?n pseudo_out msg_hash
        ((agg_transcript D ring I pseudo_out (edwards_compress D D_inv_eight))[PREFIX_AGG_0_LEN - 1 := 0x31])"
  have T: "length T = (2 * ?n + 3) * 32"
    unfolding T_def by (intro core_round laws msg curve_point(2))
  define params where "params s start end = \<lparr>core_ring = ring, core_I = I, core_pseudo_out = pseudo_out,
      core_D = Dp, core_s = s, core_mu_P = mu_P, core_mu_C = mu_C, core_start = start, core_end = end\<rparr>"
    for s :: "Scalar list" and start "end"
  let ?p = "params s (unat signer + 1) (unat signer + ?n)"
  let ?s = "s[unat signer := Scalar_from D (a - (c_p * x + c_c * z))]"
  let ?q = "params ?s 0 ?n"
  have "ring_chain (ring_step D k ?p T) [unat signer + 1..<?n] c0 = Some c1 \<and>
        ring_chain (ring_step D k ?p T) [0..<unat signer] c1 = Some c"
    by (rule core_loop_sign [where th = "T @ edwards_compress D A @ edwards_compress D AH"])
       (use loop signer T in \<open>simp_all add: params_def T_def round_of_def\<close>)
  moreover have "ring_step D k ?q T (unat signer) c = Some c0"
    using ring_step_signer [OF laws, of k ?q "unat signer" x z PH a c T] c0 opens signer c T A
    by (simp add: params_def T_def)
  moreover have "ring_step D k ?q T j b = ring_step D k ?p T j b" if "j \<noteq> unat signer" for j b
    using that by (intro ring_step_cong) (simp_all add: params_def)
  ultimately have "ring_chain (ring_step D k ?q T) [0..<?n] c1 = Some c1"
    using ring_chain_closed [of "ring_step D k ?p T" "unat signer" ?n c0 c1 c "ring_step D k ?q T"] signer(1) by blast
  then have "\<exists>r' th'. core_loop D k ?q [0..<?n] (False, c1, c1, T) = Some (r', c1, c1, th')"
    by (rule core_loop_round) (use signer(1) T in \<open>auto simp: params_def round_of_def\<close>)
  then obtain r' th' where "core_loop D k ?q [0..<?n] (False, c1, c1, T) = Some (r', c1, c1, th')" by blast
  with i D8 mu_P mu_C show ?thesis
    by (simp add: clsag_core_def Let_def params_def T_def)
qed

subsection \<open>Signatures verify\<close>

definition compressed_ring :: "('s, 'p, 'z) dalek_scheme \<Rightarrow> ('p \<times> 'p) list \<Rightarrow> (CompressedPoint \<times> CompressedPoint) list" where
  "compressed_ring D ring = map (\<lambda>r. (Point_compress D (fst r), Point_compress D (snd r))) ring"

lemma decompress_compressed_ring:
  assumes "curve_laws D"
  shows "decompress_ring D (compressed_ring D ring) = Some ring"
  using curve_point(1) [OF assms]
  by (induction ring) (simp_all add: decompress_ring_def compressed_ring_def Point_compress_def)

lemma verify_core:
  assumes laws: "curve_laws D" and clsag: "clsag_D clsag = Point_compress D (edwards_mul D i Dp)"
      "clsag_c1 clsag = Scalar_from D c1" "length (clsag_s clsag) = length ring" "ring \<noteq> []"
    and i: "Scalar_into D Scalar_INV_EIGHT = Some i"
    and tf: "is_torsion_free D I" "is_torsion_free D Dp"
    and core: "clsag_core D k ring I pseudo_out msg_hash Dp (clsag_s clsag)
      (Verify c1 (clsag_D clsag)) = Some (r, c1)"
  shows "Clsag_verify D k clsag (compressed_ring D ring) (Point_compress D I) (Point_compress D pseudo_out) msg_hash =
    Some (if I = 0 then Inl InvalidImage else if Dp = 0 then Inl InvalidD else Inr ())"
proof -
  have "compressed_ring D ring \<noteq> []" "length (compressed_ring D ring) = length (clsag_s clsag)"
    using clsag by (simp_all add: compressed_ring_def)
  moreover define E where "E = edwards_mul D i Dp"
  then have "mul_by_cofactor D E = Dp" using cofactor_inv_eight [OF laws tf(2) i] by simp
  ultimately show ?thesis
    using core
    unfolding Clsag_verify_def clsag(1,2) Point_compress_def curve_point(1) [OF laws] curve_scalar(1) [OF laws]
      decompress_compressed_ring [OF laws] Let_def E_def [symmetric]
    by (simp add: Point_key_image_def tf(1))
qed

lemma length_random_scalars: "length (fst (random_scalars D fill_bytes n rng)) = n"
  by (induction n arbitrary: rng) (simp_all add: Let_def split_def)

lemma place_signer_s_from:
  assumes "length s < m" and "n \<le> length s"
  shows "place_signer_s signer v [n..<m] s = (if n \<le> unat signer then s[unat signer := v] else s)"
  using assms
proof (induction "m - n" arbitrary: n s)
  case (Suc d)
  then have upt: "[n..<m] = n # [Suc n..<m]" by (simp add: upt_conv_Cons)
  show ?case
  proof (cases "n = length s")
    case True
    then show ?thesis unfolding upt by (auto simp: list_update_beyond)
  next
    case False
    then show ?thesis using Suc.hyps(1) [of "Suc n" s] Suc.hyps(1) [of "Suc n" "s[n := v]"] Suc.hyps(2) Suc.prems
      by (auto simp: upt)
  qed
qed simp

definition valid_context :: "('s::comm_ring_1, 'p::ab_group_add, 'z) dalek_scheme \<Rightarrow> 'p ClsagContext \<Rightarrow> bool" where
  "valid_context D ctx \<longleftrightarrow>
     wf_Decoys D (ctx_decoys ctx) \<and>
     ClsagContext_new D (ctx_decoys ctx) (ctx_commitment ctx) = Some (Inr ctx)"

lemma valid_context_signer:
  assumes "valid_context D ctx"
  shows "unat (decoy_signer_index (ctx_decoys ctx)) < length (decoy_ring (ctx_decoys ctx))"
    and "length (decoy_ring (ctx_decoys ctx)) \<le> 255"
    and "signer_ring_members (ctx_decoys ctx) =
         Some (decoy_ring (ctx_decoys ctx) ! unat (decoy_signer_index (ctx_decoys ctx)))"
    and "Commitment_commit D (ctx_commitment ctx) =
         Some (snd (decoy_ring (ctx_decoys ctx) ! unat (decoy_signer_index (ctx_decoys ctx))))"
proof -
  let ?d = "ctx_decoys ctx"
  have d: "Decoys_new (decoy_offsets ?d) (decoy_signer_index ?d) (decoy_ring ?d) = Some ?d"
    and len: "length (decoy_offsets ?d) = length (decoy_ring ?d)" "length (decoy_ring ?d) \<le> 255"
    using assms by (simp_all add: valid_context_def wf_Decoys_def)
  have "fits_usize (decoy_offsets ?d)" "fits_usize (decoy_ring ?d)" using len by (simp_all add: fits_usize_def)
  from Decoys_new_iff [OF this] d show i: "unat (decoy_signer_index ?d) < length (decoy_ring ?d)" by blast
  show "length (decoy_ring ?d) \<le> 255" by (rule len(2))
  show s: "signer_ring_members ?d = Some (decoy_ring ?d ! unat (decoy_signer_index ?d))"
    by (rule signer_ring_members_nth [OF i])
  show "Commitment_commit D (ctx_commitment ctx) = Some (snd (decoy_ring ?d ! unat (decoy_signer_index ?d)))"
    using assms by (auto simp: valid_context_def ClsagContext_new_def s bind_eq_Some_conv split: if_splits)
qed

text \<open>What signing for an input gives, when the key belongs to the signer's ring member.\<close>

definition key_image_of ::
  "('s, 'p, 'z) dalek_scheme \<Rightarrow> (bytes \<Rightarrow> bytes) \<Rightarrow> Scalar \<times> 'p ClsagContext \<Rightarrow> 'p \<times> 'p \<Rightarrow> bool" where
  "key_image_of D keccak256 input ki \<longleftrightarrow>
     (\<exists>x. Scalar_into D (fst input) = Some x \<and>
      (let pk = fst (decoy_ring (ctx_decoys (snd input)) ! unat (decoy_signer_index (ctx_decoys (snd input))))
       in pk = edwards_mul D x (ED25519_BASEPOINT_POINT D) \<and>
          Point_biased_hash D keccak256 (edwards_compress D pk) = Some (fst ki) \<and>
          snd ki = edwards_mul D x (fst ki)))"

lemma commit_diff:
  assumes "curve_laws D" and "Commitment_commit D c = Some C" and "Scalar_into D (mask c) = Some m"
    and "Commitment_commit D (Commitment_new (Scalar_from D m') (amount c)) = Some C'"
  shows "C - C' = edwards_mul D (m - m') (ED25519_BASEPOINT_POINT D)"
proof -
  have "torsion_free_laws D" "is_torsion_free D (ED25519_BASEPOINT_POINT D)"
    using assms(1) by (simp_all add: curve_laws_def torsion_free_laws_def)
  then show ?thesis
    using assms(2-4) curve_scalar(1) [OF assms(1)]
    by (auto simp: Commitment_commit_def Commitment_new_def edwards_mul_diff split: option.splits)
qed

lemma sign_input_core:
  assumes run: "sign_input D k fill_bytes rng input ki mask' msg_hash = Some ((clsag, pseudo_out), rng')"
    and member: "signer_ring_members (ctx_decoys (snd input)) = Some member"
    and x: "Scalar_into D (fst input) = Some x"
    and PH: "Point_biased_hash D k (edwards_compress D (fst member)) = Some (fst ki)"
  obtains a s m D_inv_eight c_p c_c c1 where
      "Commitment_commit D (Commitment_new (Scalar_from D mask') (amount (ctx_commitment (snd input)))) = Some pseudo_out"
    and "Scalar_into D (mask (ctx_commitment (snd input))) = Some m"
    and "length s = length (decoy_ring (ctx_decoys (snd input)))"
    and "clsag_core D k (decoy_ring (ctx_decoys (snd input))) (snd ki) pseudo_out msg_hash
        (edwards_mul D (m - mask') (fst ki)) s
        (Sign (decoy_signer_index (ctx_decoys (snd input))) (edwards_mul D a (ED25519_BASEPOINT_POINT D))
          (edwards_mul D a (fst ki))) = Some ((D_inv_eight, c_p, c_c), c1)"
    and "clsag = \<lparr>clsag_D = CompressedPoint (edwards_compress D D_inv_eight),
        clsag_s = place_signer_s (decoy_signer_index (ctx_decoys (snd input)))
          (Scalar_from D (a - (c_p * x + c_c * (m - mask')))) [0..<unat MAX_RING_SIZE + 1] s,
        clsag_c1 = Scalar_from D c1\<rparr>"
proof -
  obtain nonce_s rng1 where nonce: "Scalar_random D fill_bytes rng = (nonce_s, rng1)" by (metis surj_pair)
  obtain gen I where ki: "ki = (gen, I)" by (metis surj_pair)
  from run obtain a core where a: "Scalar_into D nonce_s = Some a"
    and core: "sign_core D k fill_bytes rng1 I (snd input) mask' msg_hash
        (edwards_mul D a (ED25519_BASEPOINT_POINT D)) (edwards_mul D a gen) = Some (core, rng')"
    and clsag: "clsag = incomplete_clsag core\<lparr>clsag_s := place_signer_s (decoy_signer_index (ctx_decoys (snd input)))
          (Scalar_from D (a - (key_challenge core * x + challenged_mask core)))
          [0..<unat MAX_RING_SIZE + 1] (clsag_s (incomplete_clsag core))\<rparr>"
    and po: "pseudo_out = sign_pseudo_out core"
    by (auto simp: sign_input_def nonce ki x bind_eq_Some_conv Let_def)
  obtain s rng2 where s: "random_scalars D fill_bytes (length (decoy_ring (ctx_decoys (snd input)))) rng1 = (s, rng2)"
    by (metis surj_pair)
  then have "length s = length (decoy_ring (ctx_decoys (snd input)))" by (metis fst_conv length_random_scalars)
  with core clsag po show thesis
    by (auto simp: sign_core_def s ki member PH [unfolded ki] bind_eq_Some_conv Let_def mult.assoc intro!: that)
qed

lemma sign_input_verifies:
  assumes laws: "curve_laws D" and ctx: "valid_context D (snd input)" and msg: "length msg_hash = 32"
    and ki: "key_image_of D k input ki"
    and run: "sign_input D k fill_bytes rng input ki mask' msg_hash = Some ((clsag, pseudo_out), rng')"
  shows "Commitment_commit D (Commitment_new (Scalar_from D mask') (amount (ctx_commitment (snd input)))) = Some pseudo_out"
    and "Clsag_verify D k clsag (compressed_ring D (decoy_ring (ctx_decoys (snd input))))
           (Point_compress D (snd ki)) (Point_compress D pseudo_out) msg_hash =
         Some (if snd ki = 0 then Inl InvalidImage
               else if mul_by_cofactor D (the (CompressedPoint_decompress D (clsag_D clsag))) = 0 then Inl InvalidD
               else Inr ())"
proof -
  let ?ring = "decoy_ring (ctx_decoys (snd input))" and ?signer = "decoy_signer_index (ctx_decoys (snd input))"
  let ?member = "?ring ! unat ?signer" and ?G = "ED25519_BASEPOINT_POINT D"
  note signer = valid_context_signer [OF ctx]
  obtain x where x: "Scalar_into D (fst input) = Some x" and pk: "fst ?member = edwards_mul D x ?G"
    and PH: "Point_biased_hash D k (edwards_compress D (fst ?member)) = Some (fst ki)"
    and I: "snd ki = edwards_mul D x (fst ki)"
    using ki by (auto simp: key_image_of_def Let_def)
  obtain a s m D_inv_eight c_p c_c c1 where
        po: "Commitment_commit D (Commitment_new (Scalar_from D mask') (amount (ctx_commitment (snd input)))) = Some pseudo_out"
    and m: "Scalar_into D (mask (ctx_commitment (snd input))) = Some m" and s: "length s = length ?ring"
    and core: "clsag_core D k ?ring (snd ki) pseudo_out msg_hash (edwards_mul D (m - mask') (fst ki)) s
        (Sign ?signer (edwards_mul D a ?G) (edwards_mul D a (fst ki))) = Some ((D_inv_eight, c_p, c_c), c1)"
    and clsag: "clsag = \<lparr>clsag_D = CompressedPoint (edwards_compress D D_inv_eight),
        clsag_s = place_signer_s ?signer (Scalar_from D (a - (c_p * x + c_c * (m - mask')))) [0..<unat MAX_RING_SIZE + 1] s,
        clsag_c1 = Scalar_from D c1\<rparr>"
    by (rule sign_input_core [OF run signer(3) x PH])
  show "Commitment_commit D (Commitment_new (Scalar_from D mask') (amount (ctx_commitment (snd input)))) = Some pseudo_out"
    by (rule po)
  have "unat MAX_RING_SIZE = 255" by (simp add: MAX_RING_SIZE_def)
  then have clsag_s: "clsag_s clsag = s[unat ?signer := Scalar_from D (a - (c_p * x + c_c * (m - mask')))]"
    using place_signer_s_from [of s 256 0] signer(2) s by (simp add: clsag)
  have opens: "signer_opens D k ?member (snd ki) pseudo_out (edwards_mul D (m - mask') (fst ki)) x (m - mask') (fst ki)"
    using PH pk I commit_diff [OF laws signer(4) m po] by (simp add: signer_opens_def)
  have tf: "torsion_free_laws D" using laws by (simp add: curve_laws_def)
  have gen: "is_torsion_free D (fst ki)" by (rule biased_hash_torsion_free [OF tf PH])
  then have tfs: "is_torsion_free D (edwards_mul D b (fst ki))" for b using tf by (simp add: torsion_free_laws_def)
  from clsag_core_complete [OF laws core signer(1) s msg opens refl refl] clsag_s
  obtain i r where i: "Scalar_into D Scalar_INV_EIGHT = Some i" "D_inv_eight = edwards_mul D i (edwards_mul D (m - mask') (fst ki))"
    and r: "clsag_core D k ?ring (snd ki) pseudo_out msg_hash (edwards_mul D (m - mask') (fst ki)) (clsag_s clsag)
       (Verify c1 (clsag_D clsag)) = Some (r, c1)"
    by (auto simp: bind_eq_Some_conv clsag)
  have D_of: "mul_by_cofactor D (the (CompressedPoint_decompress D (clsag_D clsag))) = edwards_mul D (m - mask') (fst ki)"
    using cofactor_inv_eight [OF laws tfs i(1)]
    by (simp add: clsag i(2) curve_point(1) [OF laws] del: CompressedPoint_decompress.simps)
  show "Clsag_verify D k clsag (compressed_ring D ?ring)
           (Point_compress D (snd ki)) (Point_compress D pseudo_out) msg_hash =
         Some (if snd ki = 0 then Inl InvalidImage
               else if mul_by_cofactor D (the (CompressedPoint_decompress D (clsag_D clsag))) = 0 then Inl InvalidD
               else Inr ())"
    unfolding D_of
  proof (rule verify_core [OF laws _ _ _ _ i(1) _ tfs r])
    show "clsag_D clsag = Point_compress D (edwards_mul D i (edwards_mul D (m - mask') (fst ki)))"
      "clsag_c1 clsag = Scalar_from D c1"
      by (simp_all add: clsag i(2) Point_compress_def)
    show "length (clsag_s clsag) = length ?ring" "?ring \<noteq> []" using clsag_s s signer(1) by auto
    show "is_torsion_free D (snd ki)" unfolding I by (rule tfs)
  qed
qed

lemma sign_key_images_of:
  assumes "sign_key_images D k inputs = Some (Inr images)" and "\<forall>input \<in> set inputs. valid_context D (snd input)"
  shows "list_all2 (key_image_of D k) inputs images"
  using assms
proof (induction inputs arbitrary: images)
  case (Cons input inputs)
  have member: "signer_ring_members (ctx_decoys (snd input)) = Some
      (decoy_ring (ctx_decoys (snd input)) ! unat (decoy_signer_index (ctx_decoys (snd input))))"
    using Cons.prems(2) valid_context_signer(3) by auto
  with Cons.prems(1) obtain x gen r where x: "Scalar_into D (fst input) = Some x"
    "fst (decoy_ring (ctx_decoys (snd input)) ! unat (decoy_signer_index (ctx_decoys (snd input)))) =
     edwards_mul D x (ED25519_BASEPOINT_POINT D)"
    "Point_biased_hash D k (edwards_compress D (edwards_mul D x (ED25519_BASEPOINT_POINT D))) = Some gen"
    and r: "sign_key_images D k inputs = Some r"
    and images: "Inr images = (case r of Inl e \<Rightarrow> Inl e | Inr rest \<Rightarrow> Inr ((gen, edwards_mul D x gen) # rest))"
    by (auto simp: bind_eq_Some_conv Let_def split: if_splits)
  then obtain rest where "r = Inr rest" "images = (gen, edwards_mul D x gen) # rest" by (cases r) auto
  with Cons.IH [of rest] Cons.prems(2) x r show ?case by (simp add: key_image_of_def)
qed simp

text \<open>Whether a signature verifies, as \<open>sign\<close> asserts in debug builds.\<close>

definition signature_verifies ::
  "('s::comm_ring_1, 'p::ab_group_add, 'z) dalek_scheme \<Rightarrow> (bytes \<Rightarrow> bytes) \<Rightarrow> bytes \<Rightarrow>
   (Scalar \<times> 'p ClsagContext) \<times> 'p \<times> 'p \<Rightarrow> Clsag \<times> 'p \<Rightarrow> bool" where
  "signature_verifies D keccak256 msg_hash todo res \<longleftrightarrow>
     (case (todo, res) of (((x, ctx), gen, ki), (clsag, pseudo_out)) \<Rightarrow>
        Clsag_verify D keccak256 clsag (compressed_ring D (decoy_ring (ctx_decoys ctx)))
          (Point_compress D ki) (Point_compress D pseudo_out) msg_hash =
        Some (if ki = 0 then Inl InvalidImage
              else if mul_by_cofactor D (the (CompressedPoint_decompress D (clsag_D clsag))) = 0 then Inl InvalidD
              else Inr ()))"

lemma sign_loop_verifies:
  assumes "curve_laws D" and "length msg_hash = 32"
    and "\<forall>(input, ki) \<in> set todo. valid_context D (snd input) \<and> key_image_of D k input ki"
    and "sign_loop D k fill_bytes rng sum_outputs acc msg_hash todo = Some res"
  shows "list_all2 (signature_verifies D k msg_hash) todo res"
  using assms(3-)
proof (induction todo arbitrary: rng acc res)
  case (Cons sig todo)
  obtain input ki where sig: "sig = (input, ki)" by (metis surj_pair)
  with Cons.prems obtain rng1 rng2 mask' acc' clsag po rest where
      run: "sign_input D k fill_bytes rng1 input ki mask' msg_hash = Some ((clsag, po), rng2)"
    and rest: "sign_loop D k fill_bytes rng2 sum_outputs acc' msg_hash todo = Some rest"
    and res: "res = (clsag, po) # rest"
    by (auto simp: bind_eq_Some_conv split: if_splits prod.splits)
  have "signature_verifies D k msg_hash sig (clsag, po)"
    using sign_input_verifies(2) [OF assms(1) _ assms(2) _ run] Cons.prems(1)
    by (auto simp: signature_verifies_def sig split: prod.splits)
  with Cons.IH [OF _ rest] Cons.prems(1) show ?case by (simp add: res)
qed simp

text \<open>The pseudo-outs commit to the inputs' amounts, with masks which sum to \<open>sum_outputs\<close>.\<close>

definition amount_point :: "('s, 'p::zero, 'z) dalek_scheme \<Rightarrow> Commitment \<Rightarrow> 'p" where
  "amount_point D c =
     (case edwards_decompress D (CompressedPoint_to_bytes CompressedPoint_H) of
        None \<Rightarrow> 0 | Some H \<Rightarrow> edwards_mul D (scalar_from_u64 D (amount c)) H)"

lemma commit_new:
  assumes "curve_laws D" and "Commitment_commit D (Commitment_new (Scalar_from D m) (amount c)) = Some C"
  shows "C = edwards_mul D m (ED25519_BASEPOINT_POINT D) + amount_point D c"
  using assms(2) curve_scalar(1) [OF assms(1)]
  by (auto simp: Commitment_commit_def Commitment_new_def amount_point_def split: option.splits)

lemma sign_loop_balance:
  assumes laws: "curve_laws D" and "length msg_hash = 32" and "todo \<noteq> []"
    and "\<forall>(input, ki) \<in> set todo. valid_context D (snd input) \<and> key_image_of D k input ki"
    and "sign_loop D k fill_bytes rng sum_outputs acc msg_hash todo = Some res"
  shows "sum_list (map snd res) = edwards_mul D (sum_outputs - acc) (ED25519_BASEPOINT_POINT D) +
    sum_list (map (\<lambda>sig. amount_point D (ctx_commitment (snd (fst sig)))) todo)"
  using assms(3-)
proof (induction todo arbitrary: rng acc res)
  case (Cons sig todo)
  have add: "edwards_mul D (a + b) (ED25519_BASEPOINT_POINT D) =
      edwards_mul D a (ED25519_BASEPOINT_POINT D) + edwards_mul D b (ED25519_BASEPOINT_POINT D)" for a b
    using laws by (simp add: curve_laws_def torsion_free_laws_def)
  obtain input ki where sig: "sig = (input, ki)" by (metis surj_pair)
  with Cons.prems obtain rng1 rng2 m acc' clsag po rest where
      run: "sign_input D k fill_bytes rng1 input ki m msg_hash = Some ((clsag, po), rng2)"
    and rest: "sign_loop D k fill_bytes rng2 sum_outputs acc' msg_hash todo = Some rest"
    and res: "res = (clsag, po) # rest"
    and m: "if todo = [] then m = sum_outputs - acc else acc' = acc + m"
    by (auto simp: bind_eq_Some_conv split: if_splits prod.splits)
  have po: "po = edwards_mul D m (ED25519_BASEPOINT_POINT D) + amount_point D (ctx_commitment (snd input))"
    using sign_input_verifies(1) [OF laws _ assms(2) _ run] Cons.prems(2) sig
    by (intro commit_new [OF laws]) auto
  show ?case
  proof (cases "todo = []")
    case True
    then show ?thesis using rest m by (simp add: res sig po)
  next
    case False
    then have "sum_outputs - acc = m + (sum_outputs - acc')" using m by simp
    then have "edwards_mul D (sum_outputs - acc) (ED25519_BASEPOINT_POINT D) =
        edwards_mul D m (ED25519_BASEPOINT_POINT D) + edwards_mul D (sum_outputs - acc') (ED25519_BASEPOINT_POINT D)"
      by (simp only: add)
    moreover have "sum_list (map snd rest) = edwards_mul D (sum_outputs - acc') (ED25519_BASEPOINT_POINT D) +
        sum_list (map (\<lambda>sig. amount_point D (ctx_commitment (snd (fst sig)))) todo)"
      using Cons.IH [OF False _ rest] Cons.prems(2) by simp
    ultimately show ?thesis by (simp add: res sig po add.assoc add.left_commute)
  qed
qed simp

lemma Clsag_sign_Inr:
  assumes "Clsag_sign D k fill_bytes rng inputs sum_outputs msg_hash = Some (Inr res)"
  obtains images where "sign_key_images D k inputs = Some (Inr images)" and "inputs = [] \<longrightarrow> res = []"
    and "inputs \<noteq> [] \<longrightarrow> (\<exists>m. Scalar_into D sum_outputs = Some m \<and>
           sign_loop D k fill_bytes rng m 0 msg_hash (zip inputs images) = Some res)"
proof -
  obtain r where r: "sign_key_images D k inputs = Some r"
    using assms by (auto simp: Clsag_sign_def bind_eq_Some_conv)
  then obtain images where "r = Inr images" using assms by (cases r) (auto simp: Clsag_sign_def)
  with r assms show thesis
    by (intro that) (auto simp: Clsag_sign_def bind_eq_Some_conv)
qed

lemma Clsag_sign_signatures:
  assumes "curve_laws D" and "length msg_hash = 32" and "\<forall>input \<in> set inputs. valid_context D (snd input)"
    and "Clsag_sign D keccak256 fill_bytes rng inputs sum_outputs msg_hash = Some (Inr res)"
  shows "\<exists>images. sign_key_images D keccak256 inputs = Some (Inr images) \<and> length res = length inputs \<and>
           list_all2 (signature_verifies D keccak256 msg_hash) (zip inputs images) res"
proof -
  obtain images where images: "sign_key_images D keccak256 inputs = Some (Inr images)"
    and none: "inputs = [] \<longrightarrow> res = []" and some: "inputs \<noteq> [] \<longrightarrow> (\<exists>m. Scalar_into D sum_outputs = Some m \<and>
           sign_loop D keccak256 fill_bytes rng m 0 msg_hash (zip inputs images) = Some res)"
    by (rule Clsag_sign_Inr [OF assms(4)])
  have of: "list_all2 (key_image_of D keccak256) inputs images" by (rule sign_key_images_of [OF images assms(3)])
  have "list_all2 (signature_verifies D keccak256 msg_hash) (zip inputs images) res"
  proof (cases "inputs = []")
    case True
    then show ?thesis using none by simp
  next
    case False
    then obtain sum' where "sign_loop D keccak256 fill_bytes rng sum' 0 msg_hash (zip inputs images) = Some res"
      using some by blast
    then show ?thesis
      by (rule sign_loop_verifies [OF assms(1,2), rotated])
         (use of assms(3) in \<open>auto simp: list_all2_iff dest: set_zip_leftD\<close>)
  qed
  moreover from this have "length res = length inputs" using of by (auto dest!: list_all2_lengthD)
  ultimately show ?thesis using images by blast
qed

text \<open>C11. Every CLSAG \<open>sign\<close> returns verifies over its ring, key image and pseudo-out, provided the key image
  and \<open>D\<close> are not the identity (else it is rejected for that reason alone). There is one for each input,
  in order: the assertion \<open>sign\<close> makes in debug builds holds.\<close>

theorem clsag_sign_verifies:
  assumes "curve_laws D" and "length msg_hash = 32" and "\<forall>input \<in> set inputs. valid_context D (snd input)"
    and "Clsag_sign D keccak256 fill_bytes rng inputs sum_outputs msg_hash = Some (Inr res)"
  shows "\<exists>images. sign_key_images D keccak256 inputs = Some (Inr images) \<and> length res = length inputs \<and>
           list_all2 (signature_verifies D keccak256 msg_hash) (zip inputs images) res"
  by (rule Clsag_sign_signatures [OF assms])

lemma Clsag_sign_balance:
  assumes "curve_laws D" and "length msg_hash = 32" and "\<forall>input \<in> set inputs. valid_context D (snd input)"
    and "Clsag_sign D keccak256 fill_bytes rng inputs sum_outputs msg_hash = Some (Inr res)" and "inputs \<noteq> []"
  shows "\<exists>m. Scalar_into D sum_outputs = Some m \<and>
    sum_list (map snd res) = edwards_mul D m (ED25519_BASEPOINT_POINT D) +
      sum_list (map (\<lambda>input. amount_point D (ctx_commitment (snd input))) inputs)"
proof -
  from assms(4,5) obtain images m where images: "sign_key_images D keccak256 inputs = Some (Inr images)"
    and m: "Scalar_into D sum_outputs = Some m"
    and loop: "sign_loop D keccak256 fill_bytes rng m 0 msg_hash (zip inputs images) = Some res"
    using Clsag_sign_Inr [OF assms(4)] by metis
  have of: "list_all2 (key_image_of D keccak256) inputs images" by (rule sign_key_images_of [OF images assms(3)])
  have "zip inputs images \<noteq> []" using of assms(5) by (cases inputs; cases images) auto
  from sign_loop_balance [OF assms(1,2) this _ loop]
  have "sum_list (map snd res) = edwards_mul D m (ED25519_BASEPOINT_POINT D) +
      sum_list (map (\<lambda>sig. amount_point D (ctx_commitment (snd (fst sig)))) (zip inputs images))"
    using of assms(3) by (auto simp: list_all2_iff dest: set_zip_leftD)
  moreover have "map (\<lambda>sig. amount_point D (ctx_commitment (snd (fst sig)))) (zip inputs images) =
      map (\<lambda>input. amount_point D (ctx_commitment (snd input))) (map fst (zip inputs images))" by simp
  moreover have "map fst (zip inputs images) = inputs" using of by (simp add: list_all2_lengthD)
  ultimately show ?thesis using m by simp
qed

text \<open>C13. The pseudo-outs of a non-empty set of inputs sum to a commitment to the inputs' amounts whose mask is
  \<open>sum_outputs\<close>, whatever the random masks: the transaction's commitments balance.\<close>

theorem clsag_pseudo_outs_balance:
  assumes "curve_laws D" and "length msg_hash = 32" and "\<forall>input \<in> set inputs. valid_context D (snd input)"
    and "Clsag_sign D keccak256 fill_bytes rng inputs sum_outputs msg_hash = Some (Inr res)" and "inputs \<noteq> []"
  shows "\<exists>m. Scalar_into D sum_outputs = Some m \<and>
    sum_list (map snd res) = edwards_mul D m (ED25519_BASEPOINT_POINT D) +
      sum_list (map (\<lambda>input. amount_point D (ctx_commitment (snd input))) inputs)"
  by (rule Clsag_sign_balance [OF assms])

subsection \<open>Signing does not panic\<close>

lemma hash_scalar_total:
  "curve_laws D \<Longrightarrow> hashes_total D k \<Longrightarrow> \<exists>h. hash_scalar D k data = Some h"
  by (simp add: hash_scalar_def Scalar_hash_def hashes_total_def curve_scalar Let_def)

lemma core_loop_total:
  assumes "curve_laws D" and "hashes_total D k"
    and "\<forall>s \<in> set (core_s params). Scalar_into D s \<noteq> None"
    and "length (core_s params) = length (core_ring params)" and "core_ring params \<noteq> []"
  shows "\<exists>st'. core_loop D k params is st = Some st'"
proof (induction "is" arbitrary: st)
  case (Cons i "is")
  obtain r c c1 th where st: "st = (r, c, c1, th)" by (metis prod_cases4)
  let ?j = "i mod length (core_ring params)"
  have j: "?j < length (core_s params)" using assms(4,5) by simp
  then obtain s where "Scalar_into D (core_s params ! ?j) = Some s" using assms(3) nth_mem by blast
  moreover obtain PH where "Point_biased_hash D k (edwards_compress D (fst (core_ring params ! ?j))) = Some PH"
    using assms(2) by (auto simp: hashes_total_def)
  ultimately obtain th' where "core_transcript D k params ?j c th = Some th'"
    using j by (auto simp: core_transcript_def Let_def)
  moreover obtain h where "hash_scalar D k th' = Some h" using hash_scalar_total [OF assms(1,2)] by blast
  ultimately obtain st2 where "core_step D k params i st = Some st2"
    by (auto simp: core_step_def st Let_def)
  with Cons.IH show ?case by simp
qed auto

lemma clsag_core_total:
  assumes "curve_laws D" and "hashes_total D k" and "\<forall>s \<in> set s. Scalar_into D s \<noteq> None"
    and "length s = length ring" and "ring \<noteq> []"
  shows "\<exists>r. clsag_core D k ring I pseudo_out msg_hash Dp s (Sign signer A AH) = Some r"
proof -
  note hash = hash_scalar_total [OF assms(1,2)]
  obtain i where i: "Scalar_into D Scalar_INV_EIGHT = Some i" using assms(1) by (auto simp: curve_laws_def)
  define agg where "agg = agg_transcript D ring I pseudo_out (edwards_compress D (edwards_mul D i Dp))"
  define agg_1 where "agg_1 = agg[PREFIX_AGG_0_LEN - 1 := 0x31]"
  define T where "T = round_transcript D (length ring) pseudo_out msg_hash agg_1 @
    edwards_compress D A @ edwards_compress D AH"
  obtain mu_P mu_C c where h: "hash_scalar D k agg = Some mu_P" "hash_scalar D k agg_1 = Some mu_C"
    "hash_scalar D k T = Some c" using hash by metis
  obtain st where "core_loop D k \<lparr>core_ring = ring, core_I = I, core_pseudo_out = pseudo_out,
        core_D = Dp, core_s = s, core_mu_P = mu_P, core_mu_C = mu_C,
        core_start = unat signer + 1, core_end = unat signer + length ring\<rparr> [0..<2 * length ring] (False, c, c, T) = Some st"
    using core_loop_total [OF assms(1,2)] assms(3-5) by fastforce
  with i h show ?thesis
    by (cases st) (simp add: clsag_core_def Let_def agg_def agg_1_def T_def)
qed

lemma random_scalars_canonical:
  "curve_laws D \<Longrightarrow> s \<in> set (fst (random_scalars D fill_bytes n rng)) \<Longrightarrow> Scalar_into D s \<noteq> None"
proof (induction n arbitrary: rng)
  case (Suc n)
  then show ?case using curve_scalar(1) [OF Suc.prems(1)]
    by (auto simp: Let_def split_def Scalar_random_def Scalar_from_def)
qed simp

lemma Scalar_random_canonical:
  "curve_laws D \<Longrightarrow> \<exists>a. Scalar_into D (fst (Scalar_random D fill_bytes rng)) = Some a"
  using curve_scalar(1) by (fastforce simp: Scalar_random_def Scalar_from_def split_def Let_def)

lemma sign_input_total:
  assumes laws: "curve_laws D" and total: "hashes_total D k" and ctx: "valid_context D (snd input)"
    and x: "Scalar_into D (fst input) = Some x"
  shows "\<exists>r. sign_input D k fill_bytes rng input ki mask' msg_hash = Some r"
proof -
  let ?ring = "decoy_ring (ctx_decoys (snd input))" and ?c = "ctx_commitment (snd input)"
  note signer = valid_context_signer [OF ctx]
  obtain nonce_s rng1 where nonce: "Scalar_random D fill_bytes rng = (nonce_s, rng1)" by (metis surj_pair)
  obtain a where a: "Scalar_into D nonce_s = Some a"
    using Scalar_random_canonical [OF laws, of fill_bytes rng] nonce by auto
  obtain s rng2 where s: "random_scalars D fill_bytes (length ?ring) rng1 = (s, rng2)" by (metis surj_pair)
  have len: "length s = length ?ring" "\<forall>x \<in> set s. Scalar_into D x \<noteq> None"
    using random_scalars_canonical [OF laws, of _ fill_bytes "length ?ring" rng1]
      length_random_scalars [of D fill_bytes "length ?ring" rng1] by (simp_all add: s)
  obtain m H where m: "Scalar_into D (mask ?c) = Some m"
    and H: "edwards_decompress D (CompressedPoint_to_bytes CompressedPoint_H) = Some H"
    using signer(4) by (auto simp: Commitment_commit_def split: option.splits)
  then obtain po where po: "Commitment_commit D (Commitment_new (Scalar_from D mask') (amount ?c)) = Some po"
    by (simp add: Commitment_commit_def Commitment_new_def curve_scalar(1) [OF laws])
  obtain PH where PH: "Point_biased_hash D k (edwards_compress D
      (fst (?ring ! unat (decoy_signer_index (ctx_decoys (snd input)))))) = Some PH"
    using total by (auto simp: hashes_total_def)
  have "?ring \<noteq> []" using signer(1) by auto
  from clsag_core_total [OF laws total len(2,1) this] obtain r where
    "clsag_core D k ?ring (snd ki) po msg_hash (edwards_mul D (m - mask') PH) s
      (Sign (decoy_signer_index (ctx_decoys (snd input))) (edwards_mul D a (ED25519_BASEPOINT_POINT D))
        (edwards_mul D a (fst ki))) = Some r" by blast
  then show ?thesis
    by (cases ki; cases r) (simp add: sign_input_def sign_core_def nonce a x s m po PH signer(3) Let_def split_def)
qed

lemma sign_loop_total:
  assumes "curve_laws D" and "hashes_total D k"
    and "\<forall>(input, ki) \<in> set todo. valid_context D (snd input) \<and> Scalar_into D (fst input) \<noteq> None"
  shows "\<exists>res. sign_loop D k fill_bytes rng sum_outputs acc msg_hash todo = Some res"
  using assms(3)
proof (induction todo arbitrary: rng acc)
  case (Cons sig todo)
  obtain input ki where sig: "sig = (input, ki)" by (metis surj_pair)
  have "\<exists>m rng' acc'. (if todo = [] then Some (sum_outputs - acc, rng, acc)
        else let (m, rng) = Scalar_random D fill_bytes rng
             in Option.bind (Scalar_into D m) (\<lambda>m. Some (m, rng, acc + m))) = Some (m, rng', acc')"
    using Scalar_random_canonical [OF assms(1), of fill_bytes rng] by (auto simp: split_def Let_def)
  then obtain m rng' acc' where first: "(if todo = [] then Some (sum_outputs - acc, rng, acc)
        else let (m, rng) = Scalar_random D fill_bytes rng
             in Option.bind (Scalar_into D m) (\<lambda>m. Some (m, rng, acc + m))) = Some (m, rng', acc')" by blast
  obtain x where "valid_context D (snd input)" "Scalar_into D (fst input) = Some x" using Cons.prems sig by auto
  from sign_input_total [OF assms(1,2) this] obtain res rng2 where
    "sign_input D k fill_bytes rng' input ki m msg_hash = Some (res, rng2)" by (metis surj_pair)
  moreover obtain results where "sign_loop D k fill_bytes rng2 sum_outputs acc' msg_hash todo = Some results"
    using Cons by fastforce
  ultimately show ?case by (simp add: sig first)
qed simp

lemma sign_key_images_total:
  assumes "hashes_total D k"
    and "\<forall>input \<in> set inputs. valid_context D (snd input) \<and> Scalar_into D (fst input) \<noteq> None"
  shows "\<exists>r. sign_key_images D k inputs = Some r \<and>
    (r = Inl InvalidKey \<and> (\<exists>input \<in> set inputs. \<not> (\<exists>ki. key_image_of D k input ki)) \<or>
     (\<exists>images. r = Inr images \<and> list_all2 (key_image_of D k) inputs images))"
  using assms(2)
proof (induction inputs)
  case (Cons input inputs)
  let ?pk = "fst (decoy_ring (ctx_decoys (snd input)) ! unat (decoy_signer_index (ctx_decoys (snd input))))"
  note member = valid_context_signer(3) [of D "snd input"]
  obtain x where x: "Scalar_into D (fst input) = Some x" using Cons.prems by auto
  obtain gen where gen: "Point_biased_hash D k (edwards_compress D ?pk) = Some gen"
    using assms(1) unfolding hashes_total_def by blast
  obtain r where r: "sign_key_images D k inputs = Some r"
    and cases: "r = Inl InvalidKey \<and> (\<exists>input \<in> set inputs. \<not> (\<exists>ki. key_image_of D k input ki)) \<or>
     (\<exists>images. r = Inr images \<and> list_all2 (key_image_of D k) inputs images)"
    using Cons by auto
  show ?case
  proof (cases "edwards_mul D x (ED25519_BASEPOINT_POINT D) = ?pk")
    case True
    then have "key_image_of D k input (gen, edwards_mul D x gen)" by (simp add: key_image_of_def x gen)
    moreover have "sign_key_images D k (input # inputs) =
        Some (case r of Inl e \<Rightarrow> Inl e | Inr images \<Rightarrow> Inr ((gen, edwards_mul D x gen) # images))"
      using x gen r member Cons.prems True by (simp add: Let_def)
    ultimately show ?thesis
      using cases by (elim disjE conjE exE bexE) (simp_all, blast)
  next
    case False
    then have "\<not> (\<exists>ki. key_image_of D k input ki)" by (auto simp: key_image_of_def x Let_def)
    with False show ?thesis using x member Cons.prems by (auto simp: Let_def)
  qed
qed simp

subsection \<open>An instance\<close>

lemma example_hash_scalar [simp]: "hash_scalar example_curve k t = Some 1"
  by (simp add: hash_scalar_def Scalar_hash_def example_into)

definition example_context :: "3 ClsagContext" where
  "example_context = \<lparr>ctx_commitment = \<lparr>mask = Scalar_from example_curve 1, amount = 5\<rparr>,
     ctx_decoys = \<lparr>decoy_offsets = [7, 2], decoy_signer_index = 1, decoy_ring = [(2, 0), (1, 1 + 5 * 2)]\<rparr>\<rparr>"

lemma example_context_valid: "valid_context example_curve example_context"
proof -
  have H: "edwards_decompress example_curve (CompressedPoint_to_bytes CompressedPoint_H) = Some 2"
    using example_bytes(4) [of 2] by (simp add: bytes_3_def CompressedPoint_to_bytes_write)
  have "wf_Decoys example_curve (ctx_decoys example_context)"
    by (simp add: wf_Decoys_def example_context_def Decoys_new_iff fits_usize_def wf_Point_def example_bytes)
  then show ?thesis
    by (simp add: valid_context_def ClsagContext_new_def example_context_def signer_ring_members_def
      Commitment_commit_def example_into H [simplified])
qed

definition example_inputs :: "(Scalar \<times> 3 ClsagContext) list" where
  "example_inputs = [(Scalar_from example_curve 1, example_context)]"

lemma example_inputs_valid:
  "\<forall>input \<in> set example_inputs. valid_context example_curve (snd input) \<and> Scalar_into example_curve (fst input) \<noteq> None"
  by (simp add: example_inputs_def example_context_valid example_into)

lemma Clsag_sign_total:
  assumes "curve_laws D" and "hashes_total D keccak256" and "Scalar_into D sum_outputs \<noteq> None"
    and "\<forall>input \<in> set inputs. valid_context D (snd input) \<and> Scalar_into D (fst input) \<noteq> None"
  shows "if \<forall>input \<in> set inputs. \<exists>ki. key_image_of D keccak256 input ki
         then \<exists>res. Clsag_sign D keccak256 fill_bytes rng inputs sum_outputs msg_hash = Some (Inr res)
         else Clsag_sign D keccak256 fill_bytes rng inputs sum_outputs msg_hash = Some (Inl InvalidKey)"
proof -
  obtain r where r: "sign_key_images D keccak256 inputs = Some r"
    and cases: "r = Inl InvalidKey \<and> (\<exists>input \<in> set inputs. \<not> (\<exists>ki. key_image_of D keccak256 input ki)) \<or>
     (\<exists>images. r = Inr images \<and> list_all2 (key_image_of D keccak256) inputs images)"
    using sign_key_images_total [OF assms(2,4)] by blast
  from cases show ?thesis
  proof (elim disjE conjE exE)
    assume "r = Inl InvalidKey" and "\<exists>input \<in> set inputs. \<not> (\<exists>ki. key_image_of D keccak256 input ki)"
    with r show ?thesis by (auto simp: Clsag_sign_def)
  next
    fix images assume images: "r = Inr images" "list_all2 (key_image_of D keccak256) inputs images"
    obtain m where m: "Scalar_into D sum_outputs = Some m" using assms(3) by blast
    obtain res where "sign_loop D keccak256 fill_bytes rng m 0 msg_hash (zip inputs images) = Some res"
      using sign_loop_total [OF assms(1,2), of "zip inputs images"] assms(4) by (fastforce dest: set_zip_leftD)
    then have "\<exists>res. Clsag_sign D keccak256 fill_bytes rng inputs sum_outputs msg_hash = Some (Inr res)"
      using r images m by (simp add: Clsag_sign_def)
    moreover have "\<forall>input \<in> set inputs. \<exists>ki. key_image_of D keccak256 input ki"
      using images(2) by (metis in_set_conv_nth list_all2_conv_all_nth)
    ultimately show ?thesis by simp
  qed
qed



lemma example_sign:
  "\<exists>res. Clsag_sign example_curve (\<lambda>_. []) (\<lambda>rng. ([], rng)) () example_inputs
     (Scalar_from example_curve 0) (replicate 32 0) = Some (Inr res)"
proof -
  have "sign_key_images example_curve (\<lambda>_. []) example_inputs = Some (Inr [(2, 2)])"
    by (simp add: example_inputs_def example_context_def example_into signer_ring_members_def)
  moreover obtain res where "sign_loop example_curve (\<lambda>_. []) (\<lambda>rng. ([], rng)) () 0 0 (replicate 32 0)
      (zip example_inputs [(2, 2)]) = Some res"
    using sign_loop_total [OF example_curve_laws example_hashes_total, of "zip example_inputs [(2, 2)]"]
      example_inputs_valid by (fastforce dest: set_zip_leftD)
  ultimately show ?thesis by (simp add: Clsag_sign_def example_into)
qed

theorem clsag_sign_verifies_witness:
  "\<exists>res images. Clsag_sign example_curve (\<lambda>_. []) (\<lambda>rng. ([], rng)) () example_inputs
     (Scalar_from example_curve 0) (replicate 32 0) = Some (Inr res) \<and>
   sign_key_images example_curve (\<lambda>_. []) example_inputs = Some (Inr images) \<and> length res = length example_inputs \<and>
   list_all2 (signature_verifies example_curve (\<lambda>_. []) (replicate 32 0)) (zip example_inputs images) res"
proof -
  obtain res where "Clsag_sign example_curve (\<lambda>_. []) (\<lambda>rng. ([], rng)) () example_inputs
     (Scalar_from example_curve 0) (replicate 32 0) = Some (Inr res)" using example_sign by blast
  with clsag_sign_verifies [OF example_curve_laws _ _ this] example_inputs_valid show ?thesis by auto
qed

theorem clsag_pseudo_outs_balance_witness:
  "\<exists>res m. Clsag_sign example_curve (\<lambda>_. []) (\<lambda>rng. ([], rng)) () example_inputs
     (Scalar_from example_curve 0) (replicate 32 0) = Some (Inr res) \<and>
   Scalar_into example_curve (Scalar_from example_curve 0) = Some m \<and>
   sum_list (map snd res) = edwards_mul example_curve m (ED25519_BASEPOINT_POINT example_curve) +
      sum_list (map (\<lambda>input. amount_point example_curve (ctx_commitment (snd input))) example_inputs)"
proof -
  obtain res where res: "Clsag_sign example_curve (\<lambda>_. []) (\<lambda>rng. ([], rng)) () example_inputs
     (Scalar_from example_curve 0) (replicate 32 0) = Some (Inr res)" using example_sign by blast
  have "example_inputs \<noteq> []" by (simp add: example_inputs_def)
  from clsag_pseudo_outs_balance [OF example_curve_laws _ _ res this] example_inputs_valid res
  show ?thesis by (auto simp del: example_curve_fields)
qed

end
