(* ===== verification/Epee_Stack.thy ===== *)
theory Epee_Stack
  imports Prelude
begin

unbundle bit_operations_syntax

text \<open>
  The stack of the EPEE decoder (\<^verbatim>\<open>epee/src/stack.rs\<close>), a \<open>Vec\<close> of fixed capacity: the types of the items to
  decode are packed into half a byte each, beside an array of how many of each are left. An index out
  of bounds, a half byte which is no type and an arithmetic overflow are panics: \<open>None\<close>.

  The theory shows that it implements a bounded stack of pairs: its operations are those of a list under
  the abstraction \<open>Stack_items\<close>, and do not panic.
\<close>

datatype EpeeError =
  InternalError | InvalidHeader | InvalidVersion "u8 option" | Short usize | UnrecognizedType |
  EmptyKey | DepthLimitExceeded | TypeError | EpeeReuse

datatype Type =
  Int64 | Int32 | Int16 | Int8 | Uint64 | Uint32 | Uint16 | Uint8 | Double | String | Bool | Object

datatype TypeOrEntry = Type Type | Entry

fun Type_as_u8 :: "Type \<Rightarrow> u8" where
  "Type_as_u8 Int64 = 1" | "Type_as_u8 Int32 = 2" | "Type_as_u8 Int16 = 3" | "Type_as_u8 Int8 = 4"
| "Type_as_u8 Uint64 = 5" | "Type_as_u8 Uint32 = 6" | "Type_as_u8 Uint16 = 7" | "Type_as_u8 Uint8 = 8"
| "Type_as_u8 Double = 9" | "Type_as_u8 String = 10" | "Type_as_u8 Bool = 11" | "Type_as_u8 Object = 12"

definition Type_from_u8 :: "u8 \<Rightarrow> Type option" where
  "Type_from_u8 kind =
     (if kind = 1 then Some Int64 else if kind = 2 then Some Int32 else if kind = 3 then Some Int16
      else if kind = 4 then Some Int8 else if kind = 5 then Some Uint64 else if kind = 6 then Some Uint32
      else if kind = 7 then Some Uint16 else if kind = 8 then Some Uint8 else if kind = 9 then Some Double
      else if kind = 10 then Some String else if kind = 11 then Some Bool else if kind = 12 then Some Object
      else None)"

definition EPEE_LIB_MAX_OBJECT_DEPTH :: nat where
  "EPEE_LIB_MAX_OBJECT_DEPTH = 100"

definition MAX_OBJECT_DEPTH :: nat where
  "MAX_OBJECT_DEPTH = EPEE_LIB_MAX_OBJECT_DEPTH + 2"

subsection \<open>PackedTypes\<close>

definition PackedTypes_get :: "bytes \<Rightarrow> nat \<Rightarrow> TypeOrEntry option" where
  "PackedTypes_get types i =
     (if i div 2 < length types then
        let entry = drop_bit ((i AND 1) * 4) (types ! (i div 2)) AND 0b1111
        in if entry = 0 then Some Entry else map_option Type (Type_from_u8 entry)
      else None)"

definition PackedTypes_set :: "bytes \<Rightarrow> nat \<Rightarrow> TypeOrEntry \<Rightarrow> bytes option" where
  "PackedTypes_set types i kind =
     (let four_bits = (case kind of Entry \<Rightarrow> 0 | Type kind \<Rightarrow> Type_as_u8 kind);
          shift = (i AND 1) * 4
      in if i div 2 < length types then
           Some (types[i div 2 := (types ! (i div 2) AND drop_bit shift 0b11110000) OR push_bit shift four_bits])
         else None)"

subsection \<open>Stack\<close>

record Stack =
  types :: bytes
  amounts :: "usize list"
  depth :: u8

definition Stack_root_object :: "Stack option" where
  "Stack_root_object =
     (let amounts = replicate MAX_OBJECT_DEPTH 1
      in Option.bind (PackedTypes_set (replicate ((MAX_OBJECT_DEPTH + 1) div 2) 0) 0 (Type Object)) (\<lambda>types.
         Some \<lparr>types = types, amounts = amounts[0 := 1], depth = 1\<rparr>))"

definition Stack_depth :: "Stack \<Rightarrow> nat" where
  "Stack_depth s = unat (depth s)"

definition amounts_get :: "usize list \<Rightarrow> nat \<Rightarrow> usize option" where
  "amounts_get a i = (if i < length a then Some (a ! i) else None)"

definition amounts_set :: "usize list \<Rightarrow> nat \<Rightarrow> usize \<Rightarrow> usize list option" where
  "amounts_set a i x = (if i < length a then Some (a[i := x]) else None)"

definition Stack_peek :: "Stack \<Rightarrow> (TypeOrEntry \<times> usize) option option" where
  "Stack_peek s =
     (if Stack_depth s = 0 then Some None
      else let i = Stack_depth s - 1
           in Option.bind (PackedTypes_get (types s) i) (\<lambda>kind.
              Option.bind (amounts_get (amounts s) i) (\<lambda>amount.
              Some (Some (kind, amount)))))"

definition Stack_pop :: "Stack \<Rightarrow> (TypeOrEntry option \<times> Stack) option" where
  "Stack_pop s =
     (if Stack_depth s = 0 then Some (None, s)
      else let i = Stack_depth s - 1
           in Option.bind (PackedTypes_get (types s) i) (\<lambda>kind.
              Option.bind (amounts_get (amounts s) i) (\<lambda>amount.
              if amount = 0 then None
              else let amount = amount - 1
                   in if amount \<noteq> 0 then
                        Option.bind (amounts_set (amounts s) i amount) (\<lambda>amounts.
                        Some (Some kind, s\<lparr>amounts := amounts\<rparr>))
                      else Some (Some kind, s\<lparr>depth := depth s - 1\<rparr>))))"

definition Stack_push :: "Stack \<Rightarrow> TypeOrEntry \<Rightarrow> usize \<Rightarrow> ((EpeeError + unit) \<times> Stack) option" where
  "Stack_push s kind amount =
     (if Stack_depth s = MAX_OBJECT_DEPTH then Some (Inl DepthLimitExceeded, s)
      else if amount = 0 then Some (Inr (), s)
      else Option.bind (PackedTypes_set (types s) (Stack_depth s) kind) (\<lambda>types.
           Option.bind (amounts_set (amounts s) (Stack_depth s) amount) (\<lambda>amounts.
           if Stack_depth s = 255 then None
           else Some (Inr (), \<lparr>types = types, amounts = amounts, depth = depth s + 1\<rparr>))))"

subsection \<open>Arrays\<close>

text \<open>
  What an array of fixed size promises: an index within it can be read and written, and a write changes
  that index only. The first items of such an array make a stack.
\<close>

locale fixed_array =
  fixes get :: "'a \<Rightarrow> nat \<Rightarrow> 'v option" and set_at :: "'a \<Rightarrow> nat \<Rightarrow> 'v \<Rightarrow> 'a option"
    and valid :: "'a \<Rightarrow> bool" and capacity :: nat
  assumes get_valid: "valid a \<Longrightarrow> i < capacity \<Longrightarrow> get a i \<noteq> None"
    and set_valid: "valid a \<Longrightarrow> i < capacity \<Longrightarrow> \<exists>a'. set_at a i v = Some a' \<and> valid a'"
    and get_set: "valid a \<Longrightarrow> i < capacity \<Longrightarrow> j < capacity \<Longrightarrow> set_at a i v = Some a' \<Longrightarrow>
          get a' j = (if j = i then Some v else get a j)"
begin

definition items :: "'a \<Rightarrow> nat \<Rightarrow> 'v list" where
  "items a n = map (\<lambda>i. the (get a i)) [0..<n]"

lemma length_items [simp]: "length (items a n) = n"
  by (simp add: items_def)

lemma items_Suc: "items a (Suc n) = items a n @ [the (get a n)]"
  by (simp add: items_def)

lemma items_set:
  assumes "valid a" and "n \<le> i" and "i < capacity" and "set_at a i v = Some a'"
  shows "items a' n = items a n"
  using assms get_set [OF assms(1,3) _ assms(4)] by (simp add: items_def)

lemma items_write:
  assumes "valid a" and "n < capacity" and "set_at a n v = Some a'"
  shows "items a' (Suc n) = items a n @ [v]"
  using items_set [OF assms(1) le_refl assms(2,3)] get_set [OF assms(1,2,2,3)] by (simp add: items_Suc)

end

definition valid_amounts :: "usize list \<Rightarrow> bool" where
  "valid_amounts a \<longleftrightarrow> length a = MAX_OBJECT_DEPTH"

interpretation amounts_array: fixed_array amounts_get amounts_set valid_amounts MAX_OBJECT_DEPTH
  by unfold_locales (auto simp: amounts_get_def amounts_set_def valid_amounts_def)

text \<open>The packed types, every half byte of which is a type or an entry.\<close>

definition valid_types :: "bytes \<Rightarrow> bool" where
  "valid_types t \<longleftrightarrow> length t = (MAX_OBJECT_DEPTH + 1) div 2 \<and> (\<forall>i < MAX_OBJECT_DEPTH. PackedTypes_get t i \<noteq> None)"

definition half :: "nat \<Rightarrow> u8 \<Rightarrow> u8" where
  "half b x = drop_bit (b * 4) x AND 0b1111"

lemma cases_8: "n < 8 \<Longrightarrow> n = 0 \<or> n = 1 \<or> n = 2 \<or> n = 3 \<or> n = 4 \<or> n = 5 \<or> n = 6 \<or> n = (7 :: nat)"
  by auto

lemma bit_nibble:
  fixes v :: u8
  assumes "v AND 0b11110000 = 0" and "bit v n"
  shows "n < 4"
proof (rule ccontr)
  assume n: "\<not> n < 4"
  have "n < 8" using assms(2) using bit_imp_le_length [of v n] by simp
  with n have "bit (0b11110000 :: u8) n" by (auto dest!: cases_8)
  with assms show False by (metis bit_and_iff bit_0_eq bot_apply bot_bool_def)
qed

lemma half_write:
  fixes v :: u8
  assumes "v AND 0b11110000 = 0" and "b < 2" and "c < 2"
  shows "half c ((x AND drop_bit (b * 4) 0b11110000) OR push_bit (b * 4) v) = (if c = b then v else half c x)"
proof (rule bit_eqI)
  fix n assume "possible_bit TYPE(u8) n"
  then have n: "n < 8" by (simp add: possible_bit_word)
  have v: "\<not> bit v 4" "\<not> bit v 5" "\<not> bit v 6" "\<not> bit v 7" using bit_nibble [OF assms(1)] by fastforce+
  have "b = 0 \<or> b = 1" "c = 0 \<or> c = 1" using assms by auto
  with cases_8 [OF n] v show "bit (half c ((x AND drop_bit (b * 4) 0b11110000) OR push_bit (b * 4) v)) n =
    bit (if c = b then v else half c x) n"
    by (elim disjE) (simp_all add: half_def bit_and_iff bit_or_iff bit_drop_bit_eq bit_push_bit_iff)
qed

definition half_kind :: "u8 \<Rightarrow> TypeOrEntry option" where
  "half_kind entry = (if entry = 0 then Some Entry else map_option Type (Type_from_u8 entry))"

definition kind_half :: "TypeOrEntry \<Rightarrow> u8" where
  "kind_half kind = (case kind of Entry \<Rightarrow> 0 | Type kind \<Rightarrow> Type_as_u8 kind)"

lemma Type_from_as_u8 [simp]: "Type_from_u8 (Type_as_u8 t) = Some t"
  by (cases t) (simp_all add: Type_from_u8_def)

lemma half_kind_half [simp]: "half_kind (kind_half k) = Some k"
  by (cases k) (auto simp: half_kind_def kind_half_def elim: Type_as_u8.elims)

lemma kind_half_nibble: "kind_half k AND 0b11110000 = 0"
proof (cases k)
  case (Type t)
  then show ?thesis by (cases t) (simp_all add: kind_half_def)
qed (simp add: kind_half_def)

lemma PackedTypes_get_half:
  "PackedTypes_get t i = (if i div 2 < length t then half_kind (half (i mod 2) (t ! (i div 2))) else None)"
  by (simp add: PackedTypes_get_def half_kind_def half_def Let_def and_one_eq)

lemma PackedTypes_set_half:
  "PackedTypes_set t i k =
     (if i div 2 < length t then
        Some (t[i div 2 := (t ! (i div 2) AND drop_bit (i mod 2 * 4) 0b11110000) OR push_bit (i mod 2 * 4) (kind_half k)])
      else None)"
  by (simp add: PackedTypes_set_def kind_half_def Let_def and_one_eq)

lemma PackedTypes_get_set:
  assumes "PackedTypes_set t i k = Some t'" and "j div 2 < length t"
  shows "PackedTypes_get t' j = (if j = i then Some k else PackedTypes_get t j)"
proof (cases "j div 2 = i div 2")
  case True
  have "j = i \<longleftrightarrow> j mod 2 = i mod 2" using True by (metis div_mult_mod_eq)
  then show ?thesis
    using assms True half_write [OF kind_half_nibble, of "i mod 2" "j mod 2" "t ! (i div 2)" k]
    by (auto simp: PackedTypes_get_half PackedTypes_set_half split: if_splits)
next
  case False
  then show ?thesis using assms by (auto simp: PackedTypes_get_half PackedTypes_set_half split: if_splits)
qed

lemma index_half: "i < MAX_OBJECT_DEPTH \<Longrightarrow> i div 2 < (MAX_OBJECT_DEPTH + 1) div 2"
  by linarith

interpretation types_array: fixed_array PackedTypes_get PackedTypes_set valid_types MAX_OBJECT_DEPTH
proof
  fix t i j k t'
  assume t: "valid_types t" and i: "i < MAX_OBJECT_DEPTH"
  then have len: "length t = (MAX_OBJECT_DEPTH + 1) div 2" by (simp add: valid_types_def)
  show "PackedTypes_get t i \<noteq> None" using t i by (simp add: valid_types_def)
  show "\<exists>t'. PackedTypes_set t i k = Some t' \<and> valid_types t'"
  proof -
    obtain t' where t': "PackedTypes_set t i k = Some t'"
      using index_half [OF i] len by (simp add: PackedTypes_set_half)
    have "length t' = length t" using t' by (auto simp: PackedTypes_set_half split: if_splits)
    with t len PackedTypes_get_set [OF t'] index_half have "valid_types t'" by (auto simp: valid_types_def)
    with t' show ?thesis by blast
  qed
  assume "j < MAX_OBJECT_DEPTH" and "PackedTypes_set t i k = Some t'"
  then show "PackedTypes_get t' j = (if j = i then Some k else PackedTypes_get t j)"
    using index_half len PackedTypes_get_set by simp
qed

subsection \<open>The stack as a list\<close>

definition wf_Stack :: "Stack \<Rightarrow> bool" where
  "wf_Stack s \<longleftrightarrow> valid_types (types s) \<and> valid_amounts (amounts s) \<and> Stack_depth s \<le> MAX_OBJECT_DEPTH \<and>
     (\<forall>i < Stack_depth s. amounts s ! i \<noteq> 0)"

text \<open>The items, the top of the stack first.\<close>

definition Stack_items :: "Stack \<Rightarrow> (TypeOrEntry \<times> usize) list" where
  "Stack_items s =
     rev (zip (types_array.items (types s) (Stack_depth s)) (amounts_array.items (amounts s) (Stack_depth s)))"

fun pop_item :: "(TypeOrEntry \<times> usize) list \<Rightarrow> (TypeOrEntry \<times> usize) list" where
  "pop_item [] = []"
| "pop_item ((kind, amount) # rest) = (if amount = 1 then rest else (kind, amount - 1) # rest)"

definition push_item ::
  "TypeOrEntry \<Rightarrow> usize \<Rightarrow> (TypeOrEntry \<times> usize) list \<Rightarrow> (TypeOrEntry \<times> usize) list" where
  "push_item kind amount st = (if amount = 0 then st else (kind, amount) # st)"

lemma length_Stack_items [simp]: "length (Stack_items s) = Stack_depth s"
  by (simp add: Stack_items_def)

lemma Stack_items_Nil: "Stack_depth s = 0 \<Longrightarrow> Stack_items s = []"
  by (metis length_0_conv length_Stack_items)

lemma Stack_items_Suc:
  assumes "Stack_depth s = Suc i"
  shows "Stack_items s = (the (PackedTypes_get (types s) i), the (amounts_get (amounts s) i)) #
           rev (zip (types_array.items (types s) i) (amounts_array.items (amounts s) i))"
  by (simp add: Stack_items_def assms types_array.items_Suc amounts_array.items_Suc)

lemma wf_Stack_top:
  assumes "wf_Stack s" and "Stack_depth s = Suc i"
  obtains k a where "PackedTypes_get (types s) i = Some k" and "amounts_get (amounts s) i = Some a"
    and "a \<noteq> 0" and "i < MAX_OBJECT_DEPTH"
proof -
  have i: "i < MAX_OBJECT_DEPTH" "valid_types (types s)" "valid_amounts (amounts s)" "amounts s ! i \<noteq> 0"
    using assms by (auto simp: wf_Stack_def)
  then obtain k a where "PackedTypes_get (types s) i = Some k" "amounts_get (amounts s) i = Some a"
    using types_array.get_valid amounts_array.get_valid by blast
  with i show thesis by (intro that) (auto simp: amounts_get_def split: if_splits)
qed

lemma Stack_peek_items:
  assumes "wf_Stack s"
  shows "Stack_peek s = Some (case Stack_items s of [] \<Rightarrow> None | item # _ \<Rightarrow> Some item)"
proof (cases "Stack_depth s")
  case 0
  then show ?thesis by (simp add: Stack_peek_def Stack_items_Nil)
next
  case (Suc i)
  obtain k a where "PackedTypes_get (types s) i = Some k" "amounts_get (amounts s) i = Some a"
    using wf_Stack_top [OF assms Suc] .
  with Suc show ?thesis by (simp add: Stack_peek_def Stack_items_Suc)
qed

lemma unat_pred: "unat x = Suc n \<Longrightarrow> unat (x - 1) = n" for x :: "'a::len word"
  by (cases "x = 0") (simp_all add: unat_minus_one)

lemma Stack_pop_items:
  assumes "wf_Stack s"
  shows "\<exists>s'. Stack_pop s = Some (case Stack_items s of [] \<Rightarrow> None | item # _ \<Rightarrow> Some (fst item), s') \<and>
    wf_Stack s' \<and> Stack_items s' = pop_item (Stack_items s)"
proof (cases "Stack_depth s")
  case 0
  then show ?thesis using assms by (simp add: Stack_pop_def Stack_items_Nil)
next
  case (Suc i)
  obtain k a where top: "PackedTypes_get (types s) i = Some k" "amounts_get (amounts s) i = Some a" "a \<noteq> 0"
      "i < MAX_OBJECT_DEPTH" using wf_Stack_top [OF assms Suc] .
  note items = Stack_items_Suc [OF Suc, unfolded top option.sel]
  show ?thesis
  proof (cases "a = 1")
    case True
    let ?s = "s\<lparr>depth := depth s - 1\<rparr>"
    have d: "Stack_depth ?s = i" using unat_pred [of "depth s" i] Suc by (simp add: Stack_depth_def)
    then have "wf_Stack ?s" using assms Suc by (simp add: wf_Stack_def)
    with d True top Suc items show ?thesis by (simp add: Stack_pop_def Stack_items_def)
  next
    case False
    then have a: "a - 1 \<noteq> 0" by simp
    obtain am where am: "amounts_set (amounts s) i (a - 1) = Some am" "valid_amounts am"
      using amounts_array.set_valid top(4) assms by (metis wf_Stack_def)
    have va: "valid_amounts (amounts s)" using assms by (simp add: wf_Stack_def)
    let ?s = "s\<lparr>amounts := am\<rparr>"
    have d: "Stack_depth ?s = Suc i" using Suc by (simp add: Stack_depth_def)
    have "wf_Stack ?s"
      using assms am a d Suc by (auto simp: wf_Stack_def amounts_set_def nth_list_update split: if_splits)
    moreover have "Stack_items ?s = (k, a - 1) # rev (zip (types_array.items (types s) i) (amounts_array.items (amounts s) i))"
      using Stack_items_Suc [OF d] amounts_array.get_set [OF va top(4,4) am(1)]
        amounts_array.items_set [OF va le_refl top(4) am(1)] top by simp
    ultimately show ?thesis using False top Suc items am(1) a by (simp add: Stack_pop_def Let_def)
  qed
qed

lemma Stack_push_items:
  assumes "wf_Stack s"
  shows "if length (Stack_items s) = MAX_OBJECT_DEPTH then Stack_push s kind amount = Some (Inl DepthLimitExceeded, s)
    else \<exists>s'. Stack_push s kind amount = Some (Inr (), s') \<and> wf_Stack s' \<and>
           Stack_items s' = push_item kind amount (Stack_items s)"
proof (cases "Stack_depth s = MAX_OBJECT_DEPTH \<or> amount = 0")
  case True
  then show ?thesis using assms by (auto simp: Stack_push_def push_item_def)
next
  case False
  have v: "valid_types (types s)" "valid_amounts (amounts s)" and d: "Stack_depth s < MAX_OBJECT_DEPTH"
    using assms False by (auto simp: wf_Stack_def)
  obtain ty where ty: "PackedTypes_set (types s) (Stack_depth s) kind = Some ty" "valid_types ty"
    using types_array.set_valid [OF v(1) d] by blast
  obtain am where am: "amounts_set (amounts s) (Stack_depth s) amount = Some am" "valid_amounts am"
    using amounts_array.set_valid [OF v(2) d] by blast
  let ?s = "\<lparr>types = ty, amounts = am, depth = depth s + 1\<rparr>"
  have small: "Stack_depth s < 102" using d by (simp add: MAX_OBJECT_DEPTH_def EPEE_LIB_MAX_OBJECT_DEPTH_def)
  then have d': "Stack_depth ?s = Suc (Stack_depth s)"
    by (simp add: Stack_depth_def unat_word_ariths)
  have "wf_Stack ?s"
    using assms ty am d d' False by (auto simp: wf_Stack_def amounts_set_def nth_list_update less_Suc_eq split: if_splits)
  moreover have "Stack_items ?s = (kind, amount) # Stack_items s"
    using types_array.items_write [OF v(1) d ty(1)] amounts_array.items_write [OF v(2) d am(1)]
    by (simp add: Stack_items_def d')
  ultimately show ?thesis using False ty am small by (simp add: Stack_push_def push_item_def)
qed

lemma valid_types_zero: "valid_types (replicate ((MAX_OBJECT_DEPTH + 1) div 2) 0)"
  using index_half by (auto simp: valid_types_def PackedTypes_get_half half_def half_kind_def)

lemma Stack_root_items:
  "\<exists>s. Stack_root_object = Some s \<and> wf_Stack s \<and> Stack_items s = [(Type Object, 1)]"
proof -
  have max: "0 < MAX_OBJECT_DEPTH" by (simp add: MAX_OBJECT_DEPTH_def)
  obtain ty where ty: "PackedTypes_set (replicate ((MAX_OBJECT_DEPTH + 1) div 2) 0) 0 (Type Object) = Some ty" "valid_types ty"
    using types_array.set_valid [OF valid_types_zero max] by blast
  let ?s = "\<lparr>types = ty, amounts = replicate MAX_OBJECT_DEPTH 1, depth = 1\<rparr>"
  have "Stack_root_object = Some ?s"
    using ty list_update_id [of "replicate MAX_OBJECT_DEPTH (1 :: usize)" 0] max
    by (simp add: Stack_root_object_def)
  moreover have "wf_Stack ?s" using ty max by (simp add: wf_Stack_def Stack_depth_def valid_amounts_def)
  moreover have "PackedTypes_get ty 0 = Some (Type Object)"
    using types_array.get_set [OF valid_types_zero max max ty(1)] by simp
  then have "Stack_items ?s = [(Type Object, 1)]"
    using Stack_items_Suc [of ?s 0] max by (simp add: Stack_depth_def amounts_get_def types_array.items_def)
  ultimately show ?thesis by blast
qed

text \<open>The packed stack implements a stack of pairs bounded by the maximum depth: peeking, popping and pushing a
  well-formed stack are the operations on the list of its items, keep it well-formed and do not panic, and a
  push beyond the maximum depth is refused with \<open>DepthLimitExceeded\<close>.\<close>

theorem stack_refines_list:
  assumes "wf_Stack s"
  shows "Stack_depth s = length (Stack_items s) \<and> length (Stack_items s) \<le> MAX_OBJECT_DEPTH \<and>
    Stack_peek s = Some (case Stack_items s of [] \<Rightarrow> None | item # _ \<Rightarrow> Some item) \<and>
    (\<exists>s'. Stack_pop s = Some (case Stack_items s of [] \<Rightarrow> None | item # _ \<Rightarrow> Some (fst item), s') \<and>
       wf_Stack s' \<and> Stack_items s' = pop_item (Stack_items s)) \<and>
    (if length (Stack_items s) = MAX_OBJECT_DEPTH then Stack_push s kind amount = Some (Inl DepthLimitExceeded, s)
     else \<exists>s'. Stack_push s kind amount = Some (Inr (), s') \<and> wf_Stack s' \<and>
            Stack_items s' = push_item kind amount (Stack_items s))"
proof -
  have "length (Stack_items s) \<le> MAX_OBJECT_DEPTH" using assms by (simp add: wf_Stack_def)
  with Stack_peek_items [OF assms] Stack_pop_items [OF assms] Stack_push_items [OF assms, of kind amount]
  show ?thesis by (simp only: length_Stack_items simp_thms)
qed

end
