(* ===== verification/Epee.thy ===== *)
theory Epee
  imports Epee_Stack
begin

text \<open>
  The EPEE decoder (\<^verbatim>\<open>epee/src\<close>: \<^verbatim>\<open>io.rs\<close>, \<^verbatim>\<open>parser.rs\<close>, \<^verbatim>\<open>lib.rs\<close>), over the slice implementation of \<open>BytesLike\<close>.
  The functions of the source work through mutable references and keep what they did when they fail, so
  each returns its result, an error or a value, together with the state it leaves. \<open>None\<close> around it is a panic
  or a loop which does not end. \<open>usize\<close> has 64 bits.

  The entries and iterators of the source borrow the decoder: their operations take it as an argument.
  What a destructor does (advancing the decoder past what was not read) is part of every operation
  which drops its receiver.

  The theory shows that a step of the decoder always returns, and that it is the stack machine for the
  recursive grammar \<open>parses\<close> of EPEE within the depth limit.
\<close>

subsection \<open>Reading bytes\<close>

type_synonym 'a epee_reader = "bytes \<Rightarrow> (EpeeError + 'a) \<times> bytes"

definition epee_then :: "'a epee_reader \<Rightarrow> ('a \<Rightarrow> 'b epee_reader) \<Rightarrow> 'b epee_reader" where
  "epee_then m f enc = (case m enc of (Inl e, enc) \<Rightarrow> (Inl e, enc) | (Inr x, enc) \<Rightarrow> f x enc)"

definition epee_read_bytes :: "usize \<Rightarrow> bytes epee_reader" where
  "epee_read_bytes n enc =
     (if length enc < unat n then (Inl (Short n), enc) else (Inr (take (unat n) enc), drop (unat n) enc))"

definition epee_read_byte :: "u8 epee_reader" where
  "epee_read_byte = epee_then (epee_read_bytes 1) (\<lambda>buf enc. (Inr (buf ! 0), enc))"

definition advance :: "usize \<Rightarrow> unit epee_reader" where
  "advance n = epee_then (epee_read_bytes n) (\<lambda>_ enc. (Inr (), enc))"

fun read_varint_loop :: "nat list \<Rightarrow> u64 \<Rightarrow> u64 epee_reader" where
  "read_varint_loop [] vi = (\<lambda>enc. (Inr vi, enc))"
| "read_varint_loop (i # is) vi =
     epee_then epee_read_byte (\<lambda>b. read_varint_loop is (or vi (push_bit (i * 8) (ucast b))))"

definition epee_varint_len :: "u8 \<Rightarrow> nat" where
  "epee_varint_len vi_start =
     (let tag = and vi_start 0b11 in if tag = 0 then 1 else if tag = 1 then 2 else if tag = 2 then 4 else 8)"

definition read_varint :: "u64 epee_reader" where
  "read_varint =
     epee_then epee_read_byte (\<lambda>vi_start.
     epee_then (read_varint_loop [1..<epee_varint_len vi_start] (ucast vi_start)) (\<lambda>vi enc.
     (Inr (drop_bit 2 vi), enc)))"

definition read_str :: "bytes epee_reader" where
  "read_str = epee_then read_varint epee_read_bytes"

subsection \<open>The parser\<close>

definition Type_read :: "(Type \<times> u64) epee_reader" where
  "Type_read =
     epee_then epee_read_byte (\<lambda>kind.
     let array = and kind (push_bit 7 1);
         kind = and kind (not (push_bit 7 1))
     in case Type_from_u8 kind of
          None \<Rightarrow> (\<lambda>enc. (Inl UnrecognizedType, enc))
        | Some kind \<Rightarrow>
            epee_then (if array \<noteq> 0 then read_varint else (\<lambda>enc. (Inr 1, enc))) (\<lambda>len enc. (Inr (kind, len), enc)))"

definition read_key :: "bytes epee_reader" where
  "read_key =
     epee_then epee_read_byte (\<lambda>len.
     if len = 0 then (\<lambda>enc. (Inl EmptyKey, enc)) else epee_read_bytes (ucast len))"

datatype SingleStepResult = StepObject usize | StepEntry bytes Type usize | StepUnit

text \<open>The arms of \<open>single_step\<close> for the types which are no object.\<close>

fun skip_value :: "Type \<Rightarrow> unit epee_reader" where
  "skip_value Int64 = advance 8"
| "skip_value Int32 = advance 4"
| "skip_value Int16 = advance 2"
| "skip_value Int8 = advance 1"
| "skip_value Uint64 = advance 8"
| "skip_value Uint32 = advance 4"
| "skip_value Uint16 = advance 2"
| "skip_value Uint8 = advance 1"
| "skip_value Double = advance 8"
| "skip_value String = epee_then read_str (\<lambda>_ enc. (Inr (), enc))"
| "skip_value Bool = advance 1"
| "skip_value Object = (\<lambda>enc. (Inr (), enc))"

definition push_result ::
  "SingleStepResult \<Rightarrow> bytes \<Rightarrow> (EpeeError + unit) \<times> Stack \<Rightarrow> (EpeeError + SingleStepResult option) \<times> Stack \<times> bytes" where
  "push_result res enc pushed =
     (case pushed of (Inl e, s) \<Rightarrow> (Inl e, s, enc) | (Inr _, s) \<Rightarrow> (Inr (Some res), s, enc))"

definition single_step ::
  "Stack \<Rightarrow> bytes \<Rightarrow> ((EpeeError + SingleStepResult option) \<times> Stack \<times> bytes) option" where
  "single_step s enc =
     Option.bind (Stack_pop s) (\<lambda>(kind, s).
     case kind of
       None \<Rightarrow> Some (Inr None, s, enc)
     | Some Entry \<Rightarrow>
         (case epee_then read_key (\<lambda>key. epee_then Type_read (\<lambda>(kind, len) enc. (Inr (key, kind, len), enc))) enc of
            (Inl e, enc) \<Rightarrow> Some (Inl e, s, enc)
          | (Inr (key, kind, len), enc) \<Rightarrow>
              map_option (push_result (StepEntry key kind len) enc) (Stack_push s (Type kind) len))
     | Some (Type Object) \<Rightarrow>
         (case read_varint enc of
            (Inl e, enc) \<Rightarrow> Some (Inl e, s, enc)
          | (Inr n, enc) \<Rightarrow> map_option (push_result (StepObject n) enc) (Stack_push s Entry n))
     | Some (Type kind) \<Rightarrow>
         (case skip_value kind enc of
            (Inl e, enc) \<Rightarrow> Some (Inl e, s, enc)
          | (Inr _, enc) \<Rightarrow> Some (Inr (Some StepUnit), s, enc)))"

partial_function (option) step_loop ::
  "nat \<Rightarrow> Stack \<Rightarrow> bytes \<Rightarrow> ((EpeeError + unit) \<times> Stack \<times> bytes) option" where
  "step_loop stop s enc =
     Option.bind (single_step s enc) (\<lambda>(res, s, enc).
     case res of
       Inl e \<Rightarrow> Some (Inl e, s, enc)
     | Inr _ \<Rightarrow> if Stack_depth s \<noteq> stop then step_loop stop s enc else Some (Inr (), s, enc))"

definition step :: "Stack \<Rightarrow> bytes \<Rightarrow> ((EpeeError + unit option) \<times> Stack \<times> bytes) option" where
  "step s enc =
     Option.bind (Stack_peek s) (\<lambda>peeked.
     case peeked of
       None \<Rightarrow> Some (Inr None, s, enc)
     | Some (_, len) \<Rightarrow>
         let current_stack_depth = Stack_depth s;
             stop_at_stack_depth = (if len > 1 then current_stack_depth else current_stack_depth - 1)
         in map_option (\<lambda>(res, s, enc). (map_sum id Some res, s, enc)) (step_loop stop_at_stack_depth s enc))"

subsection \<open>The decoder\<close>

definition HEADER :: bytes where
  "HEADER = [0x01, 0x11, 0x01, 0x01, 0x01, 0x01, 0x02, 0x01]"

definition EPEE_VERSION :: u8 where
  "EPEE_VERSION = 1"

record Epee =
  current_encoding_state :: bytes
  stack :: Stack
  error :: "EpeeError option"

record EpeeEntry =
  entry_kind :: Type
  entry_len :: usize

definition Epee_new :: "bytes \<Rightarrow> (EpeeError + Epee) option" where
  "Epee_new encoding =
     (case epee_read_bytes 8 encoding of
        (Inl e, _) \<Rightarrow> Some (Inl e)
      | (Inr present_header, encoding) \<Rightarrow>
          if present_header \<noteq> HEADER then Some (Inl InvalidHeader)
          else let (read, encoding) = epee_read_byte encoding;
                   version = (case read of Inl _ \<Rightarrow> None | Inr v \<Rightarrow> Some v)
               in if version \<noteq> Some EPEE_VERSION then Some (Inl (InvalidVersion version))
                  else Option.bind Stack_root_object (\<lambda>root.
                       Some (Inr \<lparr>current_encoding_state = encoding, stack = root, error = None\<rparr>)))"

definition Epee_entry :: "Epee \<Rightarrow> EpeeError + EpeeEntry" where
  "Epee_entry root =
     (if Stack_depth (stack root) \<noteq> 1 \<or> error root \<noteq> None then Inl EpeeReuse
      else Inr \<lparr>entry_kind = Object, entry_len = 1\<rparr>)"

text \<open>The destructor of \<open>EpeeEntry\<close>, \<open>FieldIterator\<close> and \<open>ArrayIterator\<close>, for the items left.\<close>

fun drop_items :: "nat \<Rightarrow> Epee \<Rightarrow> Epee option" where
  "drop_items 0 root = Some root"
| "drop_items (Suc n) root =
     (if error root \<noteq> None then Some root
      else Option.bind (step (stack root) (current_encoding_state root)) (\<lambda>(res, s, enc).
           drop_items n (root\<lparr>current_encoding_state := enc, stack := s,
             error := (case res of Inl e \<Rightarrow> Some e | Inr _ \<Rightarrow> None)\<rparr>)))"

definition EpeeEntry_drop :: "EpeeEntry \<Rightarrow> Epee \<Rightarrow> Epee option" where
  "EpeeEntry_drop entry root = drop_items (unat (entry_len entry)) root"

text \<open>A single step of the decoder, which leaves its error as it is.\<close>

definition root_single_step :: "Epee \<Rightarrow> ((EpeeError + SingleStepResult option) \<times> Epee) option" where
  "root_single_step root =
     map_option (\<lambda>(res, s, enc). (res, root\<lparr>current_encoding_state := enc, stack := s\<rparr>))
       (single_step (stack root) (current_encoding_state root))"

text \<open>\<open>FieldIterator\<close>, by the number of fields left.\<close>

definition FieldIterator_next ::
  "usize \<Rightarrow> Epee \<Rightarrow> ((EpeeError + bytes \<times> EpeeEntry) option \<times> usize \<times> Epee) option" where
  "FieldIterator_next len root =
     (case error root of
        Some e \<Rightarrow> Some (Some (Inl e), len, root)
      | None \<Rightarrow>
          if len = 0 then Some (None, len, root)
          else let len = len - 1
               in map_option (\<lambda>(res, root).
                    (Some (case res of
                       Inr (Some (StepEntry key kind l)) \<Rightarrow> Inr (key, \<lparr>entry_kind = kind, entry_len = l\<rparr>)
                     | Inr _ \<Rightarrow> Inl InternalError
                     | Inl e \<Rightarrow> Inl e), len, root)) (root_single_step root))"

text \<open>\<open>ArrayIterator\<close>, by its type and the number of items left.\<close>

definition ArrayIterator_next ::
  "Type \<times> usize \<Rightarrow> Epee \<Rightarrow> (EpeeError + EpeeEntry) option \<times> (Type \<times> usize)" where
  "ArrayIterator_next it root =
     (case error root of
        Some e \<Rightarrow> (Some (Inl e), it)
      | None \<Rightarrow>
          if snd it = 0 then (None, it)
          else (Some (Inr \<lparr>entry_kind = fst it, entry_len = 1\<rparr>), (fst it, snd it - 1)))"

definition EpeeEntry_fields :: "EpeeEntry \<Rightarrow> Epee \<Rightarrow> ((EpeeError + usize) \<times> Epee) option" where
  "EpeeEntry_fields entry root =
     (case error root of
        Some e \<Rightarrow> Some (Inl e, root)
      | None \<Rightarrow>
          if entry_kind entry \<noteq> Object \<or> entry_len entry \<noteq> 1 then Some (Inl TypeError, root)
          else map_option (\<lambda>(res, root).
                 (case res of
                    Inl e \<Rightarrow> Inl e
                  | Inr (Some (StepObject n)) \<Rightarrow> Inr n
                  | Inr _ \<Rightarrow> Inl InternalError, root)) (root_single_step root))"

definition EpeeEntry_iterate :: "EpeeEntry \<Rightarrow> Epee \<Rightarrow> EpeeError + Type \<times> usize" where
  "EpeeEntry_iterate entry root =
     (case error root of Some e \<Rightarrow> Inl e | None \<Rightarrow> Inr (entry_kind entry, entry_len entry))"

text \<open>A type error returns before the decoder is taken from the entry, which then advances it when dropped.\<close>

definition read_value ::
  "Type \<Rightarrow> 'a epee_reader \<Rightarrow> EpeeEntry \<Rightarrow> Epee \<Rightarrow> ((EpeeError + 'a) \<times> Epee) option" where
  "read_value kind read entry root =
     (if entry_kind entry \<noteq> kind \<or> entry_len entry \<noteq> 1
      then map_option (\<lambda>root. (Inl TypeError, root)) (EpeeEntry_drop entry root)
      else case error root of
        Some e \<Rightarrow> Some (Inl e, root)
      | None \<Rightarrow>
          Option.bind (Stack_pop (stack root)) (\<lambda>(_, s).
          let (res, enc) = read (current_encoding_state root)
          in Some (res, root\<lparr>current_encoding_state := enc, stack := s\<rparr>)))"

definition to_primitive ::
  "Type \<Rightarrow> usize \<Rightarrow> EpeeEntry \<Rightarrow> Epee \<Rightarrow> ((EpeeError + bytes) \<times> Epee) option" where
  "to_primitive kind n entry root = read_value kind (epee_read_bytes n) entry root"

definition map_ok :: "('a \<Rightarrow> 'b) \<Rightarrow> ((EpeeError + 'a) \<times> Epee) option \<Rightarrow> ((EpeeError + 'b) \<times> Epee) option" where
  "map_ok f = map_option (map_prod (map_sum id f) id)"

definition to_i64 :: "EpeeEntry \<Rightarrow> Epee \<Rightarrow> ((EpeeError + int) \<times> Epee) option" where
  "to_i64 entry root = map_ok (\<lambda>b. sint (from_le_bytes b :: 64 word)) (to_primitive Int64 8 entry root)"

definition to_i32 :: "EpeeEntry \<Rightarrow> Epee \<Rightarrow> ((EpeeError + int) \<times> Epee) option" where
  "to_i32 entry root = map_ok (\<lambda>b. sint (from_le_bytes b :: 32 word)) (to_primitive Int32 4 entry root)"

definition to_i16 :: "EpeeEntry \<Rightarrow> Epee \<Rightarrow> ((EpeeError + int) \<times> Epee) option" where
  "to_i16 entry root = map_ok (\<lambda>b. sint (from_le_bytes b :: 16 word)) (to_primitive Int16 2 entry root)"

definition to_i8 :: "EpeeEntry \<Rightarrow> Epee \<Rightarrow> ((EpeeError + int) \<times> Epee) option" where
  "to_i8 entry root = map_ok (\<lambda>b. sint (from_le_bytes b :: 8 word)) (to_primitive Int8 1 entry root)"

definition to_u64 :: "EpeeEntry \<Rightarrow> Epee \<Rightarrow> ((EpeeError + u64) \<times> Epee) option" where
  "to_u64 entry root = map_ok from_le_bytes (to_primitive Uint64 8 entry root)"

definition to_u32 :: "EpeeEntry \<Rightarrow> Epee \<Rightarrow> ((EpeeError + u32) \<times> Epee) option" where
  "to_u32 entry root = map_ok from_le_bytes (to_primitive Uint32 4 entry root)"

definition to_u16 :: "EpeeEntry \<Rightarrow> Epee \<Rightarrow> ((EpeeError + u16) \<times> Epee) option" where
  "to_u16 entry root = map_ok from_le_bytes (to_primitive Uint16 2 entry root)"

definition to_u8 :: "EpeeEntry \<Rightarrow> Epee \<Rightarrow> ((EpeeError + u8) \<times> Epee) option" where
  "to_u8 entry root = map_ok (\<lambda>b. b ! 0) (to_primitive Uint8 1 entry root)"

text \<open>The bits of the \<open>f64\<close>.\<close>

definition to_f64 :: "EpeeEntry \<Rightarrow> Epee \<Rightarrow> ((EpeeError + u64) \<times> Epee) option" where
  "to_f64 entry root = map_ok from_le_bytes (to_primitive Double 8 entry root)"

definition to_bool :: "EpeeEntry \<Rightarrow> Epee \<Rightarrow> ((EpeeError + bool) \<times> Epee) option" where
  "to_bool entry root = map_ok (\<lambda>b. b ! 0 \<noteq> 0) (to_primitive Bool 1 entry root)"

definition to_str :: "EpeeEntry \<Rightarrow> Epee \<Rightarrow> ((EpeeError + bytes) \<times> Epee) option" where
  "to_str entry root = read_value String read_str entry root"

definition to_fixed_len_str :: "nat \<Rightarrow> EpeeEntry \<Rightarrow> Epee \<Rightarrow> ((EpeeError + bytes) \<times> Epee) option" where
  "to_fixed_len_str len entry root =
     map_option (\<lambda>(res, root).
       (case res of Inl e \<Rightarrow> Inl e | Inr str \<Rightarrow> if length str \<noteq> len then Inl TypeError else Inr str, root))
       (to_str entry root)"

subsection \<open>The machine over a list\<close>

type_synonym items = "(TypeOrEntry \<times> usize) list"

definition push_checked ::
  "TypeOrEntry \<Rightarrow> usize \<Rightarrow> SingleStepResult \<Rightarrow> items \<Rightarrow> bytes \<Rightarrow>
   (EpeeError + SingleStepResult option) \<times> items \<times> bytes" where
  "push_checked kind amount res st enc =
     (if length st = MAX_OBJECT_DEPTH then (Inl DepthLimitExceeded, st, enc)
      else (Inr (Some res), push_item kind amount st, enc))"

definition read_entry :: "(bytes \<times> Type \<times> u64) epee_reader" where
  "read_entry = epee_then read_key (\<lambda>key. epee_then Type_read (\<lambda>(kind, len) enc. (Inr (key, kind, len), enc)))"

fun item_step :: "TypeOrEntry \<Rightarrow> items \<Rightarrow> bytes \<Rightarrow> (EpeeError + SingleStepResult option) \<times> items \<times> bytes" where
  "item_step Entry st enc =
     (case read_entry enc of
        (Inl e, enc) \<Rightarrow> (Inl e, st, enc)
      | (Inr (key, kind, len), enc) \<Rightarrow> push_checked (Type kind) len (StepEntry key kind len) st enc)"
| "item_step (Type kind) st enc =
     (if kind = Object then
        (case read_varint enc of
           (Inl e, enc) \<Rightarrow> (Inl e, st, enc)
         | (Inr n, enc) \<Rightarrow> push_checked Entry n (StepObject n) st enc)
      else case skip_value kind enc of
             (Inl e, enc) \<Rightarrow> (Inl e, st, enc)
           | (Inr _, enc) \<Rightarrow> (Inr (Some StepUnit), st, enc))"

fun list_step :: "items \<Rightarrow> bytes \<Rightarrow> (EpeeError + SingleStepResult option) \<times> items \<times> bytes" where
  "list_step [] enc = (Inr None, [], enc)"
| "list_step ((kind, amount) # rest) enc = item_step kind (pop_item ((kind, amount) # rest)) enc"

lemma push_refines:
  assumes "wf_Stack s"
  shows "\<exists>res' s' enc'. map_option (push_result res enc) (Stack_push s kind amount) = Some (res', s', enc') \<and> wf_Stack s' \<and>
    (res', Stack_items s', enc') = push_checked kind amount res (Stack_items s) enc"
proof (cases "length (Stack_items s) = MAX_OBJECT_DEPTH")
  case True
  then show ?thesis
    using Stack_push_items [OF assms, of kind amount] assms by (simp add: push_checked_def push_result_def)
next
  case False
  then obtain s' where "Stack_push s kind amount = Some (Inr (), s')" "wf_Stack s'"
      "Stack_items s' = push_item kind amount (Stack_items s)"
    using Stack_push_items [OF assms, of kind amount] by auto
  with False show ?thesis by (simp add: push_checked_def push_result_def)
qed

lemma single_step_refines:
  assumes "wf_Stack s"
  shows "\<exists>res s' enc'. single_step s enc = Some (res, s', enc') \<and> wf_Stack s' \<and>
    (res, Stack_items s', enc') = list_step (Stack_items s) enc"
proof -
  obtain s' where s': "Stack_pop s = Some (case Stack_items s of [] \<Rightarrow> None | item # _ \<Rightarrow> Some (fst item), s')"
    "wf_Stack s'" "Stack_items s' = pop_item (Stack_items s)" using Stack_pop_items [OF assms] by blast
  show ?thesis
  proof (cases "Stack_items s")
    case Nil
    then show ?thesis using s' by (simp add: single_step_def)
  next
    case (Cons item rest)
    obtain k a where item: "item = (k, a)" by (metis surj_pair)
    have pop: "Stack_pop s = Some (Some k, s')" "pop_item ((k, a) # rest) = Stack_items s'"
      using s' Cons item by simp_all
    note push = push_refines [OF s'(2)]
    have "\<exists>res s'' enc'. single_step s enc = Some (res, s'', enc') \<and> wf_Stack s'' \<and>
          (res, Stack_items s'', enc') = item_step k (Stack_items s') enc"
    proof (cases k)
      case Entry
      obtain r enc1 where r: "read_entry enc = (r, enc1)" by (metis surj_pair)
      show ?thesis
      proof (cases r)
        case (Inr x)
        obtain key kind len where "x = (key, kind, len)" by (metis prod_cases3)
        with push [of "StepEntry key kind len" enc1 "Type kind" len] Inr r Entry show ?thesis
          by (simp add: single_step_def pop(1) read_entry_def del: map_option_eq_Some)
      qed (use r Entry s'(2) in \<open>simp add: single_step_def pop(1) read_entry_def\<close>)
    next
      case (Type t)
      show ?thesis
      proof (cases "t = Object")
        case True
        obtain r enc1 where r: "read_varint enc = (r, enc1)" by (metis surj_pair)
        show ?thesis
        proof (cases r)
          case (Inr n)
          with push [of "StepObject n" enc1 Entry n] r Type True show ?thesis
            by (simp add: single_step_def pop(1) del: map_option_eq_Some)
        qed (use r Type True s'(2) in \<open>simp add: single_step_def pop(1)\<close>)
      next
        case False
        obtain r enc1 where r: "skip_value t enc = (r, enc1)" by (metis surj_pair)
        have "single_step s enc = (case skip_value t enc of
            (Inl e, enc) \<Rightarrow> Some (Inl e, s', enc) | (Inr _, enc) \<Rightarrow> Some (Inr (Some StepUnit), s', enc))"
          using False Type by (cases t) (simp_all only: single_step_def pop(1) bind.simps prod.case option.case TypeOrEntry.case Type.case simp_thms)
        with r False Type s'(2) show ?thesis by (cases r) simp_all
      qed
    qed
    then show ?thesis unfolding Cons item list_step.simps pop(2) .
  qed
qed

subsection \<open>Reading consumes\<close>

definition consumes :: "'a epee_reader \<Rightarrow> nat \<Rightarrow> bool" where
  "consumes m n \<longleftrightarrow> (\<forall>enc x enc'. m enc = (Inr x, enc') \<longrightarrow> length enc' + n \<le> length enc)"

lemma consumes_then:
  "consumes m a \<Longrightarrow> (\<And>x. consumes (f x) b) \<Longrightarrow> consumes (epee_then m f) (a + b)"
  by (fastforce simp: consumes_def epee_then_def split: prod.splits sum.splits)

lemma consumes_return: "consumes (\<lambda>enc. (Inr x, enc)) 0"
  by (simp add: consumes_def)

lemma consumes_fail: "consumes (\<lambda>enc. (Inl e, enc)) n"
  by (simp add: consumes_def)

lemma consumes_mono: "consumes m a \<Longrightarrow> b \<le> a \<Longrightarrow> consumes m b"
  by (fastforce simp: consumes_def)

lemma consumes_read_bytes: "consumes (epee_read_bytes n) (unat n)"
  by (auto simp: consumes_def epee_read_bytes_def split: if_splits)

lemma consumes_read_byte: "consumes epee_read_byte 1"
  using consumes_then [OF consumes_read_bytes consumes_return, of 1] by (simp add: epee_read_byte_def)

lemma consumes_advance: "consumes (advance n) (unat n)"
  using consumes_then [OF consumes_read_bytes consumes_return, of n] by (simp add: advance_def)

lemma consumes_varint_loop: "consumes (read_varint_loop is vi) 0"
proof (induction "is" arbitrary: vi)
  case (Cons i "is")
  then have "consumes (read_varint_loop (i # is) vi) (1 + 0)"
    unfolding read_varint_loop.simps by (intro consumes_then consumes_read_byte)
  then show ?case by (rule consumes_mono) simp
qed (simp add: consumes_return)

lemma consumes_varint: "consumes read_varint 1"
  unfolding read_varint_def
  by (rule consumes_then [where b = 0, simplified], rule consumes_read_byte,
      rule consumes_then [where a = 0 and b = 0, simplified], rule consumes_varint_loop, rule consumes_return)

lemma unat_widths: "unat (8 :: usize) = 8" "unat (4 :: usize) = 4" "unat (2 :: usize) = 2"
  by simp_all

lemma consumes_read_str: "consumes read_str 1"
  unfolding read_str_def
  by (rule consumes_then [where b = 0, simplified], rule consumes_varint, rule consumes_mono, rule consumes_read_bytes) simp

lemma consumes_skip: "kind \<noteq> Object \<Longrightarrow> consumes (skip_value kind) 1"
proof (cases "kind = String")
  case True
  have "consumes (epee_then read_str (\<lambda>_ enc. (Inr (), enc))) (1 + 0)"
    by (intro consumes_then consumes_read_str consumes_return)
  then show ?thesis by (simp add: True)
next
  case False
  assume "kind \<noteq> Object"
  with False show ?thesis
    by (cases kind) (auto intro: consumes_mono [OF consumes_advance])
qed

lemma consumes_read_key: "consumes read_key 1"
  unfolding read_key_def
  by (rule consumes_then [where b = 0, simplified], rule consumes_read_byte)
     (auto intro: consumes_fail consumes_mono [OF consumes_read_bytes])

lemma consumes_Type_read: "consumes Type_read 1"
  unfolding Type_read_def Let_def
  by (rule consumes_then [where b = 0, simplified], rule consumes_read_byte)
     (auto intro!: consumes_fail consumes_then [where a = 0 and b = 0, simplified] consumes_return
        consumes_mono [OF consumes_varint] split: option.split)

lemma consumes_read_entry: "consumes read_entry 2"
  unfolding read_entry_def
  by (rule consumes_then [where a = 1 and b = 1, unfolded one_add_one], rule consumes_read_key,
      rule consumes_then [where b = 0, simplified], rule consumes_Type_read) (auto intro: consumes_return)

text \<open>A step which succeeds on an item consumes input, pops the item, and pushes at most one.\<close>

lemma item_step_Inr:
  assumes "item_step kind st enc = (Inr res, st', enc')"
  shows "length enc' < length enc \<and> (\<exists>new. st' = new @ st \<and> length new \<le> 1)"
proof (cases kind)
  case Entry
  with assms obtain key k len where "read_entry enc = (Inr (key, k, len), enc')"
      and "st' = push_item (Type k) len st"
    by (auto simp: push_checked_def split: prod.splits sum.splits if_splits)
  with consumes_read_entry show ?thesis by (fastforce simp: consumes_def push_item_def)
next
  case (Type t)
  show ?thesis
  proof (cases "t = Object")
    case True
    with assms Type obtain n where "read_varint enc = (Inr n, enc')" and "st' = push_item Entry n st"
      by (auto simp: push_checked_def split: prod.splits sum.splits if_splits)
    with consumes_varint show ?thesis by (fastforce simp: consumes_def push_item_def)
  next
    case False
    with assms Type have "skip_value t enc = (Inr (), enc')" "st' = st"
      by (auto simp del: skip_value.simps split: prod.splits sum.splits)
    with consumes_skip [OF False] show ?thesis by (fastforce simp: consumes_def)
  qed
qed

subsection \<open>The grammar\<close>

text \<open>
  \<open>parses d kind enc enc'\<close>: an item of this kind is a prefix of \<open>enc\<close> and \<open>enc'\<close> the rest, within \<open>d\<close> levels of
  the stack. \<open>parses_n\<close> is for a number of items. All but the last of them keep a level for the ones to come.
\<close>

inductive parses :: "nat \<Rightarrow> TypeOrEntry \<Rightarrow> bytes \<Rightarrow> bytes \<Rightarrow> bool"
  and parses_n :: "nat \<Rightarrow> TypeOrEntry \<Rightarrow> nat \<Rightarrow> bytes \<Rightarrow> bytes \<Rightarrow> bool" where
  parses_value: "kind \<noteq> Object \<Longrightarrow> skip_value kind enc = (Inr (), enc') \<Longrightarrow> parses d (Type kind) enc enc'"
| parses_object: "read_varint enc = (Inr n, enc1) \<Longrightarrow> 0 < d \<Longrightarrow> parses_n d Entry (unat n) enc1 enc' \<Longrightarrow>
    parses d (Type Object) enc enc'"
| parses_entry: "read_entry enc = (Inr (key, kind, n), enc1) \<Longrightarrow> 0 < d \<Longrightarrow> parses_n d (Type kind) (unat n) enc1 enc' \<Longrightarrow>
    parses d Entry enc enc'"
| parses_none: "parses_n d kind 0 enc enc"
| parses_last: "parses d kind enc enc' \<Longrightarrow> parses_n d kind 1 enc enc'"
| parses_more: "0 < n \<Longrightarrow> parses (d - 1) kind enc enc1 \<Longrightarrow> parses_n d kind n enc1 enc' \<Longrightarrow>
    parses_n d kind (Suc n) enc enc'"

inductive_simps parses_Type_iff: "parses d (Type kind) enc enc'"
inductive_simps parses_Entry_iff: "parses d Entry enc enc'"
inductive_simps parses_n_0: "parses_n d kind 0 enc enc'"
inductive_simps parses_n_Suc: "parses_n d kind (Suc n) enc enc'"

lemma parses_n_1: "parses_n d kind (Suc 0) enc enc' \<longleftrightarrow> parses d kind enc enc'"
  by (simp add: parses_n_Suc)

text \<open>The items on top of a stack, over the ones below which are left.\<close>

fun clears :: "nat \<Rightarrow> items \<Rightarrow> bytes \<Rightarrow> bytes \<Rightarrow> bool" where
  "clears below [] enc enc' \<longleftrightarrow> enc = enc'"
| "clears below ((kind, n) # st) enc enc' \<longleftrightarrow>
     (\<exists>enc1. parses_n (MAX_OBJECT_DEPTH - (length st + below)) kind (unat n) enc enc1 \<and> clears below st enc1 enc')"

lemma clears_push:
  "clears below (push_item kind n st) enc enc' \<longleftrightarrow>
   (\<exists>enc1. parses_n (MAX_OBJECT_DEPTH - (length st + below)) kind (unat n) enc enc1 \<and> clears below st enc1 enc')"
  by (simp add: push_item_def parses_n_0)

lemma unat_minus_1: "n \<noteq> 0 \<Longrightarrow> unat n = Suc (unat (n - 1))" for n :: usize
  by (cases "unat n") (simp_all add: unat_pred word_unat_eq_iff)

text \<open>Popping an item leaves the parse of the rest.\<close>

lemma clears_pop:
  assumes "n \<noteq> 0"
  shows "clears below ((kind, n) # st) enc enc' \<longleftrightarrow>
    (\<exists>enc1. parses (MAX_OBJECT_DEPTH - (length (pop_item ((kind, n) # st)) + below)) kind enc enc1 \<and>
            clears below (pop_item ((kind, n) # st)) enc1 enc')"
proof (cases "n = 1")
  case True
  then show ?thesis by (simp add: parses_n_1)
next
  case False
  have "unat n = Suc (unat (n - 1))" "0 < unat (n - 1)"
    using unat_minus_1 [OF assms] False by (simp_all add: unat_gt_0)
  then show ?thesis using False by (auto simp: parses_n_Suc)
qed

text \<open>What a step of an item leaves to be parsed, and that a step which fails has no parse.\<close>

lemma item_step_parses:
  assumes "length st + below \<le> MAX_OBJECT_DEPTH" and "length base = below"
  shows "case item_step kind (st @ base) enc of
      (Inl _, _) \<Rightarrow> \<not> (\<exists>enc'. parses (MAX_OBJECT_DEPTH - (length st + below)) kind enc enc')
    | (Inr res, st', enc1) \<Rightarrow> \<exists>new. st' = new @ st @ base \<and>
        (\<forall>enc'. clears below (new @ st) enc1 enc' \<longleftrightarrow>
           (\<exists>enc2. parses (MAX_OBJECT_DEPTH - (length st + below)) kind enc enc2 \<and> clears below st enc2 enc'))"
proof -
  have push: "case push_checked k n res (st @ base) e of
      (Inl _, _) \<Rightarrow> MAX_OBJECT_DEPTH - (length st + below) = 0
    | (Inr res, st', enc2) \<Rightarrow> enc2 = e \<and> 0 < MAX_OBJECT_DEPTH - (length st + below) \<and>
        (\<exists>new. st' = new @ st @ base \<and> new @ st = push_item k n st)" for k n res e
    using assms by (auto simp: push_checked_def push_item_def)
  show ?thesis
  proof (cases kind)
    case Entry
    obtain r enc1 where r: "read_entry enc = (r, enc1)" by (metis surj_pair)
    show ?thesis
    proof (cases r)
      case (Inr x)
      obtain key k len where x: "x = (key, k, len)" by (metis prod_cases3)
      show ?thesis using push [where k = "Type k" and n = len and res = "StepEntry key k len" and e = enc1] r
        by (auto simp: Entry Inr x parses_Entry_iff clears_push split: prod.splits sum.splits)
    qed (use r in \<open>auto simp: Entry parses_Entry_iff\<close>)
  next
    case (Type t)
    show ?thesis
    proof (cases "t = Object")
      case True
      obtain r enc1 where r: "read_varint enc = (r, enc1)" by (metis surj_pair)
      show ?thesis
      proof (cases r)
        case (Inr n)
        show ?thesis using push [where k = Entry and n = n and res = "StepObject n" and e = enc1] r
          by (auto simp: Type True Inr parses_Type_iff clears_push split: prod.splits sum.splits)
      qed (use r in \<open>auto simp: Type True parses_Type_iff\<close>)
    next
      case False
      obtain r enc1 where r: "skip_value t enc = (r, enc1)" by (metis surj_pair)
      then show ?thesis using False by (cases r) (auto simp: Type parses_Type_iff simp del: skip_value.simps)
    qed
  qed
qed

subsection \<open>A step parses an item\<close>

lemma wf_Stack_amounts:
  assumes "wf_Stack s" and "(kind, n) \<in> set (Stack_items s)"
  shows "n \<noteq> 0"
proof -
  obtain i where "i < Stack_depth s" "n = amounts_array.items (amounts s) (Stack_depth s) ! i"
    using assms(2) by (auto simp: Stack_items_def in_set_zip)
  moreover from this assms(1) have "i < length (amounts s)" by (simp add: wf_Stack_def valid_amounts_def)
  ultimately have "n = amounts s ! i" by (simp add: amounts_array.items_def amounts_get_def)
  with assms(1) \<open>i < Stack_depth s\<close> show ?thesis by (simp add: wf_Stack_def)
qed

definition parsed_to :: "(bytes \<Rightarrow> bool) \<Rightarrow> items \<Rightarrow> (EpeeError + 'a) \<times> Stack \<times> bytes \<Rightarrow> bool" where
  "parsed_to parse base res \<longleftrightarrow>
     (case res of (r, s, enc) \<Rightarrow> wf_Stack s \<and>
       (if isl r then \<not> (\<exists>enc'. parse enc') else Stack_items s = base \<and> (\<forall>enc'. parse enc' \<longleftrightarrow> enc' = enc)))"

text \<open>A single step, and what is left to parse after it.\<close>

lemma single_step_parses:
  assumes wf: "wf_Stack s" and items: "Stack_items s = (kind, n) # rest"
    and split: "pop_item ((kind, n) # rest) = st @ base"
  shows "\<exists>res s1 enc1. single_step s enc = Some (res, s1, enc1) \<and> wf_Stack s1 \<and>
    (if isl res then \<not> (\<exists>enc'. parses (MAX_OBJECT_DEPTH - length (st @ base)) kind enc enc')
     else length enc1 < length enc \<and> (\<exists>new. Stack_items s1 = new @ st @ base \<and>
       (\<forall>enc'. clears (length base) (new @ st) enc1 enc' \<longleftrightarrow>
          (\<exists>enc2. parses (MAX_OBJECT_DEPTH - length (st @ base)) kind enc enc2 \<and> clears (length base) st enc2 enc'))))"
proof -
  obtain res s1 enc1 where s1: "single_step s enc = Some (res, s1, enc1)" "wf_Stack s1"
    and step: "item_step kind (st @ base) enc = (res, Stack_items s1, enc1)"
    using single_step_refines [OF wf, of enc] unfolding items list_step.simps split by auto
  have "length (Stack_items s) \<le> MAX_OBJECT_DEPTH" using wf by (simp add: wf_Stack_def)
  moreover have "length (pop_item ((kind, n) # rest)) \<le> length (Stack_items s)" unfolding items by simp
  ultimately have le: "length st + length base \<le> MAX_OBJECT_DEPTH" using split by simp
  note parse = item_step_parses [OF le refl, of kind enc, unfolded step prod.case]
  show ?thesis
  proof (cases res)
    case (Inl e)
    then show ?thesis using s1 parse by simp
  next
    case (Inr x)
    then show ?thesis using s1 parse item_step_Inr [OF step [unfolded Inr]] by auto
  qed
qed

lemma step_loop_parses:
  assumes "wf_Stack s" and "Stack_items s = upper @ base"
  shows "\<exists>res. (if Stack_depth s \<noteq> length base then step_loop (length base) s enc else Some (Inr (), s, enc)) = Some res \<and>
    parsed_to (clears (length base) upper enc) base res"
  using assms
proof (induction "length enc" arbitrary: s upper enc rule: less_induct)
  case less
  have depth: "Stack_depth s = length (upper @ base)"
    using length_Stack_items [of s] unfolding less.prems(2) by simp
  show ?case
  proof (cases upper)
    case Nil
    then show ?thesis using depth less.prems by (auto simp: parsed_to_def)
  next
    case (Cons item t)
    obtain kind n where item: "item = (kind, n)" by (metis surj_pair)
    have items: "Stack_items s = (kind, n) # t @ base" using less.prems(2) Cons item by simp
    then have n: "n \<noteq> 0" using wf_Stack_amounts [OF less.prems(1)] by auto
    let ?st = "pop_item ((kind, n) # t)"
    have pop: "pop_item ((kind, n) # t @ base) = ?st @ base" by simp
    obtain res s1 enc1 where s1: "single_step s enc = Some (res, s1, enc1)" "wf_Stack s1"
      and res: "if isl res then \<not> (\<exists>enc'. parses (MAX_OBJECT_DEPTH - length (?st @ base)) kind enc enc')
       else length enc1 < length enc \<and> (\<exists>new. Stack_items s1 = new @ ?st @ base \<and>
       (\<forall>enc'. clears (length base) (new @ ?st) enc1 enc' \<longleftrightarrow>
          (\<exists>enc2. parses (MAX_OBJECT_DEPTH - length (?st @ base)) kind enc enc2 \<and> clears (length base) ?st enc2 enc')))"
      using single_step_parses [OF less.prems(1) items pop] by blast
    have clears: "clears (length base) upper enc enc' \<longleftrightarrow>
        (\<exists>enc2. parses (MAX_OBJECT_DEPTH - length (?st @ base)) kind enc enc2 \<and> clears (length base) ?st enc2 enc')" for enc'
      unfolding Cons item length_append by (rule clears_pop [OF n])
    have loop: "(if Stack_depth s \<noteq> length base then step_loop (length base) s enc else Some (Inr (), s, enc)) =
        (case res of Inl e \<Rightarrow> Some (Inl e, s1, enc1)
         | Inr _ \<Rightarrow> if Stack_depth s1 \<noteq> length base then step_loop (length base) s1 enc1 else Some (Inr (), s1, enc1))"
      using depth Cons s1(1) step_loop.simps [of "length base" s enc] by simp
    show ?thesis
    proof (cases res)
      case (Inl e)
      then show ?thesis using res s1(2) unfolding loop by (simp add: parsed_to_def clears)
    next
      case (Inr x)
      with res obtain new where new: "length enc1 < length enc" "Stack_items s1 = (new @ ?st) @ base"
        and eq: "\<And>enc'. clears (length base) (new @ ?st) enc1 enc' \<longleftrightarrow> clears (length base) upper enc enc'"
        unfolding clears by auto
      have "clears (length base) (new @ ?st) enc1 = clears (length base) upper enc" using eq by blast
      with less.hyps [OF new(1) s1(2) new(2)] show ?thesis unfolding loop Inr by simp
    qed
  qed
qed

lemma step_spec:
  assumes wf: "wf_Stack s" and items: "Stack_items s = (kind, n) # rest"
  shows "\<exists>res. step s enc = Some res \<and>
    parsed_to (parses (MAX_OBJECT_DEPTH - length (pop_item (Stack_items s))) kind enc) (pop_item (Stack_items s)) res \<and>
    (\<forall>x. fst res = Inr x \<longrightarrow> x = Some ())"
proof -
  let ?base = "pop_item ((kind, n) # rest)"
  have n: "n \<noteq> 0" using wf_Stack_amounts [OF wf] items by auto
  have depth: "Stack_depth s = Suc (length rest)" using length_Stack_items [of s] items by simp
  have gt: "n > 1 \<longleftrightarrow> n \<noteq> 1" using n by (metis word_less_1 word_neq_0_conv linorder_neqE not_less_iff_gr_or_eq)
  have step: "step s enc = map_option (\<lambda>(res, s, enc). (map_sum id Some res, s, enc)) (step_loop (length ?base) s enc)"
    using Stack_peek_items [OF wf] by (simp add: step_def items depth gt Let_def)
  obtain res s1 enc1 where s1: "single_step s enc = Some (res, s1, enc1)" "wf_Stack s1"
    and res: "if isl res then \<not> (\<exists>enc'. parses (MAX_OBJECT_DEPTH - length ?base) kind enc enc')
     else length enc1 < length enc \<and> (\<exists>new. Stack_items s1 = new @ ?base \<and>
       (\<forall>enc'. clears (length ?base) new enc1 enc' \<longleftrightarrow> parses (MAX_OBJECT_DEPTH - length ?base) kind enc enc'))"
    using single_step_parses [OF wf items, of "[]" ?base enc] by (auto simp del: pop_item.simps cong: if_cong)
  have "\<exists>r. step_loop (length ?base) s enc = Some r \<and> parsed_to (parses (MAX_OBJECT_DEPTH - length ?base) kind enc) ?base r"
  proof (cases res)
    case (Inl e)
    then show ?thesis using s1 res step_loop.simps [of "length ?base" s enc] by (simp add: parsed_to_def)
  next
    case (Inr x)
    with res obtain new where new: "Stack_items s1 = new @ ?base"
      and eq: "clears (length ?base) new enc1 = parses (MAX_OBJECT_DEPTH - length ?base) kind enc" by auto
    from step_loop_parses [OF s1(2) new, of enc1] show ?thesis
      unfolding eq using s1(1) Inr step_loop.simps [of "length ?base" s enc] by simp
  qed
  then obtain r s2 enc2 where r: "step_loop (length ?base) s enc = Some (r, s2, enc2)"
    "parsed_to (parses (MAX_OBJECT_DEPTH - length ?base) kind enc) ?base (r, s2, enc2)" by (metis prod_cases3)
  then have "parsed_to (parses (MAX_OBJECT_DEPTH - length ?base) kind enc) ?base (map_sum id Some r, s2, enc2)"
    by (cases r) (simp_all add: parsed_to_def)
  moreover have "map_sum id Some r = Inr x \<Longrightarrow> x = Some ()" for x by (cases r) simp_all
  ultimately show ?thesis unfolding items step r(1) by (simp del: pop_item.simps)
qed

text \<open>C32. \<open>Stack::step\<close> refines the recursive grammar: on a well-formed stack whose top is an item of some kind it always
  returns, with the stack well-formed. It succeeds exactly if such an item is a prefix of the encoding within
  the depth left, then popping that item and leaving just what follows it, and is an error otherwise.\<close>

theorem step_refines_grammar:
  assumes "wf_Stack s" and "Stack_items s = (kind, n) # rest"
  shows "\<exists>res s' enc'. step s enc = Some (res, s', enc') \<and> wf_Stack s' \<and>
    (case res of
       Inl _ \<Rightarrow> \<not> (\<exists>e. parses (MAX_OBJECT_DEPTH - length (pop_item (Stack_items s))) kind enc e)
     | Inr x \<Rightarrow> x = Some () \<and> Stack_items s' = pop_item (Stack_items s) \<and>
         (\<forall>e. parses (MAX_OBJECT_DEPTH - length (pop_item (Stack_items s))) kind enc e \<longleftrightarrow> e = enc'))"
proof -
  obtain res s' enc' where "step s enc = Some (res, s', enc')"
    and "parsed_to (parses (MAX_OBJECT_DEPTH - length (pop_item (Stack_items s))) kind enc)
      (pop_item (Stack_items s)) (res, s', enc')" and "\<forall>x. res = Inr x \<longrightarrow> x = Some ()"
    using step_spec [OF assms, of enc] by (metis fst_conv prod_cases3)
  then show ?thesis by (cases res) (simp_all add: parsed_to_def)
qed

theorem step_refines_grammar_witness:
  "\<exists>s res s' enc'. Stack_root_object = Some s \<and>
    step s [4, 1, 0x61, 8, 7, 9] = Some (res, s', enc') \<and> wf_Stack s' \<and>
    (case res of
       Inl _ \<Rightarrow> \<not> (\<exists>e. parses 102 (Type Object) [4, 1, 0x61, 8, 7, 9] e)
     | Inr x \<Rightarrow> x = Some () \<and> Stack_items s' = [] \<and> (\<forall>e. parses 102 (Type Object) [4, 1, 0x61, 8, 7, 9] e \<longleftrightarrow> e = enc'))"
proof -
  obtain s where s: "Stack_root_object = Some s" "wf_Stack s" "Stack_items s = [(Type Object, 1)]"
    using Stack_root_items by blast
  have "pop_item (Stack_items s) = []" "MAX_OBJECT_DEPTH - length ([] :: items) = 102"
    by (simp_all add: s(3) MAX_OBJECT_DEPTH_def EPEE_LIB_MAX_OBJECT_DEPTH_def)
  from step_refines_grammar [OF s(2,3), of "[4, 1, 0x61, 8, 7, 9]", unfolded this] s(1) show ?thesis by blast
qed

subsection \<open>The decoder's states\<close>

text \<open>
  The operations on a decoder, in any order and with entries and iterators of any type and length: the
  borrow checker allows fewer.
\<close>

inductive decoder_step :: "Epee \<Rightarrow> Epee option \<Rightarrow> bool" where
  "decoder_step root (EpeeEntry_drop entry root)"
| "decoder_step root (drop_items n root)"
| "decoder_step root (map_option (\<lambda>(_, _, root). root) (FieldIterator_next len root))"
| "decoder_step root (map_option snd (EpeeEntry_fields entry root))"
| "decoder_step root (map_option snd (to_primitive kind n entry root))"
| "decoder_step root (map_option snd (to_str entry root))"
| "decoder_step root (map_option snd (to_fixed_len_str m entry root))"

inductive reaches :: "bytes \<Rightarrow> Epee option \<Rightarrow> bool" for encoding :: bytes where
  reaches_new: "Epee_new encoding = Some (Inr root) \<Longrightarrow> reaches encoding (Some root)"
| reaches_panic: "Epee_new encoding = None \<Longrightarrow> reaches encoding None"
| reaches_step: "reaches encoding (Some root) \<Longrightarrow> decoder_step root root' \<Longrightarrow> reaches encoding root'"

lemma step_total:
  assumes "wf_Stack s"
  shows "\<exists>res s' enc'. step s enc = Some (res, s', enc') \<and> wf_Stack s'"
proof (cases "Stack_items s")
  case Nil
  then show ?thesis using assms by (simp add: step_def Stack_peek_items)
next
  case (Cons item rest)
  then obtain kind n where "Stack_items s = (kind, n) # rest" by (metis surj_pair)
  from step_spec [OF assms this] show ?thesis by (fastforce simp: parsed_to_def)
qed

lemma drop_items_total: "wf_Stack (stack root) \<Longrightarrow> \<exists>root'. drop_items n root = Some root' \<and> wf_Stack (stack root')"
proof (induction n arbitrary: root)
  case (Suc n)
  obtain res s' enc' where "step (stack root) (current_encoding_state root) = Some (res, s', enc')" "wf_Stack s'"
    using step_total [OF Suc.prems] by blast
  with Suc show ?case by simp
qed simp

lemma root_single_step_total:
  assumes "wf_Stack (stack root)"
  shows "\<exists>res root'. root_single_step root = Some (res, root') \<and> wf_Stack (stack root')"
  using single_step_refines [OF assms, of "current_encoding_state root"] by (auto simp: root_single_step_def)

lemma read_value_total:
  assumes "wf_Stack (stack root)"
  shows "\<exists>res root'. read_value kind m entry root = Some (res, root') \<and> wf_Stack (stack root')"
proof (cases "entry_kind entry \<noteq> kind \<or> entry_len entry \<noteq> 1")
  case True
  then show ?thesis using drop_items_total [OF assms] by (fastforce simp: read_value_def EpeeEntry_drop_def)
next
  case False
  obtain x s' where "Stack_pop (stack root) = Some (x, s')" "wf_Stack s'" using Stack_pop_items [OF assms] by blast
  with False assms show ?thesis by (auto simp: read_value_def split: option.split prod.split)
qed

lemma decoder_step_total:
  assumes "decoder_step root root'" and "wf_Stack (stack root)"
  shows "\<exists>r. root' = Some r \<and> wf_Stack (stack r)"
  using assms
proof (cases rule: decoder_step.cases)
  case (3 len)
  then show ?thesis using root_single_step_total [OF assms(2)] assms(2)
    by (auto simp: FieldIterator_next_def Let_def split: option.split)
next
  case (4 entry)
  then show ?thesis using root_single_step_total [OF assms(2)] assms(2)
    by (auto simp: EpeeEntry_fields_def split: option.split)
next
  case (5 kind n entry)
  then show ?thesis using read_value_total [OF assms(2)] by (fastforce simp: to_primitive_def)
next
  case (6 entry)
  then show ?thesis using read_value_total [OF assms(2)] by (fastforce simp: to_str_def)
next
  case (7 m entry)
  then show ?thesis using read_value_total [OF assms(2)] by (fastforce simp: to_fixed_len_str_def to_str_def)
qed (use drop_items_total in \<open>auto simp: EpeeEntry_drop_def\<close>)

lemma epee_read_byte_simps:
  "epee_read_byte [] = (Inl (Short 1), [])" "epee_read_byte (b # enc) = (Inr b, enc)"
  by (simp_all add: epee_read_byte_def epee_then_def epee_read_bytes_def)

lemma Epee_new_iff:
  "Epee_new encoding = Some (Inr root) \<longleftrightarrow>
   (\<exists>enc s. encoding = HEADER @ EPEE_VERSION # enc \<and> Stack_root_object = Some s \<and>
      root = \<lparr>current_encoding_state = enc, stack = s, error = None\<rparr>)"
proof
  assume new: "Epee_new encoding = Some (Inr root)"
  then have len: "8 \<le> length encoding" and hd8: "take 8 encoding = HEADER"
    by (auto simp: Epee_new_def epee_read_bytes_def split: if_splits)
  obtain b enc where b: "drop 8 encoding = b # enc"
    using new len hd8 by (cases "drop 8 encoding") (auto simp: Epee_new_def epee_read_bytes_def epee_read_byte_simps)
  have "b = EPEE_VERSION \<and> (\<exists>s. Stack_root_object = Some s \<and> root = \<lparr>current_encoding_state = enc, stack = s, error = None\<rparr>)"
    using new len hd8 b by (auto simp: Epee_new_def epee_read_bytes_def epee_read_byte_simps bind_eq_Some_conv split: if_splits)
  moreover have "encoding = HEADER @ b # enc" using hd8 b append_take_drop_id [of 8 encoding] by simp
  ultimately show "\<exists>enc s. encoding = HEADER @ EPEE_VERSION # enc \<and> Stack_root_object = Some s \<and>
      root = \<lparr>current_encoding_state = enc, stack = s, error = None\<rparr>" by auto
next
  assume "\<exists>enc s. encoding = HEADER @ EPEE_VERSION # enc \<and> Stack_root_object = Some s \<and>
      root = \<lparr>current_encoding_state = enc, stack = s, error = None\<rparr>"
  then obtain enc s where s: "Stack_root_object = Some s" and encoding: "encoding = HEADER @ EPEE_VERSION # enc"
    and root: "root = \<lparr>current_encoding_state = enc, stack = s, error = None\<rparr>" by blast
  have "length HEADER = 8" by (simp add: HEADER_def)
  then show "Epee_new encoding = Some (Inr root)"
    unfolding Epee_new_def s encoding root by (simp add: epee_read_bytes_def epee_read_byte_simps)
qed

lemma Stack_root_wf: "Stack_root_object = Some s \<Longrightarrow> wf_Stack s \<and> Stack_items s = [(Type Object, 1)]"
  using Stack_root_items by (metis option.inject)

lemma Epee_new_total: "\<exists>r. Epee_new encoding = Some r"
proof -
  obtain s where s: "Stack_root_object = Some s" using Stack_root_items by blast
  show ?thesis unfolding Epee_new_def s by (auto simp: epee_read_bytes_def Let_def split: prod.split sum.split)
qed

text \<open>C33. Whatever bytes it is given and however its entries and iterators are used, the decoder does not panic and
  every operation returns: the states it reaches have a well-formed stack.\<close>

theorem decoder_never_panics:
  assumes "reaches encoding r"
  shows "\<exists>root. r = Some root \<and> wf_Stack (stack root)"
  using assms
proof (induction rule: reaches.induct)
  case (reaches_new root)
  then show ?case using Stack_root_wf by (auto simp: Epee_new_iff)
next
  case reaches_panic
  then show ?case using Epee_new_total [of encoding] by auto
next
  case (reaches_step root root')
  then show ?case using decoder_step_total by blast
qed

theorem decoder_never_panics_witness:
  "\<exists>root root'. Epee_new (HEADER @ [EPEE_VERSION, 4, 1, 0x61]) = Some (Inr root) \<and>
     map_option snd (EpeeEntry_fields \<lparr>entry_kind = Object, entry_len = 1\<rparr> root) = Some root' \<and> wf_Stack (stack root')"
proof -
  obtain root where root: "Epee_new (HEADER @ [EPEE_VERSION, 4, 1, 0x61]) = Some (Inr root)"
    using Stack_root_items by (auto simp: Epee_new_iff)
  have "reaches (HEADER @ [EPEE_VERSION, 4, 1, 0x61])
      (map_option snd (EpeeEntry_fields \<lparr>entry_kind = Object, entry_len = 1\<rparr> root))"
    by (rule reaches_step [OF reaches_new [OF root] decoder_step.intros(4)])
  from decoder_never_panics [OF this] root show ?thesis by blast
qed

text \<open>Dropping an entry passes exactly its items.\<close>

lemma drop_items_parses:
  assumes "wf_Stack (stack root)" and "error root = None" and "Stack_items (stack root) = (kind, n) # rest"
  shows "\<exists>root'. drop_items (unat n) root = Some root' \<and> wf_Stack (stack root') \<and>
    (if error root' = None
     then Stack_items (stack root') = rest \<and>
       (\<forall>e. parses_n (MAX_OBJECT_DEPTH - length rest) kind (unat n) (current_encoding_state root) e \<longleftrightarrow>
            e = current_encoding_state root')
     else \<not> (\<exists>e. parses_n (MAX_OBJECT_DEPTH - length rest) kind (unat n) (current_encoding_state root) e))"
  using assms
proof (induction "unat n" arbitrary: n root)
  case 0
  then show ?case using wf_Stack_amounts [OF "0.prems"(1), of kind n] word_unat_eq_iff [of n 0] by simp
next
  case (Suc m)
  let ?enc = "current_encoding_state root" and ?d = "MAX_OBJECT_DEPTH - length rest"
  let ?base = "pop_item ((kind, n) # rest)"
  obtain res s' enc' where step: "step (stack root) ?enc = Some (res, s', enc')"
    and parsed: "parsed_to (parses (MAX_OBJECT_DEPTH - length ?base) kind ?enc) ?base (res, s', enc')"
    using step_spec [OF Suc.prems(1,3), of ?enc] unfolding Suc.prems(3) by (metis prod_cases3)
  let ?root = "root\<lparr>current_encoding_state := enc', stack := s', error := (case res of Inl e \<Rightarrow> Some e | Inr _ \<Rightarrow> None)\<rparr>"
  have drop: "drop_items (unat n) root = drop_items m ?root"
    using Suc.hyps(2) [symmetric] Suc.prems(2) step by simp
  show ?case
  proof (cases res)
    case (Inl e)
    have "drop_items m ?root = Some ?root" using Inl by (cases m) simp_all
    moreover have "n = 1 \<longleftrightarrow> m = 0" using Suc.hyps(2) [symmetric] by (simp add: word_unat_eq_iff)
    then have "\<not> (\<exists>e. parses_n ?d kind (unat n) ?enc e)"
      using parsed Inl Suc.hyps(2) [symmetric] by (cases "n = 1") (auto simp: parsed_to_def parses_n_Suc)
    ultimately show ?thesis using parsed Inl unfolding drop by (simp add: parsed_to_def)
  next
    case (Inr x)
    then have s': "wf_Stack s'" "Stack_items s' = ?base"
      and one: "\<And>e. parses (MAX_OBJECT_DEPTH - length ?base) kind ?enc e \<longleftrightarrow> e = enc'"
      using parsed by (simp_all add: parsed_to_def del: pop_item.simps)
    show ?thesis
    proof (cases "n = 1")
      case True
      then have "m = 0" using Suc.hyps(2) by simp
      then show ?thesis unfolding drop using True s' one Inr by (simp add: parses_n_1)
    next
      case False
      have m: "m = unat (n - 1)" using unat_pred [of n m] Suc.hyps(2) by simp
      have pos: "0 < m" using False by (simp add: m unat_gt_0)
      have eq: "parses_n ?d kind (unat n) ?enc = parses_n ?d kind m enc'"
        using one False pos unfolding Suc.hyps(2) [symmetric] by (intro ext) (simp add: parses_n_Suc)
      have fields: "current_encoding_state ?root = enc'" "stack ?root = s'" "error ?root = None"
        using Inr by simp_all
      have "Stack_items s' = (kind, n - 1) # rest" using s'(2) False by simp
      from Suc.hyps(1) [OF m, of ?root, unfolded fields m [symmetric], OF s'(1) refl this] show ?thesis
        unfolding drop eq .
    qed
  qed
qed

text \<open>Reading a document without looking into it: a decoder is made exactly of the header, the version and an
  encoding. Dropping its entry succeeds exactly if the encoding starts with an object, leaving what follows it,
  and the decoder then refuses to be used again.\<close>

theorem decoder_drop_entry:
  assumes "Epee_new encoding = Some (Inr root)"
  shows "\<exists>root'. Epee_entry root = Inr \<lparr>entry_kind = Object, entry_len = 1\<rparr> \<and>
    encoding = HEADER @ EPEE_VERSION # current_encoding_state root \<and>
    EpeeEntry_drop \<lparr>entry_kind = Object, entry_len = 1\<rparr> root = Some root' \<and> Epee_entry root' = Inl EpeeReuse \<and>
    (if error root' = None
     then \<forall>e. parses MAX_OBJECT_DEPTH (Type Object) (current_encoding_state root) e \<longleftrightarrow> e = current_encoding_state root'
     else \<not> (\<exists>e. parses MAX_OBJECT_DEPTH (Type Object) (current_encoding_state root) e))"
proof -
  obtain enc s where root: "encoding = HEADER @ EPEE_VERSION # enc"
      "root = \<lparr>current_encoding_state = enc, stack = s, error = None\<rparr>"
    and s: "wf_Stack s" "Stack_items s = [(Type Object, 1)]"
    using assms Stack_root_wf by (auto simp: Epee_new_iff)
  have depth: "Stack_depth s = 1" using length_Stack_items [of s] s(2) by simp
  have fields: "stack root = s" "error root = None" "current_encoding_state root = enc" by (simp_all add: root)
  obtain root' where root': "drop_items 1 root = Some root'"
    and parsed: "if error root' = None
     then Stack_items (stack root') = [] \<and> (\<forall>e. parses MAX_OBJECT_DEPTH (Type Object) enc e \<longleftrightarrow> e = current_encoding_state root')
     else \<not> (\<exists>e. parses MAX_OBJECT_DEPTH (Type Object) enc e)"
    using drop_items_parses [of root "Type Object" 1 "[]", unfolded fields unat_1 One_nat_def parses_n_1 list.size diff_zero,
      OF s(1) refl s(2)] by (auto simp only: One_nat_def)
  have "error root' \<noteq> None \<or> Stack_depth (stack root') = 0"
    using parsed length_Stack_items [of "stack root'"] by (cases "error root' = None") simp_all
  then have "Epee_entry root' = Inl EpeeReuse" by (auto simp: Epee_entry_def)
  moreover have "Epee_entry root = Inr \<lparr>entry_kind = Object, entry_len = 1\<rparr>"
    by (simp add: Epee_entry_def fields depth)
  moreover have "EpeeEntry_drop \<lparr>entry_kind = Object, entry_len = 1\<rparr> root = Some root'"
    using root' by (simp add: EpeeEntry_drop_def)
  ultimately show ?thesis using root(1) parsed unfolding fields by (cases "error root' = None") auto
qed

theorem decoder_drop_entry_witness:
  "\<exists>root root'. Epee_new (HEADER @ [EPEE_VERSION, 0]) = Some (Inr root) \<and>
    EpeeEntry_drop \<lparr>entry_kind = Object, entry_len = 1\<rparr> root = Some root' \<and> Epee_entry root' = Inl EpeeReuse"
proof -
  obtain root where root: "Epee_new (HEADER @ [EPEE_VERSION, 0]) = Some (Inr root)"
    using Stack_root_items by (auto simp: Epee_new_iff)
  from decoder_drop_entry [OF root] root show ?thesis by blast
qed

end
