(* ===== verification/Base58.thy ===== *)
theory Base58
  imports Prelude
begin

text \<open>
  Monero's Base58 (\<^verbatim>\<open>wallet/base58/src/lib.rs\<close>): blocks of up to 8 bytes, each a number written in as many
  characters as the largest number of that many bytes needs. Strings are the bytes of their characters. An
  encoding is \<open>None\<close> if it panics (it does not, which is shown), a decoding if the source returns \<open>None\<close>.

  The theory shows that the decodable strings are exactly the encodings, one for each sequence of bytes.
\<close>

definition ALPHABET_LEN :: u64 where
  "ALPHABET_LEN = 58"

text \<open>\<open>123456789ABCDEFGHJKLMNPQRSTUVWXYZabcdefghijkmnopqrstuvwxyz\<close>\<close>

definition ALPHABET :: bytes where
  "ALPHABET =
     [49, 50, 51, 52, 53, 54, 55, 56, 57,
      65, 66, 67, 68, 69, 70, 71, 72, 74, 75, 76, 77, 78, 80, 81, 82, 83, 84, 85, 86, 87, 88, 89, 90,
      97, 98, 99, 100, 101, 102, 103, 104, 105, 106, 107, 109, 110, 111, 112, 113, 114, 115, 116, 117, 118, 119,
      120, 121, 122]"

definition BLOCK_LEN :: nat where
  "BLOCK_LEN = 8"

definition ENCODED_BLOCK_LEN :: nat where
  "ENCODED_BLOCK_LEN = 11"

definition CHECKSUM_LEN :: nat where
  "CHECKSUM_LEN = 4"

lemma div_58_less: "v \<noteq> 0 \<Longrightarrow> unat (v div 58) < unat v" for v :: u64
  by (simp add: unat_div word_unat_eq_iff)

function len_loop :: "u64 \<Rightarrow> nat \<Rightarrow> nat" where
  "len_loop m i = (if m \<noteq> 0 then len_loop (m div ALPHABET_LEN) (i + 1) else i)"
  by auto
termination by (relation "measure (\<lambda>(m, i). unat m)") (auto simp: ALPHABET_LEN_def div_58_less)

definition encoded_len_for_bytes :: "nat \<Rightarrow> nat" where
  "encoded_len_for_bytes n =
     (let bits = n * 8; m = (if bits = 64 then - 1 else push_bit bits 1 - 1) in len_loop m 0)"

text \<open>The standard library's \<open>chunks\<close>, \<open>from_be_bytes\<close>, \<open>to_be_bytes\<close> and \<open>position\<close>.\<close>

function chunks :: "nat \<Rightarrow> 'a list \<Rightarrow> 'a list list" where
  "chunks n xs = (if xs = [] \<or> n = 0 then [] else take n xs # chunks n (drop n xs))"
  by auto
termination by (relation "measure (\<lambda>(n, xs). length xs)") auto

definition from_be_bytes :: "bytes \<Rightarrow> 'a::len word" where
  "from_be_bytes bs = from_le_bytes (rev bs)"

definition to_be_bytes :: "'a::len word \<Rightarrow> bytes" where
  "to_be_bytes w = rev (to_le_bytes w)"

fun position :: "'a \<Rightarrow> 'a list \<Rightarrow> nat option" where
  "position x [] = None"
| "position x (y # ys) = (if y = x then Some 0 else map_option Suc (position x ys))"

subsection \<open>Encoding\<close>

function encode_loop :: "u64 \<Rightarrow> nat \<Rightarrow> bytes \<Rightarrow> bytes option" where
  "encode_loop v i chunk_str =
     (if v > 0 then
        if i < length chunk_str
        then encode_loop (v div ALPHABET_LEN) (i + 1) (chunk_str[i := ALPHABET ! unat (v mod ALPHABET_LEN)])
        else None
      else Some chunk_str)"
  by auto
termination by (relation "measure (\<lambda>(v, i, s). unat v)") (auto simp: ALPHABET_LEN_def div_58_less)

definition encode_chunk :: "bytes \<Rightarrow> bytes option" where
  "encode_chunk chunk =
     (let fixed_len_chunk = replicate (BLOCK_LEN - length chunk) 0 @ chunk
      in map_option (\<lambda>chunk_str. rev (take (encoded_len_for_bytes (length chunk)) chunk_str))
           (encode_loop (from_be_bytes fixed_len_chunk) 0 (replicate ENCODED_BLOCK_LEN (ALPHABET ! 0))))"

definition encode :: "bytes \<Rightarrow> bytes option" where
  "encode bs = map_option concat (those (map encode_chunk (chunks BLOCK_LEN bs)))"

subsection \<open>Decoding\<close>

fun decode_sum :: "u64 \<Rightarrow> bytes \<Rightarrow> u64 option" where
  "decode_sum s [] = Some s"
| "decode_sum s (this_char # rest) =
     (if unat s * unat ALPHABET_LEN < 2 ^ 64 then
        Option.bind (position this_char ALPHABET) (\<lambda>p.
        if unat (s * ALPHABET_LEN) + p < 2 ^ 64 then decode_sum (s * ALPHABET_LEN + of_nat p) rest else None)
      else None)"

fun used_bytes_from :: "nat list \<Rightarrow> nat \<Rightarrow> nat option" where
  "used_bytes_from [] len = None"
| "used_bytes_from (i # is) len = (if encoded_len_for_bytes i = len then Some i else used_bytes_from is len)"

definition decode_chunk :: "bytes \<Rightarrow> bytes option" where
  "decode_chunk chunk =
     Option.bind (decode_sum 0 chunk) (\<lambda>s.
     Option.bind (used_bytes_from [1..<BLOCK_LEN + 1] (length chunk)) (\<lambda>used_bytes.
     let bytes = to_be_bytes s;
         unused_bytes = BLOCK_LEN - used_bytes
     in if \<exists>b \<in> set (take unused_bytes bytes). b \<noteq> 0 then None else Some (drop unused_bytes bytes)))"

definition decode :: "bytes \<Rightarrow> bytes option" where
  "decode data = map_option concat (those (map decode_chunk (chunks ENCODED_BLOCK_LEN data)))"

subsection \<open>With a checksum\<close>

definition encode_check :: "(bytes \<Rightarrow> bytes) \<Rightarrow> bytes \<Rightarrow> bytes option" where
  "encode_check keccak256 data = encode (data @ take CHECKSUM_LEN (keccak256 data))"

definition decode_check :: "(bytes \<Rightarrow> bytes) \<Rightarrow> bytes \<Rightarrow> bytes option" where
  "decode_check keccak256 data =
     Option.bind (decode data) (\<lambda>res.
     if length res < CHECKSUM_LEN then None
     else let checksum_pos = length res - CHECKSUM_LEN
          in if take CHECKSUM_LEN (keccak256 (take checksum_pos res)) \<noteq> drop checksum_pos res then None
             else Some (take checksum_pos res))"

subsection \<open>Blocks\<close>

declare chunks.simps [simp del]

text \<open>Every block has \<open>n\<close> items, but the last, which may have fewer.\<close>

fun blocks :: "nat \<Rightarrow> 'a list list \<Rightarrow> bool" where
  "blocks n [] \<longleftrightarrow> True"
| "blocks n [xs] \<longleftrightarrow> 0 < length xs \<and> length xs \<le> n"
| "blocks n (xs # xss) \<longleftrightarrow> length xs = n \<and> blocks n xss"

lemma concat_chunks: "0 < n \<Longrightarrow> concat (chunks n xs) = xs"
proof (induction n xs rule: chunks.induct)
  case (1 n xs)
  then show ?case by (subst chunks.simps) simp
qed

lemma blocks_chunks: "0 < n \<Longrightarrow> blocks n (chunks n xs)"
proof (induction n xs rule: chunks.induct)
  case (1 n xs)
  show ?case
  proof (cases "length xs \<le> n")
    case True
    then have "chunks n xs = (if xs = [] then [] else [xs])"
      using 1 by (subst chunks.simps) (simp add: chunks.simps)
    with True show ?thesis by simp
  next
    case False
    then obtain y ys where "chunks n (drop n xs) = y # ys" using 1 by (subst (asm) chunks.simps) auto
    moreover have "chunks n xs = take n xs # chunks n (drop n xs)" using False 1 by (subst chunks.simps) auto
    moreover have "xs \<noteq> []" using False by auto
    ultimately show ?thesis using 1 False by auto
  qed
qed

lemma chunks_concat: "0 < n \<Longrightarrow> blocks n xss \<Longrightarrow> chunks n (concat xss) = xss"
proof (induction n xss rule: blocks.induct)
  case (2 n xs)
  then show ?case by (subst chunks.simps) (auto simp: chunks.simps)
next
  case (3 n xs ys yss)
  then show ?case by (subst chunks.simps) auto
qed (simp add: chunks.simps)

text \<open>Blocks of one length translated to blocks of another.\<close>

lemma blocks_map:
  assumes "list_all2 R xss yss" and "blocks n xss"
    and "\<And>xs ys. R xs ys \<Longrightarrow> 0 < length ys \<and> length ys \<le> m" and "\<And>xs ys. R xs ys \<Longrightarrow> length xs = n \<Longrightarrow> length ys = m"
  shows "blocks m yss"
  using assms(1,2)
proof (induction xss arbitrary: yss rule: induct_list012)
  case (2 x)
  then show ?case using assms(3) by (auto simp: list_all2_Cons1)
next
  case (3 x y zs)
  then obtain ys1 ys2 yss' where "yss = ys1 # ys2 # yss'" "R x ys1" "list_all2 R (y # zs) (ys2 # yss')"
    by (auto simp: list_all2_Cons1)
  with 3 assms(4) show ?case by auto
qed simp

subsection \<open>Numbers in base 58\<close>

declare encode_loop.simps [simp del] len_loop.simps [simp del]

primrec digits :: "nat \<Rightarrow> nat \<Rightarrow> nat list" where
  "digits 0 v = []"
| "digits (Suc n) v = v mod 58 # digits n (v div 58)"

primrec digits_value :: "nat list \<Rightarrow> nat" where
  "digits_value [] = 0"
| "digits_value (d # ds) = d + 58 * digits_value ds"

lemma length_digits [simp]: "length (digits n v) = n"
  by (induction n arbitrary: v) simp_all

lemma digits_less: "d \<in> set (digits n v) \<Longrightarrow> d < 58"
  by (induction n arbitrary: v) auto

lemma digits_value_digits: "v < 58 ^ n \<Longrightarrow> digits_value (digits n v) = v"
proof (induction n arbitrary: v)
  case (Suc n)
  then have "v div 58 < 58 ^ n" by (simp add: less_mult_imp_div_less mult.commute)
  with Suc.IH show ?case by simp
qed simp

lemma digits_digits_value: "\<forall>d \<in> set ds. d < 58 \<Longrightarrow> digits (length ds) (digits_value ds) = ds"
  by (induction ds) (simp_all add: div_mult_self2)

lemma digits_zero: "digits n 0 = replicate n 0"
  by (induction n) simp_all

lemma take_digits: "m \<le> n \<Longrightarrow> take m (digits n v) = digits m v"
proof (induction m arbitrary: n v)
  case (Suc m)
  then show ?case by (cases n) simp_all
qed simp

text \<open>The encoding loop writes the digits, the least significant first.\<close>

definition characters :: "nat list \<Rightarrow> bytes" where
  "characters ds = map (\<lambda>d. ALPHABET ! d) ds"

lemma length_ALPHABET: "length ALPHABET = 58"
  by (simp add: ALPHABET_def)

lemma distinct_ALPHABET: "distinct ALPHABET"
  by (simp add: ALPHABET_def)

lemma encode_loop_digits:
  assumes "unat v < 58 ^ n"
  shows "encode_loop v (length pre) (pre @ replicate n (ALPHABET ! 0)) = Some (pre @ characters (digits n (unat v)))"
  using assms
proof (induction n arbitrary: v pre)
  case 0
  then have "v = 0" by (simp add: word_unat_eq_iff)
  then show ?case by (simp add: encode_loop.simps characters_def)
next
  case (Suc n)
  show ?case
  proof (cases "v = 0")
    case True
    then show ?thesis by (simp add: encode_loop.simps characters_def digits_zero)
  next
    case False
    let ?c = "ALPHABET ! (unat v mod 58)"
    have div: "unat (v div 58) = unat v div 58" "unat (v mod 58) = unat v mod 58"
      by (simp_all add: unat_div unat_mod)
    have "unat (v div 58) < 58 ^ n"
      using Suc.prems by (simp add: div less_mult_imp_div_less mult.commute)
    from Suc.IH [OF this, of "pre @ [?c]"] False show ?thesis
      by (subst encode_loop.simps) (simp add: ALPHABET_LEN_def word_gt_0 div characters_def list_update_append)
  qed
qed

text \<open>The decoding sum is the value of the digits, and fails only on another character or overflow.\<close>

lemma position_iff: "distinct ys \<Longrightarrow> position x ys = Some p \<longleftrightarrow> p < length ys \<and> ys ! p = x"
proof (induction ys arbitrary: p)
  case (Cons y ys)
  show ?case
  proof (cases p)
    case 0
    then show ?thesis by auto
  next
    case (Suc q)
    then have "y = x \<Longrightarrow> q < length ys \<Longrightarrow> ys ! q \<noteq> x" using Cons.prems nth_mem by fastforce
    with Suc Cons show ?thesis by auto
  qed
qed simp

lemma position_ALPHABET: "position c ALPHABET = Some p \<longleftrightarrow> p < 58 \<and> ALPHABET ! p = c"
  using position_iff [OF distinct_ALPHABET] by (simp add: length_ALPHABET)

definition base58_sum :: "nat \<Rightarrow> nat list \<Rightarrow> nat" where
  "base58_sum s ds = foldl (\<lambda>s d. s * 58 + d) s ds"

lemma base58_sum_ge: "s \<le> base58_sum s ds"
proof (induction ds arbitrary: s)
  case (Cons d ds)
  have "s \<le> s * 58 + d" by simp
  also have "\<dots> \<le> base58_sum (s * 58 + d) ds" by (rule Cons.IH)
  finally show ?case by (simp add: base58_sum_def)
qed (simp add: base58_sum_def)

lemma base58_sum_value: "base58_sum s (rev ds) = digits_value ds + 58 ^ length ds * s"
  by (induction ds) (simp_all add: base58_sum_def algebra_simps)

lemma decode_sum_iff:
  "decode_sum s cs = Some r \<longleftrightarrow>
   (\<exists>ds. cs = characters ds \<and> (\<forall>d \<in> set ds. d < 58) \<and> unat r = base58_sum (unat s) ds)"
proof (induction cs arbitrary: s)
  case Nil
  then show ?case by (auto simp: characters_def base58_sum_def word_unat_eq_iff)
next
  case (Cons c cs)
  have r: "unat r < 2 ^ 64" using unsigned_less [of r, where 'a = nat] by simp
  show ?case
  proof
    assume "decode_sum s (c # cs) = Some r"
    then obtain p where p: "p < 58" "ALPHABET ! p = c" "unat s * 58 < 2 ^ 64" "unat (s * 58) + p < 2 ^ 64"
        and rest: "decode_sum (s * 58 + of_nat p) cs = Some r"
      by (auto simp: bind_eq_Some_conv position_ALPHABET ALPHABET_LEN_def split: if_splits)
    have "unat (s * 58) = unat s * 58" using p(3) by (simp add: unat_word_ariths)
    then have "unat (s * 58 + of_nat p) = unat s * 58 + p" using p(1,4) by (simp add: unat_word_ariths unat_of_nat)
    moreover obtain ds where "cs = characters ds" "\<forall>d \<in> set ds. d < 58" "unat r = base58_sum (unat (s * 58 + of_nat p)) ds"
      using rest Cons.IH by blast
    ultimately show "\<exists>ds. c # cs = characters ds \<and> (\<forall>d \<in> set ds. d < 58) \<and> unat r = base58_sum (unat s) ds"
      using p by (intro exI [of _ "p # ds"]) (simp add: characters_def base58_sum_def)
  next
    assume "\<exists>ds. c # cs = characters ds \<and> (\<forall>d \<in> set ds. d < 58) \<and> unat r = base58_sum (unat s) ds"
    then obtain p ds where ds: "c = ALPHABET ! p" "cs = characters ds" "p < 58" "\<forall>d \<in> set ds. d < 58"
        "unat r = base58_sum (unat s * 58 + p) ds"
      by (auto simp: characters_def base58_sum_def Cons_eq_map_conv)
    then have small: "unat s * 58 + p < 2 ^ 64" using base58_sum_ge [of "unat s * 58 + p" ds] r by simp
    then have mult: "unat (s * 58) = unat s * 58" by (simp add: unat_word_ariths)
    then have "unat (s * 58 + of_nat p) = unat s * 58 + p" using small ds(3) by (simp add: unat_word_ariths unat_of_nat)
    then have "decode_sum (s * 58 + of_nat p) cs = Some r" using ds Cons.IH by auto
    moreover have "position c ALPHABET = Some p" using ds(1,3) by (simp add: position_ALPHABET)
    ultimately show "decode_sum s (c # cs) = Some r" using small mult by (simp add: ALPHABET_LEN_def)
  qed
qed

subsection \<open>A block\<close>

lemma encoded_len_values:
  "encoded_len_for_bytes 1 = 2" "encoded_len_for_bytes 2 = 3" "encoded_len_for_bytes 3 = 5" "encoded_len_for_bytes 4 = 6"
  "encoded_len_for_bytes 5 = 7" "encoded_len_for_bytes 6 = 9" "encoded_len_for_bytes 7 = 10" "encoded_len_for_bytes 8 = 11"
  by (simp_all add: encoded_len_for_bytes_def len_loop.simps ALPHABET_LEN_def)

lemma cases_1_8: "1 \<le> n \<Longrightarrow> n \<le> 8 \<Longrightarrow> n \<in> {1, 2, 3, 4, 5, 6, 7, 8 :: nat}"
  by auto

lemma encoded_len_bounds:
  assumes "1 \<le> n" and "n \<le> 8"
  shows "256 ^ n \<le> (58 :: nat) ^ encoded_len_for_bytes n" and "1 \<le> encoded_len_for_bytes n"
    and "encoded_len_for_bytes n \<le> 11" and "encoded_len_for_bytes n = 11 \<longleftrightarrow> n = 8"
  using cases_1_8 [OF assms] by (auto simp: encoded_len_values [simplified])

lemma used_bytes_iff:
  "used_bytes_from [1..<BLOCK_LEN + 1] len = Some u \<longleftrightarrow> 1 \<le> u \<and> u \<le> 8 \<and> encoded_len_for_bytes u = len"
proof -
  have upt: "[1..<BLOCK_LEN + 1] = [1, 2, 3, 4, 5, 6, 7, 8]" by (simp add: BLOCK_LEN_def upt_rec)
  show ?thesis
  proof
    assume "used_bytes_from [1..<BLOCK_LEN + 1] len = Some u"
    then show "1 \<le> u \<and> u \<le> 8 \<and> encoded_len_for_bytes u = len" unfolding upt by (auto split: if_splits)
  next
    assume "1 \<le> u \<and> u \<le> 8 \<and> encoded_len_for_bytes u = len"
    then show "used_bytes_from [1..<BLOCK_LEN + 1] len = Some u"
      unfolding upt using cases_1_8 [of u] by (auto simp: encoded_len_values [simplified])
  qed
qed

lemmas used_bytes_8 = used_bytes_iff [unfolded BLOCK_LEN_def, simplified]

lemma le_value_zeros: "le_value (xs @ replicate k 0) = le_value xs"
proof (induction xs)
  case Nil
  then show ?case by (induction k) simp_all
qed simp

lemma le_bytes_pad: "length xs \<le> n \<Longrightarrow> le_bytes n (le_value xs) = xs @ replicate (n - length xs) 0"
  using le_bytes_le_value [of "xs @ replicate (n - length xs) 0"] by (simp add: le_value_zeros)

lemma encode_chunk_digits:
  assumes "1 \<le> length c" and "length c \<le> 8"
  shows "encode_chunk c = Some (characters (rev (digits (encoded_len_for_bytes (length c)) (le_value (rev c)))))"
proof -
  let ?L = "encoded_len_for_bytes (length c)" and ?v = "le_value (rev c)"
  have v: "?v < 256 ^ length c" using le_value_bound [of "rev c"] by simp
  also have "\<dots> \<le> 256 ^ 8" using assms(2) by (rule power_increasing) simp
  finally have "unat (of_nat ?v :: u64) = ?v" by (simp add: unat_of_nat)
  then have unat: "unat (from_be_bytes (replicate (BLOCK_LEN - length c) 0 @ c) :: u64) = ?v"
    by (simp add: from_be_bytes_def from_le_bytes_def le_value_zeros)
  note bounds = encoded_len_bounds [OF assms]
  have "?v < 58 ^ ?L" using v bounds(1) by linarith
  also have "\<dots> \<le> 58 ^ 11" using bounds(3) by (rule power_increasing) simp
  finally have "encode_loop (from_be_bytes (replicate (BLOCK_LEN - length c) 0 @ c)) 0 (replicate ENCODED_BLOCK_LEN (ALPHABET ! 0)) =
      Some (characters (digits 11 ?v))"
    using encode_loop_digits [of "from_be_bytes (replicate (BLOCK_LEN - length c) 0 @ c)" 11 "[]"]
    by (simp add: unat ENCODED_BLOCK_LEN_def)
  then show ?thesis
    using take_digits [OF bounds(3)] by (simp add: encode_chunk_def characters_def take_map rev_map)
qed

lemma decode_chunk_iff:
  "decode_chunk cs = Some bs \<longleftrightarrow> 1 \<le> length bs \<and> length bs \<le> 8 \<and> encode_chunk bs = Some cs"
proof
  assume "decode_chunk cs = Some bs"
  then obtain s u where s: "decode_sum 0 cs = Some s" and u: "1 \<le> u" "u \<le> 8" "encoded_len_for_bytes u = length cs"
    and zero: "\<forall>b \<in> set (take (8 - u) (to_be_bytes s)). b = 0" and bs: "bs = drop (8 - u) (to_be_bytes s)"
    by (auto simp: decode_chunk_def bind_eq_Some_conv used_bytes_8 BLOCK_LEN_def Let_def split: if_splits)
  obtain ds where ds: "cs = characters ds" "\<forall>d \<in> set ds. d < 58" "unat s = base58_sum 0 ds"
    using s by (auto simp: decode_sum_iff)
  have len: "length (to_be_bytes s) = 8" by (simp add: to_be_bytes_def)
  have "take (8 - u) (to_be_bytes s) = replicate (8 - u) 0"
    using zero len u by (intro replicate_eqI) auto
  then have "to_be_bytes s = replicate (8 - u) 0 @ bs" using bs append_take_drop_id [of "8 - u" "to_be_bytes s"] by simp
  then have "to_le_bytes s = rev bs @ replicate (8 - u) 0" by (simp add: to_be_bytes_def rev_eq_append_conv)
  then have "le_value (rev bs) = le_value (to_le_bytes s)" by (simp add: le_value_zeros)
  also have "\<dots> = unat s" using unsigned_less [of s, where 'a = nat] by (simp add: to_le_bytes_def le_value_le_bytes pow_256)
  finally have v: "le_value (rev bs) = digits_value (rev ds)"
    using base58_sum_value [of 0 "rev ds"] ds(3) by simp
  have "length bs = u" using bs len u by simp
  moreover have "digits (length (rev ds)) (digits_value (rev ds)) = rev ds" using ds(2) by (intro digits_digits_value) simp
  ultimately show "1 \<le> length bs \<and> length bs \<le> 8 \<and> encode_chunk bs = Some cs"
    using u encode_chunk_digits [of bs] ds(1) by (simp add: v characters_def)
next
  assume bs: "1 \<le> length bs \<and> length bs \<le> 8 \<and> encode_chunk bs = Some cs"
  let ?v = "le_value (rev bs)" and ?L = "encoded_len_for_bytes (length bs)"
  have cs: "cs = characters (rev (digits ?L ?v))" using bs encode_chunk_digits [of bs] by simp
  have v: "?v < 256 ^ length bs" using le_value_bound [of "rev bs"] by simp
  also have "\<dots> \<le> 256 ^ 8" using bs by (intro power_increasing) simp_all
  finally have "unat (of_nat ?v :: u64) = ?v" by (simp add: unat_of_nat)
  moreover have "?v < 58 ^ ?L" using v encoded_len_bounds(1) [of "length bs"] bs by linarith
  ultimately have "decode_sum 0 cs = Some (of_nat ?v)"
    using digits_less base58_sum_value [of 0 "digits ?L ?v"]
    by (auto simp: decode_sum_iff cs digits_value_digits intro!: exI [of _ "rev (digits ?L ?v)"])
  moreover have "used_bytes_from [1..<BLOCK_LEN + 1] (length cs) = Some (length bs)"
    unfolding used_bytes_iff using bs by (simp add: cs characters_def)
  moreover have "to_be_bytes (of_nat ?v :: u64) = replicate (8 - length bs) 0 @ bs"
    using bs le_bytes_pad [of "rev bs" 8] \<open>unat (of_nat ?v :: u64) = ?v\<close> by (simp add: to_be_bytes_def to_le_bytes_def)
  ultimately show "decode_chunk cs = Some bs"
    by (auto simp: decode_chunk_def BLOCK_LEN_def Let_def)
qed

subsection \<open>Round trips\<close>

lemma length_encode_chunk: "encode_chunk bs = Some cs \<Longrightarrow> 1 \<le> length bs \<Longrightarrow> length bs \<le> 8 \<Longrightarrow>
    length cs = encoded_len_for_bytes (length bs)"
  using encode_chunk_digits [of bs] by (auto simp: characters_def)

lemma blocks_length: "0 < n \<Longrightarrow> blocks n xss \<Longrightarrow> xs \<in> set xss \<Longrightarrow> 1 \<le> length xs \<and> length xs \<le> n"
  by (induction n xss rule: blocks.induct) (auto simp: Suc_le_eq)

lemma decode_iff: "decode cs = Some bs \<longleftrightarrow> encode bs = Some cs"
proof
  assume "decode cs = Some bs"
  then obtain bss where bss: "map decode_chunk (chunks 11 cs) = map Some bss" and bs: "bs = concat bss"
    by (auto simp: decode_def those_eq_Some ENCODED_BLOCK_LEN_def)
  have rel: "list_all2 (\<lambda>c b. decode_chunk c = Some b) (chunks 11 cs) bss"
    using bss by (simp add: list_all2_conv_all_nth list_eq_iff_nth_eq)
  have "blocks 8 bss"
    by (rule blocks_map [OF rel blocks_chunks])
       (use encoded_len_bounds(4) length_encode_chunk in \<open>force simp: decode_chunk_iff\<close>)+
  then have chunks: "chunks 8 bs = bss" unfolding bs by (intro chunks_concat) simp
  have "map encode_chunk bss = map Some (chunks 11 cs)"
    using rel by (simp add: list_all2_conv_all_nth list_eq_iff_nth_eq decode_chunk_iff)
  then show "encode bs = Some cs"
    by (simp add: encode_def BLOCK_LEN_def chunks those_eq_Some concat_chunks)
next
  assume "encode bs = Some cs"
  then obtain css where css: "map encode_chunk (chunks 8 bs) = map Some css" and cs: "cs = concat css"
    by (auto simp: encode_def those_eq_Some BLOCK_LEN_def)
  have len: "1 \<le> length b \<and> length b \<le> 8" if "b \<in> set (chunks 8 bs)" for b
    by (rule blocks_length [OF _ blocks_chunks that]) simp_all
  have rel: "list_all2 (\<lambda>b c. encode_chunk b = Some c \<and> 1 \<le> length b \<and> length b \<le> 8) (chunks 8 bs) css"
    using css len nth_mem by (simp add: list_all2_conv_all_nth list_eq_iff_nth_eq)
  have "blocks 11 css"
    by (rule blocks_map [OF rel blocks_chunks])
       (use encoded_len_bounds(2-4) length_encode_chunk in \<open>force+\<close>)
  then have chunks: "chunks 11 cs = css" unfolding cs by (intro chunks_concat) simp
  have "map decode_chunk css = map Some (chunks 8 bs)"
    using rel by (simp add: list_all2_conv_all_nth list_eq_iff_nth_eq decode_chunk_iff)
  then show "decode cs = Some bs"
    by (simp add: decode_def ENCODED_BLOCK_LEN_def chunks those_eq_Some concat_chunks)
qed

lemma encode_total: "\<exists>cs. encode bs = Some cs"
proof -
  have "\<exists>c. encode_chunk b = Some c" if "b \<in> set (chunks 8 bs)" for b
    using blocks_length [OF _ blocks_chunks that, simplified] encode_chunk_digits [of b] by auto
  then have "map encode_chunk (chunks 8 bs) = map Some (map (\<lambda>b. the (encode_chunk b)) (chunks 8 bs))" by auto
  then have "those (map encode_chunk (chunks 8 bs)) = Some (map (\<lambda>b. the (encode_chunk b)) (chunks 8 bs))"
    unfolding those_eq_Some .
  then show ?thesis by (simp add: encode_def BLOCK_LEN_def)
qed

text \<open>An encoding has fewer than 8/5 times as many characters as bytes, but for the last block.\<close>

lemma length_blocks:
  assumes "blocks 8 bss" and "map encode_chunk bss = map Some css"
  shows "5 * length (concat css) \<le> 8 * length (concat bss) + 2"
  using assms
proof (induction bss arbitrary: css rule: induct_list012)
  case (2 x)
  then obtain c where c: "css = [c]" "encode_chunk x = Some c" "1 \<le> length x" "length x \<le> 8"
    by (auto simp: Suc_le_eq Cons_eq_map_conv)
  then show ?case
    using length_encode_chunk [of x c] cases_1_8 [of "length x"] by (auto simp: encoded_len_values [simplified])
next
  case (3 x y zs)
  then obtain c cs where c: "css = c # cs" "encode_chunk x = Some c" "map encode_chunk (y # zs) = map Some cs"
    by (cases css) auto
  have "length x = 8" "blocks 8 (y # zs)" using "3.prems" by simp_all
  moreover have "length c = 11" using length_encode_chunk [OF c(2)] \<open>length x = 8\<close> encoded_len_values(8) by simp
  ultimately show ?case using "3.IH"(2) [OF _ c(3)] by (simp add: c(1))
qed simp

lemma length_encode:
  assumes "encode bs = Some cs"
  shows "5 * length cs \<le> 8 * length bs + 2"
proof -
  obtain css where css: "map encode_chunk (chunks 8 bs) = map Some css" and cs: "cs = concat css"
    using assms by (auto simp: encode_def those_eq_Some BLOCK_LEN_def)
  show ?thesis using length_blocks [OF blocks_chunks css] by (simp add: cs concat_chunks)
qed

text \<open>C35. Base58 encodes every sequence of bytes without panicking, and decoding is its exact inverse: a string decodes
  to bytes if and only if it is their encoding, so that no two strings decode to the same bytes.\<close>

theorem base58_canonical:
  "(\<exists>cs. encode bs = Some cs) \<and> (decode data = Some bs \<longleftrightarrow> encode bs = Some data)"
  using encode_total decode_iff by blast

lemma decode_check_iff:
  assumes "hash32 keccak256"
  shows "decode_check keccak256 data = Some bs \<longleftrightarrow> encode_check keccak256 bs = Some data"
proof -
  have len: "length (take 4 (keccak256 bs)) = 4" for bs using assms by (simp add: hash32_def)
  show ?thesis
  proof
    assume "decode_check keccak256 data = Some bs"
    then obtain res where res: "decode data = Some res" "4 \<le> length res" "bs = take (length res - 4) res"
        "take 4 (keccak256 (take (length res - 4) res)) = drop (length res - 4) res"
      by (auto simp: decode_check_def CHECKSUM_LEN_def bind_eq_Some_conv Let_def split: if_splits)
    then have "res = bs @ take 4 (keccak256 bs)" by simp
    with res(1) show "encode_check keccak256 bs = Some data"
      by (simp add: encode_check_def CHECKSUM_LEN_def decode_iff)
  next
    assume "encode_check keccak256 bs = Some data"
    then have "decode data = Some (bs @ take 4 (keccak256 bs))"
      by (simp add: encode_check_def CHECKSUM_LEN_def decode_iff)
    then show "decode_check keccak256 data = Some bs"
      using len [of bs] by (simp add: decode_check_def CHECKSUM_LEN_def Let_def)
  qed
qed

lemma length_encode_check:
  assumes "hash32 keccak256" and "encode_check keccak256 bs = Some cs"
  shows "5 * length cs \<le> 8 * length bs + 34"
  using length_encode [OF assms(2) [unfolded encode_check_def]] assms(1) by (simp add: CHECKSUM_LEN_def hash32_def)

end
