(* ===== verification/Address.thy ===== *)
theory Address
  imports Ed25519 Base58
begin

unbundle bit_operations_syntax

text \<open>
  Addresses (\<^verbatim>\<open>wallet/address/src/lib.rs\<close>): a type byte which tells the network and the kind, the two keys,
  the features of a featured address and a payment ID, in checksummed Base58. The set of type bytes is a
  \<open>u128\<close>, as it is a const generic of the source.

  The theory shows that addresses and the strings they parse from are in one-to-one correspondence.
\<close>

datatype AddressType =
  Legacy | LegacyIntegrated bytes | Subaddress | Featured bool "bytes option" bool

fun AddressType_is_subaddress :: "AddressType \<Rightarrow> bool" where
  "AddressType_is_subaddress Subaddress \<longleftrightarrow> True"
| "AddressType_is_subaddress (Featured sub _ _) \<longleftrightarrow> sub"
| "AddressType_is_subaddress _ \<longleftrightarrow> False"

fun AddressType_payment_id :: "AddressType \<Rightarrow> bytes option" where
  "AddressType_payment_id (LegacyIntegrated i) = Some i"
| "AddressType_payment_id (Featured _ i _) = i"
| "AddressType_payment_id _ = None"

fun AddressType_is_guaranteed :: "AddressType \<Rightarrow> bool" where
  "AddressType_is_guaranteed (Featured _ _ g) \<longleftrightarrow> g"
| "AddressType_is_guaranteed _ \<longleftrightarrow> False"

record SubaddressIndex =
  index_account :: u32
  index_address :: u32

definition SubaddressIndex_new :: "u32 \<Rightarrow> u32 \<Rightarrow> SubaddressIndex option" where
  "SubaddressIndex_new account address =
     (if account = 0 \<and> address = 0 then None else Some \<lparr>index_account = account, index_address = address\<rparr>)"

subsection \<open>Type bytes\<close>

record AddressBytes =
  ab_legacy :: u8
  ab_legacy_integrated :: u8
  ab_subaddress :: u8
  ab_featured :: u8

definition AddressBytes_new :: "u8 \<Rightarrow> u8 \<Rightarrow> u8 \<Rightarrow> u8 \<Rightarrow> AddressBytes option" where
  "AddressBytes_new l li s f =
     (if l = li \<or> l = s \<or> l = f then None
      else if li = s \<or> li = f then None
      else if s = f then None
      else Some \<lparr>ab_legacy = l, ab_legacy_integrated = li, ab_subaddress = s, ab_featured = f\<rparr>)"

definition AddressBytes_to_const_generic :: "AddressBytes \<Rightarrow> u32" where
  "AddressBytes_to_const_generic a =
     push_bit 24 (ucast (ab_legacy a)) + push_bit 16 (ucast (ab_legacy_integrated a)) +
     push_bit 8 (ucast (ab_subaddress a)) + ucast (ab_featured a)"

definition AddressBytes_from_const_generic :: "u32 \<Rightarrow> AddressBytes" where
  "AddressBytes_from_const_generic g =
     \<lparr>ab_legacy = ucast (drop_bit 24 g), ab_legacy_integrated = ucast (drop_bit 16 g AND 0xff),
      ab_subaddress = ucast (drop_bit 8 g AND 0xff), ab_featured = ucast (g AND 0xff)\<rparr>"

datatype Network = Mainnet | Stagenet | Testnet

datatype AddressError =
  InvalidTypeByte u8 | InvalidEncoding | InvalidLength | InvalidKey | UnknownFeatures u64 |
  DifferentNetwork Network Network | PaymentIDsUnsupported

record NetworkedAddressBytes =
  nab_mainnet :: AddressBytes
  nab_stagenet :: AddressBytes
  nab_testnet :: AddressBytes

definition NetworkedAddressBytes_to_const_generic :: "NetworkedAddressBytes \<Rightarrow> 128 word" where
  "NetworkedAddressBytes_to_const_generic n =
     push_bit 96 (ucast (AddressBytes_to_const_generic (nab_mainnet n))) +
     push_bit 64 (ucast (AddressBytes_to_const_generic (nab_stagenet n))) +
     push_bit 32 (ucast (AddressBytes_to_const_generic (nab_testnet n)))"

definition NetworkedAddressBytes_from_const_generic :: "128 word \<Rightarrow> NetworkedAddressBytes" where
  "NetworkedAddressBytes_from_const_generic g =
     \<lparr>nab_mainnet = AddressBytes_from_const_generic (ucast (drop_bit 96 g)),
      nab_stagenet = AddressBytes_from_const_generic (ucast (drop_bit 64 g AND 0xffffffff)),
      nab_testnet = AddressBytes_from_const_generic (ucast (drop_bit 32 g AND 0xffffffff))\<rparr>"

definition NetworkedAddressBytes_new ::
  "AddressBytes \<Rightarrow> AddressBytes \<Rightarrow> AddressBytes \<Rightarrow> NetworkedAddressBytes option" where
  "NetworkedAddressBytes_new mainnet stagenet testnet =
     (let res = \<lparr>nab_mainnet = mainnet, nab_stagenet = stagenet, nab_testnet = testnet\<rparr>;
          all_bytes = NetworkedAddressBytes_to_const_generic res
      in if list_ex (\<lambda>i.
              let this_byte = drop_bit (32 + i * 8) all_bytes AND 0xff
              in list_ex (\<lambda>j.
                   i \<noteq> j \<and> (let other_byte = drop_bit (32 + j * 8) all_bytes AND 0xff in this_byte = other_byte))
                 [0..<12]) [0..<12]
         then None else Some res)"

fun NetworkedAddressBytes_network :: "NetworkedAddressBytes \<Rightarrow> Network \<Rightarrow> AddressBytes" where
  "NetworkedAddressBytes_network n Mainnet = nab_mainnet n"
| "NetworkedAddressBytes_network n Stagenet = nab_stagenet n"
| "NetworkedAddressBytes_network n Testnet = nab_testnet n"

definition NetworkedAddressBytes_byte :: "NetworkedAddressBytes \<Rightarrow> Network \<Rightarrow> AddressType \<Rightarrow> u8" where
  "NetworkedAddressBytes_byte n network kind =
     (let address_bytes = NetworkedAddressBytes_network n network
      in case kind of
           Legacy \<Rightarrow> ab_legacy address_bytes
         | LegacyIntegrated _ \<Rightarrow> ab_legacy_integrated address_bytes
         | Subaddress \<Rightarrow> ab_subaddress address_bytes
         | Featured _ _ _ \<Rightarrow> ab_featured address_bytes)"

definition kind_from_byte :: "AddressBytes \<Rightarrow> u8 \<Rightarrow> AddressType option" where
  "kind_from_byte address_bytes byte =
     (if byte = ab_legacy address_bytes then Some Legacy
      else if byte = ab_legacy_integrated address_bytes then Some (LegacyIntegrated (replicate 8 0))
      else if byte = ab_subaddress address_bytes then Some Subaddress
      else if byte = ab_featured address_bytes then Some (Featured False None False)
      else None)"

fun metadata_loop :: "NetworkedAddressBytes \<Rightarrow> u8 \<Rightarrow> Network list \<Rightarrow> (Network \<times> AddressType) option" where
  "metadata_loop n byte [] = None"
| "metadata_loop n byte (network # networks) =
     (case kind_from_byte (NetworkedAddressBytes_network n network) byte of
        Some kind \<Rightarrow> Some (network, kind)
      | None \<Rightarrow> metadata_loop n byte networks)"

definition metadata_from_byte :: "NetworkedAddressBytes \<Rightarrow> u8 \<Rightarrow> AddressError + Network \<times> AddressType" where
  "metadata_from_byte n byte =
     (case metadata_loop n byte [Mainnet, Testnet, Stagenet] of
        None \<Rightarrow> Inl (InvalidTypeByte byte) | Some meta \<Rightarrow> Inr meta)"

definition MONERO_BYTES :: "NetworkedAddressBytes option" where
  "MONERO_BYTES =
     Option.bind (AddressBytes_new 18 19 42 70) (\<lambda>mainnet.
     Option.bind (AddressBytes_new 24 25 36 86) (\<lambda>stagenet.
     Option.bind (AddressBytes_new 53 54 63 111) (\<lambda>testnet.
     NetworkedAddressBytes_new mainnet stagenet testnet)))"

subsection \<open>Addresses\<close>

record 'p Address =
  addr_network :: Network
  addr_kind :: AddressType
  addr_spend :: 'p
  addr_view :: 'p

definition Address_new :: "Network \<Rightarrow> AddressType \<Rightarrow> 'p \<Rightarrow> 'p \<Rightarrow> 'p Address" where
  "Address_new network kind spend view =
     \<lparr>addr_network = network, addr_kind = kind, addr_spend = spend, addr_view = view\<rparr>"

definition u8_from :: "bool \<Rightarrow> u8" where
  "u8_from b = (if b then 1 else 0)"

definition features_uint :: "bool \<Rightarrow> bytes option \<Rightarrow> bool \<Rightarrow> u8" where
  "features_uint sub i g = push_bit 2 (u8_from g) + push_bit 1 (u8_from (i \<noteq> None)) + u8_from sub"

definition address_data :: "('s, 'p, 'z) dalek_scheme \<Rightarrow> NetworkedAddressBytes \<Rightarrow> 'p Address \<Rightarrow> bytes" where
  "address_data D address_bytes addr =
     [NetworkedAddressBytes_byte address_bytes (addr_network addr) (addr_kind addr)] @
     edwards_compress D (addr_spend addr) @ edwards_compress D (addr_view addr) @
     (case addr_kind addr of Featured sub i g \<Rightarrow> varint_write (features_uint sub i g) | _ \<Rightarrow> []) @
     (case AddressType_payment_id (addr_kind addr) of Some i \<Rightarrow> i | None \<Rightarrow> [])"

definition Address_to_string ::
  "('s, 'p, 'z) dalek_scheme \<Rightarrow> (bytes \<Rightarrow> bytes) \<Rightarrow> 128 word \<Rightarrow> 'p Address \<Rightarrow> bytes option" where
  "Address_to_string D keccak256 ADDRESS_BYTES addr =
     encode_check keccak256 (address_data D (NetworkedAddressBytes_from_const_generic ADDRESS_BYTES) addr)"

definition BASE_256_UPPER_BOUND :: nat where
  "BASE_256_UPPER_BOUND = UPPER_BOUND TYPE(64) + 32 + 32 + UPPER_BOUND TYPE(64) + 8"

definition CHECKSUMMED_UPPER_BOUND :: nat where
  "CHECKSUMMED_UPPER_BOUND = BASE_256_UPPER_BOUND + 4"

definition Address_SIZE_UPPER_BOUND :: nat where
  "Address_SIZE_UPPER_BOUND = (CHECKSUMMED_UPPER_BOUND * 8 + 4) div 5"

text \<open>The parts of an address as it is parsed.\<close>

definition read_address_key :: "('s, 'p, 'z) dalek_scheme \<Rightarrow> bytes \<Rightarrow> AddressError + 'p \<times> bytes" where
  "read_address_key D raw =
     (case CompressedPoint_read raw of
        Inl _ \<Rightarrow> Inl InvalidKey
      | Inr (compressed, raw) \<Rightarrow>
          (case CompressedPoint_decompress D compressed of
             None \<Rightarrow> Inl InvalidKey | Some point \<Rightarrow> Inr (point, raw)))"

fun read_features :: "AddressType \<Rightarrow> bytes \<Rightarrow> AddressError + AddressType \<times> bytes" where
  "read_features (Featured _ _ _) raw =
     (case (varint_read :: u64 reader) raw of
        Inl _ \<Rightarrow> Inl InvalidLength
      | Inr (features, raw) \<Rightarrow>
          if drop_bit 3 features \<noteq> 0 then Inl (UnknownFeatures features)
          else let sub = (features AND 1 = 1);
                   integrated = (drop_bit 1 features AND 1 = 1);
                   guaranteed = (drop_bit 2 features AND 1 = 1)
               in Inr (Featured sub (if integrated then Some (replicate 8 0) else None) guaranteed, raw))"
| "read_features kind raw = Inr (kind, raw)"

fun read_payment_id :: "AddressType \<Rightarrow> bytes \<Rightarrow> AddressError + AddressType \<times> bytes" where
  "read_payment_id (LegacyIntegrated _) raw =
     (case read_bytes 8 raw of Inl _ \<Rightarrow> Inl InvalidLength | Inr (i, raw) \<Rightarrow> Inr (LegacyIntegrated i, raw))"
| "read_payment_id (Featured sub (Some _) g) raw =
     (case read_bytes 8 raw of Inl _ \<Rightarrow> Inl InvalidLength | Inr (i, raw) \<Rightarrow> Inr (Featured sub (Some i) g, raw))"
| "read_payment_id kind raw = Inr (kind, raw)"

definition from_str_with_unchecked_network ::
  "('s, 'p, 'z) dalek_scheme \<Rightarrow> (bytes \<Rightarrow> bytes) \<Rightarrow> 128 word \<Rightarrow> bytes \<Rightarrow> AddressError + 'p Address" where
  "from_str_with_unchecked_network D keccak256 ADDRESS_BYTES s =
     (case decode_check keccak256 s of
        None \<Rightarrow> Inl InvalidEncoding
      | Some raw \<Rightarrow>
     let address_bytes = NetworkedAddressBytes_from_const_generic ADDRESS_BYTES
     in case read_byte raw of
        Inl _ \<Rightarrow> Inl InvalidLength
      | Inr (byte, raw) \<Rightarrow>
     case metadata_from_byte address_bytes byte of
        Inl e \<Rightarrow> Inl e
      | Inr (network, kind) \<Rightarrow>
     case read_address_key D raw of
        Inl e \<Rightarrow> Inl e
      | Inr (spend, raw) \<Rightarrow>
     case read_address_key D raw of
        Inl e \<Rightarrow> Inl e
      | Inr (view, raw) \<Rightarrow>
     case read_features kind raw of
        Inl e \<Rightarrow> Inl e
      | Inr (kind, raw) \<Rightarrow>
     case read_payment_id kind raw of
        Inl e \<Rightarrow> Inl e
      | Inr (kind, raw) \<Rightarrow>
     if raw \<noteq> [] then Inl InvalidLength
     else Inr \<lparr>addr_network = network, addr_kind = kind, addr_spend = spend, addr_view = view\<rparr>)"

definition Address_from_str ::
  "('s, 'p, 'z) dalek_scheme \<Rightarrow> (bytes \<Rightarrow> bytes) \<Rightarrow> 128 word \<Rightarrow> Network \<Rightarrow> bytes \<Rightarrow> AddressError + 'p Address" where
  "Address_from_str D keccak256 ADDRESS_BYTES network s =
     (case from_str_with_unchecked_network D keccak256 ADDRESS_BYTES s of
        Inl e \<Rightarrow> Inl e
      | Inr addr \<Rightarrow> if addr_network addr = network then Inr addr else Inl (DifferentNetwork network (addr_network addr)))"

definition with_payment_id :: "'p Address \<Rightarrow> bytes \<Rightarrow> AddressError + 'p Address" where
  "with_payment_id addr payment_id =
     (case addr_kind addr of
        Legacy \<Rightarrow> Inr (Address_new (addr_network addr) (LegacyIntegrated payment_id) (addr_spend addr) (addr_view addr))
      | LegacyIntegrated _ \<Rightarrow>
          Inr (Address_new (addr_network addr) (LegacyIntegrated payment_id) (addr_spend addr) (addr_view addr))
      | Subaddress \<Rightarrow> Inl PaymentIDsUnsupported
      | Featured sub _ g \<Rightarrow>
          Inr (Address_new (addr_network addr) (Featured sub (Some payment_id) g) (addr_spend addr) (addr_view addr)))"

subsection \<open>Type bytes as a const generic\<close>

lemma unat_u8: "unat (x :: u8) < 256"
  using unsigned_less [of x, where 'a = nat] by simp

lemma le_value_append: "le_value (xs @ ys) = le_value xs + 256 ^ length xs * le_value ys"
  by (induction xs) (simp_all add: algebra_simps)

lemma le_bytes_nth: "k < n \<Longrightarrow> le_bytes n x ! k = word_of_nat (x div 256 ^ k)"
proof (induction n arbitrary: k x)
  case (Suc n)
  have "(word_of_nat (x mod 256) :: u8) = word_of_nat x" for x
    by (simp add: word_unat_eq_iff unat_of_nat)
  with Suc show ?case by (cases k) (simp_all add: div_mult2_eq)
qed simp

definition ab_digits :: "AddressBytes \<Rightarrow> bytes" where
  "ab_digits a = [ab_featured a, ab_subaddress a, ab_legacy_integrated a, ab_legacy a]"

lemma unat_const_generic: "unat (AddressBytes_to_const_generic a) = le_value (ab_digits a)"
  using unat_u8 [of "ab_legacy a"] unat_u8 [of "ab_legacy_integrated a"] unat_u8 [of "ab_subaddress a"] unat_u8 [of "ab_featured a"]
  by (simp add: AddressBytes_to_const_generic_def ab_digits_def unat_word_ariths push_bit_eq_mult unsigned_ucast_eq take_bit_eq_mod)

lemma ucast_drop_bit: "(ucast (drop_bit (8 * k) w) :: u8) = word_of_nat (unat w div 256 ^ k)" for w :: "'a::len word"
proof -
  have "(ucast v :: u8) = word_of_nat (unat v)" for v :: "'a word"
    by (simp add: word_unat_eq_iff unat_of_nat unsigned_ucast_eq take_bit_eq_mod)
  moreover have "unat (drop_bit (8 * k) w) = unat w div 256 ^ k"
    unfolding unat_drop_bit_eq unfolding drop_bit_eq_div by (simp add: power_mult)
  ultimately show ?thesis by (simp only:)
qed

lemma and_255: "w AND 0xff = take_bit 8 w" for w :: "'a::len word"
  by (simp add: take_bit_eq_mask mask_eq_exp_minus_1)

lemma low_byte: "(ucast (v AND 0xff) :: u8) = ucast v" for v :: "'a::len word"
  unfolding and_255 word_unat_eq_iff unsigned_ucast_eq unsigned_take_bit_eq by simp

lemma const_generic_digits: "k < 4 \<Longrightarrow> word_of_nat (unat (AddressBytes_to_const_generic a) div 256 ^ k) = ab_digits a ! k"
proof -
  assume k: "k < 4"
  have "length (ab_digits a) = 4" by (simp add: ab_digits_def)
  then have "le_bytes 4 (le_value (ab_digits a)) = ab_digits a" using le_bytes_le_value [of "ab_digits a"] by simp
  then show ?thesis using le_bytes_nth [OF k, of "le_value (ab_digits a)"] by (simp add: unat_const_generic)
qed

lemma AddressBytes_roundtrip: "AddressBytes_from_const_generic (AddressBytes_to_const_generic a) = a"
proof -
  have "ucast (drop_bit (8 * k) (AddressBytes_to_const_generic a)) = ab_digits a ! k" if "k < 4" for k
    unfolding ucast_drop_bit by (rule const_generic_digits [OF that])
  from this [of 0] this [of 1] this [of 2] this [of 3] show ?thesis
    by (cases a) (simp add: AddressBytes_from_const_generic_def low_byte ab_digits_def)
qed

definition nab_digits :: "NetworkedAddressBytes \<Rightarrow> bytes" where
  "nab_digits n = [0, 0, 0, 0] @ ab_digits (nab_testnet n) @ ab_digits (nab_stagenet n) @ ab_digits (nab_mainnet n)"

lemma unat_networked:
  "unat (NetworkedAddressBytes_to_const_generic n) = le_value (nab_digits n)"
proof -
  have b: "unat (AddressBytes_to_const_generic a) < 4294967296" for a
    using unsigned_less [of "AddressBytes_to_const_generic a", where 'a = nat] by simp
  have "unat (NetworkedAddressBytes_to_const_generic n) =
      unat (AddressBytes_to_const_generic (nab_mainnet n)) * 2 ^ 96 +
      unat (AddressBytes_to_const_generic (nab_stagenet n)) * 2 ^ 64 +
      unat (AddressBytes_to_const_generic (nab_testnet n)) * 2 ^ 32"
    using b [of "nab_mainnet n"] b [of "nab_stagenet n"] b [of "nab_testnet n"]
    by (simp add: NetworkedAddressBytes_to_const_generic_def unat_word_ariths push_bit_eq_mult unsigned_ucast_eq take_bit_eq_mod)
  then show ?thesis
    by (simp add: unat_const_generic nab_digits_def le_value_append) (simp add: ab_digits_def)
qed

lemma le_value_drop_take:
  "k \<le> length xs \<Longrightarrow> le_value xs div 256 ^ k = le_value (drop k xs)"
  "k \<le> length xs \<Longrightarrow> le_value xs mod 256 ^ k = le_value (take k xs)"
proof -
  assume k: "k \<le> length xs"
  have eq: "le_value xs = le_value (take k xs) + 256 ^ k * le_value (drop k xs)"
    using le_value_append [of "take k xs" "drop k xs"] k by (simp add: min.absorb2)
  have "le_value (take k xs) < 256 ^ k" using le_value_bound [of "take k xs"] k by (simp add: min.absorb2)
  then show "le_value xs div 256 ^ k = le_value (drop k xs)" "le_value xs mod 256 ^ k = le_value (take k xs)"
    unfolding eq by simp_all
qed

lemma length_nab_digits: "length (nab_digits n) = 16"
  by (simp add: nab_digits_def ab_digits_def)

lemma NetworkedAddressBytes_roundtrip:
  "NetworkedAddressBytes_from_const_generic (NetworkedAddressBytes_to_const_generic n) = n"
proof -
  let ?g = "NetworkedAddressBytes_to_const_generic n"
  have mask: "w AND 0xffffffff = take_bit 32 w" for w :: "128 word"
    by (simp add: take_bit_eq_mask mask_eq_exp_minus_1)
  have low: "(ucast (w AND 0xffffffff) :: u32) = ucast w" for w :: "128 word"
    unfolding mask word_unat_eq_iff unsigned_ucast_eq unsigned_take_bit_eq by simp
  have "unat (ucast (drop_bit (8 * k) ?g) :: u32) = le_value (take 4 (drop k (nab_digits n)))" if "k \<le> 12" for k
  proof -
    have "unat (ucast (drop_bit (8 * k) ?g) :: u32) = unat ?g div 256 ^ k mod 256 ^ 4"
      unfolding unsigned_ucast_eq unat_drop_bit_eq unfolding drop_bit_eq_div take_bit_eq_mod by (simp add: power_mult)
    also have "\<dots> = le_value (take 4 (drop k (nab_digits n)))"
      using that by (simp only: unat_networked le_value_drop_take length_nab_digits length_drop)
    finally show ?thesis .
  qed
  from this [of 12] this [of 8] this [of 4]
  have "(ucast (drop_bit 96 ?g) :: u32) = AddressBytes_to_const_generic (nab_mainnet n)"
    "(ucast (drop_bit 64 ?g) :: u32) = AddressBytes_to_const_generic (nab_stagenet n)"
    "(ucast (drop_bit 32 ?g) :: u32) = AddressBytes_to_const_generic (nab_testnet n)"
    by (simp_all add: word_unat_eq_iff unat_const_generic nab_digits_def ab_digits_def)
  then show ?thesis
    by (simp add: NetworkedAddressBytes_from_const_generic_def low AddressBytes_roundtrip)
qed

lemma and_255_eq: "v AND 0xff = w AND 0xff \<longleftrightarrow> (ucast v :: u8) = ucast w" for v w :: "128 word"
  unfolding and_255 word_unat_eq_iff unsigned_ucast_eq unsigned_take_bit_eq by simp

lemma NetworkedAddressBytes_new_iff:
  "NetworkedAddressBytes_new m s t = Some n \<longleftrightarrow>
   n = \<lparr>nab_mainnet = m, nab_stagenet = s, nab_testnet = t\<rparr> \<and> distinct (drop 4 (nab_digits n))"
proof -
  let ?n = "\<lparr>nab_mainnet = m, nab_stagenet = s, nab_testnet = t\<rparr>"
  let ?g = "NetworkedAddressBytes_to_const_generic ?n"
  have byte: "(ucast (drop_bit (32 + i * 8) ?g) :: u8) = drop 4 (nab_digits ?n) ! i" if "i < 12" for i
  proof -
    have "le_bytes 16 (le_value (nab_digits ?n)) = nab_digits ?n"
      using le_bytes_le_value [of "nab_digits ?n"] by (simp add: length_nab_digits)
    then have "(ucast (drop_bit (8 * (4 + i)) ?g) :: u8) = nab_digits ?n ! (4 + i)"
      using le_bytes_nth [of "4 + i" 16 "le_value (nab_digits ?n)"] that
      unfolding ucast_drop_bit unat_networked by simp
    then show ?thesis using that by (simp add: length_nab_digits algebra_simps)
  qed
  have "list_ex (\<lambda>i. let this_byte = drop_bit (32 + i * 8) ?g AND 0xff
       in list_ex (\<lambda>j. i \<noteq> j \<and> (let other_byte = drop_bit (32 + j * 8) ?g AND 0xff in this_byte = other_byte)) [0..<12])
     [0..<12] \<longleftrightarrow> \<not> distinct (drop 4 (nab_digits ?n))"
    unfolding Let_def and_255_eq distinct_conv_nth
    by (auto simp: list_ex_iff byte length_nab_digits; fastforce)
  then show ?thesis by (auto simp: NetworkedAddressBytes_new_def Let_def)
qed

subsection \<open>What is read of an address\<close>

fun kind_template :: "AddressType \<Rightarrow> AddressType" where
  "kind_template (LegacyIntegrated _) = LegacyIntegrated (replicate 8 0)"
| "kind_template (Featured _ _ _) = Featured False None False"
| "kind_template kind = kind"

lemma kind_template_idem: "kind_template (kind_template kind) = kind_template kind"
  by (cases kind) simp_all

lemma byte_template: "NetworkedAddressBytes_byte n network (kind_template kind) = NetworkedAddressBytes_byte n network kind"
  by (cases kind) (simp_all add: NetworkedAddressBytes_byte_def)

lemma metadata_iff:
  assumes "distinct (drop 4 (nab_digits n))"
  shows "metadata_from_byte n byte = Inr (network, kind) \<longleftrightarrow>
    byte = NetworkedAddressBytes_byte n network kind \<and> kind_template kind = kind"
proof
  assume "metadata_from_byte n byte = Inr (network, kind)"
  then show "byte = NetworkedAddressBytes_byte n network kind \<and> kind_template kind = kind"
    by (auto simp: metadata_from_byte_def kind_from_byte_def NetworkedAddressBytes_byte_def
      split: option.splits if_splits)
next
  assume "byte = NetworkedAddressBytes_byte n network kind \<and> kind_template kind = kind"
  with assms show "metadata_from_byte n byte = Inr (network, kind)"
    by (cases network; cases kind)
       (auto simp: metadata_from_byte_def kind_from_byte_def NetworkedAddressBytes_byte_def nab_digits_def ab_digits_def)
qed

lemma read_address_key_iff:
  "read_address_key D raw = Inr (p, r) \<longleftrightarrow> wf_Point D p \<and> raw = edwards_compress D p @ r"
proof
  assume "read_address_key D raw = Inr (p, r)"
  then obtain c where "wf_CompressedPoint c" "raw = CompressedPoint_write c @ r" "CompressedPoint_decompress D c = Some p"
    by (auto simp: read_address_key_def CompressedPoint_read_iff split: sum.splits option.splits)
  then show "wf_Point D p \<and> raw = edwards_compress D p @ r"
    using decompress_wf [of D c p] by (simp add: Point_compress_def)
next
  assume *: "wf_Point D p \<and> raw = edwards_compress D p @ r"
  then have "CompressedPoint_read raw = Inr (Point_compress D p, r)"
    by (simp add: CompressedPoint_read_iff Point_compress_def wf_Point_def)
  with * decompress_wf [of D "Point_compress D p" p] show "read_address_key D raw = Inr (p, r)"
    by (simp add: read_address_key_def)
qed

lemma features_flags:
  "drop_bit 3 (ucast (features_uint sub i g) :: u64) = 0 \<and>
   ((ucast (features_uint sub i g) :: u64) AND 1 = 1 \<longleftrightarrow> sub) \<and>
   (drop_bit 1 (ucast (features_uint sub i g) :: u64) AND 1 = 1 \<longleftrightarrow> i \<noteq> None) \<and>
   (drop_bit 2 (ucast (features_uint sub i g) :: u64) AND 1 = 1 \<longleftrightarrow> g)"
  by (cases sub; cases g; cases "i = None") (simp_all add: features_uint_def u8_from_def)

lemma flags_features:
  fixes f :: u64
  assumes "drop_bit 3 f = 0"
  shows "f = ucast (features_uint (f AND 1 = 1) (if drop_bit 1 f AND 1 = 1 then Some i else None) (drop_bit 2 f AND 1 = 1))"
proof -
  have "unat f div 8 = unat (drop_bit 3 f)" unfolding unat_drop_bit_eq unfolding drop_bit_eq_div by simp
  then have "unat f < 8" using assms by simp
  then have "unat f \<in> {0, 1, 2, 3, 4, 5, 6, 7}" by auto
  then have "f \<in> {0, 1, 2, 3, 4, 5, 6, 7}" by (auto simp: word_unat_eq_iff)
  then show ?thesis by (auto simp: features_uint_def u8_from_def)
qed

fun wf_AddressType :: "AddressType \<Rightarrow> bool" where
  "wf_AddressType (LegacyIntegrated i) \<longleftrightarrow> length i = 8"
| "wf_AddressType (Featured _ (Some i) _) \<longleftrightarrow> length i = 8"
| "wf_AddressType _ \<longleftrightarrow> True"

definition kind_data :: "AddressType \<Rightarrow> bytes" where
  "kind_data kind =
     (case kind of Featured sub i g \<Rightarrow> varint_write (features_uint sub i g) | _ \<Rightarrow> []) @
     (case AddressType_payment_id kind of Some i \<Rightarrow> i | None \<Rightarrow> [])"

definition read_kind :: "AddressType \<Rightarrow> bytes \<Rightarrow> AddressError + AddressType \<times> bytes" where
  "read_kind kind raw =
     (case read_features kind raw of Inl e \<Rightarrow> Inl e | Inr (kind, raw) \<Rightarrow> read_payment_id kind raw)"

lemma varint_features: "varint_write (x :: u8) = varint_write (ucast x :: u64)"
  by (simp add: varint_write_def into_u64_def)

lemma read_id_iff:
  "(case read_bytes 8 raw of Inl _ \<Rightarrow> Inl e | Inr (i, raw) \<Rightarrow> Inr (f i, raw)) = Inr (k, r) \<longleftrightarrow>
   (\<exists>i. length i = 8 \<and> k = f i \<and> raw = i @ r)"
proof
  assume "(case read_bytes 8 raw of Inl _ \<Rightarrow> Inl e | Inr (i, raw) \<Rightarrow> Inr (f i, raw)) = Inr (k, r)"
  then show "\<exists>i. length i = 8 \<and> k = f i \<and> raw = i @ r"
    by (auto simp: bytes_codec.rd_iff split: sum.splits)
next
  assume "\<exists>i. length i = 8 \<and> k = f i \<and> raw = i @ r"
  then show "(case read_bytes 8 raw of Inl _ \<Rightarrow> Inl e | Inr (i, raw) \<Rightarrow> Inr (f i, raw)) = Inr (k, r)"
    by (auto simp: bytes_codec.rd_wr)
qed

lemma read_payment_id_featured:
  "read_payment_id (Featured sub (if p then Some z else None) g) raw = Inr (kind, r) \<longleftrightarrow>
   (\<exists>i. kind = Featured sub i g \<and> (i \<noteq> None \<longleftrightarrow> p) \<and> wf_AddressType kind \<and>
      raw = (case i of Some i \<Rightarrow> i | None \<Rightarrow> []) @ r)"
  by (cases p) (auto simp: read_id_iff split: option.splits)

lemma read_kind_featured:
  "read_kind (Featured a b c) raw = Inr (kind, r) \<longleftrightarrow>
   (\<exists>sub i g. kind = Featured sub i g \<and> wf_AddressType kind \<and> raw = kind_data kind @ r)"
proof
  assume "read_kind (Featured a b c) raw = Inr (kind, r)"
  then obtain f :: u64 and r1 where f: "raw = varint_write f @ r1" "drop_bit 3 f = 0"
    and p: "read_payment_id (Featured (f AND 1 = 1) (if drop_bit 1 f AND 1 = 1 then Some (replicate 8 0) else None)
        (drop_bit 2 f AND 1 = 1)) r1 = Inr (kind, r)"
    by (auto simp: read_kind_def varint_u64.rd_iff Let_def split: sum.splits if_splits)
  then obtain i where i: "kind = Featured (f AND 1 = 1) i (drop_bit 2 f AND 1 = 1)"
      "i \<noteq> None \<longleftrightarrow> drop_bit 1 f AND 1 = 1" "wf_AddressType kind" "r1 = (case i of Some i \<Rightarrow> i | None \<Rightarrow> []) @ r"
    unfolding read_payment_id_featured by blast
  have "features_uint (f AND 1 = 1) i (drop_bit 2 f AND 1 = 1) =
      features_uint (f AND 1 = 1) (if drop_bit 1 f AND 1 = 1 then Some [] else None) (drop_bit 2 f AND 1 = 1)"
    using i(2) by (simp add: features_uint_def)
  then have "varint_write (features_uint (f AND 1 = 1) i (drop_bit 2 f AND 1 = 1)) = varint_write f"
    using flags_features [OF f(2), of "[]"] by (simp add: varint_features)
  with f(1) i show "\<exists>sub i g. kind = Featured sub i g \<and> wf_AddressType kind \<and> raw = kind_data kind @ r"
    by (auto simp: kind_data_def)
next
  assume "\<exists>sub i g. kind = Featured sub i g \<and> wf_AddressType kind \<and> raw = kind_data kind @ r"
  then obtain sub i g where kind: "kind = Featured sub i g" "wf_AddressType kind"
    and raw: "raw = varint_write (ucast (features_uint sub i g) :: u64) @ (case i of Some i \<Rightarrow> i | None \<Rightarrow> []) @ r"
    by (auto simp: kind_data_def varint_features)
  have "read_features (Featured a b c) raw =
      Inr (Featured sub (if i \<noteq> None then Some (replicate 8 0) else None) g, (case i of Some i \<Rightarrow> i | None \<Rightarrow> []) @ r)"
    using features_flags [of sub i g] by (simp add: raw varint_u64.rd_wr Let_def)
  moreover have "read_payment_id (Featured sub (if i \<noteq> None then Some (replicate 8 0) else None) g)
      ((case i of Some i \<Rightarrow> i | None \<Rightarrow> []) @ r) = Inr (kind, r)"
    unfolding read_payment_id_featured using kind by auto
  ultimately show "read_kind (Featured a b c) raw = Inr (kind, r)" by (simp add: read_kind_def)
qed

lemma read_kind_iff:
  assumes "kind_template k0 = k0"
  shows "read_kind k0 raw = Inr (kind, r) \<longleftrightarrow> wf_AddressType kind \<and> kind_template kind = k0 \<and> raw = kind_data kind @ r"
proof (cases k0)
  case (Featured a b c)
  then have "k0 = Featured False None False" using assms by simp
  then show ?thesis by (cases kind) (auto simp: read_kind_featured)
next
  case (LegacyIntegrated i)
  then show ?thesis using assms by (cases kind) (auto simp: read_kind_def kind_data_def read_id_iff)
qed (cases kind; auto simp: read_kind_def kind_data_def)+

subsection \<open>The codec\<close>

definition wf_Address :: "('s, 'p, 'z) dalek_scheme \<Rightarrow> 'p Address \<Rightarrow> bool" where
  "wf_Address D a \<longleftrightarrow> wf_AddressType (addr_kind a) \<and> wf_Point D (addr_spend a) \<and> wf_Point D (addr_view a)"

lemma address_data_kind:
  "address_data D n a = [NetworkedAddressBytes_byte n (addr_network a) (addr_kind a)] @
     edwards_compress D (addr_spend a) @ edwards_compress D (addr_view a) @ kind_data (addr_kind a)"
  by (simp add: address_data_def kind_data_def)

lemma from_str_iff:
  assumes "hash32 keccak256" and n: "NetworkedAddressBytes_new m st t = Some n"
  shows "from_str_with_unchecked_network D keccak256 (NetworkedAddressBytes_to_const_generic n) s = Inr a \<longleftrightarrow>
    wf_Address D a \<and> Address_to_string D keccak256 (NetworkedAddressBytes_to_const_generic n) a = Some s"
proof -
  have dist: "distinct (drop 4 (nab_digits n))" using n unfolding NetworkedAddressBytes_new_iff by blast
  have string: "Address_to_string D keccak256 (NetworkedAddressBytes_to_const_generic n) a = Some s \<longleftrightarrow>
      decode_check keccak256 s = Some (address_data D n a)"
    using decode_check_iff [OF assms(1)] by (simp add: Address_to_string_def NetworkedAddressBytes_roundtrip)
  show ?thesis
  proof
    assume "from_str_with_unchecked_network D keccak256 (NetworkedAddressBytes_to_const_generic n) s = Inr a"
    then obtain raw byte r1 network k0 spend r2 view r3 kind where
        raw: "decode_check keccak256 s = Some raw" "read_byte raw = Inr (byte, r1)"
          "metadata_from_byte n byte = Inr (network, k0)" "read_address_key D r1 = Inr (spend, r2)"
          "read_address_key D r2 = Inr (view, r3)" "read_kind k0 r3 = Inr (kind, [])"
      and a: "a = \<lparr>addr_network = network, addr_kind = kind, addr_spend = spend, addr_view = view\<rparr>"
      by (auto simp: from_str_with_unchecked_network_def NetworkedAddressBytes_roundtrip read_kind_def Let_def
        split: option.splits sum.splits if_splits)
    from raw(3) have k0: "byte = NetworkedAddressBytes_byte n network k0" "kind_template k0 = k0"
      by (simp_all add: metadata_iff [OF dist])
    from raw(6) have "wf_AddressType kind" "kind_template kind = k0" "r3 = kind_data kind"
      by (simp_all add: read_kind_iff [OF k0(2)])
    moreover have "raw = byte # r1" using raw(2) by (simp add: byte_codec.rd_iff write_byte_def)
    moreover have "wf_Point D spend" "r1 = edwards_compress D spend @ r2" "wf_Point D view" "r2 = edwards_compress D view @ r3"
      using raw(4,5) by (simp_all add: read_address_key_iff)
    moreover have "byte = NetworkedAddressBytes_byte n network kind"
      using k0(1) byte_template [of n network kind] calculation(2) by simp
    ultimately have "wf_Address D a" "raw = address_data D n a" by (simp_all add: wf_Address_def address_data_kind a)
    with raw(1) show "wf_Address D a \<and> Address_to_string D keccak256 (NetworkedAddressBytes_to_const_generic n) a = Some s"
      unfolding string by simp
  next
    assume "wf_Address D a \<and> Address_to_string D keccak256 (NetworkedAddressBytes_to_const_generic n) a = Some s"
    then have wf: "wf_AddressType (addr_kind a)" "wf_Point D (addr_spend a)" "wf_Point D (addr_view a)"
      and s: "decode_check keccak256 s = Some (address_data D n a)" unfolding string by (simp_all add: wf_Address_def)
    have meta: "metadata_from_byte n (NetworkedAddressBytes_byte n (addr_network a) (addr_kind a)) =
        Inr (addr_network a, kind_template (addr_kind a))"
      by (simp add: metadata_iff [OF dist] byte_template kind_template_idem)
    have keys: "read_address_key D (edwards_compress D p @ r) = Inr (p, r)" if "wf_Point D p" for p r
      using that by (simp add: read_address_key_iff)
    have "read_kind (kind_template (addr_kind a)) (kind_data (addr_kind a)) = Inr (addr_kind a, [])"
      using wf(1) read_kind_iff [of "kind_template (addr_kind a)"] by (cases "addr_kind a") simp_all
    then obtain k1 r1 where "read_features (kind_template (addr_kind a)) (kind_data (addr_kind a)) = Inr (k1, r1)"
        "read_payment_id k1 r1 = Inr (addr_kind a, [])" by (auto simp: read_kind_def split: sum.splits)
    with s meta keys wf show "from_str_with_unchecked_network D keccak256 (NetworkedAddressBytes_to_const_generic n) s = Inr a"
      by (simp add: from_str_with_unchecked_network_def NetworkedAddressBytes_roundtrip address_data_kind)
  qed
qed

text \<open>Points which are 32 bytes and their own encoding, and Monero's type bytes.\<close>

definition raw_points :: "(bytes, bytes) dalek" where
  "raw_points = dalek_scalar.extend raw_scalars
     \<lparr>edwards_decompress = (\<lambda>b. if length b = 32 then Some b else None), edwards_compress = (\<lambda>b. b),
      edwards_mul = (\<lambda>_ p. p), ED25519_BASEPOINT_POINT = [], is_torsion_free = (\<lambda>_. True), mul_by_cofactor = (\<lambda>p. p),
      montgomery_to_edwards = (\<lambda>_ _. None), residue_invert = (\<lambda>x. x)\<rparr>"

lemma wf_raw_points: "wf_Point raw_points p \<longleftrightarrow> length p = 32"
  by (simp add: wf_Point_def raw_points_def dalek_scalar.defs)

lemma monero_bytes: "\<exists>m s t n. MONERO_BYTES = Some n \<and> NetworkedAddressBytes_new m s t = Some n"
proof -
  let ?n = "\<lparr>nab_mainnet = \<lparr>ab_legacy = 18, ab_legacy_integrated = 19, ab_subaddress = 42, ab_featured = 70\<rparr>,
    nab_stagenet = \<lparr>ab_legacy = 24, ab_legacy_integrated = 25, ab_subaddress = 36, ab_featured = 86\<rparr>,
    nab_testnet = \<lparr>ab_legacy = 53, ab_legacy_integrated = 54, ab_subaddress = 63, ab_featured = 111\<rparr>\<rparr>"
  have "NetworkedAddressBytes_new (nab_mainnet ?n) (nab_stagenet ?n) (nab_testnet ?n) = Some ?n"
    unfolding NetworkedAddressBytes_new_iff by (simp add: nab_digits_def ab_digits_def)
  moreover from this have "MONERO_BYTES = Some ?n" by (simp add: MONERO_BYTES_def AddressBytes_new_def)
  ultimately show ?thesis by blast
qed

text \<open>C34. Addresses and their strings correspond one to one, for any set of type bytes \<open>NetworkedAddressBytes::new\<close> accepts:
  a string parses to an address if and only if it is what that address is displayed as (and no address fails to
  be displayed).\<close>

theorem address_parse_canonical:
  assumes "hash32 keccak256" and "NetworkedAddressBytes_new mainnet stagenet testnet = Some n"
  shows "(\<exists>s. Address_to_string D keccak256 (NetworkedAddressBytes_to_const_generic n) a = Some s) \<and>
    (from_str_with_unchecked_network D keccak256 (NetworkedAddressBytes_to_const_generic n) s = Inr a \<longleftrightarrow>
     wf_Address D a \<and> Address_to_string D keccak256 (NetworkedAddressBytes_to_const_generic n) a = Some s)"
  using from_str_iff [OF assms, of D s a] encode_total by (auto simp: Address_to_string_def encode_check_def)

theorem address_parse_canonical_witness:
  "\<exists>n s. MONERO_BYTES = Some n \<and>
    from_str_with_unchecked_network raw_points (\<lambda>_. replicate 32 0) (NetworkedAddressBytes_to_const_generic n) s =
    Inr \<lparr>addr_network = Stagenet, addr_kind = Featured True (Some (replicate 8 7)) False,
         addr_spend = replicate 32 1, addr_view = replicate 32 2\<rparr>"
proof -
  let ?k = "\<lambda>_ :: bytes. replicate 32 (0 :: u8)"
  let ?a = "\<lparr>addr_network = Stagenet, addr_kind = Featured True (Some (replicate 8 7)) False,
         addr_spend = replicate 32 1, addr_view = replicate 32 2\<rparr>"
  obtain m st t n where n: "MONERO_BYTES = Some n" "NetworkedAddressBytes_new m st t = Some n" using monero_bytes by blast
  have k: "hash32 ?k" by (simp add: hash32_def)
  have wf: "wf_Address raw_points ?a" by (simp add: wf_Address_def wf_raw_points)
  obtain s where "Address_to_string raw_points ?k (NetworkedAddressBytes_to_const_generic n) ?a = Some s"
    using address_parse_canonical [OF k n(2)] by blast
  with address_parse_canonical [OF k n(2), of raw_points ?a s] wf n(1) show ?thesis by blast
qed

text \<open>A displayed address is no longer than \<open>SIZE_UPPER_BOUND\<close>.\<close>

theorem address_size_bound:
  assumes "hash32 keccak256" and "wf_Address D a" and "Address_to_string D keccak256 ADDRESS_BYTES a = Some s"
  shows "length s \<le> Address_SIZE_UPPER_BOUND"
proof -
  have "length (edwards_compress D (addr_spend a)) = 32" "length (edwards_compress D (addr_view a)) = 32"
    using assms(2) by (simp_all add: wf_Address_def wf_Point_def)
  moreover have "length (varint_write (x :: u8)) \<le> 2" for x
    using varint_u8.wr_upper [of x] by (simp add: UPPER_BOUND_def upper_bound_def)
  then have "length (varint_write (x :: u8)) \<le> 10" "length (varint_write (x :: u8)) + 8 \<le> 10" for x
    using le_trans [OF _ order.refl] by (simp_all add: le_trans [of _ 2])
  then have "length (kind_data (addr_kind a)) \<le> 10"
    using assms(2) by (auto simp: wf_Address_def kind_data_def split: AddressType.splits option.splits)
  ultimately have "length (address_data D n a) \<le> 75" for n by (simp add: address_data_kind)
  then have "5 * length s \<le> 8 * 75 + 34"
    using length_encode_check [OF assms(1) assms(3) [unfolded Address_to_string_def]] by (meson add_le_mono1 mult_le_mono2 order_trans)
  then show ?thesis
    by (simp add: Address_SIZE_UPPER_BOUND_def CHECKSUMMED_UPPER_BOUND_def BASE_256_UPPER_BOUND_def UPPER_BOUND_def upper_bound_def)
qed

theorem address_size_bound_witness:
  "\<exists>s. Address_to_string raw_points (\<lambda>_. replicate 32 0) 0
     \<lparr>addr_network = Mainnet, addr_kind = Legacy, addr_spend = replicate 32 1, addr_view = replicate 32 2\<rparr> = Some s \<and>
     length s \<le> 154"
proof -
  let ?k = "\<lambda>_ :: bytes. replicate 32 (0 :: u8)"
  let ?a = "\<lparr>addr_network = Mainnet, addr_kind = Legacy, addr_spend = replicate 32 1, addr_view = replicate 32 2\<rparr>"
  obtain s where s: "Address_to_string raw_points ?k 0 ?a = Some s"
    using encode_total by (auto simp: Address_to_string_def encode_check_def)
  have "hash32 ?k" "wf_Address raw_points ?a" by (simp_all add: hash32_def wf_Address_def wf_raw_points)
  from address_size_bound [OF this s] s show ?thesis
    by (simp add: Address_SIZE_UPPER_BOUND_def CHECKSUMMED_UPPER_BOUND_def BASE_256_UPPER_BOUND_def UPPER_BOUND_def upper_bound_def)
qed

text \<open>C40. \<open>NetworkedAddressBytes::new\<close> accepts exactly the sets of twelve distinct type bytes, and none is lost in its
  representation as a \<open>u128\<close>: then a type byte determines the network and the kind of an address.\<close>

theorem networked_address_bytes:
  assumes "NetworkedAddressBytes_new mainnet stagenet testnet = Some n"
  shows "NetworkedAddressBytes_from_const_generic (NetworkedAddressBytes_to_const_generic n) = n \<and>
    (metadata_from_byte n byte = Inr (network, kind) \<longleftrightarrow>
       byte = NetworkedAddressBytes_byte n network kind \<and> kind_template kind = kind) \<and>
    (NetworkedAddressBytes_byte n network kind = NetworkedAddressBytes_byte n network' kind' \<longrightarrow>
       network = network' \<and> kind_template kind = kind_template kind')"
proof -
  have dist: "distinct (drop 4 (nab_digits n))" using assms unfolding NetworkedAddressBytes_new_iff by blast
  have "network = network' \<and> kind_template kind = kind_template kind'"
    if "NetworkedAddressBytes_byte n network kind = NetworkedAddressBytes_byte n network' kind'"
    using metadata_iff [OF dist, of "NetworkedAddressBytes_byte n network kind" network "kind_template kind"]
      metadata_iff [OF dist, of "NetworkedAddressBytes_byte n network kind" network' "kind_template kind'"] that
    by (simp add: byte_template kind_template_idem)
  with metadata_iff [OF dist] NetworkedAddressBytes_roundtrip show ?thesis by blast
qed

theorem networked_address_bytes_witness:
  "\<exists>n. MONERO_BYTES = Some n \<and>
    NetworkedAddressBytes_from_const_generic (NetworkedAddressBytes_to_const_generic n) = n \<and>
    metadata_from_byte n (NetworkedAddressBytes_byte n Testnet Subaddress) = Inr (Testnet, Subaddress)"
proof -
  obtain m st t n where n: "MONERO_BYTES = Some n" "NetworkedAddressBytes_new m st t = Some n" using monero_bytes by blast
  from networked_address_bytes [OF n(2), where byte = "NetworkedAddressBytes_byte n Testnet Subaddress" and
      network = Testnet and kind = Subaddress and network' = Testnet and kind' = Subaddress] n(1) show ?thesis by auto
qed

end
