(* ===== verification/Early_Signing.thy ===== *)
theory Early_Signing
  imports Early_Proofs
begin

text \<open>
  Verification accepts what a signer makes: signers of ring signatures, MLSAGs and Borromean range proofs, as Monero had them,
  are given as references, and verification returns success on their results.
\<close>

lemma response_opens:
  assumes "curve_laws D" and "is_torsion_free D p"
  shows "edwards_mul D (r - c * x) p + edwards_mul D c (edwards_mul D x p) = edwards_mul D r p"
    and "edwards_mul D c (edwards_mul D x p) + edwards_mul D (r - c * x) p = edwards_mul D r p"
proof -
  have "edwards_mul D (r - c * x) p = edwards_mul D r p - edwards_mul D (c * x) p"
    using assms by (intro edwards_mul_diff) (simp_all add: curve_laws_def)
  moreover have "edwards_mul D (c * x) p = edwards_mul D c (edwards_mul D x p)"
    using assms by (simp add: curve_laws_def torsion_free_laws_def)
  ultimately show "edwards_mul D (r - c * x) p + edwards_mul D c (edwards_mul D x p) = edwards_mul D r p"
    and "edwards_mul D c (edwards_mul D x p) + edwards_mul D (r - c * x) p = edwards_mul D r p" by simp_all
qed

lemma Scalar_hash_from: "Scalar_hash D k data = Some h \<Longrightarrow> \<exists>s. h = Scalar_from D s"
  by (auto simp: Scalar_hash_def Let_def split: if_splits)

lemma basepoint_torsion_free: "curve_laws D \<Longrightarrow> is_torsion_free D (ED25519_BASEPOINT_POINT D)"
  by (simp add: curve_laws_def torsion_free_laws_def)

subsection \<open>Ring signatures\<close>

definition ring_row ::
  "('s, 'p::plus, 'z) dalek_scheme \<Rightarrow> 'p \<Rightarrow> 's \<Rightarrow> 's \<Rightarrow> 'p \<Rightarrow> 'p \<Rightarrow> bytes" where
  "ring_row D ki c s point generator =
     edwards_compress D (double_mul_basepoint D c point s) @
     edwards_compress D (edwards_mul D s generator + edwards_mul D c ki)"

text \<open>A signer who knows the discrete logarithm \<open>x\<close> of a member of the ring: the challenges and responses of the others are
  random, and its own challenge is what the sum of all has to be.\<close>

definition sign_ring ::
  "('s::comm_ring_1, 'p::ab_group_add, 'z) dalek_scheme \<Rightarrow> (bytes \<Rightarrow> bytes) \<Rightarrow> bytes \<Rightarrow> CompressedPoint list \<Rightarrow> nat \<Rightarrow> 's \<Rightarrow> 's \<Rightarrow>
   's list \<Rightarrow> 's list \<Rightarrow> (RingSignature \<times> CompressedPoint) option" where
  "sign_ring D keccak256 msg_hash ring signer x r cs ss =
     Option.bind (those (map (CompressedPoint_decompress D) ring)) (\<lambda>points.
     Option.bind (those (map (\<lambda>m. Point_biased_hash D keccak256 (CompressedPoint_to_bytes m)) ring)) (\<lambda>generators.
     let ki = edwards_mul D x (generators ! signer);
         row = (\<lambda>i. if i = signer
           then edwards_compress D (edwards_mul D r (ED25519_BASEPOINT_POINT D)) @
                edwards_compress D (edwards_mul D r (generators ! signer))
           else ring_row D ki (cs ! i) (ss ! i) (points ! i) (generators ! i))
     in Option.bind (Scalar_hash D keccak256 (msg_hash @ concat (map row [0..<length ring]))) (\<lambda>h.
        Option.bind (Scalar_into D h) (\<lambda>h.
        let c = h - (sum_list cs - cs ! signer)
        in Some (\<lparr>rs_sigs = map2 (\<lambda>c s. \<lparr>sig_c = Scalar_from D c, sig_s = Scalar_from D s\<rparr>)
                     (cs[signer := c]) (ss[signer := r - c * x])\<rparr>, Point_compress D ki)))))"

lemma ring_loop_rows:
  assumes "curve_laws D"
    and "list_all2 (\<lambda>m p. CompressedPoint_decompress D m = Some p) ring points"
    and "list_all2 (\<lambda>m g. Point_biased_hash D k (CompressedPoint_to_bytes m) = Some g) ring generators"
    and "length cs = length ring" and "length ss = length ring"
  shows "ring_loop D k ki
      (zip ring (map2 (\<lambda>c s. \<lparr>sig_c = Scalar_from D c, sig_s = Scalar_from D s\<rparr>) cs ss)) buf acc =
    Some (Some (buf @ concat (map (\<lambda>i. ring_row D ki (cs ! i) (ss ! i) (points ! i) (generators ! i)) [0..<length ring]),
      acc + sum_list cs))"
  using assms(2-)
proof (induction ring arbitrary: points generators cs ss buf acc)
  case (Cons m ring)
  obtain p points' where p: "points = p # points'" "CompressedPoint_decompress D m = Some p"
    "list_all2 (\<lambda>m p. CompressedPoint_decompress D m = Some p) ring points'"
    using Cons.prems(1) by (auto simp: list_all2_Cons1)
  obtain g generators' where g: "generators = g # generators'" "Point_biased_hash D k (CompressedPoint_to_bytes m) = Some g"
    "list_all2 (\<lambda>m g. Point_biased_hash D k (CompressedPoint_to_bytes m) = Some g) ring generators'"
    using Cons.prems(2) by (auto simp: list_all2_Cons1)
  obtain c cs' s ss' where cs: "cs = c # cs'" "length cs' = length ring" "ss = s # ss'" "length ss' = length ring"
    using Cons.prems(3,4) by (auto simp: length_Suc_conv)
  show ?case
    using p(2) g(2) curve_scalar(1) [OF assms(1)]
    by (simp add: p(1) g(1) cs(1,3) Cons.IH [OF p(3) g(3) cs(2,4)] ring_row_def map_upt_Suc add.assoc Let_def del: upt_Suc)
qed simp

lemma sum_list_replace: "k < length xs \<Longrightarrow> sum_list (xs[k := x]) = sum_list xs - xs ! k + x" for xs :: "'a::ab_group_add list"
proof (induction xs arbitrary: k)
  case (Cons y xs)
  then show ?case by (cases k) (simp_all add: algebra_simps)
qed simp

text \<open>C14. Verification of a ring signature accepts what a signer makes who knows the key of a ring member, for the key image
  of that key, whatever the others' challenges and responses, and without a panic.\<close>

theorem ring_signature_verifies:
  assumes "curve_laws D" and "sign_ring D keccak256 msg_hash ring signer x r cs ss = Some (sig, key_image)"
    and "signer < length ring" and "length cs = length ring" and "length ss = length ring"
    and "ring ! signer = Point_compress D (edwards_mul D x (ED25519_BASEPOINT_POINT D))" and "key_image \<noteq> Point_compress D 0"
  shows "RingSignature_verify D keccak256 sig msg_hash ring key_image = Some True"
proof -
  obtain points generators e where points: "list_all2 (\<lambda>m p. CompressedPoint_decompress D m = Some p) ring points"
    and generators: "list_all2 (\<lambda>m g. Point_biased_hash D keccak256 (CompressedPoint_to_bytes m) = Some g) ring generators"
    and hash: "Scalar_hash D keccak256 (msg_hash @ concat (map (\<lambda>i. if i = signer
           then edwards_compress D (edwards_mul D r (ED25519_BASEPOINT_POINT D)) @
                edwards_compress D (edwards_mul D r (generators ! signer))
           else ring_row D (edwards_mul D x (generators ! signer)) (cs ! i) (ss ! i) (points ! i) (generators ! i))
           [0..<length ring])) = Some (Scalar_from D e)"
    and sig: "sig = \<lparr>rs_sigs = map2 (\<lambda>c s. \<lparr>sig_c = Scalar_from D c, sig_s = Scalar_from D s\<rparr>)
        (cs[signer := e - (sum_list cs - cs ! signer)]) (ss[signer := r - (e - (sum_list cs - cs ! signer)) * x])\<rparr>"
    and image: "key_image = Point_compress D (edwards_mul D x (generators ! signer))"
    using assms(2) Scalar_hash_from curve_scalar(1) [OF assms(1)]
    by (fastforce simp: sign_ring_def Let_def bind_eq_Some_conv those_all2)
  let ?c = "e - (sum_list cs - cs ! signer)" and ?ki = "edwards_mul D x (generators ! signer)"
  let ?cs = "cs[signer := ?c]" and ?ss = "ss[signer := r - ?c * x]"
  have len: "length points = length ring" "length generators = length ring"
    using list_all2_lengthD [OF points] list_all2_lengthD [OF generators] by simp_all
  have free: "is_torsion_free D (generators ! signer)"
    using list_all2_nthD [OF generators assms(3)] biased_hash_torsion_free assms(1) unfolding curve_laws_def by blast
  have "points ! signer = edwards_mul D x (ED25519_BASEPOINT_POINT D)"
    using list_all2_nthD [OF points assms(3)] curve_point(1) [OF assms(1)] by (simp add: assms(6) Point_compress_def)
  then have own: "ring_row D ?ki (?cs ! signer) (?ss ! signer) (points ! signer) (generators ! signer) =
      edwards_compress D (edwards_mul D r (ED25519_BASEPOINT_POINT D)) @ edwards_compress D (edwards_mul D r (generators ! signer))"
    using response_opens [OF assms(1)] free basepoint_torsion_free [OF assms(1)] assms(3-5)
    by (simp add: ring_row_def double_mul_basepoint_def)
  have rows: "map (\<lambda>i. ring_row D ?ki (?cs ! i) (?ss ! i) (points ! i) (generators ! i)) [0..<length ring] =
      map (\<lambda>i. if i = signer
           then edwards_compress D (edwards_mul D r (ED25519_BASEPOINT_POINT D)) @
                edwards_compress D (edwards_mul D r (generators ! signer))
           else ring_row D ?ki (cs ! i) (ss ! i) (points ! i) (generators ! i)) [0..<length ring]"
    using own by (intro map_cong) auto
  have "sum_list ?cs = e" using assms(3,4) by (simp add: sum_list_replace)
  moreover have "?ki \<noteq> 0" using assms(7) image by auto
  ultimately show ?thesis
    using ring_loop_rows [OF assms(1) points generators, of ?cs ?ss ?ki msg_hash 0] hash curve_point(1) [OF assms(1)] free assms(1)
    by (simp add: RingSignature_verify_def sig image Point_compress_def Point_key_image_def rows assms(4,5) curve_laws_def
      torsion_free_laws_def)
qed

subsection \<open>MLSAGs\<close>

definition mlsag_step ::
  "('s::comm_ring_1, 'p::ab_group_add, 'z) dalek_scheme \<Rightarrow> (bytes \<Rightarrow> bytes) \<Rightarrow> bytes \<Rightarrow> CompressedPoint option list \<Rightarrow>
   'p list \<Rightarrow> 's list \<Rightarrow> 's \<Rightarrow> 's option" where
  "mlsag_step D keccak256 msg kis member ss c =
     (case mlsag_layers D keccak256 c (zip (zip member (map (Scalar_from D) ss)) kis) msg of
        Some (Inr buf) \<Rightarrow> Option.bind (Scalar_hash D keccak256 buf) (Scalar_into D)
      | _ \<Rightarrow> None)"

text \<open>What a signer commits to: its nonces over the generators, instead of what the responses give.\<close>

fun nonce_layers ::
  "('s, 'p, 'z) dalek_scheme \<Rightarrow> (bytes \<Rightarrow> bytes) \<Rightarrow> (('p \<times> 's) \<times> CompressedPoint option) list \<Rightarrow> bytes \<Rightarrow> bytes option" where
  "nonce_layers D keccak256 [] buf = Some buf"
| "nonce_layers D keccak256 (((entry, a), ki) # layers) buf =
     (let buf = buf @ edwards_compress D entry @ edwards_compress D (edwards_mul D a (ED25519_BASEPOINT_POINT D))
      in case ki of
           None \<Rightarrow> nonce_layers D keccak256 layers buf
         | Some _ \<Rightarrow>
             Option.bind (Point_biased_hash D keccak256 (edwards_compress D entry)) (\<lambda>generator.
             nonce_layers D keccak256 layers (buf @ edwards_compress D (edwards_mul D a generator))))"

definition sign_mlsag ::
  "('s::comm_ring_1, 'p::ab_group_add, 'z) dalek_scheme \<Rightarrow> (bytes \<Rightarrow> bytes) \<Rightarrow> bytes \<Rightarrow> 'p list list \<Rightarrow>
   CompressedPoint list \<Rightarrow> nat \<Rightarrow> 's list \<Rightarrow> 's list \<Rightarrow> 's list list \<Rightarrow> Mlsag option" where
  "sign_mlsag D keccak256 msg rows key_images signer xs alphas sss =
     (let kis = map Some key_images @ [None];
          step = (\<lambda>i. mlsag_step D keccak256 msg kis (rows ! i) (sss ! i))
      in Option.bind (nonce_layers D keccak256 (zip (zip (rows ! signer) alphas) kis) msg) (\<lambda>buf.
         Option.bind (Scalar_hash D keccak256 buf) (\<lambda>h.
         Option.bind (Scalar_into D h) (\<lambda>c.
         Option.bind (ring_chain step [signer + 1..<length rows] c) (\<lambda>cc.
         Option.bind (ring_chain step [0..<signer] cc) (\<lambda>c.
         Some \<lparr>mlsag_ss = map (map (Scalar_from D)) (sss[signer := map2 (\<lambda>a x. a - c * x) alphas xs]),
               mlsag_cc = Scalar_from D cc\<rparr>))))))"

text \<open>A layer whose discrete logarithm is \<open>x\<close>, with the key image of \<open>x\<close> if it is linkable.\<close>

definition layer_opens ::
  "('s::comm_ring_1, 'p::ab_group_add, 'z) dalek_scheme \<Rightarrow> (bytes \<Rightarrow> bytes) \<Rightarrow> 's \<Rightarrow> CompressedPoint option \<Rightarrow> bool" where
  "layer_opens D keccak256 x ki \<longleftrightarrow>
     (\<forall>key_image. ki = Some key_image \<longrightarrow> (\<exists>generator.
        Point_biased_hash D keccak256 (edwards_compress D (edwards_mul D x (ED25519_BASEPOINT_POINT D))) = Some generator \<and>
        key_image = Point_compress D (edwards_mul D x generator) \<and> edwards_mul D x generator \<noteq> 0))"

lemma layers_open:
  assumes "curve_laws D" and "list_all2 (layer_opens D k) xs kis" and "length alphas = length xs"
  shows "mlsag_layers D k c
      (zip (zip (map (\<lambda>x. edwards_mul D x (ED25519_BASEPOINT_POINT D)) xs)
        (map (Scalar_from D) (map2 (\<lambda>a x. a - c * x) alphas xs))) kis) buf =
    map_option Inr (nonce_layers D k (zip (zip (map (\<lambda>x. edwards_mul D x (ED25519_BASEPOINT_POINT D)) xs) alphas) kis) buf)"
  using assms(2,3)
proof (induction xs kis arbitrary: alphas buf rule: list_all2_induct)
  case (Cons x xs ki kis)
  obtain a alphas' where a: "alphas = a # alphas'" "length alphas' = length xs" using Cons.prems by (auto simp: length_Suc_conv)
  have L: "double_mul_basepoint D c (edwards_mul D x (ED25519_BASEPOINT_POINT D)) (a - c * x) =
      edwards_mul D a (ED25519_BASEPOINT_POINT D)"
    using response_opens(2) [OF assms(1) basepoint_torsion_free [OF assms(1)]] by (simp add: double_mul_basepoint_def)
  note IH = Cons.IH [OF a(2)] and into = curve_scalar(1) [OF assms(1)]
  show ?case
  proof (cases ki)
    case None
    show ?thesis by (simp add: a(1) None into L IH del: map_map)
  next
    case (Some key_image)
    obtain g where g: "Point_biased_hash D k (edwards_compress D (edwards_mul D x (ED25519_BASEPOINT_POINT D))) = Some g"
      "key_image = Point_compress D (edwards_mul D x g)" "edwards_mul D x g \<noteq> 0"
      using Cons.hyps(1) by (auto simp: layer_opens_def Some)
    have free: "is_torsion_free D g" "is_torsion_free D (edwards_mul D x g)"
      using biased_hash_torsion_free [OF _ g(1)] assms(1) by (simp_all add: curve_laws_def torsion_free_laws_def)
    have "CompressedPoint_decompress D key_image = Some (edwards_mul D x g)"
      unfolding g(2) Point_compress_def by (rule curve_point(1) [OF assms(1)])
    moreover have "Point_key_image D (edwards_mul D x g) = Some (edwards_mul D x g)"
      using g(3) free(2) by (simp add: Point_key_image_def)
    ultimately show ?thesis
      using response_opens(1) [OF assms(1) free(1)] by (simp add: a(1) Some into L IH g(1) del: map_map)
  qed
qed simp

lemma ring_chain_map: "ring_chain f (map g js) = ring_chain (\<lambda>j. f (g j)) js"
proof
  fix c
  show "ring_chain f (map g js) c = ring_chain (\<lambda>j. f (g j)) js c"
  proof (induction js arbitrary: c)
    case (Cons j js)
    then show ?case by (cases "f (g j) c") simp_all
  qed simp
qed

lemma mlsag_loop_chain:
  assumes "list_all2 (\<lambda>row ss. length row = length ss) rows sss"
    and "ring_chain (\<lambda>i. mlsag_step D k msg kis (rows ! i) (sss ! i)) [0..<length rows] c = Some c'"
  shows "mlsag_loop D k msg kis (zip rows (map (map (Scalar_from D)) sss)) c = Some (Inr c')"
  using assms
proof (induction rows sss arbitrary: c rule: list_all2_induct)
  case (Cons row rows ss sss)
  have "[0..<length (row # rows)] = 0 # map Suc [0..<length rows]" by (simp add: upt_conv_Cons map_Suc_upt del: upt_Suc)
  then have "Option.bind (mlsag_step D k msg kis row ss c)
      (ring_chain (\<lambda>i. mlsag_step D k msg kis (rows ! i) (sss ! i)) [0..<length rows]) = Some c'"
    using Cons.prems by (simp only: ring_chain.simps ring_chain_map nth_Cons_0 nth_Cons_Suc)
  then obtain d where d: "mlsag_step D k msg kis row ss c = Some d"
    "ring_chain (\<lambda>i. mlsag_step D k msg kis (rows ! i) (sss ! i)) [0..<length rows] d = Some c'"
    by (auto simp only: bind_eq_Some_conv)
  obtain buf h where "mlsag_layers D k c (zip (zip row (map (Scalar_from D) ss)) kis) msg = Some (Inr buf)"
    "Scalar_hash D k buf = Some h" "Scalar_into D h = Some d"
    using d(1) unfolding mlsag_step_def by (auto simp: bind_eq_Some_conv split: option.splits sum.splits)
  then show ?case using Cons.hyps(1) Cons.IH [OF d(2)] by simp
qed simp

text \<open>C15. Verification of an MLSAG accepts what a signer makes who knows the discrete logarithms of a row of the matrix, with
  the key images of the linkable layers, whatever the responses for the other rows, and without a panic.\<close>

theorem mlsag_verifies:
  assumes "curve_laws D" and "RingMatrix_new rows = Inr ring"
    and "sign_mlsag D keccak256 msg rows key_images signer xs alphas sss = Some sig" and "signer < length rows"
    and "rows ! signer = map (\<lambda>x. edwards_mul D x (ED25519_BASEPOINT_POINT D)) xs"
    and "list_all2 (layer_opens D keccak256) xs (map Some key_images @ [None])" and "length alphas = length xs"
    and "length sss = length rows" and "\<forall>ss \<in> set sss. length ss = length xs"
  shows "Mlsag_verify D keccak256 sig msg ring key_images = Some (Inr ())"
proof -
  let ?kis = "map Some key_images @ [None]"
  let ?step = "\<lambda>sss i. mlsag_step D keccak256 msg ?kis (rows ! i) (sss ! i)"
  obtain buf h c0 cc c where buf: "nonce_layers D keccak256 (zip (zip (rows ! signer) alphas) ?kis) msg = Some buf"
    "Scalar_hash D keccak256 buf = Some h" "Scalar_into D h = Some c0"
    and chain: "ring_chain (?step sss) [signer + 1..<length rows] c0 = Some cc" "ring_chain (?step sss) [0..<signer] cc = Some c"
    and sig: "sig = \<lparr>mlsag_ss = map (map (Scalar_from D)) (sss[signer := map2 (\<lambda>a x. a - c * x) alphas xs]),
               mlsag_cc = Scalar_from D cc\<rparr>"
    using assms(3) unfolding sign_mlsag_def Let_def by (auto simp only: bind_eq_Some_conv option.inject)
  let ?sss = "sss[signer := map2 (\<lambda>a x. a - c * x) alphas xs]"
  have "?step ?sss signer c = Some c0"
    using layers_open [OF assms(1,6,7), of c msg] buf assms(4,8) by (simp add: mlsag_step_def assms(5) del: map_map)
  from ring_chain_closed [where f' = "?step ?sss", OF chain this] assms(4)
  have closed: "ring_chain (?step ?sss) [0..<length rows] cc = Some cc" by simp
  have ring: "matrix ring = rows" "length rows \<ge> 2" "\<forall>row \<in> set rows. length row = length (rows ! 0)"
    using assms(2) by (auto simp: RingMatrix_new_def list_ex_iff split: if_splits)
  have "length (rows ! signer) = length xs" by (simp add: assms(5))
  then have len: "length row = length xs" if "row \<in> set rows" for row
    using that ring(3) nth_mem [OF assms(4)] by force
  have "list_all2 (\<lambda>row ss. length row = length ss) rows ?sss"
    using len assms(4,7-9) by (auto simp: list_all2_conv_all_nth nth_list_update)
  from mlsag_loop_chain [OF this closed]
  have loop: "mlsag_loop D keccak256 msg ?kis (zip (matrix ring) (mlsag_ss sig)) cc = Some (Inr cc)" by (simp only: ring(1) sig Mlsag.select_convs)
  have "rows ! 0 \<in> set rows" using ring(2) by (intro nth_mem) linarith
  moreover have "slice_get (matrix ring) 0 = Some (rows ! 0)" using ring(2) by (auto simp: slice_get_def ring(1))
  ultimately have "member_len ring = Some (length key_images + 1)"
    using len list_all2_lengthD [OF assms(6)] by (simp add: member_len_def)
  moreover have "length (mlsag_ss sig) = length (matrix ring)" "Scalar_into D (mlsag_cc sig) = Some cc"
    using assms(8) curve_scalar(1) [OF assms(1)] by (simp_all add: sig ring(1))
  ultimately show ?thesis by (simp add: Mlsag_verify_def loop)
qed

definition ring_example :: "CompressedPoint list" where
  "ring_example = map (Point_compress example_curve) [2, 1]"

lemma ring_example_signed:
  "\<exists>sig. sign_ring example_curve (\<lambda>_. []) [7] ring_example 1 1 2 [2, 0] [1, 0] = Some (sig, Point_compress example_curve 2)"
  by (simp add: sign_ring_def ring_example_def example_decompress example_scalar_hash example_into Let_def)

theorem ring_signature_verifies_witness:
  "\<exists>sig. sign_ring example_curve (\<lambda>_. []) [7] ring_example 1 1 2 [2, 0] [1, 0] = Some (sig, Point_compress example_curve 2) \<and>
     RingSignature_verify example_curve (\<lambda>_. []) sig [7] ring_example (Point_compress example_curve 2) = Some True"
proof -
  obtain sig where sig: "sign_ring example_curve (\<lambda>_. []) [7] ring_example 1 1 2 [2, 0] [1, 0] =
      Some (sig, Point_compress example_curve 2)" using ring_example_signed by blast
  have "RingSignature_verify example_curve (\<lambda>_. []) sig [7] ring_example (Point_compress example_curve 2) = Some True"
  proof (rule ring_signature_verifies [OF example_curve_laws sig])
    show "Point_compress example_curve 2 \<noteq> Point_compress example_curve 0"
      using example_decompress [of 2] example_decompress [of 0] by auto
  qed (simp_all add: ring_example_def)
  with sig show ?thesis by blast
qed

theorem mlsag_verifies_witness:
  "\<exists>sig. sign_mlsag example_curve (\<lambda>_. []) [7] [[2, 1], [1, 2]] [Point_compress example_curve 2] 1 [1, 2] [2, 2] [[1, 2], [0, 0]] = Some sig \<and>
     Mlsag_verify example_curve (\<lambda>_. []) sig [7] \<lparr>matrix = [[2, 1], [1, 2]]\<rparr> [Point_compress example_curve 2] = Some (Inr ())"
proof -
  obtain sig where sig: "sign_mlsag example_curve (\<lambda>_. []) [7] [[2, 1], [1, 2]] [Point_compress example_curve 2] 1 [1, 2] [2, 2]
      [[1, 2], [0, 0]] = Some sig"
    by (simp add: sign_mlsag_def mlsag_step_def example_scalar_hash example_into example_decompress Let_def Point_key_image_def)
  have "Mlsag_verify example_curve (\<lambda>_. []) sig [7] \<lparr>matrix = [[2, 1], [1, 2]]\<rparr> [Point_compress example_curve 2] = Some (Inr ())"
    by (rule mlsag_verifies [OF example_curve_laws _ sig])
      (simp_all add: RingMatrix_new_def layer_opens_def)
  with sig show ?thesis by blast
qed

end
