(* ===== verification/Borromean.thy ===== *)
theory Borromean
  imports Early_Signing
begin

text \<open>
  Borromean range proofs (\<^verbatim>\<open>ringct/borromean/src/lib.rs\<close>): a prover who commits to the bits of an amount, as Monero had it, is the
  reference. Verification accepts its proofs, for the commitment to the amount with the sum of the masks.
\<close>

subsection \<open>The multiples of H\<close>

lemma H_pow_2_loop:
  assumes "1 \<le> n" and "n \<le> 64"
  shows "length (fold (\<lambda>i res. res[i := res ! (i - 1) + res ! (i - 1)]) [1..<n] (replicate 64 H)) = 64 \<and>
    (\<forall>j < n. fold (\<lambda>i res. res[i := res ! (i - 1) + res ! (i - 1)]) [1..<n] (replicate 64 H) ! j = ((\<lambda>p. p + p) ^^ j) H)"
  using assms
proof (induction n rule: dec_induct)
  case (step n)
  obtain m where m: "n = Suc m" using step.hyps(1) by (cases n) auto
  let ?res = "fold (\<lambda>i res. res[i := res ! (i - 1) + res ! (i - 1)]) [1..<n] (replicate 64 H)"
  have res: "length ?res = 64" "\<And>j. j < n \<Longrightarrow> ?res ! j = ((\<lambda>p. p + p) ^^ j) H" using step by auto
  have "fold (\<lambda>i res. res[i := res ! (i - 1) + res ! (i - 1)]) [1..<Suc n] (replicate 64 H) = ?res[n := ?res ! m + ?res ! m]"
    using step.hyps(1) by (simp add: m)
  moreover have "?res ! m + ?res ! m = ((\<lambda>p. p + p) ^^ n) H" using res(2) [of m] by (simp add: m)
  ultimately show ?case using res step.prems by (simp add: nth_list_update less_Suc_eq)
qed simp

lemma H_pow_2_nth:
  assumes "curve_laws D" and "amount_laws D"
  obtains H2 where "H_pow_2 D = Some H2" and "\<And>i. i < 64 \<Longrightarrow> H2 ! i = H_mul D (2 ^ i)"
proof -
  obtain H where H: "edwards_decompress D (CompressedPoint_to_bytes CompressedPoint_H) = Some H" "is_torsion_free D H"
    using assms(2) by (auto simp: amount_laws_def)
  have pow: "((\<lambda>p. p + p) ^^ i) H = H_mul D (2 ^ i)" for i
  proof (induction i)
    case 0
    show ?case using H assms(1) by (simp add: H_mul_def curve_laws_def torsion_free_laws_def)
  next
    case (Suc i)
    have "H_mul D (2 ^ Suc i) = H_mul D (2 ^ i) + H_mul D (2 ^ i)" unfolding power_Suc mult_2 by (rule H_mul_add [OF assms])
    with Suc show ?case by simp
  qed
  have "H_pow_2 D = Some (fold (\<lambda>i res. res[i := res ! (i - 1) + res ! (i - 1)]) [1..<64] (replicate 64 H))"
    unfolding H_pow_2_def H(1) by (simp only: bind.bind_lunit)
  moreover have "\<forall>j < 64. fold (\<lambda>i res. res[i := res ! (i - 1) + res ! (i - 1)]) [1..<64] (replicate 64 H) ! j = H_mul D (2 ^ j)"
    unfolding pow [symmetric] by (rule conjunct2 [OF H_pow_2_loop]) simp_all
  ultimately show thesis using that by blast
qed

subsection \<open>Proving\<close>

text \<open>The scalar a hash becomes, where it is not zero.\<close>

definition reduced_hash :: "('s, 'z) dalek_scalar_scheme \<Rightarrow> (bytes \<Rightarrow> bytes) \<Rightarrow> bytes \<Rightarrow> 's" where
  "reduced_hash D keccak256 data = from_bytes_mod_order D (keccak256 data)"

definition bit_commitment ::
  "('s::comm_ring_1, 'p::ab_group_add, 'z) dalek_scheme \<Rightarrow> u64 \<Rightarrow> nat \<Rightarrow> 's \<Rightarrow> 'p" where
  "bit_commitment D v i m =
     edwards_mul D m (ED25519_BASEPOINT_POINT D) + (if bit v i then H_mul D (2 ^ i) else 0)"

text \<open>A ring of two keys per bit, of which the prover can open one: the other is given a random response \<open>s\<close>. What is committed
  to, and the responses once the challenge is known.\<close>

definition borromean_commit ::
  "('s::comm_ring_1, 'p::ab_group_add, 'z) dalek_scheme \<Rightarrow> (bytes \<Rightarrow> bytes) \<Rightarrow> bool \<Rightarrow> 'p \<Rightarrow> 's \<Rightarrow> 's \<Rightarrow> bytes" where
  "borromean_commit D keccak256 b key_b alpha s =
     (let L = edwards_compress D (edwards_mul D alpha (ED25519_BASEPOINT_POINT D))
      in if b then L
         else edwards_compress D (double_mul_basepoint D (reduced_hash D keccak256 L) key_b s))"

definition borromean_respond ::
  "('s::comm_ring_1, 'p::ab_group_add, 'z) dalek_scheme \<Rightarrow> (bytes \<Rightarrow> bytes) \<Rightarrow> 's \<Rightarrow> bool \<Rightarrow> 'p \<Rightarrow> 's \<Rightarrow> 's \<Rightarrow> 's \<Rightarrow> 's \<times> 's" where
  "borromean_respond D keccak256 ee b key_a m alpha s =
     (if b then (s, alpha - reduced_hash D keccak256 (edwards_compress D (double_mul_basepoint D ee key_a s)) * m)
      else (alpha - ee * m, s))"

definition prove_range ::
  "('s::comm_ring_1, 'p::ab_group_add, 'z) dalek_scheme \<Rightarrow> (bytes \<Rightarrow> bytes) \<Rightarrow> u64 \<Rightarrow> (nat \<Rightarrow> 's) \<Rightarrow> (nat \<Rightarrow> 's) \<Rightarrow> (nat \<Rightarrow> 's) \<Rightarrow>
   BorromeanRange" where
  "prove_range D keccak256 v m alpha s =
     (let C = (\<lambda>i. bit_commitment D v i (m i));
          ee = reduced_hash D keccak256 (concat (map (\<lambda>i.
            borromean_commit D keccak256 (bit v i) (C i - H_mul D (2 ^ i)) (alpha i) (s i)) [0..<64]));
          response = (\<lambda>i. borromean_respond D keccak256 ee (bit v i) (C i) (m i) (alpha i) (s i));
          store = (\<lambda>x. UnreducedScalar (scalar_to_bytes D x))
      in \<lparr>br_sigs = \<lparr>bs_s0 = map (\<lambda>i. store (fst (response i))) [0..<64],
                     bs_s1 = map (\<lambda>i. store (snd (response i))) [0..<64], bs_ee = Scalar_from D ee\<rparr>,
          br_bit_commitments = map (\<lambda>i. Point_compress D (C i)) [0..<64]\<rparr>)"

text \<open>Reading back the bytes of a reduced scalar, whose highest bit is clear.\<close>

definition reduction_laws :: "('s, 'z) dalek_scalar_scheme \<Rightarrow> bool" where
  "reduction_laws D \<longleftrightarrow>
     (\<forall>s. from_bytes_mod_order D (scalar_to_bytes D s) = s \<and> scalar_to_bytes D s ! 31 AND 128 = 0)"

lemma borromean_round_respond:
  assumes "curve_laws D" and "hashes_total D k" and "reduction_laws D"
    and "(if b then key_b else key_a) = edwards_mul D m (ED25519_BASEPOINT_POINT D)"
    and "borromean_respond D k ee b key_a m alpha s = (s0, s1)"
  shows "borromean_round D k (Scalar_from D ee) key_a key_b (UnreducedScalar (scalar_to_bytes D s0))
    (UnreducedScalar (scalar_to_bytes D s1)) = Some (borromean_commit D k b key_b alpha s)"
proof -
  note open_ = response_opens(2) [OF assms(1) basepoint_torsion_free [OF assms(1)]]
  have hash: "Scalar_hash D k data = Some (Scalar_from D (reduced_hash D k data))" for data
    unfolding reduced_hash_def by (rule Scalar_hash_value [OF assms(2)])
  have slide: "ref10_slide_scalar_vartime D (UnreducedScalar (scalar_to_bytes D x)) = Scalar_from D x" for x
    using assms(3) by (simp add: reduction_laws_def)
  show ?thesis
    using assms(4,5) curve_scalar(1) [OF assms(1)]
    by (cases b) (auto simp: borromean_round_def borromean_respond_def borromean_commit_def hash slide Let_def open_
        double_mul_basepoint_def simp del: ref10_slide_scalar_vartime.simps)
qed

lemma H_mul_bits:
  assumes "curve_laws D" and "amount_laws D"
  shows "(\<Sum>i\<leftarrow>[0..<n]. if bit w i then H_mul D (2 ^ i) else 0) = H_mul D (of_nat (take_bit n w))"
proof (induction n)
  case 0
  show ?case using H_mul_0 [OF assms] by simp
next
  case (Suc n)
  have "take_bit (Suc n) w = take_bit n w + (if bit w n then 2 ^ n else 0)"
    by (simp add: take_bit_Suc_from_most)
  with Suc show ?case using H_mul_add [OF assms] H_mul_0 [OF assms] by simp
qed

lemma bit_commitments_sum:
  assumes "curve_laws D" and "amount_laws D"
  shows "Commitment_commit D \<lparr>mask = Scalar_from D (\<Sum>i\<leftarrow>[0..<64]. m i), amount = v\<rparr> =
    Some (\<Sum>i\<leftarrow>[0..<64]. bit_commitment D v i (m i))"
proof -
  have sum: "(\<Sum>i\<leftarrow>xs. edwards_mul D (m i) (ED25519_BASEPOINT_POINT D)) = edwards_mul D (\<Sum>i\<leftarrow>xs. m i) (ED25519_BASEPOINT_POINT D)" for xs
    using assms(1) basepoint_mul_0 [OF assms(1)] by (induction xs) (simp_all add: curve_laws_def torsion_free_laws_def)
  have "take_bit 64 (unat v) = unat v" by (rule take_bit_nat_eq_self) (use unsigned_less [of v] in simp)
  moreover have "scalar_from_u64 D v = of_nat (unat v)" using assms(2) by (simp add: amount_laws_def)
  moreover obtain H where "edwards_decompress D (CompressedPoint_to_bytes CompressedPoint_H) = Some H"
    using assms(2) by (auto simp: amount_laws_def)
  ultimately show ?thesis
    using H_mul_bits [OF assms, of "unat v" 64] sum [of "[0..<64]"] curve_scalar(1) [OF assms(1)]
    by (simp add: Commitment_commit_def bit_commitment_def sum_list_addf H_mul_def bit_unsigned_iff del: upt_rec_numeral)
qed

text \<open>C16. A Borromean range proof made for a 64-bit amount verifies, for the commitment to the amount whose mask is the sum of the
  bits' masks: every amount a \<open>u64\<close> holds can be proven, and verifying the proof does not panic.\<close>

theorem borromean_range_verifies:
  assumes "curve_laws D" and "amount_laws D" and "hashes_total D keccak256" and "reduction_laws D"
  shows "\<exists>P. Commitment_commit D \<lparr>mask = Scalar_from D (\<Sum>i\<leftarrow>[0..<64]. m i), amount = v\<rparr> = Some P \<and>
    BorromeanRange_verify D keccak256 (prove_range D keccak256 v m alpha s) (Point_compress D P) = Some True"
proof -
  let ?C = "\<lambda>i. bit_commitment D v i (m i)"
  let ?commit = "\<lambda>i. borromean_commit D keccak256 (bit v i) (?C i - H_mul D (2 ^ i)) (alpha i) (s i)"
  let ?ee = "reduced_hash D keccak256 (concat (map ?commit [0..<64]))"
  let ?sigs = "br_sigs (prove_range D keccak256 v m alpha s)"
  obtain H2 where H2: "H_pow_2 D = Some H2" "\<And>i. i < 64 \<Longrightarrow> H2 ! i = H_mul D (2 ^ i)" using H_pow_2_nth [OF assms(1,2)] by blast
  have points: "those (map (CompressedPoint_decompress D) (br_bit_commitments (prove_range D keccak256 v m alpha s))) =
      Some (map ?C [0..<64])"
    using curve_point(1) [OF assms(1)] by (simp add: prove_range_def Let_def Point_compress_def comp_def those_map del: upt_rec_numeral)
  have sub: "those (map (\<lambda>i. Option.bind (slice_get (map ?C [0..<64]) i) (\<lambda>c. Some (c - H2 ! i))) [0..<64]) =
      Some (map (\<lambda>i. ?C i - H_mul D (2 ^ i)) [0..<64])"
    by (rule those_map_cong_Some) (simp add: slice_get_def H2(2) del: upt_rec_numeral)
  have round: "those (map (\<lambda>i. Option.bind (slice_get (map ?C [0..<64]) i) (\<lambda>key_a.
        Option.bind (slice_get (map (\<lambda>i. ?C i - H_mul D (2 ^ i)) [0..<64]) i) (\<lambda>key_b.
        borromean_round D keccak256 (bs_ee ?sigs) key_a key_b (bs_s0 ?sigs ! i) (bs_s1 ?sigs ! i)))) [0..<64]) =
      Some (map ?commit [0..<64])"
  proof (rule those_map_cong_Some)
    fix i :: nat
    assume "i \<in> set [0..<64]"
    then have i: "i < 64" by simp
    let ?r = "borromean_respond D keccak256 ?ee (bit v i) (?C i) (m i) (alpha i) (s i)"
    have "borromean_round D keccak256 (Scalar_from D ?ee) (?C i) (?C i - H_mul D (2 ^ i))
        (UnreducedScalar (scalar_to_bytes D (fst ?r))) (UnreducedScalar (scalar_to_bytes D (snd ?r))) = Some (?commit i)"
      by (rule borromean_round_respond [OF assms(1,3,4)]) (simp_all add: bit_commitment_def)
    with i show "Option.bind (slice_get (map ?C [0..<64]) i) (\<lambda>key_a.
        Option.bind (slice_get (map (\<lambda>i. ?C i - H_mul D (2 ^ i)) [0..<64]) i) (\<lambda>key_b.
        borromean_round D keccak256 (bs_ee ?sigs) key_a key_b (bs_s0 ?sigs ! i) (bs_s1 ?sigs ! i))) = Some (?commit i)"
      by (simp add: slice_get_def prove_range_def Let_def del: upt_rec_numeral)
  qed
  have "bs_ee ?sigs = Scalar_from D ?ee" by (simp add: prove_range_def Let_def)
  then have "BorromeanSignatures_verify D keccak256 ?sigs (map ?C [0..<64]) (map (\<lambda>i. ?C i - H_mul D (2 ^ i)) [0..<64]) = Some True"
    unfolding BorromeanSignatures_verify_def round using assms(3)
    by (simp add: Scalar_hash_def hashes_total_def reduced_hash_def del: upt_rec_numeral)
  then show ?thesis
    unfolding bit_commitments_sum [OF assms(1,2)] BorromeanRange_verify_def points
    by (simp add: Point_compress_def H2(1) sub del: upt_rec_numeral)
qed

definition reducing_curve :: "(3, 3) dalek" where
  "reducing_curve = example_curve\<lparr>from_bytes_mod_order := (\<lambda>b.
     case from_bytes_3 (Scalar_write Scalar_INV_EIGHT) b of None \<Rightarrow> 1 | Some s \<Rightarrow> s)\<rparr>"

lemma reducing_curve_laws:
  "curve_laws reducing_curve" "amount_laws reducing_curve"
  "hashes_total reducing_curve (\<lambda>_. [])" "reduction_laws reducing_curve"
proof -
  have "Scalar_into reducing_curve s = Scalar_into example_curve s" for s
    by (cases s) (simp add: reducing_curve_def)
  then show "curve_laws reducing_curve"
    using example_curve_laws by (simp add: reducing_curve_def curve_laws_def torsion_free_laws_def wf_dalek_scalar_def wf_Point_def)
  show "amount_laws reducing_curve"
    using example_amount_laws by (simp add: reducing_curve_def amount_laws_def)
  have "Point_biased_hash reducing_curve k data \<noteq> None" for k data
    by (simp add: reducing_curve_def Point_biased_hash_def Let_def split: prod.split)
  then show "hashes_total reducing_curve (\<lambda>_. [])"
    by (simp add: hashes_total_def reducing_curve_def from_bytes_3_def bytes_3_def Scalar_INV_EIGHT_def)
  have "\<forall>x. bytes_3 (Scalar_write Scalar_INV_EIGHT) x ! 31 AND 128 = 0"
    by (simp add: bytes_3_def Scalar_INV_EIGHT_def)
  then show "reduction_laws reducing_curve"
    by (simp add: reduction_laws_def reducing_curve_def example_bytes)
qed

theorem borromean_range_verifies_witness:
  "\<exists>P. Commitment_commit reducing_curve \<lparr>mask = Scalar_from reducing_curve (\<Sum>i\<leftarrow>[0..<64]. of_nat i), amount = 2 ^ 63 + 5\<rparr> = Some P \<and>
    BorromeanRange_verify reducing_curve (\<lambda>_. []) (prove_range reducing_curve (\<lambda>_. []) (2 ^ 63 + 5) of_nat (\<lambda>i. of_nat (i * i))
      (\<lambda>i. 1)) (Point_compress reducing_curve P) = Some True"
  by (rule borromean_range_verifies [OF reducing_curve_laws])

end
