(* ===== verification/Mlsag_Matrix.thy ===== *)
theory Mlsag_Matrix
  imports Early_Proofs
begin

text \<open>
  The matrix an aggregate MLSAG is over: what the builder's \<open>new\<close>, \<open>push_ring\<close> and \<open>build\<close> (\<^verbatim>\<open>ringct/mlsag/src/lib.rs\<close>) make of the
  rings pushed. They do not panic, and the last layer is the difference of the amounts.
\<close>

definition wf_builder :: "'p AggregateRingMatrixBuilder \<Rightarrow> bool" where
  "wf_builder b \<longleftrightarrow> length (key_ring b) = length (amounts_ring b)"

definition ring_points ::
  "('s, 'p, 'z) dalek_scheme \<Rightarrow> (CompressedPoint \<times> CompressedPoint) list \<Rightarrow> ('p \<times> 'p) list \<Rightarrow> bool" where
  "ring_points D = list_all2 (\<lambda>(key, commitment) (K, C).
     CompressedPoint_decompress D key = Some K \<and> CompressedPoint_decompress D commitment = Some C)"

lemma push_ring_loop_total:
  "i + length ring \<le> length (key_ring b) \<Longrightarrow> i + length ring \<le> length (amounts_ring b) \<Longrightarrow>
   \<exists>res b'. push_ring_loop D i ring b = Some (res, b') \<and> wf_builder b' = wf_builder b"
proof (induction ring arbitrary: i b)
  case (Cons m ring)
  obtain key commitment where m: "m = (key, commitment)" by (cases m)
  show ?case
  proof (cases "CompressedPoint_decompress D key = None \<or> CompressedPoint_decompress D commitment = None")
    case True
    then show ?thesis using Cons.prems by (auto simp: m Let_def wf_builder_def split: option.split)
  next
    case False
    then obtain K C where KC: "CompressedPoint_decompress D key = Some K" "CompressedPoint_decompress D commitment = Some C" by auto
    let ?b = "b\<lparr>key_ring := (key_ring b)[i := key_ring b ! i @ [K]], amounts_ring := (amounts_ring b)[i := amounts_ring b ! i + C]\<rparr>"
    have "\<exists>res b'. push_ring_loop D (i + 1) ring ?b = Some (res, b') \<and> wf_builder b' = wf_builder ?b"
      by (rule Cons.IH) (use Cons.prems in simp_all)
    moreover have "wf_builder ?b = wf_builder b" by (simp add: wf_builder_def)
    ultimately show ?thesis using KC Cons.prems by (simp add: m Let_def)
  qed
qed simp

lemma take_drop_update:
  assumes "i < length xs"
  shows "take (Suc i) (xs[i := y]) = take i xs @ [y]" and "drop (Suc i) (xs[i := y]) = drop (Suc i) xs"
  using assms by (simp_all add: take_Suc_conv_app_nth)

lemma push_ring_loop_ok:
  assumes "push_ring_loop D i ring b = Some (Inr (), b')"
    and "i + length ring = length (key_ring b)" and "wf_builder b"
  shows "\<exists>points. ring_points D ring points \<and> b' = b\<lparr>
    key_ring := take i (key_ring b) @ map2 (\<lambda>row p. row @ [fst p]) (drop i (key_ring b)) points,
    amounts_ring := take i (amounts_ring b) @ map2 (\<lambda>a p. a + snd p) (drop i (amounts_ring b)) points\<rparr>"
  using assms
proof (induction ring arbitrary: i b)
  case Nil
  then show ?case by (intro exI [of _ "[]"]) (simp add: ring_points_def wf_builder_def)
next
  case (Cons m ring)
  obtain key commitment where m: "m = (key, commitment)" by (cases m)
  have i: "i < length (key_ring b)" "i < length (amounts_ring b)" using Cons.prems by (simp_all add: wf_builder_def)
  obtain K C where KC: "CompressedPoint_decompress D key = Some K" "CompressedPoint_decompress D commitment = Some C"
    using Cons.prems(1) i by (auto simp: m Let_def split: option.splits)
  let ?b = "b\<lparr>key_ring := (key_ring b)[i := key_ring b ! i @ [K]], amounts_ring := (amounts_ring b)[i := amounts_ring b ! i + C]\<rparr>"
  have "push_ring_loop D (i + 1) ring ?b = Some (Inr (), b')" using Cons.prems(1) KC i by (simp add: m Let_def)
  from Cons.IH [OF this] Cons.prems(2,3) obtain points where points: "ring_points D ring points"
    and b': "b' = ?b\<lparr>
      key_ring := take (i + 1) (key_ring ?b) @ map2 (\<lambda>row p. row @ [fst p]) (drop (i + 1) (key_ring ?b)) points,
      amounts_ring := take (i + 1) (amounts_ring ?b) @ map2 (\<lambda>a p. a + snd p) (drop (i + 1) (amounts_ring ?b)) points\<rparr>"
    by (auto simp: wf_builder_def)
  have "ring_points D (m # ring) ((K, C) # points)" using points KC by (simp add: ring_points_def m)
  moreover have "drop i (key_ring b) = key_ring b ! i # drop (Suc i) (key_ring b)"
    "drop i (amounts_ring b) = amounts_ring b ! i # drop (Suc i) (amounts_ring b)"
    using i by (simp_all add: Cons_nth_drop_Suc)
  then have "b' = b\<lparr>
    key_ring := take i (key_ring b) @ map2 (\<lambda>row p. row @ [fst p]) (drop i (key_ring b)) ((K, C) # points),
    amounts_ring := take i (amounts_ring b) @ map2 (\<lambda>a p. a + snd p) (drop i (amounts_ring b)) ((K, C) # points)\<rparr>"
    using i by (simp add: b' take_drop_update)
  ultimately show ?case by blast
qed

fun push_rings ::
  "('s, 'p::ab_group_add, 'z) dalek_scheme \<Rightarrow> 'p AggregateRingMatrixBuilder \<Rightarrow> (CompressedPoint \<times> CompressedPoint) list list \<Rightarrow>
   ((MlsagError + unit) \<times> 'p AggregateRingMatrixBuilder) option" where
  "push_rings D self [] = Some (Inr (), self)"
| "push_rings D self (ring # rings) =
     Option.bind (push_ring D self ring) (\<lambda>(res, self).
     case res of Inl e \<Rightarrow> Some (Inl e, self) | Inr _ \<Rightarrow> push_rings D self rings)"

lemma push_ring_total:
  assumes "wf_builder b"
  shows "\<exists>res b'. push_ring D b ring = Some (res, b') \<and> wf_builder b'"
proof -
  let ?b = "if key_ring b = []
    then b\<lparr>key_ring := replicate (length ring) [], amounts_ring := replicate (length ring) (- sum_out b)\<rparr> else b"
  have wf: "wf_builder ?b" using assms by (simp add: wf_builder_def)
  show ?thesis
  proof (cases "length (amounts_ring ?b) \<noteq> length ring \<or> ring = []")
    case True
    then have "push_ring D b ring = Some (Inl InvalidRing, ?b)" unfolding push_ring_def Let_def by (simp only: if_True)
    with wf show ?thesis by blast
  next
    case False
    then have "push_ring D b ring = push_ring_loop D 0 ring ?b" unfolding push_ring_def Let_def by (simp only: if_False)
    moreover have "\<exists>res b'. push_ring_loop D 0 ring ?b = Some (res, b') \<and> wf_builder b' = wf_builder ?b"
      by (rule push_ring_loop_total) (use wf False in \<open>simp_all add: wf_builder_def\<close>)
    ultimately show ?thesis using wf by metis
  qed
qed

lemma push_rings_total:
  "wf_builder b \<Longrightarrow> \<exists>res b'. push_rings D b rings = Some (res, b') \<and> wf_builder b'"
proof (induction rings arbitrary: b)
  case (Cons ring rings)
  obtain res b1 where b1: "push_ring D b ring = Some (res, b1)" "wf_builder b1" using push_ring_total [OF Cons.prems] by blast
  with Cons.IH [OF b1(2)] show ?case by (cases res) auto
qed simp

text \<open>What the builder holds after rings with these points were pushed.\<close>

definition pushed :: "('p::ab_group_add \<times> 'p) list list \<Rightarrow> nat \<Rightarrow> 'p AggregateRingMatrixBuilder \<Rightarrow> bool" where
  "pushed points n b \<longleftrightarrow>
     key_ring b = map (\<lambda>i. map (\<lambda>ps. fst (ps ! i)) points) [0..<n] \<and>
     amounts_ring b = map (\<lambda>i. sum_list (map (\<lambda>ps. snd (ps ! i)) points) - sum_out b) [0..<n]"

lemma push_ring_pushed:
  assumes "push_ring D b ring = Some (Inr (), b')"
    and "key_ring b = [] \<and> points = [] \<and> n = length ring \<or> 0 < n \<and> pushed points n b"
  shows "\<exists>ps. ring_points D ring ps \<and> 0 < n \<and> length ps = n \<and> pushed (points @ [ps]) n b' \<and> sum_out b' = sum_out b"
proof -
  let ?b = "if key_ring b = []
    then b\<lparr>key_ring := replicate (length ring) [], amounts_ring := replicate (length ring) (- sum_out b)\<rparr> else b"
  have b: "pushed points n ?b" "sum_out ?b = sum_out b"
    using assms(2) by (auto simp: pushed_def map_replicate_const)
  have run: "length (amounts_ring ?b) = length ring" "ring \<noteq> []" "push_ring_loop D 0 ring ?b = Some (Inr (), b')"
    using assms(1) unfolding push_ring_def Let_def by (auto simp del: push_ring_loop.simps split: if_splits)
  have n: "n = length ring" "wf_builder ?b" using b(1) run(1) by (simp_all add: pushed_def wf_builder_def)
  obtain ps where ps: "ring_points D ring ps" and b': "b' = ?b\<lparr>
    key_ring := map2 (\<lambda>row p. row @ [fst p]) (key_ring ?b) ps, amounts_ring := map2 (\<lambda>a p. a + snd p) (amounts_ring ?b) ps\<rparr>"
    using push_ring_loop_ok [OF run(3) _ n(2)] n b(1) by (auto simp: pushed_def)
  have len: "length ps = n" using list_all2_lengthD [OF ps [unfolded ring_points_def]] n(1) by simp
  have "pushed (points @ [ps]) n b'"
    unfolding pushed_def using b len
    by (auto simp: b' pushed_def intro!: nth_equalityI)
  then show ?thesis using ps len n(1) run(2) b(2) b' by auto
qed

lemma push_rings_pushed:
  assumes "push_rings D b rings = Some (Inr (), b')"
    and "rings \<noteq> [] \<and> key_ring b = [] \<and> points = [] \<and> n = length (hd rings) \<or> 0 < n \<and> pushed points n b"
  shows "\<exists>pss. list_all2 (ring_points D) rings pss \<and> 0 < n \<and> (\<forall>ps \<in> set pss. length ps = n) \<and>
    pushed (points @ pss) n b' \<and> sum_out b' = sum_out b"
  using assms
proof (induction rings arbitrary: b points)
  case Nil
  then show ?case by auto
next
  case (Cons ring rings)
  obtain res b1 where "push_ring D b ring = Some (res, b1)"
    "(case res of Inl e \<Rightarrow> Some (Inl e, b1) | Inr _ \<Rightarrow> push_rings D b1 rings) = Some (Inr (), b')"
    using Cons.prems(1) by (auto simp: bind_eq_Some_conv)
  then have b1: "push_ring D b ring = Some (Inr (), b1)" "push_rings D b1 rings = Some (Inr (), b')" by (cases res; simp)+
  have "key_ring b = [] \<and> points = [] \<and> n = length ring \<or> 0 < n \<and> pushed points n b" using Cons.prems(2) by auto
  from push_ring_pushed [OF b1(1) this] obtain ps where ps: "ring_points D ring ps" "0 < n" "length ps = n"
    "pushed (points @ [ps]) n b1" "sum_out b1 = sum_out b" by blast
  then obtain pss where "list_all2 (ring_points D) rings pss" "\<forall>ps \<in> set pss. length ps = n"
    "pushed ((points @ [ps]) @ pss) n b'" "sum_out b' = sum_out b1"
    using Cons.IH [OF b1(2), of "points @ [ps]"] by blast
  with ps show ?case by (intro exI [of _ "ps # pss"]) simp
qed

lemma fold_append_at:
  "i + length xs \<le> length rows \<Longrightarrow>
   fold (\<lambda>(i, a) rows. rows[i := rows ! i @ [a]]) (enumerate i xs) rows =
   take i rows @ map2 (\<lambda>row a. row @ [a]) (take (length xs) (drop i rows)) xs @ drop (i + length xs) rows"
proof (induction xs arbitrary: i rows)
  case (Cons x xs)
  have i: "i < length rows" using Cons.prems by simp
  have "drop i rows = rows ! i # drop (Suc i) rows" using i by (simp add: Cons_nth_drop_Suc)
  then show ?case
    using Cons.IH [of "Suc i" "rows[i := rows ! i @ [x]]"] Cons.prems take_drop_update [OF i]
    by (simp add: drop_update_cancel)
qed simp

text \<open>C17. The matrix an aggregate MLSAG is verified over: the builder does not panic, whatever is pushed. If all rings were
  accepted, the matrix has a row per ring member, with a key of each input and, in the last layer, the sum of the inputs'
  commitments less the commitments of the outputs and the fee.\<close>

theorem aggregate_matrix:
  assumes "AggregateRingMatrixBuilder_new D commitments fee = Some (Inr b)" and "rings \<noteq> []"
  shows "\<exists>res b'. push_rings D b rings = Some (res, b') \<and> AggregateRingMatrixBuilder_build b' \<noteq> None \<and>
    (res = Inr () \<longrightarrow> (\<exists>outs H pss. list_all2 (\<lambda>c p. CompressedPoint_decompress D c = Some p) commitments outs \<and>
       CompressedPoint_decompress D CompressedPoint_H = Some H \<and>
       list_all2 (ring_points D) rings pss \<and> (\<forall>ring \<in> set rings. length ring = length (hd rings)) \<and>
       AggregateRingMatrixBuilder_build b' = Some (RingMatrix_new (map (\<lambda>i. map (\<lambda>ps. fst (ps ! i)) pss @
         [sum_list (map (\<lambda>ps. snd (ps ! i)) pss) - (sum_list outs + edwards_mul D (scalar_from_u64 D fee) H)])
         [0..<length (hd rings)]))))"
proof -
  obtain outs H where outs: "list_all2 (\<lambda>c p. CompressedPoint_decompress D c = Some p) commitments outs"
    "CompressedPoint_decompress D CompressedPoint_H = Some H"
    and b: "b = \<lparr>key_ring = [], amounts_ring = [], sum_out = sum_list outs + edwards_mul D (scalar_from_u64 D fee) H\<rparr>"
    using assms(1) by (auto simp: AggregateRingMatrixBuilder_new_def bind_eq_Some_conv those_all2 split: option.splits)
  obtain res b' where run: "push_rings D b rings = Some (res, b')" "wf_builder b'"
    using push_rings_total [of b D rings] by (auto simp: b wf_builder_def)
  have build: "AggregateRingMatrixBuilder_build b' \<noteq> None"
    using run(2) by (simp add: AggregateRingMatrixBuilder_build_def wf_builder_def)
  show ?thesis
  proof (cases "res = Inr ()")
    case True
    from push_rings_pushed [OF run(1) [unfolded True], of "[]" "length (hd rings)"] assms(2) b obtain pss where
      pss: "list_all2 (ring_points D) rings pss" "\<forall>ps \<in> set pss. length ps = length (hd rings)"
      "pushed pss (length (hd rings)) b'" "sum_out b' = sum_out b" by auto
    have "list_all2 (\<lambda>ring ps. length ring = length ps) rings pss"
      using pss(1) by (rule list_all2_mono) (simp add: ring_points_def list_all2_lengthD)
    then have "\<exists>ps \<in> set pss. length ring = length ps" if "ring \<in> set rings" for ring
      using that by (induction rule: list_all2_induct) auto
    with pss(2) have "\<forall>ring \<in> set rings. length ring = length (hd rings)" by force
    moreover have "AggregateRingMatrixBuilder_build b' = Some (RingMatrix_new (map (\<lambda>i. map (\<lambda>ps. fst (ps ! i)) pss @
         [sum_list (map (\<lambda>ps. snd (ps ! i)) pss) - (sum_list outs + edwards_mul D (scalar_from_u64 D fee) H)])
         [0..<length (hd rings)]))"
      using pss(3,4) fold_append_at [of 0 "amounts_ring b'" "key_ring b'"]
      by (simp add: AggregateRingMatrixBuilder_build_def pushed_def b map2_map_map)
    ultimately show ?thesis using run(1) build outs pss(1) by blast
  qed (use run(1) build in blast)
qed

theorem aggregate_matrix_witness:
  "\<exists>b res b'. AggregateRingMatrixBuilder_new example_curve [Point_compress example_curve 1] 1 = Some (Inr b) \<and>
    push_rings example_curve b [[(Point_compress example_curve 1, Point_compress example_curve 2),
        (Point_compress example_curve 2, Point_compress example_curve 0)]] = Some (res, b') \<and> res = Inr () \<and>
    AggregateRingMatrixBuilder_build b' = Some (Inr \<lparr>matrix = [[1, 2], [2, 0]]\<rparr>)"
proof -
  let ?rings = "[[(Point_compress example_curve 1, Point_compress example_curve 2),
        (Point_compress example_curve 2, Point_compress example_curve 0)]]"
  have H: "CompressedPoint_decompress example_curve CompressedPoint_H = Some 2"
    using example_decompress [of 2] by (simp add: Point_compress_def bytes_3_def CompressedPoint_H_def)
  obtain b where b: "AggregateRingMatrixBuilder_new example_curve [Point_compress example_curve 1] 1 = Some (Inr b)"
    by (simp add: AggregateRingMatrixBuilder_new_def example_decompress H)
  have res: "res = Inr ()" if "push_rings example_curve b ?rings = Some (res, b')" for res b'
    using b that
    by (auto simp: AggregateRingMatrixBuilder_new_def push_ring_def example_decompress H Let_def)
  obtain res b' outs H' pss where run: "push_rings example_curve b ?rings = Some (res, b')"
    "list_all2 (\<lambda>c p. CompressedPoint_decompress example_curve c = Some p) [Point_compress example_curve 1] outs"
    "CompressedPoint_decompress example_curve CompressedPoint_H = Some H'" "list_all2 (ring_points example_curve) ?rings pss"
    "AggregateRingMatrixBuilder_build b' = Some (RingMatrix_new (map (\<lambda>i. map (\<lambda>ps. fst (ps ! i)) pss @
         [sum_list (map (\<lambda>ps. snd (ps ! i)) pss) - (sum_list outs + edwards_mul example_curve (scalar_from_u64 example_curve 1) H')])
         [0..<length (hd ?rings)]))"
    using aggregate_matrix [OF b, of ?rings] res by blast
  have "outs = [1]" "H' = 2" "pss = [[(1, 2), (2, 0)]]"
    using run(2-4) by (simp_all add: list_all2_Cons1 ring_points_def example_decompress H)
  with run(5) have "AggregateRingMatrixBuilder_build b' = Some (Inr \<lparr>matrix = [[1, 2], [2, 0]]\<rparr>)"
    by (simp add: RingMatrix_new_def)
  with b run(1) res [OF run(1)] show ?thesis by blast
qed

end
