(* ===== verification/Tx_Extra.thy ===== *)
theory Tx_Extra
  imports Ed25519 "HOL-Library.Multiset"
begin

unbundle bit_operations_syntax

text \<open>
  A transaction's extra (\<^verbatim>\<open>wallet/src/extra.rs\<close>): payment IDs, the fields, and the list of them the wallet writes and
  reads. The reader of the whole takes a byte slice, whose \<open>fill_buf\<close> is everything left of it, and never fails: it
  stops at the end or before the first field it cannot read, and what it returns is the list of the fields.

  The theory shows that an extra is written as the stable sort of its fields, from which reading recovers
  them, and that the keys, the payment ID and the arbitrary data it carries survive.
\<close>

definition MAX_TX_EXTRA_NONCE_SIZE :: nat where
  "MAX_TX_EXTRA_NONCE_SIZE = 255"

definition PAYMENT_ID_MARKER :: u8 where
  "PAYMENT_ID_MARKER = 0"

definition ENCRYPTED_PAYMENT_ID_MARKER :: u8 where
  "ENCRYPTED_PAYMENT_ID_MARKER = 1"

definition ARBITRARY_DATA_MARKER :: u8 where
  "ARBITRARY_DATA_MARKER = 127"

definition MAX_ARBITRARY_DATA_SIZE :: nat where
  "MAX_ARBITRARY_DATA_SIZE = MAX_TX_EXTRA_NONCE_SIZE - 1"

definition MAX_EXTRA_SIZE_BY_RELAY_RULE :: nat where
  "MAX_EXTRA_SIZE_BY_RELAY_RULE = 1060"

subsection \<open>Payment IDs\<close>

datatype PaymentId = Unencrypted bytes | Encrypted bytes

fun PaymentId_bitxor :: "PaymentId \<Rightarrow> bytes \<Rightarrow> PaymentId" where
  "PaymentId_bitxor (Unencrypted pid) _ = Unencrypted pid"
| "PaymentId_bitxor (Encrypted pid) bytes =
     Encrypted (to_le_bytes ((from_le_bytes pid :: u64) XOR from_le_bytes bytes))"

fun PaymentId_write :: "PaymentId \<Rightarrow> bytes" where
  "PaymentId_write (Unencrypted pid) = [PAYMENT_ID_MARKER] @ pid"
| "PaymentId_write (Encrypted pid) = [ENCRYPTED_PAYMENT_ID_MARKER] @ pid"

definition PaymentId_read :: "PaymentId reader" where
  "PaymentId_read =
     and_then read_byte (\<lambda>marker.
       if marker = 0 then and_then (read_bytes 32) (\<lambda>pid. ok (Unencrypted pid))
       else if marker = 1 then and_then (read_bytes 8) (\<lambda>pid. ok (Encrypted pid))
       else err (Other ''unknown payment ID type''))"

subsection \<open>Fields\<close>

datatype ExtraField =
  Padding u8 | PublicKey CompressedPoint | Nonce bytes | MergeMining u64 bytes |
  PublicKeys "CompressedPoint list" | MysteriousMinergate bytes

fun ExtraField_write :: "ExtraField \<Rightarrow> bytes" where
  "ExtraField_write (Padding n) = [0] @ concat (map (\<lambda>_. write_byte 0) [1..<unat n])"
| "ExtraField_write (PublicKey key) = [1] @ CompressedPoint_write key"
| "ExtraField_write (Nonce data) = [2] @ write_vec write_byte data"
| "ExtraField_write (MergeMining depth merkle_root) =
     [3] @ varint_write (word_of_nat (varint_len depth + length merkle_root) :: usize) @
     varint_write depth @ merkle_root"
| "ExtraField_write (PublicKeys keys) = [4] @ write_vec CompressedPoint_write keys"
| "ExtraField_write (MysteriousMinergate data) = [0xDE] @ write_vec write_byte data"

text \<open>The loop over the zeroes of a padding: whatever is left of the input is checked and consumed.\<close>

fun padding_loop :: "u8 \<Rightarrow> u8 reader" where
  "padding_loop n [] = Inr (n, [])"
| "padding_loop n (v # buf) =
     (if v \<noteq> 0 then Inl (Other ''non-zero value after padding'')
      else if n = 255 then Inl (Other ''padding exceeded max count'')
      else padding_loop (n + 1) buf)"

primrec skip_bytes :: "nat \<Rightarrow> unit reader" where
  "skip_bytes 0 = ok ()"
| "skip_bytes (Suc remaining) = and_then read_byte (\<lambda>_. skip_bytes remaining)"

definition checked_sub :: "nat \<Rightarrow> nat \<Rightarrow> nat option" where
  "checked_sub a b = (if b \<le> a then Some (a - b) else None)"

definition merge_mining_read :: "ExtraField reader" where
  "merge_mining_read =
     and_then varint_read (\<lambda>field_len :: usize.
     and_then varint_read (\<lambda>depth :: u64.
     and_then (read_bytes 32) (\<lambda>merkle_root.
       case checked_sub (unat field_len) (varint_len depth + length merkle_root) of
         Some remaining \<Rightarrow> and_then (skip_bytes remaining) (\<lambda>_. ok (MergeMining depth merkle_root))
       | None \<Rightarrow> err (Other ''`MergeMining` tag had a length smaller than its fields''))))"

definition ExtraField_read :: "ExtraField reader" where
  "ExtraField_read =
     and_then read_byte (\<lambda>tag.
       if tag = 0 then
         and_then (padding_loop 1) (\<lambda>n.
           if n \<noteq> 0 then ok (Padding n) else err (Panic ''size started at 1 but incremented to 0?''))
       else if tag = 1 then and_then CompressedPoint_read (\<lambda>key. ok (PublicKey key))
       else if tag = 2 then
         and_then (read_vec read_byte (Some MAX_TX_EXTRA_NONCE_SIZE)) (\<lambda>data. ok (Nonce data))
       else if tag = 3 then merge_mining_read
       else if tag = 4 then and_then (read_vec CompressedPoint_read None) (\<lambda>keys. ok (PublicKeys keys))
       else if tag = 0xDE then and_then (read_vec read_byte None) (\<lambda>data. ok (MysteriousMinergate data))
       else err (Other ''unknown extra field''))"

subsection \<open>The extra\<close>

type_synonym Extra = "ExtraField list"

text \<open>\<open>None\<close> of \<open>keys_loop\<close>'s second component is \<open>additional\<close> before a field of additional keys was met.\<close>

fun keys_loop ::
  "('s, 'p::zero, 'z) dalek_scheme \<Rightarrow> Extra \<Rightarrow> 'p list \<times> 'p list option \<Rightarrow> 'p list \<times> 'p list option" where
  "keys_loop D [] acc = acc"
| "keys_loop D (field # fs) (keys, additional) =
     (let decompress = (\<lambda>key. case CompressedPoint_decompress D key of None \<Rightarrow> 0 | Some point \<Rightarrow> point)
      in case field of
           PublicKey key \<Rightarrow> keys_loop D fs (keys @ [decompress key], additional)
         | PublicKeys set_of_keys \<Rightarrow>
             keys_loop D fs
               (keys, case additional of Some a \<Rightarrow> Some a | None \<Rightarrow> Some (map decompress set_of_keys))
         | _ \<Rightarrow> keys_loop D fs (keys, additional))"

definition Extra_keys ::
  "('s, 'p::zero, 'z) dalek_scheme \<Rightarrow> Extra \<Rightarrow> ('p list \<times> 'p list option) option" where
  "Extra_keys D extra =
     (let (keys, additional) = keys_loop D extra ([], None)
      in if keys = [] then None else Some (keys, additional))"

text \<open>A read which fails leaves no result, whether or not it consumed the nonce.\<close>

fun Extra_payment_id :: "Extra \<Rightarrow> PaymentId option" where
  "Extra_payment_id [] = None"
| "Extra_payment_id (Nonce data # fs) =
     (case PaymentId_read data of
        Inl _ \<Rightarrow> None
      | Inr (res, reader) \<Rightarrow> if reader \<noteq> [] then None else Some res)"
| "Extra_payment_id (_ # fs) = Extra_payment_id fs"

definition Extra_new :: "CompressedPoint \<Rightarrow> CompressedPoint list \<Rightarrow> Extra" where
  "Extra_new key additional =
     [PublicKey key] @ (if additional \<noteq> [] then [PublicKeys additional] else [])"

definition Extra_push_nonce :: "Extra \<Rightarrow> bytes \<Rightarrow> Extra" where
  "Extra_push_nonce extra nonce = extra @ [Nonce nonce]"

definition SORT_ORDER :: "(ExtraField \<Rightarrow> bool) list" where
  "SORT_ORDER =
     [(\<lambda>field. case field of PublicKey _ \<Rightarrow> True | _ \<Rightarrow> False),
      (\<lambda>field. case field of PublicKeys _ \<Rightarrow> True | _ \<Rightarrow> False),
      (\<lambda>field. case field of Nonce _ \<Rightarrow> True | _ \<Rightarrow> False),
      (\<lambda>field. case field of MergeMining _ _ \<Rightarrow> True | _ \<Rightarrow> False),
      (\<lambda>field. case field of MysteriousMinergate _ \<Rightarrow> True | _ \<Rightarrow> False),
      (\<lambda>field. case field of Padding _ \<Rightarrow> True | _ \<Rightarrow> False)]"

definition Extra_write :: "Extra \<Rightarrow> bytes" where
  "Extra_write extra =
     concat (map (\<lambda>selection.
       concat (map (\<lambda>field. if selection field then ExtraField_write field else []) extra)) SORT_ORDER)"

text \<open>Each iteration consumes at least the tag of a field.\<close>

lemma padding_loop_rest: "padding_loop n bs = Inr (m, rest) \<Longrightarrow> rest = []"
  by (induction n bs rule: padding_loop.induct) (auto split: if_splits)

lemma skip_bytes_rest: "skip_bytes n bs = Inr (u, rest) \<longleftrightarrow> n \<le> length bs \<and> rest = drop n bs"
proof (induction n arbitrary: bs)
  case (Suc n)
  then show ?case by (cases bs) (auto simp: and_then_def)
qed auto

lemmas bytes_vec = codec.rd_iff [OF byte_codec.vec_codec] and points_vec = codec.rd_iff [OF point_codec.vec_codec]

lemma ExtraField_read_consumes: "ExtraField_read bs = Inr (field, rest) \<Longrightarrow> length rest < length bs"
  by (auto simp: ExtraField_read_def merge_mining_read_def and_then_eq_Inr read_byte_Inr skip_bytes_rest
      varint_u64.rd_iff point_codec.rd_iff bytes_codec.rd_iff bytes_vec points_vec
      dest!: padding_loop_rest split: if_splits option.splits)

function Extra_read :: "bytes \<Rightarrow> Extra" where
  "Extra_read r =
     (if r = [] then []
      else case ExtraField_read r of
             Inl _ \<Rightarrow> []
           | Inr (field, r) \<Rightarrow> field # Extra_read r)"
  by pat_completeness auto
termination
  by (relation "measure length") (auto dest: ExtraField_read_consumes)

declare Extra_read.simps [simp del]

definition arbitrary_data_of :: "ExtraField \<Rightarrow> bytes list" where
  "arbitrary_data_of field =
     (case field of
        Nonce (marker # data) \<Rightarrow> if marker = ARBITRARY_DATA_MARKER then [data] else []
      | _ \<Rightarrow> [])"

definition Extra_arbitrary_data :: "Extra \<Rightarrow> bytes list" where
  "Extra_arbitrary_data extra =
     (let serialized = Extra_write extra;
          bounded_extra = Extra_read (take (min (length serialized) MAX_EXTRA_SIZE_BY_RELAY_RULE) serialized)
      in concat (map arbitrary_data_of bounded_extra))"

lemma and_then_read_byte [simp]:
  "and_then read_byte f (b # r) = f b r" "and_then read_byte f [] = Inl UnexpectedEof"
  by (simp_all add: and_then_def)

subsection \<open>Payment IDs are read from what they are written as\<close>

fun wf_PaymentId :: "PaymentId \<Rightarrow> bool" where
  "wf_PaymentId (Unencrypted pid) \<longleftrightarrow> length pid = 32"
| "wf_PaymentId (Encrypted pid) \<longleftrightarrow> length pid = 8"

lemma PaymentId_read_iff:
  "PaymentId_read bs = Inr (x, rest) \<longleftrightarrow> wf_PaymentId x \<and> bs = PaymentId_write x @ rest"
  by (cases bs; cases x)
     (auto simp: PaymentId_read_def and_then_eq_Inr [of "read_bytes n" for n]
       codec_iff PAYMENT_ID_MARKER_def ENCRYPTED_PAYMENT_ID_MARKER_def)

interpretation payment_id_codec: codec PaymentId_write PaymentId_read wf_PaymentId
  by (rule codec_iffI [OF PaymentId_read_iff])

lemma wf_PaymentId_bitxor [simp]: "wf_PaymentId x \<Longrightarrow> wf_PaymentId (PaymentId_bitxor x key)"
  by (cases x) simp_all

lemma PaymentId_bitxor_twice: "wf_PaymentId x \<Longrightarrow> PaymentId_bitxor (PaymentId_bitxor x key) key = x"
  by (cases x) (simp_all add: from_to_le_bytes to_from_le_bytes xor.assoc)

subsection \<open>A field is read from what it is written as\<close>

fun is_Padding :: "ExtraField \<Rightarrow> bool" where
  "is_Padding (Padding _) \<longleftrightarrow> True"
| "is_Padding _ \<longleftrightarrow> False"

fun wf_ExtraField :: "ExtraField \<Rightarrow> bool" where
  "wf_ExtraField (Padding n) \<longleftrightarrow> n \<noteq> 0"
| "wf_ExtraField (PublicKey key) \<longleftrightarrow> wf_CompressedPoint key"
| "wf_ExtraField (Nonce data) \<longleftrightarrow> length data \<le> MAX_TX_EXTRA_NONCE_SIZE"
| "wf_ExtraField (MergeMining depth merkle_root) \<longleftrightarrow> length merkle_root = 32"
| "wf_ExtraField (PublicKeys keys) \<longleftrightarrow> fits_usize keys \<and> list_all wf_CompressedPoint keys"
| "wf_ExtraField (MysteriousMinergate data) \<longleftrightarrow> fits_usize data"

lemma padding_write: "n \<noteq> 0 \<Longrightarrow> ExtraField_write (Padding n) = replicate (unat n) 0"
proof -
  assume "n \<noteq> 0"
  then obtain k where "unat n = Suc k" by (metis not0_implies_Suc unat_eq_zero)
  moreover have "concat (map (\<lambda>_. write_byte 0) [1..<Suc k]) = replicate k 0"
    by (induction k) (simp_all add: write_byte_def replicate_append_same [symmetric] del: replicate_append_same)
  ultimately show ?thesis by simp
qed

lemma padding_loop_zeroes:
  "unat n + k \<le> 255 \<Longrightarrow> padding_loop n (replicate k 0) = Inr (n + word_of_nat k, [])"
proof (induction k arbitrary: n)
  case (Suc k)
  then have "unat n < 255" by simp
  then have "n \<noteq> 255" and "unat (n + 1) = unat n + 1" by (auto simp: unat_word_ariths)
  with Suc show ?case by (simp add: algebra_simps)
qed simp

lemma read_padding: "n \<noteq> 0 \<Longrightarrow> ExtraField_read (ExtraField_write (Padding n)) = Inr (Padding n, [])"
proof -
  assume n: "n \<noteq> 0"
  then obtain k where k: "unat n = Suc k" by (metis not0_implies_Suc unat_eq_zero)
  have "unat n < 256" using unsigned_less [of n, where 'a = nat] by simp
  then have "padding_loop 1 (replicate k 0) = Inr (1 + word_of_nat k, [])"
    using k by (intro padding_loop_zeroes) simp
  moreover have "word_of_nat (Suc k) = n" unfolding k [symmetric] by simp
  ultimately show ?thesis using n k by (simp add: ExtraField_read_def padding_write and_then_def del: ExtraField_write.simps)
qed

lemma read_field:
  assumes "wf_ExtraField field" and "\<not> is_Padding field"
  shows "ExtraField_read (ExtraField_write field @ rest) = Inr (field, rest)"
proof (cases field)
  case (MergeMining depth root)
  have "unat (word_of_nat (varint_len depth + 32) :: usize) = varint_len depth + 32"
    using length_varint_write [of depth] length_varint_write_bounds(2) [of depth] by (simp add: unat_of_nat del: of_nat_add)
  then show ?thesis
    using assms MergeMining
    by (simp add: ExtraField_read_def merge_mining_read_def and_then_def varint_u64.rd_wr bytes_codec.rd_wr checked_sub_def)
next
  case (Nonce data)
  then have "wf_vec (\<lambda>_. True) (Some MAX_TX_EXTRA_NONCE_SIZE) data"
    using assms by (simp add: wf_vec_def fits_usize_def MAX_TX_EXTRA_NONCE_SIZE_def list_all_iff)
  then show ?thesis
    using Nonce by (simp add: ExtraField_read_def and_then_def codec.rd_wr [OF byte_codec.vec_codec])
next
  case (PublicKeys keys)
  then have "wf_vec wf_CompressedPoint None keys" using assms by (simp add: wf_vec_def)
  then show ?thesis
    using PublicKeys by (simp add: ExtraField_read_def and_then_def codec.rd_wr [OF point_codec.vec_codec])
next
  case (MysteriousMinergate data)
  then have "wf_vec (\<lambda>_. True) None data" using assms by (simp add: wf_vec_def list_all_iff)
  then show ?thesis
    using MysteriousMinergate
    by (simp add: ExtraField_read_def and_then_def codec.rd_wr [OF byte_codec.vec_codec])
qed (use assms in \<open>simp_all add: ExtraField_read_def and_then_def point_codec.rd_wr\<close>)

lemma padding_loop_nonzero: "padding_loop n bs = Inr (m, rest) \<Longrightarrow> n \<noteq> 0 \<Longrightarrow> m \<noteq> 0"
proof (induction n bs rule: padding_loop.induct)
  case (2 n v buf)
  have "n + 1 \<noteq> 0" if "n \<noteq> 255"
  proof
    assume "n + 1 = 0"
    then have "(unat n + 1) mod 256 = 0" using unat_word_ariths(1) [of n 1] by simp
    moreover have "unat n < 256" using unsigned_less [of n, where 'a = nat] by simp
    ultimately have "unat n = 255" by presburger
    then show False using that by (simp add: word_unat_eq_iff)
  qed
  with 2 show ?case by (auto split: if_splits)
qed simp

lemma no_panic_ExtraField_read: "no_panic ExtraField_read"
proof -
  have pad: "padding_loop n bs \<noteq> Inl (Panic s)" for n bs s
    by (induction n bs rule: padding_loop.induct) auto
  have "no_panic (and_then (padding_loop 1) (\<lambda>n. if n \<noteq> 0 then ok (Padding n) else err (Panic m)))" for m
    using pad by (intro no_panic_and_then_when) (auto simp: no_panic_def dest: padding_loop_nonzero)
  moreover have "no_panic (skip_bytes n)" for n
    by (induction n) (simp_all only: skip_bytes.simps no_panic_intros)
  then have "no_panic merge_mining_read"
    unfolding merge_mining_read_def by (intro no_panic_intros) auto
  ultimately show ?thesis
    unfolding ExtraField_read_def
    by (intro no_panic_and_then [OF no_panic_read_byte] no_panic_if)
       (simp_all only: no_panic_intros io_error.distinct not_False_eq_True)
qed

subsection \<open>The order of the fields\<close>

fun field_rank :: "ExtraField \<Rightarrow> nat" where
  "field_rank (PublicKey _) = 0"
| "field_rank (PublicKeys _) = 1"
| "field_rank (Nonce _) = 2"
| "field_rank (MergeMining _ _) = 3"
| "field_rank (MysteriousMinergate _) = 4"
| "field_rank (Padding _) = 5"

definition buckets :: "('a \<Rightarrow> nat) \<Rightarrow> nat \<Rightarrow> 'a list \<Rightarrow> 'a list" where
  "buckets f n xs = concat (map (\<lambda>k. filter (\<lambda>x. f x = k) xs) [0..<n])"

lemma buckets_Suc: "buckets f (Suc n) xs = buckets f n xs @ filter (\<lambda>x. f x = n) xs"
  by (simp add: buckets_def)

lemma buckets_sort: "\<forall>x \<in> set xs. f x < n \<Longrightarrow> buckets f n xs = sort_key f xs"
proof (rule properties_for_sort_key [symmetric])
  assume all: "\<forall>x \<in> set xs. f x < n"
  have "mset (buckets f m xs) = mset (filter (\<lambda>x. f x < m) xs)" for m
  proof (induction m)
    case (Suc m)
    have "filter_mset (\<lambda>x. f x < Suc m) M = filter_mset (\<lambda>x. f x < m) M + filter_mset (\<lambda>x. f x = m) M" for M
      by (induction M) auto
    with Suc show ?case by (simp add: buckets_Suc)
  qed (simp add: buckets_def)
  from this [of n] all show "mset (buckets f n xs) = mset xs" by (simp cong: filter_cong)
  have "filter (\<lambda>x. f x = k) (buckets f m xs) = (if k < m then filter (\<lambda>x. f x = k) xs else [])" for k m
  proof (induction m)
    case (Suc m)
    have "filter (\<lambda>x. f x = k) (filter (\<lambda>x. f x = m) xs) = (if k = m then filter (\<lambda>x. f x = k) xs else [])"
      by (auto simp: filter_empty_conv conj_commute)
    with Suc show ?case by (auto simp: buckets_Suc)
  qed (simp add: buckets_def)
  then show "filter (\<lambda>x. f k = f x) (buckets f n xs) = filter (\<lambda>x. f k = f x) xs" if "k \<in> set (buckets f n xs)" for k
    using that all by (auto simp: buckets_def eq_commute [of "f k"])
  have "sorted (map f (buckets f m xs))" for m
  proof (induction m)
    case (Suc m)
    have "\<forall>x \<in> set (buckets f m xs). f x < m" by (auto simp: buckets_def)
    moreover have "sorted (map f (filter (\<lambda>x. f x = m) xs))" by (rule sorted_map_same)
    ultimately show ?case using Suc by (auto simp: buckets_Suc sorted_append)
  qed (simp add: buckets_def)
  then show "sorted (map f (buckets f n xs))" .
qed

lemma field_rank_less: "field_rank field < 6"
  by (cases field) simp_all

lemma is_Padding_rank: "is_Padding field \<longleftrightarrow> field_rank field = 5"
  by (cases field) simp_all

lemma Extra_write_sorted: "Extra_write extra = concat (map ExtraField_write (sort_key field_rank extra))"
proof -
  have sel: "SORT_ORDER = map (\<lambda>k field. field_rank field = k) [0..<6]"
    by (auto simp: SORT_ORDER_def upt_rec fun_eq_iff split: ExtraField.split)
  have "concat (map (\<lambda>field. if P field then ExtraField_write field else []) xs) =
      concat (map ExtraField_write (filter P xs))" for P and xs :: Extra
    by (induction xs) auto
  then have "Extra_write extra = concat (map ExtraField_write (buckets field_rank 6 extra))"
    by (simp add: Extra_write_def sel buckets_def map_concat o_def upt_rec)
  then show ?thesis by (simp add: buckets_sort field_rank_less)
qed

lemma Extra_read_fields:
  "\<forall>field \<in> set xs. wf_ExtraField field \<and> \<not> is_Padding field \<Longrightarrow>
   Extra_read (concat (map ExtraField_write xs) @ rest) = xs @ Extra_read rest"
proof (induction xs)
  case (Cons field xs)
  then have "ExtraField_read (ExtraField_write field @ concat (map ExtraField_write xs) @ rest) =
      Inr (field, concat (map ExtraField_write xs) @ rest)" by (simp add: read_field)
  moreover have "ExtraField_write field \<noteq> []" by (cases field) simp_all
  ultimately show ?case using Cons by (subst Extra_read.simps) simp
qed simp

lemma Extra_read_Nil [simp]: "Extra_read [] = []"
  by (subst Extra_read.simps) simp

lemma Extra_read_written:
  assumes wf: "list_all wf_ExtraField extra" and one: "length (filter is_Padding extra) \<le> 1"
  shows "Extra_read (Extra_write extra) = sort_key field_rank extra"
proof -
  let ?front = "buckets field_rank 5 extra" and ?pad = "filter is_Padding extra"
  have sort: "sort_key field_rank extra = ?front @ ?pad"
    using buckets_sort [of extra field_rank 6] buckets_Suc [of field_rank 5 extra]
    by (simp add: field_rank_less is_Padding_rank [abs_def])
  have "\<forall>field \<in> set ?front. wf_ExtraField field \<and> \<not> is_Padding field"
    using wf by (auto simp: buckets_def is_Padding_rank list_all_iff)
  then have "Extra_read (Extra_write extra) = ?front @ Extra_read (concat (map ExtraField_write ?pad))"
    by (simp add: Extra_write_sorted sort Extra_read_fields)
  moreover have "Extra_read (concat (map ExtraField_write ?pad)) = ?pad"
  proof (cases ?pad)
    case (Cons field rest)
    then have rest: "rest = []" using one by simp
    have "field \<in> set ?pad" by (simp only: Cons list.set_intros)
    then have "is_Padding field" "wf_ExtraField field" using wf by (simp_all add: list_all_iff)
    then obtain n where n: "field = Padding n" "n \<noteq> 0" by (cases field) simp_all
    have "ExtraField_write field \<noteq> []" by (cases field) simp_all
    then show ?thesis
      using read_padding [OF n(2)] by (subst Extra_read.simps) (simp add: Cons rest n(1) del: ExtraField_write.simps)
  qed simp
  ultimately show ?thesis by (simp add: sort)
qed

subsection \<open>What the extra carries survives the order\<close>

lemma keys_loop_ranks:
  fixes D :: "('s, 'p::zero, 'z) dalek_scheme"
  defines "dec \<equiv> \<lambda>key. case CompressedPoint_decompress D key of None \<Rightarrow> 0 | Some point \<Rightarrow> point"
  shows "keys_loop D extra (keys, additional) =
     (keys @ concat (map (\<lambda>field. case field of PublicKey key \<Rightarrow> [dec key] | _ \<Rightarrow> [])
                       (filter (\<lambda>field. field_rank field = 0) extra)),
      case additional of
        Some a \<Rightarrow> Some a
      | None \<Rightarrow> (case filter (\<lambda>field. field_rank field = 1) extra of
                  PublicKeys ks # _ \<Rightarrow> Some (map dec ks) | _ \<Rightarrow> None))"
proof (induction extra arbitrary: keys additional)
  case (Cons field extra)
  then show ?case by (cases field; cases additional) (simp_all add: Let_def dec_def)
qed (simp split: option.split)

lemma Extra_keys_sort: "Extra_keys D (sort_key field_rank extra) = Extra_keys D extra"
  by (simp only: Extra_keys_def keys_loop_ranks sort_key_stable)

lemma Extra_payment_id_rank:
  "Extra_payment_id extra =
     (case filter (\<lambda>field. field_rank field = 2) extra of [] \<Rightarrow> None | field # _ \<Rightarrow> Extra_payment_id [field])"
proof (induction extra)
  case (Cons field extra)
  then show ?case by (cases field) simp_all
qed simp

lemma Extra_payment_id_sort: "Extra_payment_id (sort_key field_rank extra) = Extra_payment_id extra"
  by (simp only: Extra_payment_id_rank [of "sort_key field_rank extra"] Extra_payment_id_rank [of extra] sort_key_stable)

lemma arbitrary_data_rank:
  "concat (map arbitrary_data_of extra) =
   concat (map arbitrary_data_of (filter (\<lambda>field. field_rank field = 2) extra))"
proof (induction extra)
  case (Cons field extra)
  then show ?case by (cases field) (simp_all add: arbitrary_data_of_def)
qed simp

lemma Extra_arbitrary_data_sort:
  assumes "list_all wf_ExtraField extra" and "length (filter is_Padding extra) \<le> 1"
    and "length (Extra_write extra) \<le> MAX_EXTRA_SIZE_BY_RELAY_RULE"
  shows "Extra_arbitrary_data extra = concat (map arbitrary_data_of extra)"
proof -
  have "Extra_arbitrary_data extra = concat (map arbitrary_data_of (sort_key field_rank extra))"
    using assms by (simp add: Extra_arbitrary_data_def Let_def Extra_read_written min_def)
  then show ?thesis by (simp only: arbitrary_data_rank [of "sort_key field_rank extra"] arbitrary_data_rank [of extra] sort_key_stable)
qed


subsection \<open>How much data an extra carries\<close>

lemma arbitrary_data_consumed:
  assumes "ExtraField_read bs = Inr (field, rest)"
  shows "length rest + sum_list (map (\<lambda>d. length d + 1) (arbitrary_data_of field)) \<le> length bs"
    and "list_all (\<lambda>d. length d \<le> MAX_ARBITRARY_DATA_SIZE) (arbitrary_data_of field)"
proof -
  consider data where "field = Nonce data" | "arbitrary_data_of field = []"
    by (cases field) (simp_all add: arbitrary_data_of_def)
  then have "length rest + sum_list (map (\<lambda>d. length d + 1) (arbitrary_data_of field)) \<le> length bs \<and>
     list_all (\<lambda>d. length d \<le> MAX_ARBITRARY_DATA_SIZE) (arbitrary_data_of field)"
  proof cases
    case (1 data)
    then obtain tag where "bs = tag # write_vec write_byte data @ rest" "length data \<le> MAX_TX_EXTRA_NONCE_SIZE"
      using assms
      by (auto simp: ExtraField_read_def merge_mining_read_def and_then_eq_Inr read_byte_Inr bytes_vec wf_vec_def
          split: if_splits option.splits)
    then show ?thesis
      using 1 by (auto simp: arbitrary_data_of_def write_vec_def MAX_ARBITRARY_DATA_SIZE_def split: list.splits)
  next
    case 2
    then show ?thesis using ExtraField_read_consumes [OF assms] by simp
  qed
  then show "length rest + sum_list (map (\<lambda>d. length d + 1) (arbitrary_data_of field)) \<le> length bs"
    and "list_all (\<lambda>d. length d \<le> MAX_ARBITRARY_DATA_SIZE) (arbitrary_data_of field)" by simp_all
qed

lemma Extra_read_arbitrary_data:
  "sum_list (map (\<lambda>d. length d + 1) (concat (map arbitrary_data_of (Extra_read bs)))) \<le> length bs \<and>
   list_all (\<lambda>d. length d \<le> MAX_ARBITRARY_DATA_SIZE) (concat (map arbitrary_data_of (Extra_read bs)))"
proof (induction bs rule: Extra_read.induct)
  case (1 bs)
  show ?case
  proof (cases "bs = [] \<or> (\<exists>e. ExtraField_read bs = Inl e)")
    case True
    then show ?thesis by (subst (1 2) Extra_read.simps) auto
  next
    case False
    then obtain field rest where f: "ExtraField_read bs = Inr (field, rest)" by (cases "ExtraField_read bs") auto
    with False have "Extra_read bs = field # Extra_read rest" by (subst Extra_read.simps) auto
    with 1 [OF _ f refl] False arbitrary_data_consumed [OF f] show ?thesis by simp
  qed
qed

lemma arbitrary_data_bounds:
  shows "sum_list (map (\<lambda>d. length d + 1) (Extra_arbitrary_data extra)) \<le> MAX_EXTRA_SIZE_BY_RELAY_RULE"
    and "list_all (\<lambda>d. length d \<le> MAX_ARBITRARY_DATA_SIZE) (Extra_arbitrary_data extra)"
proof -
  let ?bs = "take (min (length (Extra_write extra)) MAX_EXTRA_SIZE_BY_RELAY_RULE) (Extra_write extra)"
  have "length ?bs \<le> MAX_EXTRA_SIZE_BY_RELAY_RULE" by simp
  with Extra_read_arbitrary_data [of ?bs]
  show "sum_list (map (\<lambda>d. length d + 1) (Extra_arbitrary_data extra)) \<le> MAX_EXTRA_SIZE_BY_RELAY_RULE"
    and "list_all (\<lambda>d. length d \<le> MAX_ARBITRARY_DATA_SIZE) (Extra_arbitrary_data extra)"
    unfolding Extra_arbitrary_data_def Let_def by linarith+
qed
subsection \<open>The extra round-trips\<close>

text \<open>C23. An extra with at most one field of padding, each of whose fields is one the reader accepts, is read back
  from what it is written as: the stable sort of its fields in the order Monero mandates. The keys and the payment ID
  it carries are unaffected by the order, and so is its arbitrary data as long as the extra is within the relay rule's
  size. No bytes make the reader of a field panic.\<close>

theorem extra_read_written:
  assumes "list_all wf_ExtraField extra" and "length (filter is_Padding extra) \<le> 1"
  shows "Extra_read (Extra_write extra) = sort_key field_rank extra \<and>
         Extra_keys D (Extra_read (Extra_write extra)) = Extra_keys D extra \<and>
         Extra_payment_id (Extra_read (Extra_write extra)) = Extra_payment_id extra \<and>
         (length (Extra_write extra) \<le> MAX_EXTRA_SIZE_BY_RELAY_RULE \<longrightarrow>
            Extra_arbitrary_data extra = concat (map arbitrary_data_of extra)) \<and>
         no_panic ExtraField_read"
  using Extra_arbitrary_data_sort [OF assms]
  by (simp add: Extra_read_written [OF assms] Extra_keys_sort Extra_payment_id_sort no_panic_ExtraField_read)

theorem extra_read_written_witness:
  "Extra_read (Extra_write [Nonce [127, 7], Padding 2, PublicKey CompressedPoint_IDENTITY]) =
     [PublicKey CompressedPoint_IDENTITY, Nonce [127, 7], Padding 2] \<and>
   Extra_arbitrary_data [Nonce [127, 7], Padding 2, PublicKey CompressedPoint_IDENTITY] = [[7]]"
proof -
  let ?x = "[Nonce [127, 7], Padding 2, PublicKey CompressedPoint_IDENTITY]"
  have wf: "list_all wf_ExtraField ?x" "length (filter is_Padding ?x) \<le> 1"
    by (simp_all add: MAX_TX_EXTRA_NONCE_SIZE_def CompressedPoint_IDENTITY_def)
  have "length (Extra_write ?x) \<le> MAX_EXTRA_SIZE_BY_RELAY_RULE" by code_simp
  with extra_read_written [OF wf, where D = "D :: (int, int) dalek" for D] show ?thesis
    by (simp add: arbitrary_data_of_def ARBITRARY_DATA_MARKER_def)
qed

end
