(* ===== verification/Wallet_Keys.thy ===== *)
theory Wallet_Keys
  imports Curve Transaction Address Tx_Extra
begin

unbundle bit_operations_syntax

text \<open>
  The keys of a wallet: the derivations a sender and a receiver share (\<^verbatim>\<open>wallet/src/lib.rs\<close>) and view pairs with
  the addresses they derive (\<^verbatim>\<open>wallet/src/view_pair.rs\<close>). A hash to a scalar may panic, and so may the conversion of a
  scalar which is not canonical: these operations return an option.

  The theory shows that the sender and the receiver compute one shared secret, and that what the sender encrypts under
  it the receiver decrypts.
\<close>

subsection \<open>Shared key derivations\<close>

record SharedKeyDerivations =
  view_tag :: u8
  shared_key :: Scalar

definition uniqueness_of_input :: "Input \<Rightarrow> bytes" where
  "uniqueness_of_input input =
     (case input of
        Gen height \<Rightarrow> varint_write height
      | ToKey _ _ key_image \<Rightarrow> CompressedPoint_to_bytes key_image)"

definition uniqueness :: "(bytes \<Rightarrow> bytes) \<Rightarrow> Input list \<Rightarrow> bytes" where
  "uniqueness keccak256 inputs = keccak256 (ascii ''uniqueness'' @ concat (map uniqueness_of_input inputs))"

definition output_derivations ::
  "('s::zero, 'p, 'z) dalek_scheme \<Rightarrow> (bytes \<Rightarrow> bytes) \<Rightarrow> bytes option \<Rightarrow> 'p \<Rightarrow> usize \<Rightarrow> SharedKeyDerivations option" where
  "output_derivations D keccak256 uniq ecdh o_index =
     (let output_derivation = edwards_compress D (mul_by_cofactor D ecdh) @ varint_write o_index;
          tag = keccak256 (ascii ''view_tag'' @ output_derivation) ! 0;
          output_derivation = (case uniq of Some u \<Rightarrow> u @ output_derivation | None \<Rightarrow> output_derivation)
      in Option.bind (Scalar_hash D keccak256 output_derivation) (\<lambda>key.
         Some \<lparr>view_tag = tag, shared_key = key\<rparr>))"

definition payment_id_xor :: "('s, 'p, 'z) dalek_scheme \<Rightarrow> (bytes \<Rightarrow> bytes) \<Rightarrow> 'p \<Rightarrow> bytes" where
  "payment_id_xor D keccak256 ecdh =
     take 8 (keccak256 (edwards_compress D (mul_by_cofactor D ecdh) @ [0x8d]))"

definition commitment_mask ::
  "('s::zero, 'z) dalek_scalar_scheme \<Rightarrow> (bytes \<Rightarrow> bytes) \<Rightarrow> SharedKeyDerivations \<Rightarrow> Scalar option" where
  "commitment_mask D keccak256 self =
     Scalar_hash D keccak256 (ascii ''commitment_mask'' @ Scalar_write (shared_key self))"

definition compact_amount_encryption ::
  "(bytes \<Rightarrow> bytes) \<Rightarrow> SharedKeyDerivations \<Rightarrow> u64 \<Rightarrow> bytes" where
  "compact_amount_encryption keccak256 self amt =
     (let amount_mask = keccak256 (ascii ''amount'' @ Scalar_write (shared_key self));
          amount_mask_8 = take 8 amount_mask
      in to_le_bytes (amt XOR from_le_bytes amount_mask_8))"

fun SharedKeyDerivations_decrypt ::
  "('s::comm_ring_1, 'z) dalek_scalar_scheme \<Rightarrow> (bytes \<Rightarrow> bytes) \<Rightarrow> SharedKeyDerivations \<Rightarrow> EncryptedAmount \<Rightarrow>
   Commitment option" where
  "SharedKeyDerivations_decrypt D keccak256 self (EncryptedAmount.Original msk amt) =
     Option.bind (Scalar_hash D keccak256 (Scalar_write (shared_key self))) (\<lambda>mask_shared_sec.
     Option.bind (Scalar_hash D keccak256 (Scalar_write mask_shared_sec)) (\<lambda>amount_shared_sec.
     Option.bind (Scalar_into D mask_shared_sec) (\<lambda>mask_shared_sec_scalar.
     Option.bind (Scalar_into D amount_shared_sec) (\<lambda>amount_shared_sec_scalar.
     let msk = from_bytes_mod_order D msk - mask_shared_sec_scalar;
         amount_scalar = from_bytes_mod_order D amt - amount_shared_sec_scalar;
         amt = from_le_bytes (take 8 (scalar_to_bytes D amount_scalar))
     in Some (Commitment_new (Scalar_from D msk) amt)))))"
| "SharedKeyDerivations_decrypt D keccak256 self (Compact amt) =
     Option.bind (commitment_mask D keccak256 self) (\<lambda>msk.
     Some (Commitment_new msk (from_le_bytes (compact_amount_encryption keccak256 self (from_le_bytes amt)))))"

subsection \<open>View pairs\<close>

datatype ViewPairError = TorsionedSpendKey

record 'p ViewPair =
  vp_spend :: 'p
  vp_view :: Scalar

definition ViewPair_new :: "('s, 'p, 'z) dalek_scheme \<Rightarrow> 'p \<Rightarrow> Scalar \<Rightarrow> ViewPairError + 'p ViewPair" where
  "ViewPair_new D spend view =
     (if \<not> is_torsion_free D spend then Inl TorsionedSpendKey else Inr \<lparr>vp_spend = spend, vp_view = view\<rparr>)"

definition ViewPair_view :: "('s, 'p, 'z) dalek_scheme \<Rightarrow> 'p ViewPair \<Rightarrow> 'p option" where
  "ViewPair_view D self =
     Option.bind (Scalar_into D (vp_view self)) (\<lambda>view. Some (edwards_mul D view (ED25519_BASEPOINT_POINT D)))"

definition subaddress_derivation ::
  "('s::zero, 'z) dalek_scalar_scheme \<Rightarrow> (bytes \<Rightarrow> bytes) \<Rightarrow> 'p ViewPair \<Rightarrow> SubaddressIndex \<Rightarrow> Scalar option" where
  "subaddress_derivation D keccak256 self index =
     Scalar_hash D keccak256
       (ascii ''SubAddr'' @ [0] @ Scalar_write (vp_view self) @
        to_le_bytes (index_account index) @ to_le_bytes (index_address index))"

definition subaddress_keys ::
  "('s::zero, 'p::plus, 'z) dalek_scheme \<Rightarrow> (bytes \<Rightarrow> bytes) \<Rightarrow> 'p ViewPair \<Rightarrow> SubaddressIndex \<Rightarrow> ('p \<times> 'p) option" where
  "subaddress_keys D keccak256 self index =
     Option.bind (subaddress_derivation D keccak256 self index) (\<lambda>scalar.
     Option.bind (Scalar_into D scalar) (\<lambda>scalar.
     let spend = vp_spend self + edwards_mul D scalar (ED25519_BASEPOINT_POINT D)
     in Option.bind (Scalar_into D (vp_view self)) (\<lambda>view.
        Some (spend, edwards_mul D view spend))))"

definition legacy_address :: "('s, 'p, 'z) dalek_scheme \<Rightarrow> 'p ViewPair \<Rightarrow> Network \<Rightarrow> 'p Address option" where
  "legacy_address D self network =
     Option.bind (ViewPair_view D self) (\<lambda>view.
     Some (Address_new network Legacy (vp_spend self) view))"

definition legacy_integrated_address ::
  "('s, 'p, 'z) dalek_scheme \<Rightarrow> 'p ViewPair \<Rightarrow> Network \<Rightarrow> bytes \<Rightarrow> 'p Address option" where
  "legacy_integrated_address D self network payment_id =
     Option.bind (ViewPair_view D self) (\<lambda>view.
     Some (Address_new network (LegacyIntegrated payment_id) (vp_spend self) view))"

definition ViewPair_subaddress ::
  "('s::zero, 'p::plus, 'z) dalek_scheme \<Rightarrow> (bytes \<Rightarrow> bytes) \<Rightarrow> 'p ViewPair \<Rightarrow> Network \<Rightarrow> SubaddressIndex \<Rightarrow>
   'p Address option" where
  "ViewPair_subaddress D keccak256 self network index =
     Option.bind (subaddress_keys D keccak256 self index) (\<lambda>(spend, view).
     Some (Address_new network Subaddress spend view))"

text \<open>A guaranteed view pair wraps a view pair.\<close>

datatype 'p GuaranteedViewPair = GuaranteedViewPair (guaranteed_pair: "'p ViewPair")

definition GuaranteedViewPair_new ::
  "('s, 'p, 'z) dalek_scheme \<Rightarrow> 'p \<Rightarrow> Scalar \<Rightarrow> ViewPairError + 'p GuaranteedViewPair" where
  "GuaranteedViewPair_new D spend view = map_sum (\<lambda>e. e) GuaranteedViewPair (ViewPair_new D spend view)"

definition GuaranteedViewPair_address ::
  "('s::zero, 'p::plus, 'z) dalek_scheme \<Rightarrow> (bytes \<Rightarrow> bytes) \<Rightarrow> 'p GuaranteedViewPair \<Rightarrow> Network \<Rightarrow>
   SubaddressIndex option \<Rightarrow> bytes option \<Rightarrow> 'p Address option" where
  "GuaranteedViewPair_address D keccak256 self network subaddress payment_id =
     Option.bind
       (case subaddress of
          Some index \<Rightarrow> subaddress_keys D keccak256 (guaranteed_pair self) index
        | None \<Rightarrow> Option.bind (ViewPair_view D (guaranteed_pair self)) (\<lambda>view.
                    Some (vp_spend (guaranteed_pair self), view)))
       (\<lambda>(spend, view).
        Some (Address_new network (Featured (subaddress \<noteq> None) payment_id True) spend view))"

subsection \<open>Hashes to scalars\<close>

lemma Scalar_hash_into:
  assumes "curve_laws D" and "Scalar_hash D k data = Some h"
  obtains s where "Scalar_into D h = Some s" and "h = Scalar_from D s"
  using assms by (auto simp: Scalar_hash_def Let_def curve_scalar split: if_splits)

lemma Scalar_hash_total:
  assumes "hashes_total D k"
  obtains h where "Scalar_hash D k data = Some h"
  using assms by (simp add: Scalar_hash_def hashes_total_def Let_def)

lemma wf_Scalar_from: "curve_laws D \<Longrightarrow> wf_Scalar D (Scalar_from D s)"
  using curve_scalar [of D s] by (simp add: Scalar_from_def)

lemma Scalar_hash_wf: "curve_laws D \<Longrightarrow> Scalar_hash D k data = Some h \<Longrightarrow> wf_Scalar D h"
  by (auto simp: Scalar_hash_def Let_def wf_Scalar_from split: if_splits)

subsection \<open>What the sender encrypts, the receiver decrypts\<close>

text \<open>The receiver multiplies the transaction's key by the view key, the sender the view key's point by the
  randomness of the transaction's key, over the generator the address calls for.\<close>

lemma ecdh_agree:
  assumes "curve_laws D" and "is_torsion_free D g"
  shows "edwards_mul D view (edwards_mul D r g) = edwards_mul D r (edwards_mul D view g)"
  using assms unfolding curve_laws_def torsion_free_laws_def by (metis mult.commute)

lemma amount_decrypts:
  assumes "commitment_mask D k self = Some msk"
  shows "SharedKeyDerivations_decrypt D k self (Compact (compact_amount_encryption k self amt)) =
         Some (Commitment_new msk amt)"
  using assms by (simp add: compact_amount_encryption_def Let_def from_to_le_bytes xor.assoc)

lemma output_derivations_total:
  assumes "hashes_total D k"
  obtains d where "output_derivations D k uniq ecdh i = Some d"
proof -
  obtain h where "Scalar_hash D k
      (case uniq of Some u \<Rightarrow> u @ edwards_compress D (mul_by_cofactor D ecdh) @ varint_write i
       | None \<Rightarrow> edwards_compress D (mul_by_cofactor D ecdh) @ varint_write i) = Some h"
    by (rule Scalar_hash_total [OF assms])
  then show thesis using that by (simp add: output_derivations_def Let_def)
qed

lemma output_derivations_into:
  assumes "curve_laws D" and "output_derivations D k uniq ecdh i = Some d"
  obtains s where "Scalar_into D (shared_key d) = Some s" and "shared_key d = Scalar_from D s"
  using assms by (auto simp: output_derivations_def Let_def bind_eq_Some_conv elim: Scalar_hash_into)

lemma decrypt_total:
  assumes "curve_laws D" and "hashes_total D k"
  obtains c where "SharedKeyDerivations_decrypt D k self a = Some c" and "wf_Commitment D c"
proof (cases a)
  case (Original msk amt)
  obtain m where m: "Scalar_hash D k (Scalar_write (shared_key self)) = Some m" by (rule Scalar_hash_total [OF assms(2)])
  obtain b where b: "Scalar_hash D k (Scalar_write m) = Some b" by (rule Scalar_hash_total [OF assms(2)])
  obtain m' where "Scalar_into D m = Some m'" by (rule Scalar_hash_into [OF assms(1) m])
  moreover obtain b' where "Scalar_into D b = Some b'" by (rule Scalar_hash_into [OF assms(1) b])
  ultimately show thesis
    using m b that Original by (simp add: Let_def Commitment_new_def wf_Commitment_def wf_Scalar_from [OF assms(1)])
next
  case (Compact amt)
  obtain m where "commitment_mask D k self = Some m"
    unfolding commitment_mask_def by (rule Scalar_hash_total [OF assms(2)])
  moreover from this have "wf_Scalar D m" unfolding commitment_mask_def by (rule Scalar_hash_wf [OF assms(1)])
  ultimately show thesis using that Compact by (simp add: Commitment_new_def wf_Commitment_def)
qed

end
