(* ===== verification/Wallet_Output.thy ===== *)
theory Wallet_Output
  imports Wallet_Keys
begin

text \<open>
  The outputs a wallet has scanned, as it stores them (\<^verbatim>\<open>wallet/src/output.rs\<close>). Comparisons in constant time are
  equality. Writing arbitrary data panics on a part longer than a byte can tell, and is an option.
\<close>

record AbsoluteId =
  id_transaction :: bytes
  index_in_transaction :: u64

definition AbsoluteId_write :: "AbsoluteId \<Rightarrow> bytes" where
  "AbsoluteId_write self = id_transaction self @ to_le_bytes (index_in_transaction self)"

definition AbsoluteId_read :: "AbsoluteId reader" where
  "AbsoluteId_read =
     and_then (read_bytes 32) (\<lambda>transaction. and_then read_u64 (\<lambda>index.
     ok \<lparr>id_transaction = transaction, index_in_transaction = index\<rparr>))"

record RelativeId =
  index_on_blockchain :: u64

definition RelativeId_write :: "RelativeId \<Rightarrow> bytes" where
  "RelativeId_write self = to_le_bytes (index_on_blockchain self)"

definition RelativeId_read :: "RelativeId reader" where
  "RelativeId_read = and_then read_u64 (\<lambda>index. ok \<lparr>index_on_blockchain = index\<rparr>)"

record 'p OutputData =
  data_key :: 'p
  data_key_offset :: Scalar
  data_commitment :: Commitment

definition OutputData_write :: "('s, 'p, 'z) dalek_scheme \<Rightarrow> 'p OutputData \<Rightarrow> bytes" where
  "OutputData_write D self =
     CompressedPoint_to_bytes (Point_compress D (data_key self)) @ Scalar_write (data_key_offset self) @
     Commitment_write (data_commitment self)"

definition OutputData_read :: "('s, 'p, 'z) dalek_scheme \<Rightarrow> 'p OutputData reader" where
  "OutputData_read D =
     and_then CompressedPoint_read (\<lambda>compressed.
     case CompressedPoint_decompress D compressed of
       None \<Rightarrow> err (Other ''output data included an invalid key'')
     | Some key \<Rightarrow>
         and_then (Scalar_read D) (\<lambda>key_offset.
         and_then (Commitment_read D) (\<lambda>commitment.
         ok \<lparr>data_key = key, data_key_offset = key_offset, data_commitment = commitment\<rparr>)))"

record Metadata =
  meta_additional_timelock :: Timelock
  meta_subaddress :: "SubaddressIndex option"
  meta_payment_id :: "PaymentId option"
  meta_arbitrary_data :: "bytes list"

fun write_parts :: "bytes list \<Rightarrow> bytes option" where
  "write_parts [] = Some []"
| "write_parts (part # parts) =
     (if length part \<le> 255
      then Option.bind (write_parts parts) (\<lambda>written. Some ([word_of_nat (length part)] @ part @ written))
      else None)"

definition Metadata_write :: "Metadata \<Rightarrow> bytes option" where
  "Metadata_write self =
     Option.bind (write_parts (meta_arbitrary_data self)) (\<lambda>parts.
     Some (Timelock_write (meta_additional_timelock self) @
       (case meta_subaddress self of
          Some subaddress \<Rightarrow> [1] @ to_le_bytes (index_account subaddress) @ to_le_bytes (index_address subaddress)
        | None \<Rightarrow> [0]) @
       (case meta_payment_id self of Some payment_id \<Rightarrow> [1] @ PaymentId_write payment_id | None \<Rightarrow> [0]) @
       varint_write (vec_len (meta_arbitrary_data self)) @ parts))"

definition read_subaddress :: "SubaddressIndex option reader" where
  "read_subaddress =
     and_then read_byte (\<lambda>is_some.
       if is_some = 0 then ok None
       else if is_some = 1 then
         and_then read_u32 (\<lambda>account. and_then read_u32 (\<lambda>address.
           case SubaddressIndex_new account address of
             None \<Rightarrow> err (Other ''invalid subaddress in metadata'')
           | Some index \<Rightarrow> ok (Some index)))
       else err (Other ''invalid subaddress is_some boolean in metadata''))"

text \<open>A payment ID which cannot be read is none, and reading continues after what was consumed: the byte of
  an unknown type, or all of a slice which ends within the payment ID.\<close>

definition read_optional_payment_id :: "PaymentId option reader" where
  "read_optional_payment_id =
     and_then read_byte (\<lambda>is_some r.
       if is_some = 1 then
         case PaymentId_read r of
           Inr (payment_id, r) \<Rightarrow> Inr (Some payment_id, r)
         | Inl UnexpectedEof \<Rightarrow> Inr (None, [])
         | Inl _ \<Rightarrow> Inr (None, tl r)
       else Inr (None, r))"

fun read_chunks :: "nat \<Rightarrow> nat \<Rightarrow> bytes list reader" where
  "read_chunks 0 total_len = ok []"
| "read_chunks (Suc n) total_len =
     and_then read_byte (\<lambda>len.
     and_then (read_raw_vec read_byte (unat len)) (\<lambda>chunk.
       let total_len = min (total_len + length chunk) (2 ^ 64 - 1)
       in if total_len > MAX_EXTRA_SIZE_BY_RELAY_RULE
          then err (Other ''amount of arbitrary data exceeded amount allowed by policy'')
          else and_then (read_chunks n total_len) (\<lambda>data. ok (chunk # data))))"

definition read_arbitrary_data :: "bytes list reader" where
  "read_arbitrary_data =
     and_then varint_read (\<lambda>n :: usize.
       if unat n > MAX_EXTRA_SIZE_BY_RELAY_RULE
       then err (Other ''amount of arbitrary data chunks exceeded amount possible under policy'')
       else read_chunks (unat n) 0)"

definition Metadata_read :: "Metadata reader" where
  "Metadata_read =
     and_then Timelock_read (\<lambda>timelock.
     and_then read_subaddress (\<lambda>subaddress.
     and_then read_optional_payment_id (\<lambda>payment_id.
     and_then read_arbitrary_data (\<lambda>data.
     ok \<lparr>meta_additional_timelock = timelock, meta_subaddress = subaddress, meta_payment_id = payment_id,
         meta_arbitrary_data = data\<rparr>))))"

record 'p WalletOutput =
  absolute_id :: AbsoluteId
  relative_id :: RelativeId
  output_data :: "'p OutputData"
  output_metadata :: Metadata

definition WalletOutput_write :: "('s, 'p, 'z) dalek_scheme \<Rightarrow> 'p WalletOutput \<Rightarrow> bytes option" where
  "WalletOutput_write D self =
     Option.bind (Metadata_write (output_metadata self)) (\<lambda>metadata.
     Some (AbsoluteId_write (absolute_id self) @ RelativeId_write (relative_id self) @
       OutputData_write D (output_data self) @ metadata))"

definition WalletOutput_read :: "('s, 'p, 'z) dalek_scheme \<Rightarrow> 'p WalletOutput reader" where
  "WalletOutput_read D =
     and_then AbsoluteId_read (\<lambda>absolute.
     and_then RelativeId_read (\<lambda>relative.
     and_then (OutputData_read D) (\<lambda>data.
     and_then Metadata_read (\<lambda>metadata.
     ok \<lparr>absolute_id = absolute, relative_id = relative, output_data = data, output_metadata = metadata\<rparr>))))"

subsection \<open>Identifiers and data\<close>

definition wf_AbsoluteId :: "AbsoluteId \<Rightarrow> bool" where
  "wf_AbsoluteId self \<longleftrightarrow> length (id_transaction self) = 32"

definition wf_OutputData :: "('s, 'p, 'z) dalek_scheme \<Rightarrow> 'p OutputData \<Rightarrow> bool" where
  "wf_OutputData D self \<longleftrightarrow>
     wf_Point D (data_key self) \<and> wf_Scalar D (data_key_offset self) \<and> wf_Commitment D (data_commitment self)"

interpretation absolute_id_codec: codec AbsoluteId_write AbsoluteId_read wf_AbsoluteId
proof (rule codec_iffI)
  fix bs x rest
  show "AbsoluteId_read bs = Inr (x, rest) \<longleftrightarrow> wf_AbsoluteId x \<and> bs = AbsoluteId_write x @ rest"
    by (cases x) (auto simp: AbsoluteId_read_def AbsoluteId_write_def wf_AbsoluteId_def and_then_eq_Inr codec_iff)
qed

interpretation relative_id_codec: codec RelativeId_write RelativeId_read "\<lambda>_. True"
proof (rule codec_iffI)
  fix bs x rest
  show "RelativeId_read bs = Inr (x, rest) \<longleftrightarrow> True \<and> bs = RelativeId_write x @ rest"
    by (cases x) (auto simp: RelativeId_read_def RelativeId_write_def and_then_eq_Inr codec_iff)
qed

interpretation output_data_codec: codec "OutputData_write D" "OutputData_read D" "wf_OutputData D" for D
proof
  fix x rest
  assume wf: "wf_OutputData D x"
  then have "CompressedPoint_decompress D (Point_compress D (data_key x)) = Some (data_key x)"
    and "wf_CompressedPoint (Point_compress D (data_key x))"
    using decompress_wf [of D "Point_compress D (data_key x)" "data_key x"] by (simp_all add: wf_OutputData_def)
  with wf show "OutputData_read D (OutputData_write D x @ rest) = Inr (x, rest)"
    by (simp add: OutputData_read_def OutputData_write_def and_then_def wf_OutputData_def CompressedPoint_to_bytes_write
        point_codec.rd_wr scalar_codec.rd_wr commitment_codec.rd_wr)
next
  fix bs x rest
  assume "OutputData_read D bs = Inr (x, rest)"
  then obtain c r key off r' com where
    c: "CompressedPoint_read bs = Inr (c, r)" "CompressedPoint_decompress D c = Some key"
    and "Scalar_read D r = Inr (off, r')" "Commitment_read D r' = Inr (com, rest)"
    and x: "x = \<lparr>data_key = key, data_key_offset = off, data_commitment = com\<rparr>"
    by (auto simp: OutputData_read_def and_then_eq_Inr split: option.splits)
  then have parts: "wf_Scalar D off" "wf_Commitment D com" "r = Scalar_write off @ Commitment_write com @ rest"
    "wf_CompressedPoint c" "bs = CompressedPoint_write c @ r"
    by (simp_all add: codec_iff commitment_codec.rd_iff)
  then have "wf_Point D key" "c = Point_compress D key" using c(2) decompress_wf [of D c key] by simp_all
  with parts x show "wf_OutputData D x \<and> bs = OutputData_write D x @ rest"
    by (simp add: OutputData_write_def wf_OutputData_def CompressedPoint_to_bytes_write)
qed

subsection \<open>Metadata\<close>

definition parts_within_bounds :: "bytes list \<Rightarrow> bool" where
  "parts_within_bounds parts \<longleftrightarrow>
     length parts \<le> MAX_EXTRA_SIZE_BY_RELAY_RULE \<and> sum_list (map length parts) \<le> MAX_EXTRA_SIZE_BY_RELAY_RULE \<and>
     list_all (\<lambda>part. length part \<le> 255) parts"

definition wf_Metadata :: "Metadata \<Rightarrow> bool" where
  "wf_Metadata self \<longleftrightarrow>
     wf_Timelock (meta_additional_timelock self) \<and>
     pred_option (\<lambda>index. SubaddressIndex_new (index_account index) (index_address index) = Some index) (meta_subaddress self) \<and>
     pred_option wf_PaymentId (meta_payment_id self) \<and> parts_within_bounds (meta_arbitrary_data self)"

abbreviation part_bytes :: "bytes \<Rightarrow> bytes" where
  "part_bytes part \<equiv> word_of_nat (length part) # part"

lemma write_parts_concat:
  "list_all (\<lambda>part. length part \<le> 255) parts \<Longrightarrow> write_parts parts = Some (concat (map part_bytes parts))"
  by (induction parts) simp_all

lemma read_raw_bytes: "length xs = n \<Longrightarrow> read_raw_vec read_byte n (xs @ rest) = Inr (xs, rest)"
  by (induction xs arbitrary: n) (auto simp: and_then_def)

lemma read_chunks_parts:
  "list_all (\<lambda>part. length part \<le> 255) parts \<Longrightarrow>
   total_len + sum_list (map length parts) \<le> MAX_EXTRA_SIZE_BY_RELAY_RULE \<Longrightarrow>
   read_chunks (length parts) total_len (concat (map part_bytes parts) @ rest) = Inr (parts, rest)"
proof (induction parts arbitrary: total_len)
  case (Cons part parts)
  have "unat (word_of_nat (length part) :: u8) = length part" using Cons.prems(1) by (simp add: unat_of_nat)
  then have "read_raw_vec read_byte (unat (word_of_nat (length part) :: u8)) (part @ concat (map part_bytes parts) @ rest) =
      Inr (part, concat (map part_bytes parts) @ rest)" by (simp add: read_raw_bytes)
  moreover have "min (total_len + length part) (2 ^ 64 - 1) = total_len + length part"
    and "total_len + length part \<le> MAX_EXTRA_SIZE_BY_RELAY_RULE"
    using Cons.prems(2) by (simp_all add: MAX_EXTRA_SIZE_BY_RELAY_RULE_def)
  ultimately show ?case using Cons by (simp add: and_then_def Let_def)
qed simp

lemma Metadata_read_write:
  assumes "wf_Metadata self"
  obtains w where "Metadata_write self = Some w" and "\<And>rest. Metadata_read (w @ rest) = Inr (self, rest)"
proof -
  let ?parts = "meta_arbitrary_data self"
  have parts: "parts_within_bounds ?parts" using assms by (simp add: wf_Metadata_def)
  then have written: "write_parts ?parts = Some (concat (map part_bytes ?parts))"
    by (simp add: write_parts_concat parts_within_bounds_def)
  have "fits_usize ?parts" using parts by (simp add: parts_within_bounds_def fits_usize_def MAX_EXTRA_SIZE_BY_RELAY_RULE_def)
  then have data: "read_arbitrary_data (varint_write (vec_len ?parts) @ concat (map part_bytes ?parts) @ rest) = Inr (?parts, rest)" for rest
    using parts by (simp add: read_arbitrary_data_def and_then_def varint_u64.rd_wr parts_within_bounds_def read_chunks_parts)
  have sub: "read_subaddress ((case meta_subaddress self of
          Some subaddress \<Rightarrow> [1] @ to_le_bytes (index_account subaddress) @ to_le_bytes (index_address subaddress)
        | None \<Rightarrow> [0]) @ rest) = Inr (meta_subaddress self, rest)" for rest
    using assms by (auto simp: read_subaddress_def and_then_def u32_codec.rd_wr wf_Metadata_def split: option.splits)
  have pid: "read_optional_payment_id
      ((case meta_payment_id self of Some payment_id \<Rightarrow> [1] @ PaymentId_write payment_id | None \<Rightarrow> [0]) @ rest) =
      Inr (meta_payment_id self, rest)" for rest
    using assms by (auto simp: read_optional_payment_id_def payment_id_codec.rd_wr wf_Metadata_def split: option.splits)
  have "Timelock_read (Timelock_write (meta_additional_timelock self) @ rest) = Inr (meta_additional_timelock self, rest)" for rest
    using assms by (simp add: timelock_codec.rd_wr wf_Metadata_def)
  with data sub pid written that show thesis by (simp add: Metadata_write_def Metadata_read_def and_then_def)
qed

definition wf_WalletOutput :: "('s, 'p, 'z) dalek_scheme \<Rightarrow> 'p WalletOutput \<Rightarrow> bool" where
  "wf_WalletOutput D self \<longleftrightarrow>
     wf_AbsoluteId (absolute_id self) \<and> wf_OutputData D (output_data self) \<and> wf_Metadata (output_metadata self)"

lemma WalletOutput_read_write:
  assumes "wf_WalletOutput D self"
  obtains w where "WalletOutput_write D self = Some w" and "\<And>rest. WalletOutput_read D (w @ rest) = Inr (self, rest)"
proof -
  obtain m where m: "Metadata_write (output_metadata self) = Some m"
    "\<And>rest. Metadata_read (m @ rest) = Inr (output_metadata self, rest)"
    using Metadata_read_write [of "output_metadata self"] assms by (auto simp: wf_WalletOutput_def)
  show thesis
    using assms m(2) by (intro that [unfolded WalletOutput_write_def m(1) bind.simps, OF refl])
      (simp add: WalletOutput_read_def and_then_def absolute_id_codec.rd_wr relative_id_codec.rd_wr
        output_data_codec.rd_wr wf_WalletOutput_def)
qed

end
