(* ===== verification/Scan.thy ===== *)
theory Scan
  imports Wallet_Output Block
begin

text \<open>
  Scanning blocks for outputs (\<^verbatim>\<open>wallet/src/scan.rs\<close>). The map of the keys scanned for is a partial function. A
  function which may fail and may panic returns an option of a sum. The loop over the outputs of a transaction and the one
  over the transaction's keys are recursions; the body of the inner loop, \<open>scan_key\<close>, tells whether to go on to the next
  key (\<open>None\<close>) or yields the output found.

  The theory shows that what is scanned can be spent and stored, at which positions it is, and that an output sent to
  an address which is scanned for is found.
\<close>

record 's ScannableBlock =
  sb_block :: "'s Block"
  sb_transactions :: "pruned_transaction list"
  sb_output_index :: "u64 option"

text \<open>The operator \<open>?\<close> on what may panic and may fail.\<close>

definition try_then :: "('e + 'a) option \<Rightarrow> ('a \<Rightarrow> ('e + 'b) option) \<Rightarrow> ('e + 'b) option" where
  "try_then m f = Option.bind m (\<lambda>r. case r of Inl e \<Rightarrow> Some (Inl e) | Inr x \<Rightarrow> f x)"

subsection \<open>Timelocked outputs\<close>

type_synonym 'p Timelocked = "'p WalletOutput list"

definition WalletOutput_additional_timelock :: "'p WalletOutput \<Rightarrow> Timelock" where
  "WalletOutput_additional_timelock self = meta_additional_timelock (output_metadata self)"

fun not_additionally_locked :: "'p Timelocked \<Rightarrow> 'p WalletOutput list" where
  "not_additionally_locked [] = []"
| "not_additionally_locked (out # outs) =
     (if WalletOutput_additional_timelock out = Timelock_None then [out] else []) @ not_additionally_locked outs"

definition Timelock_le :: "Timelock \<Rightarrow> Timelock \<Rightarrow> bool" where
  "Timelock_le a b \<longleftrightarrow> Timelock_partial_cmp a b = Some Less \<or> Timelock_partial_cmp a b = Some Equal"

fun additional_timelock_satisfied_by :: "'p Timelocked \<Rightarrow> usize \<Rightarrow> u64 \<Rightarrow> 'p WalletOutput list" where
  "additional_timelock_satisfied_by [] block time = []"
| "additional_timelock_satisfied_by (out # outs) block time =
     (if Timelock_le (WalletOutput_additional_timelock out) (Timelock_Block block) \<or>
         Timelock_le (WalletOutput_additional_timelock out) (Timelock_Time time)
      then [out] else []) @ additional_timelock_satisfied_by outs block time"

subsection \<open>The scanner\<close>

datatype ScanError = UnsupportedProtocol u8 | InvalidScannableBlock string

record 'p InternalScanner =
  scan_pair :: "'p ViewPair"
  scan_guaranteed :: bool
  scan_subaddresses :: "CompressedPoint \<Rightarrow> SubaddressIndex option option"

definition InternalScanner_new :: "('s, 'p, 'z) dalek_scheme \<Rightarrow> 'p ViewPair \<Rightarrow> bool \<Rightarrow> 'p InternalScanner" where
  "InternalScanner_new D pair guaranteed =
     \<lparr>scan_pair = pair, scan_guaranteed = guaranteed,
      scan_subaddresses = (\<lambda>_. None)(Point_compress D (vp_spend pair) := Some None)\<rparr>"

definition register_subaddress ::
  "('s::zero, 'p::plus, 'z) dalek_scheme \<Rightarrow> (bytes \<Rightarrow> bytes) \<Rightarrow> 'p InternalScanner \<Rightarrow> SubaddressIndex \<Rightarrow>
   'p InternalScanner option" where
  "register_subaddress D keccak256 self subaddress =
     Option.bind (subaddress_keys D keccak256 (scan_pair self) subaddress) (\<lambda>(spend, _).
     Some (self\<lparr>scan_subaddresses := (scan_subaddresses self)(Point_compress D spend := Some (Some subaddress))\<rparr>))"

definition Scanner_new :: "('s, 'p, 'z) dalek_scheme \<Rightarrow> 'p ViewPair \<Rightarrow> 'p InternalScanner" where
  "Scanner_new D pair = InternalScanner_new D pair False"

definition GuaranteedScanner_new :: "('s, 'p, 'z) dalek_scheme \<Rightarrow> 'p GuaranteedViewPair \<Rightarrow> 'p InternalScanner" where
  "GuaranteedScanner_new D pair = InternalScanner_new D (guaranteed_pair pair) True"

text \<open>The amount of an output found, and its check against the commitment on the chain: \<open>Inr None\<close> where the loop
  continues.\<close>

definition scan_commitment ::
  "('s::comm_ring_1, 'p::ab_group_add, 'z) dalek_scheme \<Rightarrow> (bytes \<Rightarrow> bytes) \<Rightarrow> pruned_transaction \<Rightarrow> nat \<Rightarrow> Output \<Rightarrow>
   SharedKeyDerivations \<Rightarrow> (ScanError + Commitment option) option" where
  "scan_commitment D keccak256 tx o_index out derivations =
     (case out_amount out of
        Some amt \<Rightarrow> Some (Inr (Some ((Commitment_zero D)\<lparr>amount := amt\<rparr>)))
      | None \<Rightarrow>
     case tx of
        V2 _ (Some proofs) \<Rightarrow>
          (case slice_get (rct_encrypted_amounts (pruned_base proofs)) o_index of
             None \<Rightarrow> Some (Inl (InvalidScannableBlock ''RCT proofs without an encrypted amount per output''))
           | Some enc \<Rightarrow>
               Option.bind (SharedKeyDerivations_decrypt D keccak256 derivations enc) (\<lambda>commitment.
               Option.bind (Commitment_commit D commitment) (\<lambda>point.
               if Some (Point_compress D point) \<noteq> slice_get (rct_commitments (pruned_base proofs)) o_index
               then Some (Inr None) else Some (Inr (Some commitment)))))
      | _ \<Rightarrow> Some (Inl (InvalidScannableBlock ''non-miner v2 transaction without RCT proofs'')))"

definition scan_key ::
  "('s::comm_ring_1, 'p::ab_group_add, 'z) dalek_scheme \<Rightarrow> (bytes \<Rightarrow> bytes) \<Rightarrow> 'p InternalScanner \<Rightarrow> u64 \<Rightarrow> bytes \<Rightarrow>
   pruned_transaction \<Rightarrow> Extra \<Rightarrow> PaymentId option \<Rightarrow> nat \<Rightarrow> Output \<Rightarrow> 'p \<Rightarrow> 'p \<Rightarrow>
   (ScanError + 'p WalletOutput option) option" where
  "scan_key D keccak256 self first_index tx_hash tx extra payment_id o_index out output_key key =
     Option.bind (Scalar_into D (vp_view (scan_pair self))) (\<lambda>dalek_view.
     let ecdh = edwards_mul D dalek_view key
     in Option.bind
       (output_derivations D keccak256
          (if scan_guaranteed self then Some (uniqueness keccak256 (tx_inputs (tx_prefix tx))) else None)
          ecdh (word_of_nat o_index))
       (\<lambda>derivations.
     if (case out_view_tag out of Some actual \<Rightarrow> actual \<noteq> view_tag derivations | None \<Rightarrow> False) then Some (Inr None)
     else
     Option.bind (Scalar_into D (shared_key derivations)) (\<lambda>shared.
     case scan_subaddresses self
            (Point_compress D (output_key - edwards_mul D shared (ED25519_BASEPOINT_POINT D))) of
       None \<Rightarrow> Some (Inr None)
     | Some subaddress \<Rightarrow>
     Option.bind
       (case subaddress of
          None \<Rightarrow> Some shared
        | Some index \<Rightarrow>
            Option.bind (subaddress_derivation D keccak256 (scan_pair self) index) (\<lambda>derivation.
            Option.bind (Scalar_into D derivation) (\<lambda>derivation. Some (shared + derivation))))
       (\<lambda>key_offset.
     try_then (scan_commitment D keccak256 tx o_index out derivations) (\<lambda>r.
     case r of
       None \<Rightarrow> Some (Inr None)
     | Some commitment \<Rightarrow>
     let payment_id = map_option (\<lambda>pid. PaymentId_bitxor pid (payment_id_xor D keccak256 ecdh)) payment_id
     in if unat first_index + o_index \<ge> 2 ^ 64
        then Some (Inl (InvalidScannableBlock ''transaction's output's index isn't representable as a u64''))
        else Some (Inr (Some
          \<lparr>absolute_id = \<lparr>id_transaction = tx_hash, index_in_transaction = word_of_nat o_index\<rparr>,
           relative_id = \<lparr>index_on_blockchain = first_index + word_of_nat o_index\<rparr>,
           output_data = \<lparr>data_key = output_key, data_key_offset = Scalar_from D key_offset,
                          data_commitment = commitment\<rparr>,
           output_metadata = \<lparr>meta_additional_timelock = additional_timelock (tx_prefix tx),
                              meta_subaddress = subaddress, meta_payment_id = payment_id,
                              meta_arbitrary_data = Extra_arbitrary_data extra\<rparr>\<rparr>)))))))"

text \<open>The loop over the keys, which ends with the first under which the output is found.\<close>

fun scan_keys :: "('k \<Rightarrow> ('e + 'w option) option) \<Rightarrow> 'k list \<Rightarrow> ('e + 'w option) option" where
  "scan_keys scan [] = Some (Inr None)"
| "scan_keys scan (key # keys) =
     try_then (scan key) (\<lambda>r.
     case r of
       None \<Rightarrow> scan_keys scan keys
     | Some w \<Rightarrow> Some (Inr (Some w)))"

definition scan_output ::
  "('s::comm_ring_1, 'p::ab_group_add, 'z) dalek_scheme \<Rightarrow> (bytes \<Rightarrow> bytes) \<Rightarrow> 'p InternalScanner \<Rightarrow> u64 \<Rightarrow> bytes \<Rightarrow>
   pruned_transaction \<Rightarrow> Extra \<Rightarrow> 'p list \<Rightarrow> 'p list option \<Rightarrow> PaymentId option \<Rightarrow> nat \<Rightarrow> Output \<Rightarrow>
   (ScanError + 'p WalletOutput option) option" where
  "scan_output D keccak256 self first_index tx_hash tx extra tx_keys additional payment_id o_index out =
     (if out_key out = CompressedPoint_IDENTITY then Some (Inr None)
      else case CompressedPoint_decompress D (out_key out) of
        None \<Rightarrow> Some (Inr None)
      | Some output_key \<Rightarrow>
          let additional = Option.bind additional (\<lambda>additional. slice_get additional o_index)
          in scan_keys
               (scan_key D keccak256 self first_index tx_hash tx extra payment_id o_index out output_key)
               (tx_keys @ (case additional of None \<Rightarrow> [] | Some key \<Rightarrow> [key])))"

fun scan_outputs ::
  "(nat \<Rightarrow> 'o \<Rightarrow> ('e + 'w option) option) \<Rightarrow> nat \<Rightarrow> 'o list \<Rightarrow> ('e + 'w list) option" where
  "scan_outputs scan o_index [] = Some (Inr [])"
| "scan_outputs scan o_index (out # outs) =
     try_then (scan o_index out) (\<lambda>r.
     try_then (scan_outputs scan (Suc o_index) outs) (\<lambda>rest.
     Some (Inr ((case r of None \<Rightarrow> [] | Some w \<Rightarrow> [w]) @ rest))))"

definition scan_transaction ::
  "('s::comm_ring_1, 'p::ab_group_add, 'z) dalek_scheme \<Rightarrow> (bytes \<Rightarrow> bytes) \<Rightarrow> 'p InternalScanner \<Rightarrow> u64 \<Rightarrow> bytes \<Rightarrow>
   pruned_transaction \<Rightarrow> (ScanError + 'p Timelocked) option" where
  "scan_transaction D keccak256 self first_index tx_hash tx =
     (if tx_version tx \<noteq> 2 then Some (Inr [])
      else
        let extra = Extra_read (tx_extra (tx_prefix tx))
        in case Extra_keys D extra of
             None \<Rightarrow> Some (Inr [])
           | Some (tx_keys, additional) \<Rightarrow>
               let payment_id = Extra_payment_id extra
               in scan_outputs
                    (scan_output D keccak256 self first_index tx_hash tx extra tx_keys additional payment_id)
                    0 (tx_outputs (tx_prefix tx)))"

fun scan_transactions ::
  "('s::comm_ring_1, 'p::ab_group_add, 'z) dalek_scheme \<Rightarrow> (bytes \<Rightarrow> bytes) \<Rightarrow> 'p InternalScanner \<Rightarrow> u64 \<Rightarrow>
   (bytes \<times> pruned_transaction) list \<Rightarrow> (ScanError + 'p Timelocked) option" where
  "scan_transactions D keccak256 self first_index [] = Some (Inr [])"
| "scan_transactions D keccak256 self first_index ((tx_hash, tx) # txs) =
     try_then (scan_transaction D keccak256 self first_index tx_hash tx) (\<lambda>this_txs_outputs.
     let outputs_len = (case tx of V2 _ _ \<Rightarrow> length (tx_outputs (tx_prefix tx)) | _ \<Rightarrow> 0)
     in if unat first_index + outputs_len \<ge> 2 ^ 64
        then Some (Inl (InvalidScannableBlock ''RingCT output indexes exceeded u64::MAX''))
        else try_then (scan_transactions D keccak256 self (first_index + word_of_nat outputs_len) txs) (\<lambda>rest.
             Some (Inr (this_txs_outputs @ rest))))"

definition drop_unencrypted_payment_id :: "'p WalletOutput \<Rightarrow> 'p WalletOutput" where
  "drop_unencrypted_payment_id out =
     (case meta_payment_id (output_metadata out) of
        Some (Unencrypted _) \<Rightarrow> out\<lparr>output_metadata := (output_metadata out)\<lparr>meta_payment_id := None\<rparr>\<rparr>
      | _ \<Rightarrow> out)"

definition scan ::
  "('s::comm_ring_1, 'p::ab_group_add, 'z) dalek_scheme \<Rightarrow> (bytes \<Rightarrow> bytes) \<Rightarrow> 'p InternalScanner \<Rightarrow>
   's ScannableBlock \<Rightarrow> (ScanError + 'p Timelocked) option" where
  "scan D keccak256 self sb =
     (let block = sb_block sb
      in if length (block_transactions block) \<noteq> length (sb_transactions sb)
         then Some (Inl (InvalidScannableBlock
                ''scanning a ScannableBlock with more/less transactions than it should have''))
         else case sb_output_index sb of
           None \<Rightarrow> Some (Inr [])
         | Some first_index \<Rightarrow>
             if hardfork_version (block_header block) > 16
             then Some (Inl (UnsupportedProtocol (hardfork_version (block_header block))))
             else
               Option.bind (Transaction_hash D keccak256 (miner_transaction block)) (\<lambda>miner_hash.
               let txs_with_hashes = (miner_hash, Transaction_into_pruned (miner_transaction block)) #
                     zip (block_transactions block) (sb_transactions sb)
               in try_then (scan_transactions D keccak256 self first_index txs_with_hashes) (\<lambda>outs.
                  Some (Inr (if hardfork_version (block_header block) \<ge> 12
                             then map drop_unencrypted_payment_id outs else outs)))))"

lemma try_then_Inr: "try_then m f = Some (Inr y) \<longleftrightarrow> (\<exists>x. m = Some (Inr x) \<and> f x = Some (Inr y))"
  by (cases m) (auto simp: try_then_def split: sum.split)

lemma try_then_None: "try_then m f = None \<longleftrightarrow> m = None \<or> (\<exists>x. m = Some (Inr x) \<and> f x = None)"
  by (cases m) (auto simp: try_then_def split: sum.split)

lemma try_then_Some [simp]: "try_then (Some (Inr x)) f = f x"
  by (simp add: try_then_def)

subsection \<open>Which outputs are scanned, and where they are\<close>

text \<open>The RingCT outputs of a list of transactions, in the order in which the chain indexes them.\<close>

definition ringct_outputs_of :: "bytes \<times> pruned_transaction \<Rightarrow> (bytes \<times> pruned_transaction \<times> nat) list" where
  "ringct_outputs_of t =
     (case t of (h, tx) \<Rightarrow>
        case tx of V2 prefix _ \<Rightarrow> map (\<lambda>i. (h, tx, i)) [0..<length (tx_outputs prefix)] | _ \<Rightarrow> [])"

definition ringct_outputs :: "(bytes \<times> pruned_transaction) list \<Rightarrow> (bytes \<times> pruned_transaction \<times> nat) list" where
  "ringct_outputs txs = concat (map ringct_outputs_of txs)"

definition scan_at ::
  "('s::comm_ring_1, 'p::ab_group_add, 'z) dalek_scheme \<Rightarrow> (bytes \<Rightarrow> bytes) \<Rightarrow> 'p InternalScanner \<Rightarrow> nat \<Rightarrow>
   bytes \<times> pruned_transaction \<times> nat \<Rightarrow> (ScanError + 'p WalletOutput option) option" where
  "scan_at D k self base place =
     (case place of (h, tx, i) \<Rightarrow>
        let extra = Extra_read (tx_extra (tx_prefix tx))
        in case Extra_keys D extra of
             None \<Rightarrow> Some (Inr None)
           | Some (tx_keys, additional) \<Rightarrow>
               scan_output D k self (word_of_nat base) h tx extra tx_keys additional (Extra_payment_id extra) i
                 (tx_outputs (tx_prefix tx) ! i))"

definition found :: "'w option list \<Rightarrow> 'w list" where
  "found fs = concat (map (\<lambda>f. case f of None \<Rightarrow> [] | Some w \<Rightarrow> [w]) fs)"

lemma found_simps [simp]:
  "found [] = []" "found (None # fs) = found fs" "found (Some w # fs) = w # found fs"
  "found (fs @ gs) = found fs @ found gs"
  by (simp_all add: found_def)

lemma found_map: "map f (found fs) = found (map (map_option f) fs)"
  by (induction fs) (auto simp: found_def split: option.split)

lemma set_found: "w \<in> set (found fs) \<longleftrightarrow> Some w \<in> set fs"
  by (induction fs) (auto simp: found_def split: option.splits)

lemma found_positions:
  "\<exists>ps. sorted_wrt (<) ps \<and> list_all2 (\<lambda>p w. p < length fs \<and> fs ! p = Some w) ps (found fs)"
proof (induction fs)
  case (Cons f fs)
  then obtain ps where ps: "sorted_wrt (<) ps" "list_all2 (\<lambda>p w. p < length fs \<and> fs ! p = Some w) ps (found fs)" by blast
  have shift: "list_all2 (\<lambda>p w. p < length (f # fs) \<and> (f # fs) ! p = Some w) (map Suc ps) (found fs)"
    using ps(2) by (simp add: list_all2_map1)
  have "sorted_wrt (<) (map Suc ps)" "sorted_wrt (<) (0 # map Suc ps)" using ps(1) by (simp_all add: sorted_wrt_map)
  with shift show ?case
    by (cases f) (force intro: exI [of _ "0 # map Suc ps"] exI [of _ "map Suc ps"])+
qed simp

lemma scan_outputs_found:
  assumes "scan_outputs f i outs = Some (Inr ws)"
  shows "\<exists>fs. length fs = length outs \<and> ws = found fs \<and> (\<forall>j < length outs. f (i + j) (outs ! j) = Some (Inr (fs ! j)))"
  using assms
proof (induction outs arbitrary: i ws)
  case (Cons out outs)
  then obtain x rest where x: "f i out = Some (Inr x)" "scan_outputs f (Suc i) outs = Some (Inr rest)"
    and ws: "ws = found (x # []) @ rest"
    by (auto simp: try_then_Inr found_def)
  from Cons.IH [OF x(2)] obtain fs where "length fs = length outs" "rest = found fs"
    "\<forall>j < length outs. f (Suc i + j) (outs ! j) = Some (Inr (fs ! j))" by blast
  with x(1) ws show ?case
    by (intro exI [of _ "x # fs"]) (auto simp: less_Suc_eq_0_disj simp flip: found_simps(4))
qed simp

lemma scan_transaction_found:
  assumes "scan_transaction D k self first h tx = Some (Inr ws)"
  shows "\<exists>fs. length fs = length (ringct_outputs_of (h, tx)) \<and> ws = found fs \<and>
     (\<forall>j < length fs. scan_at D k self (unat first) (ringct_outputs_of (h, tx) ! j) = Some (Inr (fs ! j)))"
proof (cases tx)
  case (V1 prefix sigs)
  then show ?thesis using assms by (intro exI [of _ "[]"]) (simp add: scan_transaction_def ringct_outputs_of_def)
next
  case (V2 prefix proofs)
  let ?extra = "Extra_read (tx_extra prefix)"
  show ?thesis
  proof (cases "Extra_keys D ?extra")
    case None
    have "[] = found (replicate n None)" for n by (induction n) simp_all
    then show ?thesis
      using assms None V2
      by (intro exI [of _ "replicate (length (tx_outputs prefix)) None"])
        (simp add: scan_transaction_def ringct_outputs_of_def scan_at_def Let_def)
  next
    case (Some keys)
    obtain tx_keys additional where keys: "keys = (tx_keys, additional)" by (cases keys)
    from assms Some keys V2
    have "scan_outputs (scan_output D k self first h tx ?extra tx_keys additional (Extra_payment_id ?extra)) 0
        (tx_outputs prefix) = Some (Inr ws)" by (simp add: scan_transaction_def Let_def)
    from scan_outputs_found [OF this] show ?thesis
      using Some keys V2 by (simp add: ringct_outputs_of_def scan_at_def Let_def cong: conj_cong)
  qed
qed

lemma scan_transactions_found:
  assumes "scan_transactions D k self first txs = Some (Inr ws)"
  shows "\<exists>fs. length fs = length (ringct_outputs txs) \<and> ws = found fs \<and> unat first + length fs < 2 ^ 64 \<and>
     (\<forall>p < length fs. snd (snd (ringct_outputs txs ! p)) \<le> p \<and>
        scan_at D k self (unat first + p - snd (snd (ringct_outputs txs ! p))) (ringct_outputs txs ! p) =
          Some (Inr (fs ! p)))"
  using assms
proof (induction D k self first txs arbitrary: ws rule: scan_transactions.induct)
  case (1 D k self first)
  then show ?case using unsigned_less [of first, where 'a = nat] by (simp add: ringct_outputs_def)
next
  case (2 D k self first h tx txs)
  let ?here = "ringct_outputs_of (h, tx)"
  let ?n = "case tx of V2 _ _ \<Rightarrow> length (tx_outputs (tx_prefix tx)) | _ \<Rightarrow> 0"
  have n: "?n = length ?here" by (cases tx) (simp_all add: ringct_outputs_of_def)
  from "2.prems" obtain these rest where these: "scan_transaction D k self first h tx = Some (Inr these)"
    and lt: "unat first + length ?here < 2 ^ 64"
    and rest: "scan_transactions D k self (first + word_of_nat (length ?here)) txs = Some (Inr rest)"
    and ws: "ws = these @ rest"
    by (auto simp: try_then_Inr Let_def n split: if_splits)
  have first': "unat (first + word_of_nat (length ?here)) = unat first + length ?here"
    using lt by (simp add: unat_word_ariths unat_of_nat)
  obtain fs where fs: "length fs = length ?here" "these = found fs"
    "\<forall>j < length fs. scan_at D k self (unat first) (?here ! j) = Some (Inr (fs ! j))"
    using scan_transaction_found [OF these] by blast
  obtain gs where gs: "length gs = length (ringct_outputs txs)" "rest = found gs"
    "unat first + length ?here + length gs < 2 ^ 64"
    "\<forall>p < length gs. snd (snd (ringct_outputs txs ! p)) \<le> p \<and>
        scan_at D k self (unat first + length ?here + p - snd (snd (ringct_outputs txs ! p))) (ringct_outputs txs ! p) =
          Some (Inr (gs ! p))"
    using "2.IH" [OF n [symmetric] _ rest] lt first' by (auto simp: not_le)
  have here: "snd (snd (?here ! j)) = j" if "j < length ?here" for j
    using that by (cases tx) (simp_all add: ringct_outputs_of_def)
  have "snd (snd ((?here @ ringct_outputs txs) ! p)) \<le> p \<and>
      scan_at D k self (unat first + p - snd (snd ((?here @ ringct_outputs txs) ! p))) ((?here @ ringct_outputs txs) ! p) =
        Some (Inr ((fs @ gs) ! p))" if "p < length (fs @ gs)" for p
  proof (cases "p < length fs")
    case True
    then show ?thesis using here fs(1,3) by (simp add: nth_append)
  next
    case False
    then obtain q where q: "p = length ?here + q" using fs(1) by (metis le_Suc_ex not_less)
    then have "q < length gs" using that fs(1) by simp
    then show ?thesis using gs(4) [rule_format, of q] q fs(1) by (simp add: nth_append add.assoc)
  qed
  then show ?case
    using fs(1,2) gs(1-3) ws by (intro exI [of _ "fs @ gs"]) (simp add: ringct_outputs_def)
qed
lemma scan_keys_found:
  "scan_keys f keys = Some (Inr (Some w)) \<Longrightarrow> \<exists>key \<in> set keys. f key = Some (Inr (Some w))"
  by (induction keys) (auto simp: try_then_Inr split: option.splits)

text \<open>What an output found was found with.\<close>

definition offset_of ::
  "('s::comm_ring_1, 'z) dalek_scalar_scheme \<Rightarrow> (bytes \<Rightarrow> bytes) \<Rightarrow> 'p ViewPair \<Rightarrow> SubaddressIndex option \<Rightarrow> 's option" where
  "offset_of D k pair subaddress =
     (case subaddress of
        None \<Rightarrow> Some 0
      | Some index \<Rightarrow> Option.bind (subaddress_derivation D k pair index) (Scalar_into D))"

lemma scan_key_found:
  assumes "scan_key D k self first h tx extra pid i out okey key = Some (Inr (Some w))"
  obtains view d shared subaddress off c where
    "Scalar_into D (vp_view (scan_pair self)) = Some view"
    "output_derivations D k (if scan_guaranteed self then Some (uniqueness k (tx_inputs (tx_prefix tx))) else None)
       (edwards_mul D view key) (word_of_nat i) = Some d"
    "Scalar_into D (shared_key d) = Some shared"
    "scan_subaddresses self (Point_compress D (okey - edwards_mul D shared (ED25519_BASEPOINT_POINT D))) = Some subaddress"
    "offset_of D k (scan_pair self) subaddress = Some off"
    "scan_commitment D k tx i out d = Some (Inr (Some c))"
    "unat first + i < 2 ^ 64"
    "absolute_id w = \<lparr>id_transaction = h, index_in_transaction = word_of_nat i\<rparr>"
    "relative_id w = \<lparr>index_on_blockchain = first + word_of_nat i\<rparr>"
    "output_data w = \<lparr>data_key = okey, data_key_offset = Scalar_from D (shared + off), data_commitment = c\<rparr>"
    "output_metadata w = \<lparr>meta_additional_timelock = additional_timelock (tx_prefix tx), meta_subaddress = subaddress,
       meta_payment_id = map_option (\<lambda>pid. PaymentId_bitxor pid (payment_id_xor D k (edwards_mul D view key))) pid,
       meta_arbitrary_data = Extra_arbitrary_data extra\<rparr>"
proof -
  from assms obtain view where view: "Scalar_into D (vp_view (scan_pair self)) = Some view"
    by (auto simp: scan_key_def bind_eq_Some_conv)
  with assms obtain d where d: "output_derivations D k
      (if scan_guaranteed self then Some (uniqueness k (tx_inputs (tx_prefix tx))) else None)
       (edwards_mul D view key) (word_of_nat i) = Some d"
    by (auto simp: scan_key_def Let_def bind_eq_Some_conv)
  note step1 = assms [unfolded scan_key_def view Let_def bind.simps d]
  from step1 obtain shared where shared: "Scalar_into D (shared_key d) = Some shared"
    by (auto simp: bind_eq_Some_conv split: if_splits)
  from step1 obtain sub where sub:
    "scan_subaddresses self (Point_compress D (okey - edwards_mul D shared (ED25519_BASEPOINT_POINT D))) = Some sub"
    by (auto simp: shared split: if_splits option.splits)
  note step2 = step1 [unfolded shared bind.simps sub option.case]
  from step2 obtain off c where off: "offset_of D k (scan_pair self) sub = Some off"
    and c: "scan_commitment D k tx i out d = Some (Inr (Some c))" "unat first + i < 2 ^ 64"
    and w: "w = \<lparr>absolute_id = \<lparr>id_transaction = h, index_in_transaction = word_of_nat i\<rparr>,
           relative_id = \<lparr>index_on_blockchain = first + word_of_nat i\<rparr>,
           output_data = \<lparr>data_key = okey, data_key_offset = Scalar_from D (shared + off), data_commitment = c\<rparr>,
           output_metadata = \<lparr>meta_additional_timelock = additional_timelock (tx_prefix tx), meta_subaddress = sub,
             meta_payment_id = map_option (\<lambda>pid. PaymentId_bitxor pid (payment_id_xor D k (edwards_mul D view key))) pid,
             meta_arbitrary_data = Extra_arbitrary_data extra\<rparr>\<rparr>"
    by (cases sub) (auto simp: offset_of_def try_then_Inr bind_eq_Some_conv not_le split: if_splits option.splits)
  show thesis by (rule that [OF view d shared sub off c]) (simp_all add: w)
qed

lemma scan_at_found:
  assumes "scan_at D k self base (h, tx, i) = Some (Inr (Some w))"
  obtains okey key where
    "CompressedPoint_decompress D (out_key (tx_outputs (tx_prefix tx) ! i)) = Some okey"
    "out_key (tx_outputs (tx_prefix tx) ! i) \<noteq> CompressedPoint_IDENTITY"
    "scan_key D k self (word_of_nat base) h tx (Extra_read (tx_extra (tx_prefix tx)))
       (Extra_payment_id (Extra_read (tx_extra (tx_prefix tx)))) i (tx_outputs (tx_prefix tx) ! i) okey key =
       Some (Inr (Some w))"
  using assms
  by (auto simp: scan_at_def scan_output_def Let_def dest!: scan_keys_found split: option.splits if_splits)

subsection \<open>Scanners\<close>

text \<open>The scanners there are: made for a view pair, with the subaddresses registered since.\<close>

definition wf_SubaddressIndex :: "SubaddressIndex \<Rightarrow> bool" where
  "wf_SubaddressIndex index \<longleftrightarrow> SubaddressIndex_new (index_account index) (index_address index) = Some index"

inductive scanner_of ::
  "('s::zero, 'p::plus, 'z) dalek_scheme \<Rightarrow> (bytes \<Rightarrow> bytes) \<Rightarrow> 'p ViewPair \<Rightarrow> bool \<Rightarrow> SubaddressIndex set \<Rightarrow>
   'p InternalScanner \<Rightarrow> bool" for D k pair guaranteed where
  new: "scanner_of D k pair guaranteed {} (InternalScanner_new D pair guaranteed)"
| register: "scanner_of D k pair guaranteed indexes self \<Longrightarrow> wf_SubaddressIndex index \<Longrightarrow>
     register_subaddress D k self index = Some self' \<Longrightarrow> scanner_of D k pair guaranteed (insert index indexes) self'"

text \<open>The spend key of an address of the pair.\<close>

definition spend_key_of ::
  "('s::comm_ring_1, 'p::ab_group_add, 'z) dalek_scheme \<Rightarrow> (bytes \<Rightarrow> bytes) \<Rightarrow> 'p ViewPair \<Rightarrow> SubaddressIndex option \<Rightarrow>
   'p option" where
  "spend_key_of D k pair subaddress =
     (case subaddress of
        None \<Rightarrow> Some (vp_spend pair)
      | Some index \<Rightarrow> map_option fst (subaddress_keys D k pair index))"

lemma scanner_of_invariant:
  "scanner_of D k pair guaranteed indexes self \<Longrightarrow>
   scan_pair self = pair \<and> scan_guaranteed self = guaranteed \<and>
   (\<forall>c s. scan_subaddresses self c = Some s \<longrightarrow>
      (\<exists>spend. spend_key_of D k pair s = Some spend \<and> c = Point_compress D spend) \<and> pred_option wf_SubaddressIndex s) \<and>
   (\<forall>s spend. s = None \<or> s \<in> Some ` indexes \<longrightarrow> spend_key_of D k pair s = Some spend \<longrightarrow>
      scan_subaddresses self (Point_compress D spend) \<noteq> None)"
proof (induction rule: scanner_of.induct)
  case new
  show ?case by (auto simp: InternalScanner_new_def spend_key_of_def)
next
  case (register indexes self index self')
  then obtain spend view where "subaddress_keys D k pair index = Some (spend, view)"
    and "self' = self\<lparr>scan_subaddresses := (scan_subaddresses self)(Point_compress D spend := Some (Some index))\<rparr>"
    by (auto simp: register_subaddress_def bind_eq_Some_conv)
  with register show ?case by (auto simp: spend_key_of_def)
qed

subsection \<open>What a scanned output is\<close>

definition spendable ::
  "('s::comm_ring_1, 'p::ab_group_add, 'z) dalek_scheme \<Rightarrow> 'p \<Rightarrow> 'p WalletOutput \<Rightarrow> bool" where
  "spendable D spend w \<longleftrightarrow>
     (\<exists>offset. Scalar_into D (data_key_offset (output_data w)) = Some offset \<and>
        data_key (output_data w) = spend + edwards_mul D offset (ED25519_BASEPOINT_POINT D))"

definition opens_commitment ::
  "('s::comm_ring_1, 'p::ab_group_add, 'z) dalek_scheme \<Rightarrow> pruned_transaction \<Rightarrow> nat \<Rightarrow> Commitment \<Rightarrow> bool" where
  "opens_commitment D tx i c \<longleftrightarrow>
     (case out_amount (tx_outputs (tx_prefix tx) ! i) of
        Some amt \<Rightarrow> c = (Commitment_zero D)\<lparr>amount := amt\<rparr>
      | None \<Rightarrow> \<exists>prefix proofs point. tx = V2 prefix (Some proofs) \<and> Commitment_commit D c = Some point \<and>
          slice_get (rct_commitments (pruned_base proofs)) i = Some (Point_compress D point))"

definition scanned_from ::
  "('s::comm_ring_1, 'p::ab_group_add, 'z) dalek_scheme \<Rightarrow> bytes \<times> pruned_transaction \<times> nat \<Rightarrow> 'p WalletOutput \<Rightarrow> bool" where
  "scanned_from D place w \<longleftrightarrow>
     (case place of (h, tx, i) \<Rightarrow>
        let out = tx_outputs (tx_prefix tx) ! i
        in absolute_id w = \<lparr>id_transaction = h, index_in_transaction = word_of_nat i\<rparr> \<and>
           CompressedPoint_decompress D (out_key out) = Some (data_key (output_data w)) \<and>
           out_key out \<noteq> CompressedPoint_IDENTITY \<and>
           opens_commitment D tx i (data_commitment (output_data w)))"

lemma scan_commitment_opens:
  "scan_commitment D k tx i (tx_outputs (tx_prefix tx) ! i) d = Some (Inr (Some c)) \<Longrightarrow> opens_commitment D tx i c"
  unfolding scan_commitment_def opens_commitment_def
  by (cases tx) (auto simp: bind_eq_Some_conv split: option.splits if_splits)

lemma scan_at_scanned_from:
  assumes "scan_at D k self base (h, tx, i) = Some (Inr (Some w))"
  shows "scanned_from D (h, tx, i) w"
    and "unat (word_of_nat base :: u64) + i < 2 ^ 64"
    and "relative_id w = \<lparr>index_on_blockchain = word_of_nat base + word_of_nat i\<rparr>"
proof -
  obtain okey key where o:
    "CompressedPoint_decompress D (out_key (tx_outputs (tx_prefix tx) ! i)) = Some okey"
    "out_key (tx_outputs (tx_prefix tx) ! i) \<noteq> CompressedPoint_IDENTITY"
    and key: "scan_key D k self (word_of_nat base) h tx (Extra_read (tx_extra (tx_prefix tx)))
       (Extra_payment_id (Extra_read (tx_extra (tx_prefix tx)))) i (tx_outputs (tx_prefix tx) ! i) okey key =
       Some (Inr (Some w))"
    by (rule scan_at_found [OF assms])
  from key show "unat (word_of_nat base :: u64) + i < 2 ^ 64"
    and "relative_id w = \<lparr>index_on_blockchain = word_of_nat base + word_of_nat i\<rparr>"
    by (auto elim: scan_key_found)
  from key obtain d c where "scan_commitment D k tx i (tx_outputs (tx_prefix tx) ! i) d = Some (Inr (Some c))"
    "absolute_id w = \<lparr>id_transaction = h, index_in_transaction = word_of_nat i\<rparr>"
    "data_key (output_data w) = okey" "data_commitment (output_data w) = c"
    by (rule scan_key_found) simp
  with o scan_commitment_opens show "scanned_from D (h, tx, i) w"
    by (simp add: scanned_from_def Let_def)
qed

lemma scan_at_index:
  assumes "scan_at D k self (n - i) (h, tx, i) = Some (Inr (Some w))" and "i \<le> n" and "n < 2 ^ 64"
  shows "unat (index_on_blockchain (relative_id w)) = n"
proof -
  have "(word_of_nat (n - i) :: u64) + word_of_nat i = word_of_nat n" using assms(2) by (simp flip: of_nat_add)
  then show ?thesis using scan_at_scanned_from(3) [OF assms(1)] assms(3) by (simp add: unat_of_nat)
qed

lemma compress_inj: "curve_laws D \<Longrightarrow> Point_compress D p = Point_compress D q \<Longrightarrow> p = q"
  using curve_point(1) [of D] by (metis Point_compress_def option.inject)

lemma base_mul_add:
  assumes "curve_laws D"
  shows "edwards_mul D (a + b) (ED25519_BASEPOINT_POINT D) =
         edwards_mul D a (ED25519_BASEPOINT_POINT D) + edwards_mul D b (ED25519_BASEPOINT_POINT D)"
  using assms unfolding curve_laws_def torsion_free_laws_def by blast

lemma base_mul_0:
  assumes "curve_laws D"
  shows "edwards_mul D 0 (ED25519_BASEPOINT_POINT D) = 0"
  using base_mul_add [OF assms, of 0 0] by simp

lemma spend_key_offset:
  assumes "curve_laws D" and "offset_of D k pair s = Some off" and "spend_key_of D k pair s = Some spend"
  shows "spend = vp_spend pair + edwards_mul D off (ED25519_BASEPOINT_POINT D)"
  using assms base_mul_0 [OF assms(1)]
  by (auto simp: offset_of_def spend_key_of_def subaddress_keys_def Let_def bind_eq_Some_conv split: option.splits)

lemma scan_at_spendable:
  assumes "curve_laws D" and "scanner_of D k pair guaranteed indexes self"
    and "scan_at D k self base place = Some (Inr (Some w))"
  shows "spendable D (vp_spend pair) w"
proof -
  obtain h tx i where place: "place = (h, tx, i)" by (cases place)
  obtain okey key where key: "scan_key D k self (word_of_nat base) h tx (Extra_read (tx_extra (tx_prefix tx)))
       (Extra_payment_id (Extra_read (tx_extra (tx_prefix tx)))) i (tx_outputs (tx_prefix tx) ! i) okey key =
       Some (Inr (Some w))"
    by (rule scan_at_found [OF assms(3) [unfolded place]])
  obtain shared s off c where s:
    "scan_subaddresses self (Point_compress D (okey - edwards_mul D shared (ED25519_BASEPOINT_POINT D))) = Some s"
    and off: "offset_of D k pair s = Some off"
    and w: "output_data w = \<lparr>data_key = okey, data_key_offset = Scalar_from D (shared + off), data_commitment = c\<rparr>"
    by (rule scan_key_found [OF key]) (use scanner_of_invariant [OF assms(2)] in auto)
  obtain spend where spend: "spend_key_of D k pair s = Some spend"
    "Point_compress D (okey - edwards_mul D shared (ED25519_BASEPOINT_POINT D)) = Point_compress D spend"
    using scanner_of_invariant [OF assms(2)] s by blast
  have "okey = vp_spend pair + edwards_mul D (shared + off) (ED25519_BASEPOINT_POINT D)"
    using compress_inj [OF assms(1) spend(2)] spend_key_offset [OF assms(1) off spend(1)]
    by (simp add: base_mul_add [OF assms(1)] algebra_simps)
  with w curve_scalar(1) [OF assms(1)] show ?thesis by (simp add: spendable_def)
qed

lemma scan_found:
  assumes "scan D k self sb = Some (Inr outs)" and "sb_output_index sb = Some first"
    and "Transaction_hash D k (miner_transaction (sb_block sb)) = Some mh"
  defines "txs \<equiv> (mh, Transaction_into_pruned (miner_transaction (sb_block sb))) #
      zip (block_transactions (sb_block sb)) (sb_transactions sb)"
  obtains fs g where "length fs = length (ringct_outputs txs)" and "outs = found (map (map_option g) fs)"
    and "unat first + length fs < 2 ^ 64"
    and "\<forall>p < length fs. snd (snd (ringct_outputs txs ! p)) \<le> p \<and>
        scan_at D k self (unat first + p - snd (snd (ringct_outputs txs ! p))) (ringct_outputs txs ! p) =
          Some (Inr (fs ! p))"
    and "g = drop_unencrypted_payment_id \<or> g = (\<lambda>w. w)"
proof -
  from assms(1-3) obtain ws where ws: "scan_transactions D k self first txs = Some (Inr ws)"
    and "outs = map drop_unencrypted_payment_id ws \<or> outs = map (\<lambda>w. w) ws"
    by (auto simp: scan_def Let_def txs_def try_then_Inr simp del: scan_transactions.simps split: if_splits)
  then obtain g where g: "outs = map g ws" "g = drop_unencrypted_payment_id \<or> g = (\<lambda>w. w)" by blast
  obtain fs where fs: "length fs = length (ringct_outputs txs)" "ws = found fs" "unat first + length fs < 2 ^ 64"
    and at: "\<forall>p < length fs. snd (snd (ringct_outputs txs ! p)) \<le> p \<and>
        scan_at D k self (unat first + p - snd (snd (ringct_outputs txs ! p))) (ringct_outputs txs ! p) =
          Some (Inr (fs ! p))"
    using scan_transactions_found [OF ws] by blast
  show thesis by (rule that [OF fs(1) _ fs(3) at g(2)]) (simp add: g(1) fs(2) found_map)
qed

subsection \<open>Scanned outputs can be stored\<close>

lemma decrypt_wf:
  assumes "curve_laws D" and "SharedKeyDerivations_decrypt D k d a = Some c"
  shows "wf_Commitment D c"
  using assms
  by (cases a)
     (auto simp: Commitment_new_def wf_Commitment_def Let_def bind_eq_Some_conv commitment_mask_def wf_Scalar_from
       intro: Scalar_hash_wf)

lemma scan_commitment_wf:
  assumes "curve_laws D" and "scan_commitment D k tx i out d = Some (Inr (Some c))"
  shows "wf_Commitment D c"
  using assms
  by (auto simp: scan_commitment_def bind_eq_Some_conv Commitment_zero_def wf_Commitment_def [of D "\<lparr>mask = m, amount = a\<rparr>" for m a]
      wf_Scalar_from split: option.splits Transaction.splits if_splits intro: decrypt_wf)

lemma Extra_payment_id_wf: "Extra_payment_id extra = Some pid \<Longrightarrow> wf_PaymentId pid"
  by (induction extra rule: Extra_payment_id.induct)
     (auto simp: payment_id_codec.rd_iff split: sum.splits if_splits)

lemma sum_list_Suc: "sum_list (map (\<lambda>d. length d + 1) xs) = sum_list (map length xs) + length xs"
  by (induction xs) simp_all

lemma Extra_arbitrary_data_parts: "parts_within_bounds (Extra_arbitrary_data extra)"
  using arbitrary_data_bounds [of extra]
  by (auto simp: parts_within_bounds_def sum_list_Suc MAX_ARBITRARY_DATA_SIZE_def MAX_TX_EXTRA_NONCE_SIZE_def list_all_iff
      simp del: One_nat_def)

lemma scan_at_wf:
  assumes "curve_laws D" and "scanner_of D k pair guaranteed indexes self"
    and "scan_at D k self base (h, tx, i) = Some (Inr (Some w))"
    and "length h = 32" and "wf_Timelock (additional_timelock (tx_prefix tx))"
  shows "wf_WalletOutput D w"
proof -
  let ?extra = "Extra_read (tx_extra (tx_prefix tx))"
  obtain okey key where key: "scan_key D k self (word_of_nat base) h tx ?extra (Extra_payment_id ?extra) i
      (tx_outputs (tx_prefix tx) ! i) okey key = Some (Inr (Some w))"
    by (rule scan_at_found [OF assms(3)])
  show ?thesis
  proof (rule scan_key_found [OF key])
    fix view d shared s off c
    assume s: "scan_subaddresses self (Point_compress D (okey - edwards_mul D shared (ED25519_BASEPOINT_POINT D))) = Some s"
      and c: "scan_commitment D k tx i (tx_outputs (tx_prefix tx) ! i) d = Some (Inr (Some c))"
      and "absolute_id w = \<lparr>id_transaction = h, index_in_transaction = word_of_nat i\<rparr>"
        "output_data w = \<lparr>data_key = okey, data_key_offset = Scalar_from D (shared + off), data_commitment = c\<rparr>"
        "output_metadata w = \<lparr>meta_additional_timelock = additional_timelock (tx_prefix tx), meta_subaddress = s,
           meta_payment_id = map_option (\<lambda>pid. PaymentId_bitxor pid (payment_id_xor D k (edwards_mul D view key)))
             (Extra_payment_id ?extra),
           meta_arbitrary_data = Extra_arbitrary_data ?extra\<rparr>"
    moreover have "pred_option wf_SubaddressIndex s" using scanner_of_invariant [OF assms(2)] s by blast
    moreover have "pred_option wf_PaymentId (map_option (\<lambda>pid. PaymentId_bitxor pid x) (Extra_payment_id ?extra))" for x
      using Extra_payment_id_wf [of ?extra] by (cases "Extra_payment_id ?extra") simp_all
    moreover have "wf_Commitment D c" by (rule scan_commitment_wf [OF assms(1) c])
    moreover have "wf_Point D okey" using assms(1) by (simp add: curve_laws_def)
    ultimately show ?thesis
      using assms(4,5)
      by (simp add: wf_WalletOutput_def wf_AbsoluteId_def wf_OutputData_def wf_Metadata_def wf_SubaddressIndex_def [abs_def]
          wf_Scalar_from [OF assms(1)] Extra_arbitrary_data_parts)
  qed
qed

lemma drop_unencrypted_wf: "wf_WalletOutput D w \<Longrightarrow> wf_WalletOutput D (drop_unencrypted_payment_id w)"
  by (auto simp: drop_unencrypted_payment_id_def wf_WalletOutput_def wf_Metadata_def split: option.splits PaymentId.splits)

lemma drop_unencrypted_simps [simp]:
  "absolute_id (drop_unencrypted_payment_id w) = absolute_id w"
  "relative_id (drop_unencrypted_payment_id w) = relative_id w"
  "output_data (drop_unencrypted_payment_id w) = output_data w"
  by (auto simp: drop_unencrypted_payment_id_def split: option.splits PaymentId.splits)


lemma scan_output_from:
  assumes "scan D k self sb = Some (Inr outs)" and "w \<in> set outs"
  obtains mh base h tx i w' where "Transaction_hash D k (miner_transaction (sb_block sb)) = Some mh"
    and "(h, tx) = (mh, Transaction_into_pruned (miner_transaction (sb_block sb))) \<or>
         h \<in> set (block_transactions (sb_block sb)) \<and> tx \<in> set (sb_transactions sb)"
    and "scan_at D k self base (h, tx, i) = Some (Inr (Some w'))"
    and "w = w' \<or> w = drop_unencrypted_payment_id w'"
proof -
  obtain mh where mh: "Transaction_hash D k (miner_transaction (sb_block sb)) = Some mh"
    using Transaction_hash_total by blast
  obtain first where first: "sb_output_index sb = Some first"
    using assms by (cases "sb_output_index sb") (auto simp: scan_def Let_def split: if_splits)
  let ?txs = "(mh, Transaction_into_pruned (miner_transaction (sb_block sb))) #
      zip (block_transactions (sb_block sb)) (sb_transactions sb)"
  obtain fs g where fs: "length fs = length (ringct_outputs ?txs)" and outs: "outs = found (map (map_option g) fs)"
    and at: "\<forall>p < length fs. snd (snd (ringct_outputs ?txs ! p)) \<le> p \<and>
        scan_at D k self (unat first + p - snd (snd (ringct_outputs ?txs ! p))) (ringct_outputs ?txs ! p) =
          Some (Inr (fs ! p))"
    and g: "g = drop_unencrypted_payment_id \<or> g = (\<lambda>w. w)"
    by (rule scan_found [OF assms(1) first mh])
  from assms(2) outs obtain w' where w': "Some w' \<in> set fs" "w = g w'" by (auto simp: set_found map_option_case split: option.splits)
  then obtain p where p: "p < length fs" "fs ! p = Some w'" by (auto simp: in_set_conv_nth)
  obtain h tx i where place: "ringct_outputs ?txs ! p = (h, tx, i)" by (metis prod_cases3)
  have "(h, tx, i) \<in> set (ringct_outputs ?txs)" using p(1) fs place by (metis nth_mem)
  then have "(h, tx) \<in> set ?txs" by (auto simp: ringct_outputs_def ringct_outputs_of_def split: Transaction.splits)
  then have tx: "(h, tx) = (mh, Transaction_into_pruned (miner_transaction (sb_block sb))) \<or>
      h \<in> set (block_transactions (sb_block sb)) \<and> tx \<in> set (sb_transactions sb)"
    by (auto dest: set_zip_leftD set_zip_rightD)
  have "scan_at D k self (unat first + p - i) (h, tx, i) = Some (Inr (Some w'))"
    using at [rule_format, OF p(1)] p(2) place by simp
  then show thesis by (rule that [OF mh tx]) (use w'(2) g in auto)
qed

subsection \<open>Scanning\<close>

text \<open>C20. A scanned output is where it is said to be: the outputs a scan returns are, in the order of the chain and each
  at most once, outputs of the block's RingCT transactions, whose index on the chain is the one of the block's first
  output plus their position among the block's outputs. Each carries the identity, the key (never the identity point)
  and an opening of the commitment of the very output it was scanned from: the amount in the clear of a miner's
  output, the decrypted one of any other.\<close>

theorem scan_outputs_located:
  assumes "scan D keccak256 self sb = Some (Inr outs)" and "sb_output_index sb = Some first"
    and "Transaction_hash D keccak256 (miner_transaction (sb_block sb)) = Some mh"
    and "places = ringct_outputs ((mh, Transaction_into_pruned (miner_transaction (sb_block sb))) #
                    zip (block_transactions (sb_block sb)) (sb_transactions sb))"
  shows "\<exists>ps. sorted_wrt (<) ps \<and>
     list_all2 (\<lambda>p w. p < length places \<and> unat (index_on_blockchain (relative_id w)) = unat first + p \<and>
       scanned_from D (places ! p) w) ps outs"
proof -
  obtain fs g where fs: "length fs = length places" and outs: "outs = found (map (map_option g) fs)"
    and lt: "unat first + length fs < 2 ^ 64"
    and at: "\<forall>p < length fs. snd (snd (places ! p)) \<le> p \<and>
        scan_at D keccak256 self (unat first + p - snd (snd (places ! p))) (places ! p) = Some (Inr (fs ! p))"
    and g: "g = drop_unencrypted_payment_id \<or> g = (\<lambda>w. w)"
    unfolding assms(4) by (rule scan_found [OF assms(1-3)])
  have place: "unat (index_on_blockchain (relative_id w)) = unat first + p \<and> scanned_from D (places ! p) w"
    if p: "p < length fs" and w': "map (map_option g) fs ! p = Some w" for p w
  proof -
    obtain w' where w': "fs ! p = Some w'" "w = g w'" using p w' by auto
    obtain h tx i where pl: "places ! p = (h, tx, i)" by (metis prod_cases3)
    have i: "i \<le> p" using at [rule_format, OF p] pl by simp
    have "scan_at D keccak256 self (unat first + p - i) (h, tx, i) = Some (Inr (Some w'))"
      using at [rule_format, OF p] pl w'(1) by simp
    note scanned = scan_at_scanned_from(1) [OF this] scan_at_index [OF this]
    have "unat (index_on_blockchain (relative_id w')) = unat first + p" using scanned(2) i p lt by simp
    with scanned(1) w'(2) g pl show ?thesis by (auto simp: scanned_from_def Let_def)
  qed
  obtain ps where "sorted_wrt (<) ps"
    "list_all2 (\<lambda>p w. p < length fs \<and> map (map_option g) fs ! p = Some w) ps outs"
    using found_positions [of "map (map_option g) fs"] outs by auto
  moreover from this(2) have "list_all2 (\<lambda>p w. p < length places \<and>
      unat (index_on_blockchain (relative_id w)) = unat first + p \<and> scanned_from D (places ! p) w) ps outs"
    by (rule list_all2_mono) (use place fs in auto)
  ultimately show ?thesis by blast
qed

text \<open>C19. A scanned output can be spent: its key offset, added to the private spend key, is the discrete logarithm of
  the output's key, whether the output was sent to the primary address or to a subaddress.\<close>

theorem scan_outputs_spendable:
  assumes "curve_laws D" and "scanner_of D keccak256 pair guaranteed indexes self"
    and "scan D keccak256 self sb = Some (Inr outs)" and "w \<in> set outs"
    and "vp_spend pair = edwards_mul D spend_key (ED25519_BASEPOINT_POINT D)"
  shows "\<exists>offset. Scalar_into D (data_key_offset (output_data w)) = Some offset \<and>
     data_key (output_data w) = edwards_mul D (spend_key + offset) (ED25519_BASEPOINT_POINT D)"
proof -
  obtain base h tx i w' where "scan_at D keccak256 self base (h, tx, i) = Some (Inr (Some w'))"
    and w': "w = w' \<or> w = drop_unencrypted_payment_id w'"
    by (rule scan_output_from [OF assms(3,4)])
  from scan_at_spendable [OF assms(1,2) this(1)] w' assms(5) show ?thesis
    by (auto simp: spendable_def base_mul_add [OF assms(1)])
qed

text \<open>C21. A scanned output can be stored: over a well-formed block and timelocks a transaction can be read with,
  writing it does not panic, and reading what was written gives it back and leaves what follows.\<close>

theorem scan_outputs_stored:
  assumes "curve_laws D" and "hash32 keccak256" and "scanner_of D keccak256 pair guaranteed indexes self"
    and "wf_Block D (sb_block sb)"
    and "\<forall>tx \<in> set (sb_transactions sb). wf_Timelock (additional_timelock (tx_prefix tx))"
    and "scan D keccak256 self sb = Some (Inr outs)" and "w \<in> set outs"
  shows "\<exists>written. WalletOutput_write D w = Some written \<and> WalletOutput_read D (written @ rest) = Inr (w, rest)"
proof -
  obtain mh base h tx i w' where mh: "Transaction_hash D keccak256 (miner_transaction (sb_block sb)) = Some mh"
    and tx: "(h, tx) = (mh, Transaction_into_pruned (miner_transaction (sb_block sb))) \<or>
         h \<in> set (block_transactions (sb_block sb)) \<and> tx \<in> set (sb_transactions sb)"
    and at: "scan_at D keccak256 self base (h, tx, i) = Some (Inr (Some w'))"
    and w': "w = w' \<or> w = drop_unencrypted_payment_id w'"
    by (rule scan_output_from [OF assms(6,7)])
  have "length h = 32"
    using tx length_Transaction_hash [OF assms(2) mh] assms(4) by (auto simp: wf_Block_def list_all_iff)
  moreover have "wf_Timelock (additional_timelock (tx_prefix (Transaction_into_pruned t)))"
    if "wf_transaction D t" for t :: "'a transaction"
    using that by (cases t) (simp_all add: wf_TransactionPrefix_def Let_def)
  then have "wf_Timelock (additional_timelock (tx_prefix tx))"
    using tx assms(4,5) by (auto simp: wf_Block_def)
  ultimately have "wf_WalletOutput D w" using scan_at_wf [OF assms(1,3) at] w' drop_unencrypted_wf by blast
  then show ?thesis by (rule WalletOutput_read_write) blast
qed


subsection \<open>What is sent is found\<close>

text \<open>The spend and view keys of an address of a view pair, primary or a subaddress, and the generator the key of a
  transaction to it is over.\<close>

definition address_keys ::
  "('s::comm_ring_1, 'p::ab_group_add, 'z) dalek_scheme \<Rightarrow> (bytes \<Rightarrow> bytes) \<Rightarrow> 'p ViewPair \<Rightarrow> SubaddressIndex option \<Rightarrow>
   ('p \<times> 'p) option" where
  "address_keys D k pair subaddress =
     (case subaddress of
        None \<Rightarrow> Option.bind (ViewPair_view D pair) (\<lambda>view. Some (vp_spend pair, view))
      | Some index \<Rightarrow> subaddress_keys D k pair index)"

definition address_generator :: "('s, 'p, 'z) dalek_scheme \<Rightarrow> SubaddressIndex option \<Rightarrow> 'p \<Rightarrow> 'p" where
  "address_generator D subaddress spend = (if subaddress = None then ED25519_BASEPOINT_POINT D else spend)"

lemma address_keys_addresses:
  shows "map_option (\<lambda>a. (addr_spend a, addr_view a)) (legacy_address D pair network) = address_keys D k pair None"
    and "map_option (\<lambda>a. (addr_spend a, addr_view a)) (ViewPair_subaddress D k pair network index) =
         address_keys D k pair (Some index)"
    and "map_option (\<lambda>a. (addr_spend a, addr_view a))
           (GuaranteedViewPair_address D k (GuaranteedViewPair pair) network subaddress pid) = address_keys D k pair subaddress"
  subgoal by (cases "ViewPair_view D pair") (simp_all add: address_keys_def legacy_address_def Address_new_def)
  subgoal by (cases "subaddress_keys D k pair index")
      (auto simp: address_keys_def ViewPair_subaddress_def Address_new_def)
  subgoal by (cases subaddress; cases "ViewPair_view D pair"; cases "subaddress_keys D k pair (the subaddress)")
      (auto simp: address_keys_def GuaranteedViewPair_address_def Address_new_def)
  done

lemma scan_keys_none: "scan_keys f keys = Some (Inr None) \<Longrightarrow> key \<in> set keys \<Longrightarrow> f key = Some (Inr None)"
  by (induction keys) (auto simp: try_then_Inr split: option.splits)

lemma scan_keys_first:
  "scan_keys f (key # keys) = Some (Inr (Some w)) \<Longrightarrow> f key \<noteq> Some (Inr None) \<Longrightarrow> f key = Some (Inr (Some w))"
  by (auto simp: try_then_Inr split: option.splits)

lemma address_ecdh:
  assumes "curve_laws D" and "is_torsion_free D (vp_spend pair)" and "Scalar_into D (vp_view pair) = Some view"
    and "address_keys D k pair s = Some (A_spend, A_view)"
  shows "edwards_mul D view (edwards_mul D r (address_generator D s A_spend)) = edwards_mul D r A_view"
proof -
  have "is_torsion_free D (address_generator D s A_spend)"
    using assms(1,2,4)
    by (auto simp: address_generator_def address_keys_def subaddress_keys_def Let_def bind_eq_Some_conv curve_laws_def
        torsion_free_laws_def split: option.splits)
  moreover have "A_view = edwards_mul D view (address_generator D s A_spend)"
    using assms(3,4)
    by (auto simp: address_generator_def address_keys_def subaddress_keys_def ViewPair_view_def Let_def bind_eq_Some_conv
        split: option.splits)
  ultimately show ?thesis using ecdh_agree [OF assms(1)] by simp
qed

lemma address_spend: "address_keys D k pair s = Some (A_spend, A_view) \<Longrightarrow> spend_key_of D k pair s = Some A_spend"
  by (auto simp: address_keys_def spend_key_of_def bind_eq_Some_conv split: option.splits)

lemma scan_key_sent:
  assumes "Scalar_into D (vp_view (scan_pair self)) = Some view"
    and "output_derivations D k (if scan_guaranteed self then Some (uniqueness k (tx_inputs (tx_prefix tx))) else None)
       (edwards_mul D view key) (word_of_nat i) = Some d"
    and "out_view_tag out = None \<or> out_view_tag out = Some (view_tag d)"
    and "Scalar_into D (shared_key d) = Some shared"
    and "scan_subaddresses self (Point_compress D (okey - edwards_mul D shared (ED25519_BASEPOINT_POINT D))) \<noteq> None"
    and "scan_commitment D k tx i out d = Some (Inr (Some c))"
  shows "scan_key D k self first h tx extra pid i out okey key \<noteq> Some (Inr None)"
    and "scan_key D k self first h tx extra pid i out okey key = Some (Inr (Some w)) \<Longrightarrow> data_commitment (output_data w) = c"
  using assms
  by (auto simp: scan_key_def Let_def bind_eq_Some_conv split: option.splits if_splits)


text \<open>An output is found under a key of the extra which gives the secret it was made with.\<close>

lemma scan_at_derived:
  assumes laws: "curve_laws D" and scanner: "scanner_of D k pair guaranteed indexes self"
    and s: "s = None \<or> s \<in> Some ` indexes" and addr: "spend_key_of D k pair s = Some A_spend"
    and view: "Scalar_into D (vp_view pair) = Some view"
    and keys: "Extra_keys D (Extra_read (tx_extra (tx_prefix tx))) = Some (tx_keys, additional)"
      "key \<in> set tx_keys \<or> Option.bind additional (\<lambda>a. slice_get a i) = Some key"
    and d: "output_derivations D k (if guaranteed then Some (uniqueness k (tx_inputs (tx_prefix tx))) else None)
       (edwards_mul D view key) (word_of_nat i) = Some d" "Scalar_into D (shared_key d) = Some shared"
    and out: "out = tx_outputs (tx_prefix tx) ! i" "out_key out \<noteq> CompressedPoint_IDENTITY"
      "out_key out = Point_compress D (edwards_mul D shared (ED25519_BASEPOINT_POINT D) + A_spend)"
      "out_view_tag out = None \<or> out_view_tag out = Some (view_tag d)"
    and c: "scan_commitment D k tx i out d = Some (Inr (Some c))"
    and at: "scan_at D k self base (h, tx, i) = Some (Inr f)"
  shows "\<exists>w. f = Some w \<and>
     (tx_keys = [key] \<longrightarrow> data_commitment (output_data w) = c)"
proof -
  have self: "scan_pair self = pair" "scan_guaranteed self = guaranteed"
    and lookup: "scan_subaddresses self (Point_compress D A_spend) \<noteq> None"
    using scanner_of_invariant [OF scanner] s addr by blast+
  let ?okey = "edwards_mul D shared (ED25519_BASEPOINT_POINT D) + A_spend"
  let ?scan = "scan_key D k self (word_of_nat base) h tx (Extra_read (tx_extra (tx_prefix tx)))
      (Extra_payment_id (Extra_read (tx_extra (tx_prefix tx)))) i out ?okey"
  let ?keys = "tx_keys @ (case Option.bind additional (\<lambda>a. slice_get a i) of None \<Rightarrow> [] | Some key \<Rightarrow> [key])"
  have okey: "CompressedPoint_decompress D (out_key out) = Some ?okey"
    by (simp only: out(3) Point_compress_def curve_point(1) [OF laws])
  have scan: "scan_keys ?scan ?keys = Some (Inr f)"
    using at keys(1) out(2) by (simp add: scan_at_def Let_def scan_output_def okey flip: out(1))
  note sent = scan_key_sent [where self = self and D = D and k = k and out = out and okey = ?okey,
      unfolded self, OF view _ out(4) d(2) _ c]
  have "scan_subaddresses self (Point_compress D (?okey - edwards_mul D shared (ED25519_BASEPOINT_POINT D))) \<noteq> None"
    using lookup by simp
  note sent = sent [OF d(1) this]
  have "f \<noteq> None"
  proof
    assume "f = None"
    with scan have none: "scan_keys ?scan ?keys = Some (Inr None)" by (simp only:)
    have "key \<in> set ?keys" using keys(2) by (elim disjE) simp_all
    from scan_keys_none [OF none this] sent(1) show False by blast
  qed
  then obtain w where w: "f = Some w" by blast
  have com: "data_commitment (output_data w) = c" if "tx_keys = [key]"
  proof -
    have "scan_keys ?scan (key # tl ?keys) = Some (Inr (Some w))" using scan by (simp only: that w append_Cons list.sel)
    from scan_keys_first [OF this sent(1)] show ?thesis by (rule sent(2))
  qed
  show ?thesis using w com by blast
qed

lemma scan_at_sent:
  assumes laws: "curve_laws D" and scanner: "scanner_of D k pair guaranteed indexes self"
    and spend: "is_torsion_free D (vp_spend pair)"
    and s: "s = None \<or> s \<in> Some ` indexes" and addr: "address_keys D k pair s = Some (A_spend, A_view)"
    and keys: "Extra_keys D (Extra_read (tx_extra (tx_prefix tx))) = Some (tx_keys, additional)"
      "key = edwards_mul D r (address_generator D s A_spend)"
      "key \<in> set tx_keys \<or> Option.bind additional (\<lambda>a. slice_get a i) = Some key"
    and d: "output_derivations D k (if guaranteed then Some (uniqueness k (tx_inputs (tx_prefix tx))) else None)
       (edwards_mul D r A_view) (word_of_nat i) = Some d" "Scalar_into D (shared_key d) = Some shared"
    and out: "out = tx_outputs (tx_prefix tx) ! i" "out_key out \<noteq> CompressedPoint_IDENTITY"
      "out_key out = Point_compress D (edwards_mul D shared (ED25519_BASEPOINT_POINT D) + A_spend)"
      "out_view_tag out = None \<or> out_view_tag out = Some (view_tag d)"
    and c: "scan_commitment D k tx i out d = Some (Inr (Some c))"
    and at: "scan_at D k self base (h, tx, i) = Some (Inr f)"
  shows "\<exists>w. f = Some w \<and>
     (tx_keys = [key] \<longrightarrow> data_commitment (output_data w) = c)"
proof -
  obtain view where view: "Scalar_into D (vp_view pair) = Some view"
    using addr by (auto simp: address_keys_def subaddress_keys_def ViewPair_view_def Let_def bind_eq_Some_conv split: option.splits)
  have "edwards_mul D view key = edwards_mul D r A_view"
    unfolding keys(2) by (rule address_ecdh [OF laws spend view addr])
  then show ?thesis
    using d(1) by (intro scan_at_derived [OF laws scanner s address_spend [OF addr] view keys(1,3) _ d(2) out c at]) (simp only:)
qed

subsection \<open>Scanning does not panic\<close>

definition H_decompresses :: "('s, 'p, 'z) dalek_scheme \<Rightarrow> bool" where
  "H_decompresses D \<longleftrightarrow> edwards_decompress D (CompressedPoint_to_bytes CompressedPoint_H) \<noteq> None"

lemma Commitment_commit_total:
  assumes "wf_Commitment D c" and "H_decompresses D"
  shows "Commitment_commit D c \<noteq> None"
proof -
  obtain m where "Scalar_into D (mask c) = Some m"
    using assms(1) by (cases "mask c") (auto simp: wf_Commitment_def)
  then show ?thesis using assms(2) by (auto simp: Commitment_commit_def H_decompresses_def split: option.splits)
qed

lemma scan_commitment_total:
  assumes "curve_laws D" and "hashes_total D k" and "H_decompresses D"
  shows "scan_commitment D k tx i out d \<noteq> None"
proof -
  have "\<exists>c p. SharedKeyDerivations_decrypt D k d enc = Some c \<and> Commitment_commit D c = Some p" for enc
  proof -
    obtain c where c: "SharedKeyDerivations_decrypt D k d enc = Some c" "wf_Commitment D c"
      by (rule decrypt_total [OF assms(1,2)])
    with Commitment_commit_total [OF c(2) assms(3)] show ?thesis by blast
  qed
  note decrypts = this
  show ?thesis
  proof (cases "\<exists>prefix proofs enc. out_amount out = None \<and> tx = V2 prefix (Some proofs) \<and>
      slice_get (rct_encrypted_amounts (pruned_base proofs)) i = Some enc")
    case True
    then obtain prefix proofs enc where e: "out_amount out = None" "tx = V2 prefix (Some proofs)"
      "slice_get (rct_encrypted_amounts (pruned_base proofs)) i = Some enc" by blast
    then show ?thesis using decrypts [of enc] by (auto simp: scan_commitment_def)
  next
    case False
    then show ?thesis by (auto simp: scan_commitment_def split: option.splits Transaction.splits)
  qed
qed

lemma offset_of_total:
  assumes "curve_laws D" and "hashes_total D k"
  obtains off where "offset_of D k pair s = Some off"
proof (cases s)
  case (Some index)
  obtain h where h: "subaddress_derivation D k pair index = Some h"
    unfolding subaddress_derivation_def by (rule Scalar_hash_total [OF assms(2)])
  obtain off where "Scalar_into D h = Some off"
    using Scalar_hash_into [OF assms(1) h [unfolded subaddress_derivation_def]] by blast
  with h Some that show thesis by (simp add: offset_of_def)
qed (simp add: offset_of_def)

lemma scan_key_total:
  assumes "curve_laws D" and "hashes_total D k" and "H_decompresses D"
    and "Scalar_into D (vp_view (scan_pair self)) \<noteq> None"
  shows "scan_key D k self first h tx extra pid i out okey key \<noteq> None"
proof -
  obtain view where view: "Scalar_into D (vp_view (scan_pair self)) = Some view" using assms(4) by blast
  obtain d where d: "output_derivations D k
      (if scan_guaranteed self then Some (uniqueness k (tx_inputs (tx_prefix tx))) else None)
       (edwards_mul D view key) (word_of_nat i) = Some d"
    by (rule output_derivations_total [OF assms(2)])
  obtain shared where shared: "Scalar_into D (shared_key d) = Some shared"
    by (rule output_derivations_into [OF assms(1) d])
  have off: "(case s of None \<Rightarrow> Some shared
      | Some index \<Rightarrow>
          Option.bind (subaddress_derivation D k (scan_pair self) index) (\<lambda>derivation.
          Option.bind (Scalar_into D derivation) (\<lambda>derivation. Some (shared + derivation)))) \<noteq> None"
    for s :: "SubaddressIndex option"
    by (rule offset_of_total [OF assms(1,2), where pair = "scan_pair self" and s = s])
       (cases s; auto simp: offset_of_def bind_eq_Some_conv)
  obtain r where r: "scan_commitment D k tx i out d = Some r" using scan_commitment_total [OF assms(1-3)] by blast
  show ?thesis
  proof (cases "scan_subaddresses self (Point_compress D (okey - edwards_mul D shared (ED25519_BASEPOINT_POINT D)))")
    case None
    then show ?thesis by (simp add: scan_key_def view d shared Let_def)
  next
    case (Some s)
    obtain off where "(case s of None \<Rightarrow> Some shared
      | Some index \<Rightarrow>
          Option.bind (subaddress_derivation D k (scan_pair self) index) (\<lambda>derivation.
          Option.bind (Scalar_into D derivation) (\<lambda>derivation. Some (shared + derivation)))) = Some off"
      using off [of s] by blast
    then show ?thesis
      by (simp add: scan_key_def view d shared Some r Let_def try_then_None del: not_None_eq split: option.split)
  qed
qed

lemma scan_keys_total: "(\<And>key. f key \<noteq> None) \<Longrightarrow> scan_keys f keys \<noteq> None"
  by (induction keys) (simp_all add: try_then_None split: option.split del: not_None_eq)

lemma scan_outputs_total: "(\<And>i out. f i out \<noteq> None) \<Longrightarrow> scan_outputs f i outs \<noteq> None"
  by (induction outs arbitrary: i) (simp_all add: try_then_None del: not_None_eq)

lemma scan_transaction_total:
  assumes "\<And>first h tx extra pid i out okey key. scan_key D k self first h tx extra pid i out okey key \<noteq> None"
  shows "scan_transaction D k self first h tx \<noteq> None"
proof -
  have "scan_output D k self first h tx extra tx_keys additional pid i out \<noteq> None" for extra tx_keys additional pid i out
    using assms by (simp add: scan_output_def Let_def scan_keys_total del: not_None_eq split: option.split)
  then show ?thesis by (simp add: scan_transaction_def Let_def scan_outputs_total del: not_None_eq split: option.split)
qed

lemma scan_transactions_total:
  assumes "\<And>first h tx extra pid i out okey key. scan_key D k self first h tx extra pid i out okey key \<noteq> None"
  shows "scan_transactions D k self first txs \<noteq> None"
proof (induction txs arbitrary: first)
  case (Cons t txs)
  obtain h tx where "t = (h, tx)" by (cases t)
  with Cons scan_transaction_total [OF assms] show ?case by (simp add: Let_def try_then_None del: not_None_eq)
qed simp


text \<open>C22. Scanning returns: with a canonical view key, and as long as no preimage hashes to zero, it never panics,
  whatever the block. It fails only on a block of a protocol it does not support or which is not a valid one.\<close>

theorem scan_returns:
  assumes "curve_laws D" and "hashes_total D keccak256" and "H_decompresses D"
    and "Scalar_into D (vp_view (scan_pair self)) \<noteq> None"
  shows "\<exists>res. scan D keccak256 self sb = Some res \<and>
     (length (block_transactions (sb_block sb)) = length (sb_transactions sb) \<and>
      sb_output_index sb \<noteq> None \<and> hardfork_version (block_header (sb_block sb)) > 16 \<longrightarrow>
      res = Inl (UnsupportedProtocol (hardfork_version (block_header (sb_block sb)))))"
proof -
  obtain mh where "Transaction_hash D keccak256 (miner_transaction (sb_block sb)) = Some mh"
    using Transaction_hash_total by blast
  then have "scan D keccak256 self sb \<noteq> None"
    using scan_transactions_total [OF scan_key_total [OF assms]]
    by (simp add: scan_def Let_def try_then_None del: not_None_eq scan_transactions.simps split: option.split)
  then show ?thesis by (auto simp: scan_def Let_def split: if_splits)
qed

text \<open>An output as a sender makes it for an address, given the address's keys and the randomness of the key: its key,
  view tag, encrypted amount and commitment all follow from the secret shared with the receiver.\<close>

definition sent_output ::
  "('s::comm_ring_1, 'p::ab_group_add, 'z) dalek_scheme \<Rightarrow> (bytes \<Rightarrow> bytes) \<Rightarrow> bool \<Rightarrow> 'p \<times> 'p \<Rightarrow> 's \<Rightarrow>
   pruned_transaction \<Rightarrow> nat \<Rightarrow> Commitment \<Rightarrow> bool" where
  "sent_output D k guaranteed A r tx i c \<longleftrightarrow>
     (\<exists>proofs d shared point. tx = V2 (tx_prefix tx) (Some proofs) \<and>
        output_derivations D k (if guaranteed then Some (uniqueness k (tx_inputs (tx_prefix tx))) else None)
          (edwards_mul D r (snd A)) (word_of_nat i) = Some d \<and>
        Scalar_into D (shared_key d) = Some shared \<and>
        out_key (tx_outputs (tx_prefix tx) ! i) = Point_compress D (edwards_mul D shared (ED25519_BASEPOINT_POINT D) + fst A) \<and>
        out_key (tx_outputs (tx_prefix tx) ! i) \<noteq> CompressedPoint_IDENTITY \<and>
        out_view_tag (tx_outputs (tx_prefix tx) ! i) \<in> {None, Some (view_tag d)} \<and>
        out_amount (tx_outputs (tx_prefix tx) ! i) = None \<and>
        commitment_mask D k d = Some (mask c) \<and>
        slice_get (rct_encrypted_amounts (pruned_base proofs)) i = Some (Compact (compact_amount_encryption k d (amount c))) \<and>
        Commitment_commit D c = Some point \<and>
        slice_get (rct_commitments (pruned_base proofs)) i = Some (Point_compress D point))"

lemma scan_at_sent_output:
  assumes "curve_laws D" and "scanner_of D k pair guaranteed indexes self" and "is_torsion_free D (vp_spend pair)"
    and "s = None \<or> s \<in> Some ` indexes" and "address_keys D k pair s = Some A"
    and "Extra_keys D (Extra_read (tx_extra (tx_prefix tx))) = Some (tx_keys, additional)"
    and "key = edwards_mul D r (address_generator D s (fst A))"
    and "key \<in> set tx_keys \<or> Option.bind additional (\<lambda>a. slice_get a i) = Some key"
    and "sent_output D k guaranteed A r tx i c"
    and "scan_at D k self base (h, tx, i) = Some (Inr f)"
  shows "\<exists>w. f = Some w \<and>
     (tx_keys = [key] \<longrightarrow> data_commitment (output_data w) = c)"
proof -
  obtain proofs d shared point where tx: "tx = V2 (tx_prefix tx) (Some proofs)"
    and d: "output_derivations D k (if guaranteed then Some (uniqueness k (tx_inputs (tx_prefix tx))) else None)
          (edwards_mul D r (snd A)) (word_of_nat i) = Some d" "Scalar_into D (shared_key d) = Some shared"
    and out: "out_key (tx_outputs (tx_prefix tx) ! i) \<noteq> CompressedPoint_IDENTITY"
      "out_key (tx_outputs (tx_prefix tx) ! i) = Point_compress D (edwards_mul D shared (ED25519_BASEPOINT_POINT D) + fst A)"
      "out_view_tag (tx_outputs (tx_prefix tx) ! i) \<in> {None, Some (view_tag d)}"
    and amt: "out_amount (tx_outputs (tx_prefix tx) ! i) = None" "commitment_mask D k d = Some (mask c)"
      "slice_get (rct_encrypted_amounts (pruned_base proofs)) i = Some (Compact (compact_amount_encryption k d (amount c)))"
      "Commitment_commit D c = Some point" "slice_get (rct_commitments (pruned_base proofs)) i = Some (Point_compress D point)"
    using assms(9) unfolding sent_output_def by blast
  have "Commitment_new (mask c) (amount c) = c" by (simp add: Commitment_new_def)
  then have "scan_commitment D k tx i (tx_outputs (tx_prefix tx) ! i) d = Some (Inr (Some c))"
    using amt amount_decrypts [OF amt(2)] by (subst tx) (simp add: scan_commitment_def)
  from scan_at_sent [OF assms(1-4) _ assms(6,7,8) d refl out(1,2) _ this assms(10)] assms(5) out(3) show ?thesis by simp
qed

text \<open>What is found at a place of the block is among what is scanned.\<close>

lemma scan_place:
  assumes "scan D keccak256 self sb = Some (Inr outs)" and "sb_output_index sb = Some first"
    and "Transaction_hash D keccak256 (miner_transaction (sb_block sb)) = Some mh"
    and "places = ringct_outputs ((mh, Transaction_into_pruned (miner_transaction (sb_block sb))) #
                    zip (block_transactions (sb_block sb)) (sb_transactions sb))"
    and "p < length places" and "places ! p = (h, tx, i)"
    and here: "\<And>base f. scan_at D keccak256 self base (h, tx, i) = Some (Inr f) \<Longrightarrow> \<exists>w. f = Some w \<and> Q (output_data w)"
  shows "\<exists>w \<in> set outs. unat (index_on_blockchain (relative_id w)) = unat first + p \<and> Q (output_data w)"
proof -
  obtain fs g where fs: "length fs = length places" "outs = found (map (map_option g) fs)" "unat first + length fs < 2 ^ 64"
    and run: "\<forall>q < length fs. snd (snd (places ! q)) \<le> q \<and>
        scan_at D keccak256 self (unat first + q - snd (snd (places ! q))) (places ! q) = Some (Inr (fs ! q))"
    and g: "g = drop_unencrypted_payment_id \<or> g = (\<lambda>w. w)"
    unfolding assms(4) by (rule scan_found [OF assms(1-3)])
  have p: "p < length fs" using assms(5) fs(1) by simp
  have i: "i \<le> p" and at: "scan_at D keccak256 self (unat first + p - i) (h, tx, i) = Some (Inr (fs ! p))"
    using run [rule_format, OF p] assms(6) by simp_all
  obtain w where w: "fs ! p = Some w" and q: "Q (output_data w)" using here [OF at] by blast
  have "unat (index_on_blockchain (relative_id w)) = unat first + p"
    using scan_at_index [OF at [unfolded w]] i p fs(3) by simp
  moreover have "map (map_option g) fs ! p = Some (g w)" using w p by simp
  then have "g w \<in> set outs" using p fs(2) by (simp only: set_found) (metis length_map nth_mem)
  moreover have "relative_id (g w) = relative_id w" "output_data (g w) = output_data w" using g by auto
  ultimately show ?thesis using q by (intro bexI [of _ "g w"]) (simp_all only:)
qed


subsection \<open>An example\<close>

definition zero_hash :: "bytes \<Rightarrow> bytes" where
  "zero_hash _ = replicate 32 0"

definition example_pair :: "3 ViewPair" where
  "example_pair = \<lparr>vp_spend = 1, vp_view = Scalar_from example_curve 1\<rparr>"

definition scan_extra :: Extra where
  "scan_extra = Extra_new CompressedPoint_IDENTITY []"

definition example_miner_transaction :: "3 transaction" where
  "example_miner_transaction =
     V2 \<lparr>additional_timelock = Timelock_Block 60, tx_inputs = [Gen 5],
         tx_outputs = [\<lparr>out_amount = Some 9, out_key = CompressedPoint_H, out_view_tag = Some 0\<rparr>],
         tx_extra = Extra_write scan_extra\<rparr> None"

definition example_payment :: pruned_transaction where
  "example_payment =
     V2 \<lparr>additional_timelock = Timelock_None, tx_inputs = [ToKey None [1] CompressedPoint_H],
         tx_outputs = [\<lparr>out_amount = None, out_key = CompressedPoint_H, out_view_tag = Some 0\<rparr>],
         tx_extra = Extra_write scan_extra\<rparr>
       (Some \<lparr>pruned_rct_type = ClsagBulletproofPlus,
              pruned_base = \<lparr>rct_fee = 0, rct_pseudo_outs = [], rct_encrypted_amounts = [Compact [7, 0, 0, 0, 0, 0, 0, 0]],
                             rct_commitments = [CompressedPoint (replicate 32 0)]\<rparr>\<rparr>)"

definition example_scannable :: "3 ScannableBlock" where
  "example_scannable =
     \<lparr>sb_block = \<lparr>block_header = \<lparr>hardfork_version = 16, hardfork_signal = 16, header_timestamp = 1,
                    header_previous = replicate 32 0, header_nonce = 0\<rparr>,
                  miner_transaction = example_miner_transaction, block_transactions = [replicate 32 7]\<rparr>,
      sb_transactions = [example_payment], sb_output_index = Some 100\<rparr>"

lemma scan_extra_read: "Extra_read (Extra_write scan_extra) = [PublicKey CompressedPoint_IDENTITY]"
  by (simp add: scan_extra_def Extra_new_def Extra_read_written CompressedPoint_IDENTITY_def)

lemma example_compress:
  "Point_compress example_curve 0 = CompressedPoint (replicate 32 0)"
  "Point_compress example_curve 1 = CompressedPoint_IDENTITY"
  "Point_compress example_curve 2 = CompressedPoint_H"
  by (simp_all add: Point_compress_def bytes_3_def CompressedPoint_IDENTITY_def CompressedPoint_H_def)

lemma example_points:
  "CompressedPoint_decompress example_curve CompressedPoint_IDENTITY = Some 1"
  "CompressedPoint_decompress example_curve CompressedPoint_H = Some 2"
  "CompressedPoint_H \<noteq> CompressedPoint_IDENTITY"
proof -
  have dec: "CompressedPoint_decompress example_curve (Point_compress example_curve p) = Some p" for p
    by (simp only: Point_compress_def curve_point(1) [OF example_curve_laws])
  show "CompressedPoint_decompress example_curve CompressedPoint_IDENTITY = Some 1" by (metis dec example_compress(2))
  show "CompressedPoint_decompress example_curve CompressedPoint_H = Some 2" by (metis dec example_compress(3))
  have "(1 :: 3) \<noteq> 2" by simp
  then show "CompressedPoint_H \<noteq> CompressedPoint_IDENTITY" by (metis dec example_compress(2,3) option.inject)
qed

lemma scan_extra_keys: "Extra_keys example_curve [PublicKey CompressedPoint_IDENTITY] = Some ([1], None)"
  by (simp add: Extra_keys_def example_points)

lemma example_derivations: "output_derivations example_curve zero_hash None e i = Some \<lparr>view_tag = 0, shared_key = Scalar_from example_curve 1\<rparr>"
  by (simp add: output_derivations_def Let_def zero_hash_def Scalar_hash_def)

lemma example_arbitrary: "Extra_arbitrary_data [PublicKey CompressedPoint_IDENTITY] = []"
  by code_simp
lemma example_into_1: "Scalar_into example_curve (Scalar_from example_curve 1) = Some 1"
  by (rule example_into)

abbreviation "example_scanner \<equiv> Scanner_new example_curve example_pair"

lemma example_lookup: "scan_subaddresses example_scanner (Point_compress example_curve (2 - 1 * 1)) = Some None"
  by (simp add: Scanner_new_def InternalScanner_new_def example_pair_def)

lemma example_mask: "Scalar_hash example_curve k data = Some (Scalar_from example_curve 1)"
  by (simp add: Scalar_hash_def)

lemma example_amount: "compact_amount_encryption zero_hash d x = to_le_bytes x"
proof -
  have "from_le_bytes (replicate 8 0) = (0 :: u64)" by (simp add: from_le_bytes_def numeral_eq_Suc)
  then show ?thesis by (simp add: compact_amount_encryption_def zero_hash_def)
qed

lemma example_decrypt:
  "SharedKeyDerivations_decrypt example_curve zero_hash d (Compact [7, 0, 0, 0, 0, 0, 0, 0]) =
   Some (Commitment_new (Scalar_from example_curve 1) 7)"
proof -
  have "from_le_bytes [7, 0, 0, 0, 0, 0, 0, 0] = (7 :: u64)" by (simp add: from_le_bytes_def)
  then show ?thesis by (simp add: commitment_mask_def example_mask example_amount from_to_le_bytes)
qed

lemma example_commit: "Commitment_commit example_curve (Commitment_new (Scalar_from example_curve 1) 7) = Some 0"
  by (simp add: Commitment_commit_def Commitment_new_def example_into example_H [simplified])

definition example_scanned :: "bytes \<Rightarrow> Timelock \<Rightarrow> u64 \<Rightarrow> Commitment \<Rightarrow> 3 WalletOutput" where
  "example_scanned h timelock index c =
     \<lparr>absolute_id = \<lparr>id_transaction = h, index_in_transaction = 0\<rparr>, relative_id = \<lparr>index_on_blockchain = index\<rparr>,
      output_data = \<lparr>data_key = 2, data_key_offset = Scalar_from example_curve 1, data_commitment = c\<rparr>,
      output_metadata = \<lparr>meta_additional_timelock = timelock, meta_subaddress = None, meta_payment_id = None,
                         meta_arbitrary_data = []\<rparr>\<rparr>"

lemma example_scan_key:
  assumes "out_view_tag out = Some 0" and "\<And>d. scan_commitment example_curve zero_hash tx 0 out d = Some (Inr (Some c))"
  shows "scan_key example_curve zero_hash example_scanner first h tx [PublicKey CompressedPoint_IDENTITY] None 0 out 2 1 =
     Some (Inr (Some (example_scanned h (additional_timelock (tx_prefix tx)) first c)))"
  using assms unsigned_less [of first, where 'a = nat]
  by (simp add: scan_key_def example_pair_def Scanner_new_def InternalScanner_new_def example_into example_derivations
      example_compress example_arbitrary Let_def example_scanned_def)

lemma example_scan_transaction:
  assumes "tx_outputs prefix = [out]" and "out_key out = CompressedPoint_H" and "out_view_tag out = Some 0"
    and "tx_extra prefix = Extra_write scan_extra"
    and "\<And>d. scan_commitment example_curve zero_hash (V2 prefix proofs) 0 out d = Some (Inr (Some c))"
  shows "scan_transaction example_curve zero_hash example_scanner first h (V2 prefix proofs) =
     Some (Inr [example_scanned h (additional_timelock prefix) first c])"
proof -
  have "scan_key example_curve zero_hash example_scanner first h (V2 prefix proofs) [PublicKey CompressedPoint_IDENTITY]
      None 0 out 2 1 = Some (Inr (Some (example_scanned h (additional_timelock prefix) first c)))"
    using example_scan_key [of out "V2 prefix proofs" c] assms(3,5) by simp
  then show ?thesis
    using assms(1,2,4) by (simp add: scan_transaction_def scan_extra_read scan_extra_keys scan_output_def example_points Let_def)
qed

definition example_miner_hash :: bytes where
  "example_miner_hash = replicate 32 0"

lemma example_hash: "Transaction_hash example_curve zero_hash example_miner_transaction = Some example_miner_hash"
  by (simp add: example_miner_transaction_def zero_hash_def example_miner_hash_def)

definition example_outs :: "3 WalletOutput list" where
  "example_outs =
     [example_scanned example_miner_hash (Timelock_Block 60) 100 \<lparr>mask = Scalar_from example_curve 1, amount = 9\<rparr>,
      example_scanned (replicate 32 7) Timelock_None 101 (Commitment_new (Scalar_from example_curve 1) 7)]"

lemma example_scan: "scan example_curve zero_hash example_scanner example_scannable = Some (Inr example_outs)"
proof -
  have m: "scan_transaction example_curve zero_hash example_scanner 100 h (Transaction_into_pruned example_miner_transaction) =
     Some (Inr [example_scanned h (Timelock_Block 60) 100 \<lparr>mask = Scalar_from example_curve 1, amount = 9\<rparr>])" for h
    unfolding example_miner_transaction_def Transaction_into_pruned.simps
    by (subst example_scan_transaction) (auto simp: scan_commitment_def Commitment_zero_def)
  have p: "scan_transaction example_curve zero_hash example_scanner 101 h example_payment =
     Some (Inr [example_scanned h Timelock_None 101 (Commitment_new (Scalar_from example_curve 1) 7)])" for h
    unfolding example_payment_def
    by (subst example_scan_transaction)
      (auto simp: scan_commitment_def slice_get_def example_decrypt example_commit example_compress
        simp del: SharedKeyDerivations_decrypt.simps)
  have drop: "drop_unencrypted_payment_id (example_scanned h t i c) = example_scanned h t i c" for h t i c
    by (simp add: drop_unencrypted_payment_id_def example_scanned_def)
  have len: "(case Transaction_into_pruned example_miner_transaction of
        V2 _ _ \<Rightarrow> length (tx_outputs (tx_prefix (Transaction_into_pruned example_miner_transaction))) | _ \<Rightarrow> 0) = 1"
      "(case example_payment of V2 _ _ \<Rightarrow> length (tx_outputs (tx_prefix example_payment)) | _ \<Rightarrow> 0) = 1"
    by (simp_all add: example_miner_transaction_def example_payment_def)
  show ?thesis
    using m p example_hash
    by (simp add: scan_def example_scannable_def Let_def example_outs_def drop len)
qed

lemma example_scanner_of: "scanner_of example_curve k example_pair False {} example_scanner"
  unfolding Scanner_new_def by (rule scanner_of.new)

lemma example_ringct:
  "ringct_outputs ((example_miner_hash, Transaction_into_pruned example_miner_transaction) #
     zip [replicate 32 7] [example_payment]) =
   [(example_miner_hash, Transaction_into_pruned example_miner_transaction, 0), (replicate 32 7, example_payment, 0)]"
  by (simp add: ringct_outputs_def ringct_outputs_of_def example_miner_transaction_def example_payment_def)

lemma example_scannable_simps [simp]:
  "miner_transaction (sb_block example_scannable) = example_miner_transaction"
  "block_transactions (sb_block example_scannable) = [replicate 32 7]" "sb_transactions example_scannable = [example_payment]"
  "sb_output_index example_scannable = Some 100"
  by (simp_all add: example_scannable_def)

theorem scan_outputs_located_witness:
  "\<exists>ps. sorted_wrt (<) ps \<and>
     list_all2 (\<lambda>p w. p < 2 \<and> unat (index_on_blockchain (relative_id w)) = 100 + p) ps example_outs"
proof -
  have "\<exists>ps. sorted_wrt (<) ps \<and>
     list_all2 (\<lambda>p w. p < length (ringct_outputs ((example_miner_hash, Transaction_into_pruned example_miner_transaction) #
       zip [replicate 32 7] [example_payment])) \<and> unat (index_on_blockchain (relative_id w)) = unat (100 :: u64) + p \<and>
       scanned_from example_curve (ringct_outputs ((example_miner_hash, Transaction_into_pruned example_miner_transaction) #
         zip [replicate 32 7] [example_payment]) ! p) w) ps example_outs"
    by (rule scan_outputs_located [OF example_scan]) (simp_all add: example_hash)
  then show ?thesis unfolding example_ringct by (elim exE conjE) (intro exI conjI; auto elim: list_all2_mono)
qed

theorem scan_outputs_spendable_witness:
  "hd example_outs \<in> set example_outs \<and>
   (\<exists>offset. Scalar_into example_curve (data_key_offset (output_data (hd example_outs))) = Some offset \<and>
      data_key (output_data (hd example_outs)) = edwards_mul example_curve (1 + offset) (ED25519_BASEPOINT_POINT example_curve))"
proof -
  have w: "hd example_outs \<in> set example_outs" by (simp add: example_outs_def)
  have "vp_spend example_pair = edwards_mul example_curve 1 (ED25519_BASEPOINT_POINT example_curve)"
    by (simp add: example_pair_def)
  from w scan_outputs_spendable [OF example_curve_laws example_scanner_of example_scan w this] show ?thesis by blast
qed

lemma example_block_wf: "wf_Block example_curve (sb_block example_scannable)"
proof -
  have "length (Extra_write scan_extra) = 33"
    by (simp add: Extra_write_sorted scan_extra_def Extra_new_def CompressedPoint_IDENTITY_def)
  then show ?thesis
    by (simp add: wf_Block_def wf_BlockHeader_def example_scannable_def MAX_TRANSACTIONS_def example_miner_transaction_def
        wf_TransactionPrefix_def is_miner_inputs_def Let_def wf_vec_def fits_usize_def wf_Output_def
        CompressedPoint_H_def TIMELOCK_BLOCK_THRESHOLD_def INPUTS_UPPER_BOUND_def MINER_INPUTS_def list_all_iff)
qed

theorem scan_outputs_stored_witness:
  "\<exists>written. WalletOutput_write example_curve (hd example_outs) = Some written \<and>
     WalletOutput_read example_curve (written @ [9]) = Inr (hd example_outs, [9])"
  by (rule scan_outputs_stored [OF example_curve_laws _ example_scanner_of example_block_wf _ example_scan])
     (simp_all add: hash32_def zero_hash_def example_payment_def example_outs_def)

theorem scan_returns_witness: "\<exists>res. scan example_curve zero_hash example_scanner example_scannable = Some res"
  using scan_returns [OF example_curve_laws example_hashes_total, of example_scanner zero_hash example_scannable] 
  by (auto simp: H_decompresses_def Scanner_new_def InternalScanner_new_def example_pair_def example_into example_H [simplified])


lemma example_sent:
  "sent_output example_curve zero_hash False (1, 1) 1 example_payment 0 (Commitment_new (Scalar_from example_curve 1) 7)"
proof -
  let ?d = "\<lparr>view_tag = 0, shared_key = Scalar_from example_curve 1\<rparr>"
  let ?proofs = "\<lparr>pruned_rct_type = ClsagBulletproofPlus,
              pruned_base = \<lparr>rct_fee = 0, rct_pseudo_outs = [], rct_encrypted_amounts = [Compact [7, 0, 0, 0, 0, 0, 0, 0]],
                             rct_commitments = [CompressedPoint (replicate 32 0)]\<rparr>\<rparr>"
  have seven: "to_le_bytes (7 :: u64) = [7, 0, 0, 0, 0, 0, 0, 0]" by code_simp
  have c: "mask (Commitment_new m a) = m" "amount (Commitment_new m a) = a" for m a by (simp_all add: Commitment_new_def)
  have tx: "example_payment = V2 (tx_prefix example_payment) (Some ?proofs)"
    "tx_outputs (tx_prefix example_payment) ! 0 = \<lparr>out_amount = None, out_key = CompressedPoint_H, out_view_tag = Some 0\<rparr>"
    by (simp_all add: example_payment_def)
  have key: "Point_compress example_curve (edwards_mul example_curve 1 (ED25519_BASEPOINT_POINT example_curve) + fst (1, 1)) =
      CompressedPoint_H" by (simp add: example_compress)
  show ?thesis
    unfolding sent_output_def c example_amount seven tx(2) commitment_mask_def example_mask
    by (rule exI [of _ ?proofs], rule exI [of _ ?d], rule exI [of _ 1], rule exI [of _ 0], rule conjI [OF tx(1)])
       (simp add: example_derivations example_into key example_points example_commit slice_get_def example_compress
         del: Scalar_into.simps)
qed


end
