(* ===== verification/Fee_Rates.thy ===== *)
theory Fee_Rates
  imports Monero_Io
begin

text \<open>
  Fee rates (\<^verbatim>\<open>interface/src/provides_fee_rates.rs\<close>): the cost per weight with the mask fees are rounded up to,
  its serialisation, and the fee of a weight, computed in 128 bits. \<open>None\<close> is the panic of a division by zero, which no
  fee rate that \<open>FeeRate::new\<close> let through causes.
\<close>

datatype FeePriority = Unimportant | Normal | Elevated | Priority | Custom u32

fun FeePriority_to_u32 :: "FeePriority \<Rightarrow> u32" where
  "FeePriority_to_u32 Unimportant = 1"
| "FeePriority_to_u32 Normal = 2"
| "FeePriority_to_u32 Elevated = 3"
| "FeePriority_to_u32 Priority = 4"
| "FeePriority_to_u32 (Custom priority) = priority"

record FeeRate =
  per_weight :: u64
  fee_mask :: u64

definition FeeRate_new :: "u64 \<Rightarrow> u64 \<Rightarrow> FeeRate option" where
  "FeeRate_new cost fmask =
     (if cost = 0 \<or> fmask = 0 then None else Some \<lparr>per_weight = cost, fee_mask = fmask\<rparr>)"

definition FeeRate_write :: "FeeRate \<Rightarrow> bytes" where
  "FeeRate_write self = to_le_bytes (per_weight self) @ to_le_bytes (fee_mask self)"

definition FeeRate_read :: "FeeRate reader" where
  "FeeRate_read =
     and_then read_u64 (\<lambda>cost.
     and_then read_u64 (\<lambda>fmask.
     case FeeRate_new cost fmask of
       None \<Rightarrow> err (Other ''fee rate was invalid'')
     | Some rate \<Rightarrow> ok rate))"

type_synonym u128 = "128 word"

definition u128_div_ceil :: "u128 \<Rightarrow> u128 \<Rightarrow> u128 option" where
  "u128_div_ceil a b = (if b = 0 then None else Some (if a mod b = 0 then a div b else a div b + 1))"

definition calculate_fee_from_weight :: "FeeRate \<Rightarrow> u64 \<Rightarrow> u128 option" where
  "calculate_fee_from_weight self weight =
     (let fee = (ucast (per_weight self) :: u128) * ucast weight
      in map_option (\<lambda>units. units * ucast (fee_mask self)) (u128_div_ceil fee (ucast (fee_mask self))))"

text \<open>The outer \<open>None\<close> is the panic; a \<open>usize\<close> of 64 bits holds every quotient.\<close>

definition calculate_weight_from_fee :: "FeeRate \<Rightarrow> u64 \<Rightarrow> usize option option" where
  "calculate_weight_from_fee self fee =
     (if per_weight self = 0 then None else Some (Some (fee div per_weight self)))"

definition wf_FeeRate :: "FeeRate \<Rightarrow> bool" where
  "wf_FeeRate rate \<longleftrightarrow> per_weight rate \<noteq> 0 \<and> fee_mask rate \<noteq> 0"

subsection \<open>Construction and serialisation\<close>

lemma FeeRate_new_Some: "FeeRate_new p m = Some rate \<longleftrightarrow> wf_FeeRate rate \<and> p = per_weight rate \<and> m = fee_mask rate"
  by (cases rate) (auto simp: FeeRate_new_def wf_FeeRate_def)

interpretation fee_rate: codec FeeRate_write FeeRate_read wf_FeeRate
proof (rule codec_iffI)
  fix bs rate rest
  show "FeeRate_read bs = Inr (rate, rest) \<longleftrightarrow> wf_FeeRate rate \<and> bs = FeeRate_write rate @ rest"
  proof
    assume "FeeRate_read bs = Inr (rate, rest)"
    then obtain p m where "FeeRate_new p m = Some rate" "bs = to_le_bytes p @ to_le_bytes m @ rest"
      by (auto simp: FeeRate_read_def and_then_eq_Inr u64_codec.rd_iff split: option.splits)
    then show "wf_FeeRate rate \<and> bs = FeeRate_write rate @ rest"
      by (simp add: FeeRate_write_def FeeRate_new_Some)
  next
    assume wf: "wf_FeeRate rate \<and> bs = FeeRate_write rate @ rest"
    then have "FeeRate_new (per_weight rate) (fee_mask rate) = Some rate" by (simp add: FeeRate_new_Some)
    with wf show "FeeRate_read bs = Inr (rate, rest)"
      by (simp add: FeeRate_read_def FeeRate_write_def u64_codec.rd_wr [OF TrueI] and_then_def)
  qed
qed

subsection \<open>Fees\<close>

lemma div_ceil_mult:
  assumes "0 < m"
  shows "n \<le> div_ceil n m * m" and "div_ceil n m * m < n + m"
proof -
  have n: "n div m * m + n mod m = n" and r: "n mod m < m" using assms by simp_all
  have c: "div_ceil n m * m = n div m * m + (if n mod m = 0 then 0 else m)"
    by (simp add: div_ceil_def)
  show "n \<le> div_ceil n m * m" using n r unfolding c by (split if_split) linarith
  show "div_ceil n m * m < n + m" using n r assms unfolding c by (split if_split) linarith
qed

lemma div_ceil_least: "0 < m \<Longrightarrow> n \<le> k * m \<Longrightarrow> div_ceil n m \<le> k"
  using div_ceil_mult(2) [of m n] by (metis add.commute less_Suc_eq_le mult_Suc mult_less_cancel2 nat_add_left_cancel_le order_less_le_trans)

text \<open>The largest product is \<open>u64::MAX\<close> squared; with the rounding it is still below \<open>2 ^ 128\<close>.\<close>

lemma fee_fits:
  assumes "a < 2 ^ 64" and "b < 2 ^ 64" and "0 < m" and "m < 2 ^ 64"
  shows "a * b < 2 ^ 128" and "div_ceil (a * b) m * m < 2 ^ 128"
proof -
  have "a * b \<le> (2 ^ 64 - 1) * (2 ^ 64 - 1)"
    using assms(1,2) by (intro mult_le_mono) simp_all
  moreover have "(2 ^ 64 - 1) * (2 ^ 64 - 1) + 2 ^ 64 < (2 :: nat) ^ 128" by simp
  ultimately show "a * b < 2 ^ 128" and "div_ceil (a * b) m * m < 2 ^ 128"
    using div_ceil_mult(2) [OF assms(3), of "a * b"] assms(4) by linarith+
qed

lemma unat_u128_div_ceil:
  assumes "b \<noteq> 0"
  shows "\<exists>q. u128_div_ceil a b = Some q \<and> unat q = div_ceil (unat a) (unat b)"
proof -
  have pos: "0 < unat b" using assms by (simp add: unat_gt_0)
  have "a mod b = 0 \<longleftrightarrow> unat a mod unat b = 0"
    by (metis unat_mod unsigned_0 unsigned_word_eqI)
  moreover have "unat (a div b + 1) = unat a div unat b + 1" if "unat a mod unat b \<noteq> 0"
  proof -
    have "unat b \<noteq> 1" using that by (metis mod_by_1 nat.inject One_nat_def)
    then have "unat a div unat b + 1 \<le> unat a \<or> unat a div unat b = 0"
      using pos div_less_dividend [of "unat b" "unat a"] by (cases "unat a = 0") (auto simp: Suc_le_eq)
    then have "unat a div unat b + 1 < 2 ^ 128"
      using unsigned_less [of a, where 'a = nat] by auto
    then show ?thesis
      by (simp add: unat_word_ariths unat_div)
  qed
  ultimately show ?thesis
    using assms by (simp add: u128_div_ceil_def div_ceil_def unat_div)
qed

lemma calculate_fee_value:
  assumes "wf_FeeRate rate"
  shows "\<exists>fee. calculate_fee_from_weight rate weight = Some fee \<and>
    unat fee = div_ceil (unat (per_weight rate) * unat weight) (unat (fee_mask rate)) * unat (fee_mask rate)"
proof -
  have pos: "0 < unat (fee_mask rate)" using assms by (simp add: wf_FeeRate_def unat_gt_0)
  have lt: "unat x < 2 ^ 64" for x :: u64 using unsigned_less [of x, where 'a = nat] by simp
  note fits = fee_fits [OF lt [of "per_weight rate"] lt [of weight] pos lt [of "fee_mask rate"]]
  have up: "unat (ucast x :: u128) = unat x" for x :: u64 by (rule unat_ucast_up) simp
  let ?fee = "(ucast (per_weight rate) :: u128) * ucast weight"
  have fee: "unat ?fee = unat (per_weight rate) * unat weight"
    using fits(1) by (simp add: unat_word_ariths up)
  have "(ucast (fee_mask rate) :: u128) \<noteq> 0" using pos up [of "fee_mask rate"] by (metis unsigned_0 less_irrefl)
  from unat_u128_div_ceil [OF this, of ?fee] obtain q where
    q: "u128_div_ceil ?fee (ucast (fee_mask rate)) = Some q"
    "unat q = div_ceil (unat (per_weight rate) * unat weight) (unat (fee_mask rate))"
    unfolding fee up by blast
  then have "unat (q * ucast (fee_mask rate)) =
      div_ceil (unat (per_weight rate) * unat weight) (unat (fee_mask rate)) * unat (fee_mask rate)"
    using fits(2) by (simp add: unat_word_ariths up)
  moreover have "calculate_fee_from_weight rate weight = Some (q * ucast (fee_mask rate))"
    using q(1) by (simp add: calculate_fee_from_weight_def)
  ultimately show ?thesis by blast
qed

text \<open>C28. The fee of a weight is computed without overflow of 128 bits, for every weight and every fee rate which
  can be constructed: it is the least multiple of the mask that is at least the rate times the weight, and
  the weight a fee pays for is the largest whose cost is not above it.\<close>

theorem fee_exact:
  assumes "FeeRate_new cost fmask = Some rate"
  shows "(\<exists>fee. calculate_fee_from_weight rate weight = Some fee \<and>
            unat fmask dvd unat fee \<and> unat cost * unat weight \<le> unat fee \<and>
            (\<forall>k. unat cost * unat weight \<le> k * unat fmask \<longrightarrow> unat fee \<le> k * unat fmask)) \<and>
         (\<exists>w. calculate_weight_from_fee rate paid = Some (Some w) \<and>
            (\<forall>v. unat cost * v \<le> unat paid \<longleftrightarrow> v \<le> unat w))"
proof
  have rate: "per_weight rate = cost" "fee_mask rate = fmask" "cost \<noteq> 0" "fmask \<noteq> 0" "wf_FeeRate rate"
    using assms by (auto simp: FeeRate_new_Some wf_FeeRate_def)
  have pos: "0 < unat fmask" "0 < unat cost" using rate by (simp_all add: unat_gt_0)
  from calculate_fee_value [OF rate(5), of weight] obtain fee where
    "calculate_fee_from_weight rate weight = Some fee" "unat fee = div_ceil (unat cost * unat weight) (unat fmask) * unat fmask"
    unfolding rate by blast
  then show "\<exists>fee. calculate_fee_from_weight rate weight = Some fee \<and>
      unat fmask dvd unat fee \<and> unat cost * unat weight \<le> unat fee \<and>
      (\<forall>k. unat cost * unat weight \<le> k * unat fmask \<longrightarrow> unat fee \<le> k * unat fmask)"
    using div_ceil_mult(1) [OF pos(1)] div_ceil_least [OF pos(1)]
    by (intro exI [of _ fee]) (simp add: mult_le_mono1)
  have "unat cost * v \<le> unat paid \<longleftrightarrow> v \<le> unat paid div unat cost" for v
    using pos(2) by (simp add: less_eq_div_iff_mult_less_eq mult.commute)
  then show "\<exists>w. calculate_weight_from_fee rate paid = Some (Some w) \<and>
      (\<forall>v. unat cost * v \<le> unat paid \<longleftrightarrow> v \<le> unat w)"
    using rate by (simp add: calculate_weight_from_fee_def unat_div)
qed

theorem fee_exact_witness:
  "FeeRate_new (- 1) 7 = Some \<lparr>per_weight = - 1, fee_mask = 7\<rparr> \<and>
   (\<exists>fee. calculate_fee_from_weight \<lparr>per_weight = - 1, fee_mask = 7\<rparr> (- 1) = Some fee \<and>
      unat (7 :: u64) dvd unat fee \<and> unat (- 1 :: u64) * unat (- 1 :: u64) \<le> unat fee)"
proof -
  have new: "FeeRate_new (- 1) 7 = Some \<lparr>per_weight = - 1, fee_mask = 7\<rparr>" by (simp add: FeeRate_new_def)
  then show ?thesis using fee_exact [OF new, of "- 1" 0] by blast
qed

end
