(* ===== verification/Interface.thy ===== *)
theory Interface
  imports Scan Fee_Rates
begin

text \<open>
  The interface to a node (\<^verbatim>\<open>interface/src\<close>), with the checks the library makes of what an untrusted node returns.

  An asynchronous method is a \<open>call\<close>: it maps the state of the world, nodes included, to an outcome and the next
  state. Nothing is assumed of a node: its state is of any type, so the same request may be answered differently each time.
  An outcome is \<open>None\<close> for a panic, or an error or a value. The methods a node provides, the traits
  \<open>ProvidesUnvalidated\<dots>\<close>, are the fields of a record; the checked methods, the traits \<open>Provides\<dots>\<close>, are functions over
  it. A message formatted from arguments is kept as the arguments.
\<close>

subsection \<open>Calls\<close>

type_synonym ('w, 'e, 'a) call = "'w \<Rightarrow> ('e + 'a) option \<times> 'w"

text \<open>A computation which makes no call; \<open>.await?\<close>; and the conversion of an error by \<open>?\<close>.\<close>

definition call_of :: "('e + 'a) option \<Rightarrow> ('w, 'e, 'a) call" where
  "call_of r w = (r, w)"

definition call_then :: "('w, 'e, 'a) call \<Rightarrow> ('a \<Rightarrow> ('w, 'e, 'b) call) \<Rightarrow> ('w, 'e, 'b) call" where
  "call_then m f w =
     (case m w of
        (None, w') \<Rightarrow> (None, w')
      | (Some (Inl e), w') \<Rightarrow> (Some (Inl e), w')
      | (Some (Inr x), w') \<Rightarrow> f x w')"

definition call_map_err :: "('e \<Rightarrow> 'f) \<Rightarrow> ('w, 'e, 'a) call \<Rightarrow> ('w, 'f, 'a) call" where
  "call_map_err f m w = (case m w of (r, w') \<Rightarrow> (map_option (map_sum f (\<lambda>x. x)) r, w'))"

abbreviation call_ok :: "'a \<Rightarrow> ('w, 'e, 'a) call" where
  "call_ok x \<equiv> call_of (Some (Inr x))"

abbreviation call_err :: "'e \<Rightarrow> ('w, 'e, 'a) call" where
  "call_err e \<equiv> call_of (Some (Inl e))"

text \<open>A loop which makes a call per element and collects the results.\<close>

primrec call_each :: "('x \<Rightarrow> ('w, 'e, 'a) call) \<Rightarrow> 'x list \<Rightarrow> ('w, 'e, 'a list) call" where
  "call_each f [] = call_ok []"
| "call_each f (x # xs) = call_then (f x) (\<lambda>y. call_then (call_each f xs) (\<lambda>ys. call_ok (y # ys)))"

text \<open>The numbers of a \<open>RangeInclusive<usize>\<close>.\<close>

definition range_numbers :: "usize \<times> usize \<Rightarrow> usize list" where
  "range_numbers rng = map word_of_nat [unat (fst rng)..<Suc (unat (snd rng))]"

subsection \<open>Errors\<close>

datatype message =
  Text string
| Returned string nat nat
| RequestedBlock usize usize
| RequestedBlockHash bytes bytes
| ReturnedTx bytes bytes
| PrunedV1Mismatch bytes

datatype InterfaceError = InternalError message | InterfaceError message | InvalidInterface message

datatype TransactionsError = TransactionsInterfaceError InterfaceError | TransactionNotFound | PrunedTransaction

datatype FeeError = FeeInterfaceError InterfaceError | InvalidFee | InvalidFeePriority

subsection \<open>What a node provides\<close>

record PrunedTransactionWithPrunableHash =
  ptx_transaction :: pruned_transaction
  ptx_prunable_hash :: "bytes option"

record 's UnvalidatedScannableBlock =
  usb_block :: "'s Block"
  usb_transactions :: "PrunedTransactionWithPrunableHash list"
  usb_output_index :: "u64 option"

record 'p RingCtOutputInformation =
  info_block_number :: usize
  info_unlocked :: bool
  info_key :: CompressedPoint
  info_commitment :: 'p
  info_transaction :: bytes

datatype EvaluateUnlocked = EvaluateNormal | FingerprintableDeterministic usize

record ('w, 's, 'p) node =
  node_contiguous_blocks :: "usize \<times> usize \<Rightarrow> ('w, InterfaceError, 's Block list) call"
  node_block :: "bytes \<Rightarrow> ('w, InterfaceError, 's Block) call"
  node_block_by_number :: "usize \<Rightarrow> ('w, InterfaceError, 's Block) call"
  node_transactions :: "bytes list \<Rightarrow> ('w, TransactionsError, 's transaction list) call"
  node_pruned_transactions ::
    "bytes list \<Rightarrow> ('w, TransactionsError, PrunedTransactionWithPrunableHash list) call"
  node_transaction :: "bytes \<Rightarrow> ('w, TransactionsError, 's transaction) call"
  node_pruned_transaction :: "bytes \<Rightarrow> ('w, TransactionsError, PrunedTransactionWithPrunableHash) call"
  node_output_indexes :: "bytes \<Rightarrow> ('w, InterfaceError, u64 list) call"
  node_ringct_outputs :: "u64 list \<Rightarrow> ('w, InterfaceError, 'p RingCtOutputInformation list) call"
  node_contiguous_scannable_blocks ::
    "usize \<times> usize \<Rightarrow> ('w, InterfaceError, 's UnvalidatedScannableBlock list) call"
  node_scannable_block :: "bytes \<Rightarrow> ('w, InterfaceError, 's UnvalidatedScannableBlock) call"
  node_scannable_block_by_number :: "usize \<Rightarrow> ('w, InterfaceError, 's UnvalidatedScannableBlock) call"
  node_ringct_output_distribution :: "usize option \<times> usize option \<Rightarrow> ('w, InterfaceError, u64 list) call"
  node_unlocked_ringct_outputs ::
    "u64 list \<Rightarrow> EvaluateUnlocked \<Rightarrow> ('w, TransactionsError, ('p \<times> 'p) option list) call"
  node_fee_rate :: "FeePriority \<Rightarrow> ('w, FeeError, FeeRate) call"

text \<open>The default methods: a batch by single requests, and a single request by a batch.\<close>

definition default_contiguous_blocks ::
  "(usize \<Rightarrow> ('w, InterfaceError, 's Block) call) \<Rightarrow> usize \<times> usize \<Rightarrow> ('w, InterfaceError, 's Block list) call" where
  "default_contiguous_blocks block_by_number rng = call_each block_by_number (range_numbers rng)"

definition default_block_by_number ::
  "(usize \<times> usize \<Rightarrow> ('w, InterfaceError, 's Block list) call) \<Rightarrow> usize \<Rightarrow> ('w, InterfaceError, 's Block) call" where
  "default_block_by_number contiguous_blocks number =
     call_then (contiguous_blocks (number, number)) (\<lambda>blks.
     if length blks \<noteq> 1
     then call_err (InternalError (Returned ''ProvidesUnvalidatedBlockchain::contiguous_blocks'' (length blks) 1))
     else call_ok (last blks))"

definition default_transactions ::
  "(bytes \<Rightarrow> ('w, TransactionsError, 's transaction) call) \<Rightarrow> bytes list \<Rightarrow>
   ('w, TransactionsError, 's transaction list) call" where
  "default_transactions transaction hashes = call_each transaction hashes"

definition default_transaction ::
  "(bytes list \<Rightarrow> ('w, TransactionsError, 's transaction list) call) \<Rightarrow> bytes \<Rightarrow>
   ('w, TransactionsError, 's transaction) call" where
  "default_transaction transactions hash =
     call_then (transactions [hash]) (\<lambda>txs.
     if length txs \<noteq> 1
     then call_err (TransactionsInterfaceError (InternalError
       (Returned ''ProvidesUnvalidatedTransactions::transactions'' (length txs) 1)))
     else call_ok (last txs))"

definition default_pruned_transactions ::
  "(bytes \<Rightarrow> ('w, TransactionsError, PrunedTransactionWithPrunableHash) call) \<Rightarrow> bytes list \<Rightarrow>
   ('w, TransactionsError, PrunedTransactionWithPrunableHash list) call" where
  "default_pruned_transactions pruned_transaction hashes = call_each pruned_transaction hashes"

definition default_pruned_transaction ::
  "(bytes list \<Rightarrow> ('w, TransactionsError, PrunedTransactionWithPrunableHash list) call) \<Rightarrow> bytes \<Rightarrow>
   ('w, TransactionsError, PrunedTransactionWithPrunableHash) call" where
  "default_pruned_transaction pruned_transactions hash =
     call_then (pruned_transactions [hash]) (\<lambda>txs.
     if length txs \<noteq> 1
     then call_err (TransactionsInterfaceError (InternalError
       (Returned ''ProvidesUnvalidatedTransactions::pruned_transactions'' (length txs) 1)))
     else call_ok (last txs))"

definition default_contiguous_scannable_blocks ::
  "(usize \<Rightarrow> ('w, InterfaceError, 's UnvalidatedScannableBlock) call) \<Rightarrow> usize \<times> usize \<Rightarrow>
   ('w, InterfaceError, 's UnvalidatedScannableBlock list) call" where
  "default_contiguous_scannable_blocks scannable_block_by_number rng =
     call_each scannable_block_by_number (range_numbers rng)"

definition default_scannable_block_by_number ::
  "(usize \<times> usize \<Rightarrow> ('w, InterfaceError, 's UnvalidatedScannableBlock list) call) \<Rightarrow> usize \<Rightarrow>
   ('w, InterfaceError, 's UnvalidatedScannableBlock) call" where
  "default_scannable_block_by_number contiguous_scannable_blocks number =
     call_then (contiguous_scannable_blocks (number, number)) (\<lambda>blks.
     if length blks \<noteq> 1
     then call_err (InternalError
       (Returned ''ProvidesUnvalidatedScannableBlocks::contiguous_scannable_blocks'' (length blks) 1))
     else call_ok (last blks))"

subsection \<open>Blocks\<close>

definition NOT_CONTIGUOUS :: string where
  "NOT_CONTIGUOUS =
     CHR 0x0A # replicate 12 (CHR '' '') @
     ''interface returned a block which doesn't build on the prior block '' @
     ''when requesting a contiguous series'' @ CHR 0x0A # replicate 10 (CHR '' '')"

fun sanity_check_loop ::
  "('s, 'z) dalek_scalar_scheme \<Rightarrow> (bytes \<Rightarrow> bytes) \<Rightarrow> bytes option \<Rightarrow> (usize \<times> 's Block) list \<Rightarrow>
   (InterfaceError + unit) option" where
  "sanity_check_loop D keccak256 parent [] = Some (Inr ())"
| "sanity_check_loop D keccak256 parent ((number, block) # blks) =
     Option.bind (Block_number block) (\<lambda>actual.
     if actual \<noteq> number then Some (Inl (InvalidInterface (RequestedBlock number actual)))
     else Option.bind (Block_hash D keccak256 block) (\<lambda>block_hash.
     case (case parent of Some p \<Rightarrow> Some p | None \<Rightarrow> if number = 0 then Some (replicate 32 0) else None) of
       Some parent \<Rightarrow>
         (if parent \<noteq> header_previous (block_header block)
          then Some (Inl (InvalidInterface (Text NOT_CONTIGUOUS)))
          else sanity_check_loop D keccak256 (Some block_hash) blks)
     | None \<Rightarrow> sanity_check_loop D keccak256 (Some block_hash) blks))"

definition sanity_check_contiguous_blocks ::
  "('s, 'z) dalek_scalar_scheme \<Rightarrow> (bytes \<Rightarrow> bytes) \<Rightarrow> usize \<times> usize \<Rightarrow> 's Block list \<Rightarrow>
   (InterfaceError + unit) option" where
  "sanity_check_contiguous_blocks D keccak256 rng blks =
     sanity_check_loop D keccak256 None (zip (range_numbers rng) blks)"

definition sanity_check_block_by_hash ::
  "('s, 'z) dalek_scalar_scheme \<Rightarrow> (bytes \<Rightarrow> bytes) \<Rightarrow> bytes \<Rightarrow> 's Block \<Rightarrow> (InterfaceError + unit) option" where
  "sanity_check_block_by_hash D keccak256 hash block =
     Option.bind (Block_hash D keccak256 block) (\<lambda>actual_hash.
     if actual_hash \<noteq> hash then Some (Inl (InvalidInterface (RequestedBlockHash hash actual_hash)))
     else Some (Inr ()))"

definition sanity_check_block_by_number :: "usize \<Rightarrow> 's Block \<Rightarrow> (InterfaceError + unit) option" where
  "sanity_check_block_by_number number block =
     Option.bind (Block_number block) (\<lambda>actual.
     if actual \<noteq> number then Some (Inl (InvalidInterface (RequestedBlock number actual)))
     else Some (Inr ()))"

text \<open>\<open>range.end().saturating_sub(*range.start()).checked_add(1)\<close>, and the check of how many blocks there are.\<close>

definition expected_blocks :: "usize \<times> usize \<Rightarrow> usize option" where
  "expected_blocks rng =
     (let diff = unat (snd rng) - unat (fst rng)
      in if diff + 1 < 2 ^ 64 then Some (word_of_nat (diff + 1)) else None)"

definition check_amount_of_blocks :: "string \<Rightarrow> usize \<times> usize \<Rightarrow> 'b list \<Rightarrow> InterfaceError + unit" where
  "check_amount_of_blocks method rng blks =
     (case expected_blocks rng of
        None \<Rightarrow> Inl (InternalError (Text ''amount of blocks requested wasn't representable in a `usize`''))
      | Some expected \<Rightarrow>
          if length blks \<noteq> unat expected
          then Inl (InternalError (Returned method (length blks) (unat expected)))
          else Inr ())"

definition contiguous_blocks ::
  "('s, 'z) dalek_scalar_scheme \<Rightarrow> (bytes \<Rightarrow> bytes) \<Rightarrow> ('w, 's, 'p) node \<Rightarrow> usize \<times> usize \<Rightarrow>
   ('w, InterfaceError, 's Block list) call" where
  "contiguous_blocks D keccak256 self rng =
     call_then (node_contiguous_blocks self rng) (\<lambda>blks.
     call_then (call_of (Some (check_amount_of_blocks ''ProvidesUnvalidatedBlockchain::contiguous_blocks'' rng blks)))
       (\<lambda>_.
     call_then (call_of (sanity_check_contiguous_blocks D keccak256 rng blks)) (\<lambda>_.
     call_ok blks)))"

definition block_by_hash ::
  "('s, 'z) dalek_scalar_scheme \<Rightarrow> (bytes \<Rightarrow> bytes) \<Rightarrow> ('w, 's, 'p) node \<Rightarrow> bytes \<Rightarrow>
   ('w, InterfaceError, 's Block) call" where
  "block_by_hash D keccak256 self hash =
     call_then (node_block self hash) (\<lambda>block.
     call_then (call_of (sanity_check_block_by_hash D keccak256 hash block)) (\<lambda>_.
     call_ok block))"

definition block_by_number :: "('w, 's, 'p) node \<Rightarrow> usize \<Rightarrow> ('w, InterfaceError, 's Block) call" where
  "block_by_number self number =
     call_then (node_block_by_number self number) (\<lambda>block.
     call_then (call_of (sanity_check_block_by_number number block)) (\<lambda>_.
     call_ok block))"

subsection \<open>Transactions\<close>

definition PrunedTransactionWithPrunableHash_new ::
  "pruned_transaction \<Rightarrow> bytes option \<Rightarrow> PrunedTransactionWithPrunableHash option" where
  "PrunedTransactionWithPrunableHash_new transaction prunable_hash =
     (case transaction of
        V1 _ _ \<Rightarrow>
          if prunable_hash \<noteq> None then None
          else Some \<lparr>ptx_transaction = transaction, ptx_prunable_hash = prunable_hash\<rparr>
      | V2 _ proofs \<Rightarrow>
          if prunable_hash = None then None
          else Some \<lparr>ptx_transaction = transaction,
                     ptx_prunable_hash = if proofs = None then Some (replicate 32 0) else prunable_hash\<rparr>)"

definition verify_as_possible ::
  "(bytes \<Rightarrow> bytes) \<Rightarrow> PrunedTransactionWithPrunableHash \<Rightarrow> bytes \<Rightarrow> (bytes + pruned_transaction) option" where
  "verify_as_possible keccak256 self hash =
     (case ptx_prunable_hash self of
        Some prunable_hash \<Rightarrow>
          Option.bind (hash_with_prunable_hash keccak256 (ptx_transaction self) prunable_hash) (\<lambda>actual_hash.
          Some (if actual_hash \<noteq> hash then Inl actual_hash else Inr (ptx_transaction self)))
      | None \<Rightarrow> Some (Inr (ptx_transaction self)))"

fun check_hashes ::
  "('s, 'z) dalek_scalar_scheme \<Rightarrow> (bytes \<Rightarrow> bytes) \<Rightarrow> 's transaction list \<Rightarrow> bytes list \<Rightarrow>
   (TransactionsError + unit) option" where
  "check_hashes D keccak256 (tx # txs) (expected_hash # hashes) =
     Option.bind (Transaction_hash D keccak256 tx) (\<lambda>hash.
     if hash \<noteq> expected_hash
     then Some (Inl (TransactionsInterfaceError (InvalidInterface (ReturnedTx hash expected_hash))))
     else check_hashes D keccak256 txs hashes)"
| "check_hashes D keccak256 _ _ = Some (Inr ())"

definition transactions ::
  "('s, 'z) dalek_scalar_scheme \<Rightarrow> (bytes \<Rightarrow> bytes) \<Rightarrow> ('w, 's, 'p) node \<Rightarrow> bytes list \<Rightarrow>
   ('w, TransactionsError, 's transaction list) call" where
  "transactions D keccak256 self hashes =
     call_then (node_transactions self hashes) (\<lambda>txs.
     if length txs \<noteq> length hashes
     then call_err (TransactionsInterfaceError (InternalError
       (Returned ''ProvidesUnvalidatedTransactions::transactions'' (length txs) (length hashes))))
     else call_then (call_of (check_hashes D keccak256 txs hashes)) (\<lambda>_. call_ok txs))"

text \<open>The first loop of \<open>validate_pruned_transactions\<close>, over the transactions so far, and the positions and hashes of
  those of version 1; and its second loop, over those.\<close>

fun verify_pruned_loop ::
  "(bytes \<Rightarrow> bytes) \<Rightarrow> PrunedTransactionWithPrunableHash list \<Rightarrow> bytes list \<Rightarrow>
   pruned_transaction list \<times> nat list \<times> bytes list \<Rightarrow>
   (TransactionsError + pruned_transaction list \<times> nat list \<times> bytes list) option" where
  "verify_pruned_loop keccak256 (tx # unvalidated) (expected_hash # hashes) (txs, v1_indexes, v1_hashes) =
     Option.bind (verify_as_possible keccak256 tx expected_hash) (\<lambda>r.
     case r of
       Inr (V1 prefix signatures) \<Rightarrow>
         verify_pruned_loop keccak256 unvalidated hashes
           (txs @ [V1 prefix signatures], v1_indexes @ [length txs], v1_hashes @ [expected_hash])
     | Inr (V2 prefix proofs) \<Rightarrow>
         verify_pruned_loop keccak256 unvalidated hashes (txs @ [V2 prefix proofs], v1_indexes, v1_hashes)
     | Inl hash \<Rightarrow> Some (Inl (TransactionsInterfaceError (InvalidInterface (ReturnedTx hash expected_hash)))))"
| "verify_pruned_loop keccak256 _ _ res = Some (Inr res)"

fun match_v1_loop ::
  "pruned_transaction list \<Rightarrow> nat list \<Rightarrow> bytes list \<Rightarrow> 's transaction list \<Rightarrow>
   (TransactionsError + unit) option" where
  "match_v1_loop txs (i # v1_indexes) (hash # v1_hashes) (tx # full_txs) =
     Option.bind (slice_get txs i) (\<lambda>pruned_tx.
     if Transaction_into_pruned tx \<noteq> pruned_tx
     then Some (Inl (TransactionsInterfaceError (InvalidInterface (PrunedV1Mismatch hash))))
     else match_v1_loop txs v1_indexes v1_hashes full_txs)"
| "match_v1_loop txs _ _ _ = Some (Inr ())"

definition validate_pruned_transactions ::
  "('s, 'z) dalek_scalar_scheme \<Rightarrow> (bytes \<Rightarrow> bytes) \<Rightarrow> ('w, 's, 'p) node \<Rightarrow>
   PrunedTransactionWithPrunableHash list \<Rightarrow> bytes list \<Rightarrow> ('w, TransactionsError, pruned_transaction list) call" where
  "validate_pruned_transactions D keccak256 interface unvalidated hashes =
     (if length unvalidated \<noteq> length hashes
      then call_err (TransactionsInterfaceError (InternalError
        (Returned ''ProvidesUnvalidatedTransactions::pruned_transactions'' (length unvalidated) (length hashes))))
      else call_then (call_of (verify_pruned_loop keccak256 unvalidated hashes ([], [], [])))
        (\<lambda>(txs, v1_indexes, v1_hashes).
      if v1_indexes \<noteq> []
      then call_then (transactions D keccak256 interface v1_hashes) (\<lambda>full_txs.
           call_then (call_of (match_v1_loop txs v1_indexes v1_hashes full_txs)) (\<lambda>_.
           call_ok txs))
      else call_ok txs))"

definition pruned_transactions ::
  "('s, 'z) dalek_scalar_scheme \<Rightarrow> (bytes \<Rightarrow> bytes) \<Rightarrow> ('w, 's, 'p) node \<Rightarrow> bytes list \<Rightarrow>
   ('w, TransactionsError, pruned_transaction list) call" where
  "pruned_transactions D keccak256 self hashes =
     call_then (node_pruned_transactions self hashes) (\<lambda>unvalidated.
     validate_pruned_transactions D keccak256 self unvalidated hashes)"

definition transaction_by_hash ::
  "('s, 'z) dalek_scalar_scheme \<Rightarrow> (bytes \<Rightarrow> bytes) \<Rightarrow> ('w, 's, 'p) node \<Rightarrow> bytes \<Rightarrow>
   ('w, TransactionsError, 's transaction) call" where
  "transaction_by_hash D keccak256 self hash =
     call_then (node_transaction self hash) (\<lambda>tx.
     call_then (call_of (map_option Inr (Transaction_hash D keccak256 tx))) (\<lambda>actual_hash.
     if actual_hash \<noteq> hash
     then call_err (TransactionsInterfaceError (InvalidInterface (ReturnedTx actual_hash hash)))
     else call_ok tx))"

text \<open>\<open>swap_remove(0)\<close> panics on an empty vector and otherwise returns the first element.\<close>

definition pruned_transaction_by_hash ::
  "('s, 'z) dalek_scalar_scheme \<Rightarrow> (bytes \<Rightarrow> bytes) \<Rightarrow> ('w, 's, 'p) node \<Rightarrow> bytes \<Rightarrow>
   ('w, TransactionsError, pruned_transaction) call" where
  "pruned_transaction_by_hash D keccak256 self hash =
     call_then (node_pruned_transaction self hash) (\<lambda>unvalidated.
     call_then (validate_pruned_transactions D keccak256 self [unvalidated] [hash]) (\<lambda>txs.
     call_of (map_option Inr (slice_get txs 0))))"

subsection \<open>Outputs, decoys and fee rates\<close>

definition interface_ringct_outputs ::
  "('w, 's, 'p) node \<Rightarrow> u64 list \<Rightarrow> ('w, InterfaceError, 'p RingCtOutputInformation list) call" where
  "interface_ringct_outputs self indexes =
     call_then (node_ringct_outputs self indexes) (\<lambda>outputs.
     if length outputs \<noteq> length indexes
     then call_err (InternalError
       (Returned ''ProvidesUnvalidatedOutputs::ringct_outputs'' (length outputs) (length indexes)))
     else call_ok outputs)"

fun monotonic_loop :: "u64 \<Rightarrow> u64 list \<Rightarrow> InterfaceError + unit" where
  "monotonic_loop monotonic [] = Inr ()"
| "monotonic_loop monotonic (d # distribution) =
     (if d < monotonic
      then Inl (InvalidInterface (Text ''received output distribution didn't increase monotonically''))
      else monotonic_loop d distribution)"

definition ringct_output_distribution ::
  "('w, 's, 'p) node \<Rightarrow> usize option \<times> usize option \<Rightarrow> ('w, InterfaceError, u64 list) call" where
  "ringct_output_distribution self rng =
     call_then (node_ringct_output_distribution self rng) (\<lambda>distribution.
     call_then (call_of (Some (monotonic_loop 0 distribution))) (\<lambda>_.
     call_ok distribution))"

definition unlocked_ringct_outputs ::
  "('w, 's, 'p) node \<Rightarrow> u64 list \<Rightarrow> EvaluateUnlocked \<Rightarrow> ('w, TransactionsError, ('p \<times> 'p) option list) call" where
  "unlocked_ringct_outputs self indexes evaluate_unlocked =
     call_then (node_unlocked_ringct_outputs self indexes evaluate_unlocked) (\<lambda>outputs.
     if length outputs \<noteq> length indexes
     then call_err (TransactionsInterfaceError (InternalError
       (Returned ''ProvidesUnvalidatedDecoys::unlocked_ringct_outputs'' (length outputs) (length indexes))))
     else call_ok outputs)"

definition interface_fee_rate :: "('w, 's, 'p) node \<Rightarrow> FeePriority \<Rightarrow> u64 \<Rightarrow> ('w, FeeError, FeeRate) call" where
  "interface_fee_rate self priority max_per_weight =
     call_then (node_fee_rate self priority) (\<lambda>fee_rate.
     if per_weight fee_rate > max_per_weight then call_err InvalidFee else call_ok fee_rate)"

subsection \<open>Scannable blks\<close>

fun output_index_loop ::
  "('w, 's, 'p) node \<Rightarrow> (bytes \<times> pruned_transaction) list \<Rightarrow> ('w, TransactionsError, u64 option) call" where
  "output_index_loop self [] = call_ok None"
| "output_index_loop self ((hash, tx) # txs) =
     (if tx_version tx \<noteq> 2 \<or> tx_outputs (tx_prefix tx) = [] then output_index_loop self txs
      else call_then (call_map_err TransactionsInterfaceError (node_output_indexes self hash)) (\<lambda>indexes.
           case indexes of
             [] \<Rightarrow> call_err (TransactionsInterfaceError (InvalidInterface
                     (Text ''requested output indexes for a TX with outputs and got none'')))
           | index # _ \<Rightarrow> call_ok (Some index)))"

definition expand_to_scannable_block ::
  "('s, 'z) dalek_scalar_scheme \<Rightarrow> (bytes \<Rightarrow> bytes) \<Rightarrow> ('w, 's, 'p) node \<Rightarrow> 's Block \<Rightarrow>
   ('w, TransactionsError, 's ScannableBlock) call" where
  "expand_to_scannable_block D keccak256 self block =
     call_then (pruned_transactions D keccak256 self (block_transactions block)) (\<lambda>transactions.
     call_then (call_of (map_option Inr (Transaction_hash D keccak256 (miner_transaction block)))) (\<lambda>miner_tx_hash.
     call_then (output_index_loop self
       ((miner_tx_hash, Transaction_into_pruned (miner_transaction block)) #
        zip (block_transactions block) transactions)) (\<lambda>output_index.
     call_ok \<lparr>sb_block = block, sb_transactions = transactions, sb_output_index = output_index\<rparr>)))"

fun scannable_block_error :: "TransactionsError \<Rightarrow> InterfaceError" where
  "scannable_block_error (TransactionsInterfaceError e) = e"
| "scannable_block_error TransactionNotFound = InvalidInterface
     (Text ''interface sent us a scannable block it doesn't have the transactions for'')"
| "scannable_block_error PrunedTransaction = InvalidInterface
     (Text ''interface sent us pruned transaction when validating a scannable block'')"

definition validate_scannable_block ::
  "('s, 'z) dalek_scalar_scheme \<Rightarrow> (bytes \<Rightarrow> bytes) \<Rightarrow> ('w, 's, 'p) node \<Rightarrow> 's UnvalidatedScannableBlock \<Rightarrow>
   ('w, InterfaceError, 's ScannableBlock) call" where
  "validate_scannable_block D keccak256 interface block =
     call_then (call_map_err scannable_block_error
       (validate_pruned_transactions D keccak256 interface (usb_transactions block)
         (block_transactions (usb_block block)))) (\<lambda>transactions.
     call_ok \<lparr>sb_block = usb_block block, sb_transactions = transactions, sb_output_index = usb_output_index block\<rparr>)"

definition contiguous_scannable_blocks ::
  "('s, 'z) dalek_scalar_scheme \<Rightarrow> (bytes \<Rightarrow> bytes) \<Rightarrow> ('w, 's, 'p) node \<Rightarrow> usize \<times> usize \<Rightarrow>
   ('w, InterfaceError, 's ScannableBlock list) call" where
  "contiguous_scannable_blocks D keccak256 self rng =
     call_then (node_contiguous_scannable_blocks self rng) (\<lambda>blks.
     call_then (call_of (Some (check_amount_of_blocks
       ''ProvidesUnvalidatedScannableBlocks::contiguous_scannable_blocks'' rng blks))) (\<lambda>_.
     call_then (call_of (sanity_check_contiguous_blocks D keccak256 rng (map usb_block blks))) (\<lambda>_.
     call_each (validate_scannable_block D keccak256 self) blks)))"

definition scannable_block ::
  "('s, 'z) dalek_scalar_scheme \<Rightarrow> (bytes \<Rightarrow> bytes) \<Rightarrow> ('w, 's, 'p) node \<Rightarrow> bytes \<Rightarrow>
   ('w, InterfaceError, 's ScannableBlock) call" where
  "scannable_block D keccak256 self hash =
     call_then (node_scannable_block self hash) (\<lambda>block.
     call_then (call_of (sanity_check_block_by_hash D keccak256 hash (usb_block block))) (\<lambda>_.
     validate_scannable_block D keccak256 self block))"

definition scannable_block_by_number ::
  "('s, 'z) dalek_scalar_scheme \<Rightarrow> (bytes \<Rightarrow> bytes) \<Rightarrow> ('w, 's, 'p) node \<Rightarrow> usize \<Rightarrow>
   ('w, InterfaceError, 's ScannableBlock) call" where
  "scannable_block_by_number D keccak256 self number =
     call_then (node_scannable_block_by_number self number) (\<lambda>block.
     call_then (call_of (sanity_check_block_by_number number (usb_block block))) (\<lambda>_.
     validate_scannable_block D keccak256 self block))"

subsection \<open>The combinators\<close>

named_theorems call_iff \<open>when a call returns a value\<close>

lemma call_of_apply [simp]: "call_of r w = (r, w)"
  by (simp add: call_of_def)

lemma call_of_Inr [call_iff]: "call_of r w = (Some (Inr x), w') \<longleftrightarrow> r = Some (Inr x) \<and> w' = w"
  by auto

lemma call_then_Inr [call_iff]:
  "call_then m f w = (Some (Inr y), w'') \<longleftrightarrow>
     (\<exists>x w'. m w = (Some (Inr x), w') \<and> f x w' = (Some (Inr y), w''))"
  by (auto simp: call_then_def split: prod.splits option.splits sum.splits)

lemma call_map_err_Inr [call_iff]:
  "call_map_err f m w = (Some (Inr y), w') \<longleftrightarrow> m w = (Some (Inr y), w')"
proof -
  obtain r w1 where m: "m w = (r, w1)" by fastforce
  have "map_sum f (\<lambda>x. x) x = Inr y \<longleftrightarrow> x = Inr y" for x by (cases x) simp_all
  with m show ?thesis by (cases r) (auto simp: call_map_err_def)
qed

lemma call_if_err [call_iff]:
  "(if b then call_err e else m) w = (Some (Inr x), w') \<longleftrightarrow> \<not> b \<and> m w = (Some (Inr x), w')"
  by simp

lemma call_each_Inr:
  "call_each f xs w = (Some (Inr ys), w') \<Longrightarrow>
     list_all2 (\<lambda>x y. \<exists>v v'. f x v = (Some (Inr y), v')) xs ys"
  by (induction xs arbitrary: ys w) (auto simp: call_iff)

end
