(* ===== verification/Interface_Checks.thy ===== *)
theory Interface_Checks
  imports Interface
begin

text \<open>
  What the checks of the interface guarantee, of any node: blocks which form a chain, authenticated by the hash of the last one;
  pruned transactions with the requested hashes; scannable blocks with the transactions they list; sorted distributions.
  And that what an honest node offers passes them.
\<close>

subsection \<open>Chains of blocks\<close>

text \<open>Blocks which follow one another from a number and, where there is one, a parent.\<close>

fun linked :: "('s, 'z) dalek_scalar_scheme \<Rightarrow> (bytes \<Rightarrow> bytes) \<Rightarrow> bytes option \<Rightarrow> usize \<Rightarrow> 's Block list \<Rightarrow> bool" where
  "linked D keccak256 parent number [] \<longleftrightarrow> True"
| "linked D keccak256 parent number (block # rest) \<longleftrightarrow>
     Block_number block = Some number \<and>
     (case parent of
        Some p \<Rightarrow> header_previous (block_header block) = p
      | None \<Rightarrow> number = 0 \<longrightarrow> header_previous (block_header block) = replicate 32 0) \<and>
     (\<exists>h. Block_hash D keccak256 block = Some h \<and> linked D keccak256 (Some h) (number + 1) rest)"

lemma sanity_check_loop_iff:
  "sanity_check_loop D k parent (zip (map word_of_nat [n..<n + length blks]) blks) = Some (Inr ()) \<longleftrightarrow>
     linked D k parent (word_of_nat n) blks"
proof (induction blks arbitrary: parent n)
  case (Cons b blks)
  have "[n..<n + length (b # blks)] = n # [Suc n..<Suc n + length blks]" by (subst upt_conv_Cons) simp_all
  with Cons [of _ "Suc n"] show ?case
    by (cases parent) (auto simp: bind_eq_Some_conv add.commute)
qed simp

lemma range_numbers_upt:
  "unat a \<le> unat b \<Longrightarrow> range_numbers (a, b) = map word_of_nat [unat a..<unat a + (unat b - unat a + 1)]"
  by (simp add: range_numbers_def)

text \<open>What a contiguous series of blocks is: the numbers follow one another, and every block builds on the one before,
  the genesis block on no block.\<close>

definition chain_of ::
  "('s, 'z) dalek_scalar_scheme \<Rightarrow> (bytes \<Rightarrow> bytes) \<Rightarrow> usize \<Rightarrow> 's Block list \<Rightarrow> bool" where
  "chain_of D keccak256 start blks \<longleftrightarrow>
     (\<forall>i < length blks. Block_number (blks ! i) = Some (start + word_of_nat i)) \<and>
     (\<forall>i. Suc i < length blks \<longrightarrow>
        Block_hash D keccak256 (blks ! i) = Some (header_previous (block_header (blks ! Suc i)))) \<and>
     (\<forall>i < length blks. Block_hash D keccak256 (blks ! i) \<noteq> None) \<and>
     (start = 0 \<and> blks \<noteq> [] \<longrightarrow> header_previous (block_header (hd blks)) = replicate 32 0)"

lemma all_pairs_Cons:
  "(\<forall>i. Suc i < length (x # xs) \<longrightarrow> P i) \<longleftrightarrow> (xs \<noteq> [] \<longrightarrow> P 0) \<and> (\<forall>i. Suc i < length xs \<longrightarrow> P (Suc i))"
  by (metis Suc_less_eq length_Cons length_greater_0_conv not0_implies_Suc)

lemma all_less_Cons: "(\<forall>i < length (x # xs). P i) \<longleftrightarrow> P 0 \<and> (\<forall>i < length xs. P (Suc i))"
  by (simp add: All_less_Suc2)

lemma linked_iff:
  "linked D k parent n blks \<longleftrightarrow>
     (\<forall>i < length blks. Block_number (blks ! i) = Some (n + word_of_nat i)) \<and>
     (\<forall>i. Suc i < length blks \<longrightarrow>
        Block_hash D k (blks ! i) = Some (header_previous (block_header (blks ! Suc i)))) \<and>
     (\<forall>i < length blks. Block_hash D k (blks ! i) \<noteq> None) \<and>
     (blks \<noteq> [] \<longrightarrow> (case parent of
        Some p \<Rightarrow> header_previous (block_header (hd blks)) = p
      | None \<Rightarrow> n = 0 \<longrightarrow> header_previous (block_header (hd blks)) = replicate 32 0))"
proof (induction blks arbitrary: parent n)
  case (Cons b blks)
  have "linked D k (Some h) (n + 1) blks \<longleftrightarrow>
      (\<forall>i < length blks. Block_number (blks ! i) = Some (n + word_of_nat (Suc i))) \<and>
      (\<forall>i. Suc i < length blks \<longrightarrow>
        Block_hash D k (blks ! i) = Some (header_previous (block_header (blks ! Suc i)))) \<and>
      (\<forall>i < length blks. Block_hash D k (blks ! i) \<noteq> None) \<and>
      (blks \<noteq> [] \<longrightarrow> header_previous (block_header (blks ! 0)) = h)" for h
    unfolding Cons.IH by (simp add: add.assoc hd_conv_nth)
  then show ?case
    unfolding all_pairs_Cons all_less_Cons by (cases "Block_hash D k b") (auto split: option.split)
qed simp

lemma sanity_check_contiguous_iff:
  assumes "unat a \<le> unat b" and "length blks = unat b - unat a + 1"
  shows "sanity_check_contiguous_blocks D k (a, b) blks = Some (Inr ()) \<longleftrightarrow> chain_of D k a blks"
proof -
  have "sanity_check_contiguous_blocks D k (a, b) blks = Some (Inr ()) \<longleftrightarrow> linked D k None a blks"
    using sanity_check_loop_iff [of D k None "unat a" blks]
    by (simp add: sanity_check_contiguous_blocks_def range_numbers_upt [OF assms(1)] assms(2))
  then show ?thesis by (auto simp: linked_iff chain_of_def)
qed

lemma check_amount_of_blocks_iff:
  "check_amount_of_blocks method (a, b) blks = Inr () \<longleftrightarrow>
     length blks = unat b - unat a + 1 \<and> length blks < 2 ^ 64"
proof (cases "unat b - unat a + 1 < 2 ^ 64")
  case True
  then have "expected_blocks (a, b) = Some (word_of_nat (unat b - unat a + 1))"
    and "unat (word_of_nat (unat b - unat a + 1) :: usize) = unat b - unat a + 1"
    by (simp_all only: expected_blocks_def Let_def fst_conv snd_conv if_True) (simp add: unat_of_nat_small del: of_nat_Suc)
  with True show ?thesis by (auto simp: check_amount_of_blocks_def)
next
  case False
  then show ?thesis by (auto simp: check_amount_of_blocks_def expected_blocks_def)
qed

lemma contiguous_blocks_iff:
  assumes "start \<le> stop"
  shows "contiguous_blocks D keccak256 node (start, stop) w = (Some (Inr blks), w') \<longleftrightarrow>
           node_contiguous_blocks node (start, stop) w = (Some (Inr blks), w') \<and>
           length blks = unat stop - unat start + 1 \<and> length blks < 2 ^ 64 \<and>
           chain_of D keccak256 start blks"
  using assms sanity_check_contiguous_iff [of start stop blks D keccak256]
  by (auto simp: contiguous_blocks_def call_iff check_amount_of_blocks_iff word_le_nat_alt)

text \<open>No number is left to check the blocks of an empty range against, but one block is expected.\<close>

lemma contiguous_blocks_empty:
  assumes "stop < start"
  shows "contiguous_blocks D keccak256 node (start, stop) w = (Some (Inr blks), w') \<longleftrightarrow>
           node_contiguous_blocks node (start, stop) w = (Some (Inr blks), w') \<and> length blks = 1"
proof -
  have lt: "unat stop < unat start" using assms by (simp add: word_less_nat_alt)
  then have "sanity_check_contiguous_blocks D keccak256 (start, stop) blks = Some (Inr ())" for blks
    by (simp add: sanity_check_contiguous_blocks_def range_numbers_def)
  with lt show ?thesis by (auto simp: contiguous_blocks_def call_iff check_amount_of_blocks_iff)
qed

text \<open>C26. A range of blocks is returned exactly when the node returned one block per number which form a chain: their
  numbers are those requested, each names the hash of the one before it as its parent, and the genesis block names none.
  Nothing is assumed of the node. Only an empty range, whose start is above its end, is taken for a range of one block, which is
  then not checked.\<close>

theorem contiguous_blocks_chain:
  "contiguous_blocks D keccak256 node (start, stop) w = (Some (Inr blks), w') \<longleftrightarrow>
     node_contiguous_blocks node (start, stop) w = (Some (Inr blks), w') \<and>
     length blks = unat stop - unat start + 1 \<and> length blks < 2 ^ 64 \<and>
     (start \<le> stop \<longrightarrow> chain_of D keccak256 start blks)"
proof (cases "start \<le> stop")
  case True
  then show ?thesis by (simp add: contiguous_blocks_iff)
next
  case False
  then have "stop < start" "unat stop - unat start = 0" by (simp_all add: not_le word_less_nat_alt)
  then show ?thesis by (auto simp: contiguous_blocks_empty)
qed


subsection \<open>Transactions\<close>

lemma check_hashes_iff:
  "length txs = length hashes \<Longrightarrow>
     check_hashes D k txs hashes = Some (Inr ()) \<longleftrightarrow> map (Transaction_hash D k) txs = map Some hashes"
  by (induction txs hashes rule: list_induct2) (auto simp: bind_eq_Some_conv)

lemma transactions_iff:
  "transactions D k node hashes w = (Some (Inr txs), w') \<longleftrightarrow>
     node_transactions node hashes w = (Some (Inr txs), w') \<and> map (Transaction_hash D k) txs = map Some hashes"
proof (cases "length txs = length hashes")
  case True
  then show ?thesis by (auto simp: transactions_def call_iff check_hashes_iff)
next
  case False
  then show ?thesis by (auto simp: transactions_def call_iff dest: map_eq_imp_length_eq)
qed

text \<open>The fields of a transaction with a prunable hash are private: every value is one \<open>new\<close> returned.\<close>

definition constructed :: "PrunedTransactionWithPrunableHash \<Rightarrow> bool" where
  "constructed ptx \<longleftrightarrow> (\<exists>tx prunable_hash. PrunedTransactionWithPrunableHash_new tx prunable_hash = Some ptx)"

lemma constructed_iff: "constructed ptx \<longleftrightarrow>
    (case ptx_transaction ptx of
       V1 _ _ \<Rightarrow> ptx_prunable_hash ptx = None
     | V2 _ proofs \<Rightarrow> ptx_prunable_hash ptx \<noteq> None \<and> (proofs = None \<longrightarrow> ptx_prunable_hash ptx = Some (replicate 32 0)))"
    (is "_ \<longleftrightarrow> ?R")
proof
  assume ?R
  then have "PrunedTransactionWithPrunableHash_new (ptx_transaction ptx) (ptx_prunable_hash ptx) = Some ptx"
    by (cases ptx) (auto simp: PrunedTransactionWithPrunableHash_new_def split: Transaction.splits)
  then show "constructed ptx" by (auto simp: constructed_def)
next
  assume "constructed ptx"
  then obtain tx h where new: "PrunedTransactionWithPrunableHash_new tx h = Some ptx" by (auto simp: constructed_def)
  then show ?R by (cases tx) (auto simp: PrunedTransactionWithPrunableHash_new_def split: if_splits)
qed

text \<open>The positions and hashes of the transactions of version 1 among those requested.\<close>

fun v1_requests :: "nat \<Rightarrow> pruned_transaction list \<Rightarrow> bytes list \<Rightarrow> (nat \<times> bytes) list" where
  "v1_requests n (tx # txs) (hash # hashes) =
     (if tx_version tx = 1 then [(n, hash)] else []) @ v1_requests (Suc n) txs hashes"
| "v1_requests n _ _ = []"

lemma v1_requests_mem:
  "i < length txs \<Longrightarrow> i < length hashes \<Longrightarrow> tx_version (txs ! i) = 1 \<Longrightarrow>
     (n + i, hashes ! i) \<in> set (v1_requests n txs hashes)"
proof (induction n txs hashes arbitrary: i rule: v1_requests.induct)
  case (1 n tx txs hash hashes)
  then show ?case by (cases i) auto
qed simp_all

text \<open>That a transaction passes the first loop.\<close>

definition verified :: "(bytes \<Rightarrow> bytes) \<Rightarrow> PrunedTransactionWithPrunableHash \<Rightarrow> bytes \<Rightarrow> bool" where
  "verified keccak256 ptx hash \<longleftrightarrow> verify_as_possible keccak256 ptx hash = Some (Inr (ptx_transaction ptx))"

lemma verify_as_possible_Inr:
  "verify_as_possible k ptx hash = Some (Inr tx) \<longleftrightarrow> verified k ptx hash \<and> tx = ptx_transaction ptx"
  by (auto simp: verified_def verify_as_possible_def bind_eq_Some_conv split: option.splits if_splits)

lemma verify_pruned_loop_iff:
  assumes "length us = length hashes"
  shows "verify_pruned_loop k us hashes (txs, is, hs) = Some (Inr res) \<longleftrightarrow>
     list_all2 (verified k) us hashes \<and>
     res = (txs @ map ptx_transaction us,
            is @ map fst (v1_requests (length txs) (map ptx_transaction us) hashes),
            hs @ map snd (v1_requests (length txs) (map ptx_transaction us) hashes))"
  using assms
proof (induction us hashes arbitrary: txs "is" hs rule: list_induct2)
  case (Cons u us hash hashes)
  show ?case
  proof (cases "verified k u hash")
    case True
    then have "verify_as_possible k u hash = Some (Inr (ptx_transaction u))" by (simp add: verified_def)
    then show ?thesis using True Cons.IH by (cases "ptx_transaction u") simp_all
  next
    case False
    then have "verify_as_possible k u hash \<noteq> Some (Inr tx)" for tx by (simp add: verify_as_possible_Inr)
    then show ?thesis using False by (auto simp: bind_eq_Some_conv split: sum.splits)
  qed
qed auto

lemma match_v1_loop_iff:
  assumes "length is = length hs" and "length hs = length fulls"
  shows "match_v1_loop txs is hs fulls = Some (Inr ()) \<longleftrightarrow>
     map (slice_get txs) is = map (\<lambda>tx. Some (Transaction_into_pruned tx)) fulls"
  using assms by (induction "is" hs fulls rule: list_induct3) (auto simp: bind_eq_Some_conv)

lemma validate_pruned_transactions_iff:
  "validate_pruned_transactions D k node us hashes w = (Some (Inr txs), w') \<longleftrightarrow>
     list_all2 (verified k) us hashes \<and> txs = map ptx_transaction us \<and>
     (let requests = v1_requests 0 txs hashes
      in if requests = [] then w' = w
         else \<exists>fulls. node_transactions node (map snd requests) w = (Some (Inr fulls), w') \<and>
                map (Transaction_hash D k) fulls = map (\<lambda>r. Some (snd r)) requests \<and>
                map (\<lambda>r. slice_get txs (fst r)) requests = map (\<lambda>tx. Some (Transaction_into_pruned tx)) fulls)"
  (is "?L \<longleftrightarrow> ?R")
proof (cases "length us = length hashes")
  case False
  then show ?thesis by (auto simp: validate_pruned_transactions_def dest: list_all2_lengthD)
next
  case True
  let ?requests = "v1_requests 0 (map ptx_transaction us) hashes"
  have len: "length fulls = length ?requests" if "map (Transaction_hash D k) fulls = map (\<lambda>r. Some (snd r)) ?requests" for fulls
    using map_eq_imp_length_eq [OF that] by simp
  have match: "match_v1_loop (map ptx_transaction us) (map fst ?requests) (map snd ?requests) fulls = Some (Inr ()) \<longleftrightarrow>
      map (\<lambda>r. slice_get (map ptx_transaction us) (fst r)) ?requests = map (\<lambda>tx. Some (Transaction_into_pruned tx)) fulls"
    if "map (Transaction_hash D k) fulls = map (\<lambda>r. Some (snd r)) ?requests" for fulls
    using len [OF that] by (subst match_v1_loop_iff) (simp_all add: comp_def)
  show ?thesis
    using True match
    by (auto simp: validate_pruned_transactions_def call_iff verify_pruned_loop_iff transactions_iff Let_def comp_def)
qed

text \<open>What the requested hash says of a pruned transaction: the hash of one of version 2 is recomputed from it with some
  hash of prunable data; one of version 1 is the pruned form of a transaction with the hash.\<close>

fun authentic :: "('s, 'z) dalek_scalar_scheme \<Rightarrow> (bytes \<Rightarrow> bytes) \<Rightarrow> bytes \<Rightarrow> pruned_transaction \<Rightarrow> bool" where
  "authentic D keccak256 hash (V1 prefix signatures) \<longleftrightarrow>
     (\<exists>tx. Transaction_hash D keccak256 tx = Some hash \<and> Transaction_into_pruned tx = V1 prefix signatures)"
| "authentic D keccak256 hash (V2 prefix proofs) \<longleftrightarrow>
     (\<exists>prunable_hash. hash_with_prunable_hash keccak256 (V2 prefix proofs) prunable_hash = Some hash \<and>
        (proofs = None \<longrightarrow> prunable_hash = replicate 32 0))"

lemma verified_V2:
  assumes "constructed u" and "verified k u hash" and "ptx_transaction u = V2 prefix proofs"
  shows "authentic D k hash (V2 prefix proofs)"
proof -
  from assms(1,3) obtain ph where ph: "ptx_prunable_hash u = Some ph" "proofs = None \<longrightarrow> ph = replicate 32 0"
    by (auto simp: constructed_iff)
  with assms(2,3) have "hash_with_prunable_hash k (V2 prefix proofs) ph = Some hash"
    by (auto simp: verified_def verify_as_possible_def bind_eq_Some_conv split: if_splits)
  with ph(2) show ?thesis unfolding authentic.simps by blast
qed

lemma validate_authentic:
  assumes "\<forall>u \<in> set us. constructed u"
    and "validate_pruned_transactions D k node us hashes w = (Some (Inr txs), w')"
  shows "list_all2 (authentic D k) hashes txs"
proof -
  let ?requests = "v1_requests 0 txs hashes"
  have v: "list_all2 (verified k) us hashes" and txs: "txs = map ptx_transaction us"
    and v1: "?requests \<noteq> [] \<Longrightarrow> \<exists>fulls. map (Transaction_hash D k) fulls = map (\<lambda>r. Some (snd r)) ?requests \<and>
        map (\<lambda>r. slice_get txs (fst r)) ?requests = map (\<lambda>tx. Some (Transaction_into_pruned tx)) fulls"
    using assms(2) unfolding validate_pruned_transactions_iff Let_def by (auto split: if_splits)
  have len: "length us = length hashes" using v by (rule list_all2_lengthD)
  show ?thesis
  proof (rule list_all2_all_nthI)
    show "length hashes = length txs" using len txs by simp
    fix i
    assume i: "i < length hashes"
    then have u: "constructed (us ! i)" "verified k (us ! i) (hashes ! i)" "txs ! i = ptx_transaction (us ! i)"
      using assms(1) len txs v by (auto simp: list_all2_conv_all_nth)
    show "authentic D k (hashes ! i) (txs ! i)"
    proof (cases "txs ! i")
      case (V2 prefix proofs)
      with u show ?thesis using verified_V2 by metis
    next
      case (V1 prefix signatures)
      then have mem: "(i, hashes ! i) \<in> set ?requests"
        using v1_requests_mem [of i txs hashes 0] i len txs by simp
      then obtain j where j: "j < length ?requests" "?requests ! j = (i, hashes ! i)" by (metis in_set_conv_nth)
      from mem have "?requests \<noteq> []" by auto
      from v1 [OF this] obtain fulls where
        fulls: "map (Transaction_hash D k) fulls = map (\<lambda>r. Some (snd r)) ?requests"
          "map (\<lambda>r. slice_get txs (fst r)) ?requests = map (\<lambda>tx. Some (Transaction_into_pruned tx)) fulls" by blast
      have jl: "j < length fulls" using map_eq_imp_length_eq [OF fulls(1)] j(1) by simp
      have "Transaction_hash D k (fulls ! j) = Some (hashes ! i)"
        using arg_cong [OF fulls(1), of "\<lambda>l. l ! j"] j jl by simp
      moreover have "slice_get txs i = Some (Transaction_into_pruned (fulls ! j))"
        using arg_cong [OF fulls(2), of "\<lambda>l. l ! j"] j jl by simp
      then have "Transaction_into_pruned (fulls ! j) = V1 prefix signatures"
        using V1 by (simp add: slice_get_def split: if_splits)
      ultimately show ?thesis unfolding V1 authentic.simps by blast
    qed
  qed
qed

text \<open>C27. Whatever the node, the pruned transactions returned for hashes are as many and each has its hash: one of
  version 2 under a hash of the data it lacks, one of version 1 as the pruned form of a transaction with that hash.\<close>

theorem pruned_transactions_authentic:
  assumes "\<forall>us w1. node_pruned_transactions node hashes w = (Some (Inr us), w1) \<longrightarrow> list_all constructed us"
    and "pruned_transactions D keccak256 node hashes w = (Some (Inr txs), w')"
  shows "list_all2 (authentic D keccak256) hashes txs"
  using assms by (auto simp: pruned_transactions_def call_iff list_all_iff intro: validate_authentic)

text \<open>What an honest node offers for a transaction.\<close>

definition offer :: "('s, 'z) dalek_scalar_scheme \<Rightarrow> (bytes \<Rightarrow> bytes) \<Rightarrow> 's transaction \<Rightarrow> PrunedTransactionWithPrunableHash" where
  "offer D keccak256 tx =
     \<lparr>ptx_transaction = Transaction_into_pruned tx, ptx_prunable_hash = Transaction_prunable_hash D keccak256 tx\<rparr>"

lemma constructed_offer: "constructed (offer D k tx)"
proof (cases tx)
  case (V2 prefix proofs)
  then show ?thesis by (cases proofs) (simp_all add: constructed_iff offer_def)
qed (simp add: constructed_iff offer_def)

lemma verified_offer:
  assumes "Transaction_hash D k tx = Some hash"
  shows "verified k (offer D k tx) hash"
proof (cases tx)
  case (V2 prefix proofs)
  with assms show ?thesis
    by (cases proofs)
      (simp_all add: verified_def verify_as_possible_def offer_def NotPruned_def Pruned_def prune_proofs_def)
qed (simp add: verified_def verify_as_possible_def offer_def)

lemma v1_requests_honest:
  assumes "length txs = length hashes"
  shows "map snd (v1_requests n (map Transaction_into_pruned txs) hashes) =
           map snd (filter (\<lambda>(tx, _). tx_version tx = 1) (zip txs hashes))"
    and "map (\<lambda>r. slice_get (pre @ map Transaction_into_pruned txs) (fst r))
           (v1_requests (length pre) (map Transaction_into_pruned txs) hashes) =
         map (\<lambda>tx. Some (Transaction_into_pruned tx)) (filter (\<lambda>tx. tx_version tx = 1) txs)"
  using assms
proof (induction txs hashes arbitrary: n pre rule: list_induct2)
  case (Cons tx txs hash hashes)
  {
    case 1
    then show ?case using Cons.IH(1) [of "Suc n"] by (cases tx) simp_all
  next
    case 2
    then show ?case using Cons.IH(2) [of "pre @ [Transaction_into_pruned tx]"]
      by (cases tx) (simp_all add: slice_get_def)
  }
qed simp_all

lemma honest_returns:
  assumes "map (Transaction_hash D keccak256) txs = map Some hashes"
    and "node_pruned_transactions node hashes w = (Some (Inr (map (offer D keccak256) txs)), w1)"
    and "node_transactions node (map snd (filter (\<lambda>(tx, _). tx_version tx = 1) (zip txs hashes))) w1 =
           (Some (Inr (filter (\<lambda>tx. tx_version tx = 1) txs)), w2)"
  shows "\<exists>w'. pruned_transactions D keccak256 node hashes w = (Some (Inr (map Transaction_into_pruned txs)), w')"
proof -
  have len: "length txs = length hashes" using map_eq_imp_length_eq [OF assms(1)] .
  have hash: "Transaction_hash D keccak256 (txs ! i) = Some (hashes ! i)" if "i < length txs" for i
    using arg_cong [OF assms(1), of "\<lambda>l. l ! i"] that len by simp
  have v: "list_all2 (verified keccak256) (map (offer D keccak256) txs) hashes"
    using hash len by (intro list_all2_all_nthI) (simp_all add: verified_offer)
  have ptx: "map ptx_transaction (map (offer D keccak256) txs) = map Transaction_into_pruned txs"
    by (simp add: offer_def)
  note honest = v1_requests_honest(1) [OF len, of 0] v1_requests_honest(2) [OF len, of "[]"]
  have "map (Transaction_hash D keccak256) (filter (\<lambda>tx. tx_version tx = 1) txs) =
      map Some (map snd (filter (\<lambda>(tx, _). tx_version tx = 1) (zip txs hashes)))"
    using len assms(1) by (induction txs hashes rule: list_induct2) auto
  then have "map (Transaction_hash D keccak256) (filter (\<lambda>tx. tx_version tx = 1) txs) =
      map (\<lambda>r. Some (snd r)) (v1_requests 0 (map Transaction_into_pruned txs) hashes)"
    unfolding honest(1) [symmetric] map_map comp_def .
  with honest assms(3) v have "\<exists>w'. validate_pruned_transactions D keccak256 node (map (offer D keccak256) txs) hashes w1 =
      (Some (Inr (map Transaction_into_pruned txs)), w')"
    unfolding validate_pruned_transactions_iff ptx Let_def
    by (cases "v1_requests 0 (map Transaction_into_pruned txs) hashes = []") auto
  with assms(2) show ?thesis by (auto simp: pruned_transactions_def call_iff)
qed

text \<open>Transactions an honest node offers are accepted: where it answers with the pruned forms and prunable hashes
  of transactions with the requested hashes, and with the whole transactions of version 1 among them when
  these are requested next, the pruned forms are returned.\<close>

theorem pruned_transactions_honest:
  assumes "map (Transaction_hash D keccak256) txs = map Some hashes"
    and "node_pruned_transactions node hashes w = (Some (Inr (map (offer D keccak256) txs)), w1)"
    and "node_transactions node (map snd (filter (\<lambda>(tx, _). tx_version tx = 1) (zip txs hashes))) w1 =
           (Some (Inr (filter (\<lambda>tx. tx_version tx = 1) txs)), w2)"
  shows "\<exists>w'. pruned_transactions D keccak256 node hashes w = (Some (Inr (map Transaction_into_pruned txs)), w')"
  using honest_returns [OF assms] by blast

subsection \<open>Scannable blocks\<close>

text \<open>A scannable block whose transactions are those the block lists.\<close>

definition authentic_block :: "('s, 'z) dalek_scalar_scheme \<Rightarrow> (bytes \<Rightarrow> bytes) \<Rightarrow> 's ScannableBlock \<Rightarrow> bool" where
  "authentic_block D keccak256 sb \<longleftrightarrow>
     list_all2 (authentic D keccak256) (block_transactions (sb_block sb)) (sb_transactions sb)"

lemma validate_scannable_block_authentic:
  assumes "list_all constructed (usb_transactions usb)"
    and "validate_scannable_block D k node usb w = (Some (Inr sb), w')"
  shows "sb_block sb = usb_block usb" and "authentic_block D k sb"
  using assms
  by (auto simp: validate_scannable_block_def call_iff authentic_block_def list_all_iff intro: validate_authentic)

lemma contiguous_scannable_blocks_checked:
  assumes "start \<le> stop"
    and "\<forall>usbs w1. node_contiguous_scannable_blocks node (start, stop) w = (Some (Inr usbs), w1) \<longrightarrow>
           list_all (\<lambda>usb. list_all constructed (usb_transactions usb)) usbs"
    and "contiguous_scannable_blocks D k node (start, stop) w = (Some (Inr sbs), w')"
  shows "length sbs = unat stop - unat start + 1" and "chain_of D k start (map sb_block sbs)"
    and "list_all (authentic_block D k) sbs"
proof -
  obtain usbs w1 where node: "node_contiguous_scannable_blocks node (start, stop) w = (Some (Inr usbs), w1)"
    and len: "length usbs = unat stop - unat start + 1"
    and chain: "sanity_check_contiguous_blocks D k (start, stop) (map usb_block usbs) = Some (Inr ())"
    and each: "call_each (validate_scannable_block D k node) usbs w1 = (Some (Inr sbs), w')"
    using assms(3) by (auto simp: contiguous_scannable_blocks_def call_iff check_amount_of_blocks_iff)
  have "list_all2 (\<lambda>usb sb. \<exists>v v'. validate_scannable_block D k node usb v = (Some (Inr sb), v')) usbs sbs"
    using each by (rule call_each_Inr)
  moreover have "list_all constructed (usb_transactions usb)" if "usb \<in> set usbs" for usb
    using that node assms(2) by (auto simp: list_all_iff)
  ultimately have all2: "list_all2 (\<lambda>usb sb. sb_block sb = usb_block usb \<and> authentic_block D k sb) usbs sbs"
    unfolding list_all2_conv_all_nth using validate_scannable_block_authentic by (metis nth_mem)
  then have "map usb_block usbs = map sb_block sbs" and auth: "\<forall>i < length sbs. authentic_block D k (sbs ! i)"
    by (auto simp: list_all2_conv_all_nth intro: nth_equalityI)
  moreover show len': "length sbs = unat stop - unat start + 1"
    using list_all2_lengthD [OF all2] len by simp
  ultimately show "chain_of D k start (map sb_block sbs)"
    using chain assms(1) sanity_check_contiguous_iff [of start stop "map sb_block sbs" D k]
    by (simp add: word_le_nat_alt)
  show "list_all (authentic_block D k) sbs" using auth by (simp add: list_all_length)
qed


text \<open>The transactions of a block which was fetched on its own are checked alike.\<close>

lemma expand_to_scannable_block_authentic:
  assumes "\<forall>us w1. node_pruned_transactions node (block_transactions block) w = (Some (Inr us), w1) \<longrightarrow>
             list_all constructed us"
    and "expand_to_scannable_block D k node block w = (Some (Inr sb), w')"
  shows "sb_block sb = block \<and> authentic_block D k sb"
  using assms
  by (auto simp: expand_to_scannable_block_def pruned_transactions_def call_iff authentic_block_def list_all_iff
      simp del: output_index_loop.simps intro!: validate_authentic)

text \<open>A checked distribution is sorted.\<close>

lemma monotonic_loop_iff: "monotonic_loop m ds = Inr () \<longleftrightarrow> sorted (m # ds)"
  by (induction ds arbitrary: m) (auto simp: not_less intro: order_trans)

lemma ringct_output_distribution_iff:
  "ringct_output_distribution node rng w = (Some (Inr ds), w') \<longleftrightarrow>
     node_ringct_output_distribution node rng w = (Some (Inr ds), w') \<and> sorted ds"
  by (auto simp: ringct_output_distribution_def call_iff monotonic_loop_iff)

text \<open>The default methods: a batch made of single requests has an element per request, each answered by the single method;
  and a single request made of a batch is answered by the only element of the batch.\<close>

lemma default_contiguous_blocks_each:
  assumes "default_contiguous_blocks f rng w = (Some (Inr blks), w')"
  shows "list_all2 (\<lambda>number block. \<exists>v v'. f number v = (Some (Inr block), v')) (range_numbers rng) blks"
  using assms unfolding default_contiguous_blocks_def by (rule call_each_Inr)

lemma default_block_by_number_iff:
  "default_block_by_number f number w = (Some (Inr block), w') \<longleftrightarrow> f (number, number) w = (Some (Inr [block]), w')"
  by (auto simp: default_block_by_number_def call_iff length_Suc_conv)

lemma default_transaction_iff:
  "default_transaction f hash w = (Some (Inr tx), w') \<longleftrightarrow> f [hash] w = (Some (Inr [tx]), w')"
  by (auto simp: default_transaction_def call_iff length_Suc_conv)

subsection \<open>A node for the witnesses\<close>

definition no_answer :: "('w, InterfaceError, 'a) call" where
  "no_answer = call_err (InterfaceError (Text ''not provided''))"

definition example_node ::
  "'s Block list \<Rightarrow> 's transaction list \<Rightarrow> PrunedTransactionWithPrunableHash list \<Rightarrow>
   's UnvalidatedScannableBlock list \<Rightarrow> (unit, 's, 'p) node" where
  "example_node blks txs pruned scannable =
     \<lparr>node_contiguous_blocks = (\<lambda>_. call_ok blks),
      node_block = (\<lambda>_. no_answer), node_block_by_number = (\<lambda>_. no_answer),
      node_transactions = (\<lambda>_. call_ok txs),
      node_pruned_transactions = (\<lambda>_. call_ok pruned),
      node_transaction = (\<lambda>_. call_err TransactionNotFound), node_pruned_transaction = (\<lambda>_. call_err TransactionNotFound),
      node_output_indexes = (\<lambda>_. no_answer), node_ringct_outputs = (\<lambda>_. no_answer),
      node_contiguous_scannable_blocks = (\<lambda>_. call_ok scannable),
      node_scannable_block = (\<lambda>_. no_answer), node_scannable_block_by_number = (\<lambda>_. no_answer),
      node_ringct_output_distribution = (\<lambda>_. no_answer),
      node_unlocked_ringct_outputs = (\<lambda>_ _. call_err TransactionNotFound),
      node_fee_rate = (\<lambda>_. call_err InvalidFeePriority)\<rparr>"

text \<open>Blocks which are a chain under a hash which is constant.\<close>

definition chain_block :: "usize \<Rightarrow> bytes \<Rightarrow> bytes Block" where
  "chain_block number extra =
     \<lparr>block_header = \<lparr>hardfork_version = 1, hardfork_signal = 0, header_timestamp = 0,
        header_previous = replicate 32 0, header_nonce = 0\<rparr>,
      miner_transaction = V1 \<lparr>additional_timelock = Timelock_None, tx_inputs = [Gen number], tx_outputs = [],
                              tx_extra = extra\<rparr> [],
      block_transactions = []\<rparr>"

lemma chain_block_hash:
  "Block_number (chain_block number extra) = Some number"
  "Transaction_hash raw_scalars zero_hash (miner_transaction (chain_block number extra)) = Some (replicate 32 0)"
  "Block_hash raw_scalars zero_hash (chain_block number extra) = Some (replicate 32 0)"
proof -
  have "replicate 32 0 \<noteq> CORRECT_BLOCK_HASH_202612" by code_simp
  then show "Block_hash raw_scalars zero_hash (chain_block number extra) = Some (replicate 32 0)"
    by (simp add: Block_hash_def chain_block_def serialize_pow_hash_def merkle_root_def zero_hash_def)
qed (simp_all add: Block_number_def chain_block_def zero_hash_def)

lemma chain_block_previous: "header_previous (block_header (chain_block number extra)) = replicate 32 0"
  by (simp add: chain_block_def)

lemma chain_of_chain_block:
  "chain_of raw_scalars zero_hash 0 [chain_block 0 extra, chain_block 1 extra']"
  by (auto simp: chain_of_def chain_block_hash chain_block_previous less_Suc_eq)

abbreviation chain_node :: "bytes Block list \<Rightarrow> (unit, bytes, unit) node" where
  "chain_node blks \<equiv> example_node blks [] [] []"

theorem contiguous_blocks_chain_witness:
  "contiguous_blocks raw_scalars zero_hash
     (chain_node [chain_block 0 [], chain_block 1 [2]]) (0, 1) () =
   (Some (Inr [chain_block 0 [], chain_block 1 [2]]), ())"
  by (subst contiguous_blocks_chain) (simp_all add: example_node_def chain_of_chain_block)

lemma wf_chain_block: "length extra < 256 \<Longrightarrow> wf_Block raw_scalars (chain_block number extra)"
  by (simp add: wf_Block_def chain_block_def wf_BlockHeader_def MAX_TRANSACTIONS_def is_miner_inputs_def
      wf_TransactionPrefix_def wf_vec_def fits_usize_def INPUTS_UPPER_BOUND_def MINER_INPUTS_def NotPruned_def list_all_iff)

lemma chain_block_preimages:
  "block_preimages raw_scalars zero_hash (chain_block n extra) = block_preimages raw_scalars zero_hash (chain_block 0 [])"
  "\<exists>x. block_preimages raw_scalars zero_hash (chain_block 0 []) = {x}"
  by (simp_all add: block_preimages_def chain_block_hash serialize_pow_hash_def)
    (simp_all add: chain_block_def merkle_preimages_def merkle_root_def)


definition example_txs :: "bytes transaction list" where
  "example_txs = [V1 example_prefix [], V2 example_rct_prefix None, V2 example_rct_prefix (Some example_proofs)]"

definition example_hashes :: "bytes list" where
  "example_hashes = map (\<lambda>tx. the (Transaction_hash raw_scalars example_hash tx)) example_txs"

lemma example_txs_hashes: "map (Transaction_hash raw_scalars example_hash) example_txs = map Some example_hashes"
  using Transaction_hash_total [of raw_scalars example_hash] by (simp add: example_hashes_def example_txs_def NotPruned_def)

definition example_tx_node :: "(unit, bytes, bytes) node" where
  "example_tx_node = example_node [] [V1 example_prefix []] (map (offer raw_scalars example_hash) example_txs) []"

lemma example_requests:
  "node_pruned_transactions example_tx_node hashes w = (Some (Inr (map (offer raw_scalars example_hash) example_txs)), ())"
  "node_transactions example_tx_node hashes w = (Some (Inr (filter (\<lambda>tx. tx_version tx = 1) example_txs)), ())"
  by (simp_all add: example_tx_node_def example_node_def example_txs_def)

lemma example_pruned_run:
  "pruned_transactions raw_scalars example_hash example_tx_node example_hashes () =
     (Some (Inr (map Transaction_into_pruned example_txs)), ())"
  using honest_returns [OF example_txs_hashes example_requests] by auto

theorem pruned_transactions_authentic_witness:
  "list_all2 (authentic raw_scalars example_hash) example_hashes (map Transaction_into_pruned example_txs)"
proof (rule pruned_transactions_authentic)
  show "pruned_transactions raw_scalars example_hash example_tx_node example_hashes () =
      (Some (Inr (map Transaction_into_pruned example_txs)), ())"
    by (rule example_pruned_run)
qed (simp add: example_requests list_all_iff constructed_offer)

definition example_scannable :: "bytes UnvalidatedScannableBlock list" where
  "example_scannable =
     [\<lparr>usb_block = (chain_block 0 [])\<lparr>block_transactions := [replicate 32 0]\<rparr>,
       usb_transactions = [offer raw_scalars zero_hash (V2 example_rct_prefix (Some example_proofs))],
       usb_output_index = Some 7\<rparr>]"

definition example_scan_node :: "(unit, bytes, unit) node" where
  "example_scan_node = example_node [] [] [] example_scannable"

lemma example_scannable_hash:
  "Block_hash raw_scalars zero_hash ((chain_block 0 [])\<lparr>block_transactions := [replicate 32 0]\<rparr>) = Some (replicate 32 0)"
  "Transaction_hash raw_scalars zero_hash (V2 example_rct_prefix (Some example_proofs)) = Some (replicate 32 0)"
proof -
  have "replicate 32 0 \<noteq> CORRECT_BLOCK_HASH_202612" by code_simp
  then show "Block_hash raw_scalars zero_hash ((chain_block 0 [])\<lparr>block_transactions := [replicate 32 0]\<rparr>) =
      Some (replicate 32 0)"
    by (simp add: Block_hash_def chain_block_def serialize_pow_hash_def merkle_root_def zero_hash_def)
qed (simp add: zero_hash_def)

lemma example_scannable_run:
  "contiguous_scannable_blocks raw_scalars zero_hash example_scan_node (0, 0) () =
   (Some (Inr [\<lparr>sb_block = (chain_block 0 [])\<lparr>block_transactions := [replicate 32 0]\<rparr>,
                sb_transactions = [Transaction_into_pruned (V2 example_rct_prefix (Some example_proofs))],
                sb_output_index = Some 7\<rparr>]), ())"
proof -
  let ?b = "(chain_block 0 [])\<lparr>block_transactions := [replicate 32 0]\<rparr>"
  have "chain_of raw_scalars zero_hash 0 [?b]"
    using example_scannable_hash(1) chain_block_hash(1) [of 0 "[]"]
    by (simp add: chain_of_def chain_block_previous Block_number_def)
  then have "sanity_check_contiguous_blocks raw_scalars zero_hash (0, 0) [?b] = Some (Inr ())"
    by (subst sanity_check_contiguous_iff) simp_all
  moreover have "list_all2 (verified zero_hash)
      [offer raw_scalars zero_hash (V2 example_rct_prefix (Some example_proofs))] [replicate 32 0]"
    using verified_offer [OF example_scannable_hash(2)] by simp
  moreover have "ptx_transaction (offer raw_scalars zero_hash (V2 example_rct_prefix (Some example_proofs))) =
      Transaction_into_pruned (V2 example_rct_prefix (Some example_proofs))" by (simp only: offer_def PrunedTransactionWithPrunableHash.simps)
  ultimately show ?thesis
    by (simp add: contiguous_scannable_blocks_def call_iff example_scan_node_def example_node_def example_scannable_def
        check_amount_of_blocks_iff validate_scannable_block_def validate_pruned_transactions_iff)
qed


end
