(* ===== verification/Send.thy ===== *)
theory Send
  imports Scan Clsag_Signature Fee_Rates
begin

unbundle bit_operations_syntax

text \<open>
  Sending (\<^verbatim>\<open>wallet/src/send\<close>, and the outputs with decoys of \<^verbatim>\<open>wallet/src/decoys.rs\<close>): what is to be signed, its
  validation, the keys and amounts of the outputs it makes, the fee, the transaction, its signatures, and the check
  whether a transaction on the chain is the one intended.

  What is not in the sources, or not modelled, is the record \<open>send_env\<close>: the ChaCha20 generator (from a seed, and the
  next 64 bytes), the shuffle of the rand crate, and proving Bulletproofs. Everything which may panic returns an option;
  what may also fail, an option of a sum. An overflow of integers is a panic. Amounts which the code adds up as \<open>u128\<close>s are
  natural numbers, as a \<open>Vec\<close> has fewer than \<open>2 ^ 64\<close> elements.
\<close>

subsection \<open>Sorting\<close>

text \<open>\<open>sort_by\<close> of the standard library is stable: it has the result of this insertion sort.\<close>

primrec insert_by :: "('a \<Rightarrow> 'a \<Rightarrow> int) \<Rightarrow> 'a \<Rightarrow> 'a list \<Rightarrow> 'a list" where
  "insert_by cmp x [] = [x]"
| "insert_by cmp x (y # ys) = (if cmp x y \<le> 0 then x # y # ys else y # insert_by cmp x ys)"

primrec sort_by :: "('a \<Rightarrow> 'a \<Rightarrow> int) \<Rightarrow> 'a list \<Rightarrow> 'a list" where
  "sort_by cmp [] = []"
| "sort_by cmp (x # xs) = insert_by cmp x (sort_by cmp xs)"

definition key_image_sort :: "CompressedPoint \<Rightarrow> CompressedPoint \<Rightarrow> int" where
  "key_image_sort x y = - CompressedPoint_cmp x y"

subsection \<open>What is to be signed\<close>

datatype 'p ChangeEnum =
  AddressOnly "'p Address"
| Standard "'p ViewPair" "SubaddressIndex option"
| Guaranteed "'p GuaranteedViewPair" "SubaddressIndex option"

fun ChangeEnum_address ::
  "('s::zero, 'p::plus, 'z) dalek_scheme \<Rightarrow> (bytes \<Rightarrow> bytes) \<Rightarrow> 'p ChangeEnum \<Rightarrow> 'p Address option" where
  "ChangeEnum_address D keccak256 (AddressOnly addr) = Some addr"
| "ChangeEnum_address D keccak256 (Standard view_pair subaddress) =
     (case subaddress of
        Some subaddress \<Rightarrow> ViewPair_subaddress D keccak256 view_pair Mainnet subaddress
      | None \<Rightarrow> legacy_address D view_pair Mainnet)"
| "ChangeEnum_address D keccak256 (Guaranteed view_pair subaddress) =
     GuaranteedViewPair_address D keccak256 view_pair Mainnet subaddress None"

datatype 'p Change = Change "'p ChangeEnum option"

definition Change_new :: "'p ViewPair \<Rightarrow> SubaddressIndex option \<Rightarrow> 'p Change" where
  "Change_new view_pair subaddress = Change (Some (Standard view_pair subaddress))"

definition Change_guaranteed :: "'p GuaranteedViewPair \<Rightarrow> SubaddressIndex option \<Rightarrow> 'p Change" where
  "Change_guaranteed view_pair subaddress = Change (Some (Guaranteed view_pair subaddress))"

definition Change_fingerprintable :: "'p Address option \<Rightarrow> 'p Change" where
  "Change_fingerprintable address = Change (map_option AddressOnly address)"

datatype 'p InternalPayment = Payment "'p Address" u64 | ChangePayment "'p ChangeEnum"

fun InternalPayment_address ::
  "('s::zero, 'p::plus, 'z) dalek_scheme \<Rightarrow> (bytes \<Rightarrow> bytes) \<Rightarrow> 'p InternalPayment \<Rightarrow> 'p Address option" where
  "InternalPayment_address D keccak256 (Payment addr _) = Some addr"
| "InternalPayment_address D keccak256 (ChangePayment change) = ChangeEnum_address D keccak256 change"

fun is_Payment :: "'p InternalPayment \<Rightarrow> bool" where
  "is_Payment (Payment _ _) \<longleftrightarrow> True"
| "is_Payment (ChangePayment _) \<longleftrightarrow> False"

datatype SendError =
  UnsupportedRctType | NoInputs | InvalidInputs | InvalidDecoyQuantity | NoOutputs | TooManyOutputs | NoChange |
  MultiplePaymentIds | TooMuchArbitraryData | TooLargeTransaction | AmountsUnrepresentable nat nat |
  NotEnoughFunds u64 u64 "u64 option" | WrongPrivateKey | IncorrectSerialization | SendClsagError ClsagError

record 'p OutputWithDecoys =
  owd_output :: "'p OutputData"
  owd_decoys :: "'p Decoys"

definition OutputWithDecoys_write :: "('s, 'p, 'z) dalek_scheme \<Rightarrow> 'p OutputWithDecoys \<Rightarrow> bytes" where
  "OutputWithDecoys_write D self = OutputData_write D (owd_output self) @ Decoys_write D (owd_decoys self)"

definition OutputWithDecoys_read :: "('s, 'p, 'z) dalek_scheme \<Rightarrow> 'p OutputWithDecoys reader" where
  "OutputWithDecoys_read D =
     and_then (OutputData_read D) (\<lambda>out.
     and_then (Decoys_read D) (\<lambda>decoys.
     ok \<lparr>owd_output = out, owd_decoys = decoys\<rparr>))"

definition input_key :: "'p OutputWithDecoys \<Rightarrow> 'p" where
  "input_key self = data_key (owd_output self)"

definition input_key_offset :: "'p OutputWithDecoys \<Rightarrow> Scalar" where
  "input_key_offset self = data_key_offset (owd_output self)"

definition input_commitment :: "'p OutputWithDecoys \<Rightarrow> Commitment" where
  "input_commitment self = data_commitment (owd_output self)"

record 'p SignableTransaction =
  st_rct_type :: RctType
  st_outgoing_view_key :: bytes
  st_inputs :: "'p OutputWithDecoys list"
  st_payments :: "'p InternalPayment list"
  st_data :: "bytes list"
  st_fee_rate :: FeeRate

record 'p SignableTransactionWithKeyImages =
  stk_intent :: "'p SignableTransaction"
  stk_key_images :: "CompressedPoint list"

record ('r, 's, 'p) send_env =
  chacha_from_seed :: "bytes \<Rightarrow> 'r"
  chacha_fill_bytes :: "'r \<Rightarrow> bytes \<times> 'r"
  rand_shuffle :: "'r \<Rightarrow> 'p InternalPayment list \<Rightarrow> 'p InternalPayment list"
  bulletproof_prove :: "'r \<Rightarrow> Commitment list \<Rightarrow> 's Bulletproof option"
  bulletproof_prove_plus :: "'r \<Rightarrow> Commitment list \<Rightarrow> 's Bulletproof option"

subsection \<open>The keys of the transaction\<close>

definition seeded_rng ::
  "('s, 'p, 'z) dalek_scheme \<Rightarrow> (bytes \<Rightarrow> bytes) \<Rightarrow> ('r, 's, 'p) send_env \<Rightarrow> bytes \<Rightarrow> bytes \<Rightarrow> ('p \<times> 'p) list \<Rightarrow> 'r option" where
  "seeded_rng D keccak256 E dst outgoing_view_key input_keys_and_commitments =
     (if length dst > 255 then None
      else let compressed = map (\<lambda>(key, commitment). (Point_compress D key, Point_compress D commitment))
                              input_keys_and_commitments;
               sorted = sort_by (\<lambda>(key_a, _) (key_b, _). key_image_sort key_a key_b) compressed;
               transcript = [word_of_nat (length dst)] @ dst @ outgoing_view_key @
                 concat (map (\<lambda>(key, commitment). CompressedPoint_to_bytes key @ CompressedPoint_to_bytes commitment) sorted)
           in Some (chacha_from_seed E (keccak256 transcript)))"

definition input_keys_and_commitments ::
  "('s::comm_ring_1, 'p::ab_group_add, 'z) dalek_scheme \<Rightarrow> 'p SignableTransaction \<Rightarrow> ('p \<times> 'p) list option" where
  "input_keys_and_commitments D self =
     those (map (\<lambda>input. map_option (\<lambda>c. (input_key input, c)) (Commitment_commit D (input_commitment input)))
       (st_inputs self))"

definition SignableTransaction_seeded_rng ::
  "('s::comm_ring_1, 'p::ab_group_add, 'z) dalek_scheme \<Rightarrow> (bytes \<Rightarrow> bytes) \<Rightarrow> ('r, 's, 'p) send_env \<Rightarrow>
   'p SignableTransaction \<Rightarrow> bytes \<Rightarrow> 'r option" where
  "SignableTransaction_seeded_rng D keccak256 E self dst =
     Option.bind (input_keys_and_commitments D self) (seeded_rng D keccak256 E dst (st_outgoing_view_key self))"

definition TransactionKeys_new ::
  "('s, 'p, 'z) dalek_scheme \<Rightarrow> (bytes \<Rightarrow> bytes) \<Rightarrow> ('r, 's, 'p) send_env \<Rightarrow> bytes \<Rightarrow> ('p \<times> 'p) list \<Rightarrow> 'r option" where
  "TransactionKeys_new D keccak256 E = seeded_rng D keccak256 E (ascii ''transaction_keys'')"

definition TransactionKeys_next ::
  "('s, 'p, 'z) dalek_scheme \<Rightarrow> ('r, 's, 'p) send_env \<Rightarrow> 'r \<Rightarrow> Scalar \<times> 'r" where
  "TransactionKeys_next D E rng = Scalar_random D (chacha_fill_bytes E) rng"

primrec next_keys :: "('s, 'p, 'z) dalek_scheme \<Rightarrow> ('r, 's, 'p) send_env \<Rightarrow> nat \<Rightarrow> 'r \<Rightarrow> Scalar list" where
  "next_keys D E 0 rng = []"
| "next_keys D E (Suc n) rng = (let (key, rng) = TransactionKeys_next D E rng in key # next_keys D E n rng)"

definition Address_is_subaddress :: "'p Address \<Rightarrow> bool" where
  "Address_is_subaddress addr = AddressType_is_subaddress (addr_kind addr)"

fun is_payment_to_subaddress :: "'p InternalPayment \<Rightarrow> bool" where
  "is_payment_to_subaddress (Payment addr _) \<longleftrightarrow> Address_is_subaddress addr"
| "is_payment_to_subaddress (ChangePayment (AddressOnly addr)) \<longleftrightarrow> Address_is_subaddress addr"
| "is_payment_to_subaddress (ChangePayment (Standard _ _)) \<longleftrightarrow> False"
| "is_payment_to_subaddress (ChangePayment (Guaranteed _ _)) \<longleftrightarrow> False"

definition has_payments_to_subaddresses :: "'p SignableTransaction \<Rightarrow> bool" where
  "has_payments_to_subaddresses self \<longleftrightarrow> list_ex is_payment_to_subaddress (st_payments self)"

fun is_change_with_view :: "'p InternalPayment \<Rightarrow> bool" where
  "is_change_with_view (Payment _ _) \<longleftrightarrow> False"
| "is_change_with_view (ChangePayment (AddressOnly _)) \<longleftrightarrow> False"
| "is_change_with_view (ChangePayment (Standard _ _)) \<longleftrightarrow> True"
| "is_change_with_view (ChangePayment (Guaranteed _ _)) \<longleftrightarrow> True"

definition should_use_additional_keys :: "'p SignableTransaction \<Rightarrow> bool" where
  "should_use_additional_keys self \<longleftrightarrow>
     has_payments_to_subaddresses self \<and>
     \<not> (length (st_payments self) = 2 \<and> list_ex is_change_with_view (st_payments self))"

definition transaction_keys ::
  "('s::comm_ring_1, 'p::ab_group_add, 'z) dalek_scheme \<Rightarrow> (bytes \<Rightarrow> bytes) \<Rightarrow> ('r, 's, 'p) send_env \<Rightarrow>
   'p SignableTransaction \<Rightarrow> (Scalar \<times> Scalar list) option" where
  "transaction_keys D keccak256 E self =
     Option.bind (input_keys_and_commitments D self) (\<lambda>keys.
     Option.bind (TransactionKeys_new D keccak256 E (st_outgoing_view_key self) keys) (\<lambda>tx_keys.
     let (tx_key, tx_keys) = TransactionKeys_next D E tx_keys
     in Some (tx_key,
              if should_use_additional_keys self then next_keys D E (length (st_payments self)) tx_keys else [])))"

fun additional_key_pub ::
  "('s::comm_ring_1, 'p::ab_group_add, 'z) dalek_scheme \<Rightarrow> (bytes \<Rightarrow> bytes) \<Rightarrow> Scalar \<times> 'p InternalPayment \<Rightarrow>
   CompressedPoint option" where
  "additional_key_pub D keccak256 (additional_key, payment) =
     Option.bind (Scalar_into D additional_key) (\<lambda>additional_key.
     Option.bind (InternalPayment_address D keccak256 payment) (\<lambda>addr.
     Some (if Address_is_subaddress addr
           then Point_compress D (edwards_mul D additional_key (addr_spend addr))
           else Point_compress D (edwards_mul D additional_key (ED25519_BASEPOINT_POINT D)))))"

definition transaction_keys_pub ::
  "('s::comm_ring_1, 'p::ab_group_add, 'z) dalek_scheme \<Rightarrow> (bytes \<Rightarrow> bytes) \<Rightarrow> ('r, 's, 'p) send_env \<Rightarrow>
   'p SignableTransaction \<Rightarrow> ('p \<times> CompressedPoint list) option" where
  "transaction_keys_pub D keccak256 E self =
     Option.bind (transaction_keys D keccak256 E self) (\<lambda>(tx_key, additional_keys).
     Option.bind (Scalar_into D tx_key) (\<lambda>tx_key.
     if has_payments_to_subaddresses self \<and> \<not> should_use_additional_keys self
     then case find is_Payment (st_payments self) of
            Some (Payment addr _) \<Rightarrow> Some (edwards_mul D tx_key (addr_spend addr), [])
          | _ \<Rightarrow> None
     else if should_use_additional_keys self
     then Option.bind (those (map (additional_key_pub D keccak256) (zip additional_keys (st_payments self))))
            (\<lambda>additional_keys_pub. Some (edwards_mul D tx_key (ED25519_BASEPOINT_POINT D), additional_keys_pub))
     else Some (edwards_mul D tx_key (ED25519_BASEPOINT_POINT D), [])))"

text \<open>The body of the loop of \<open>ecdhs\<close>.\<close>

definition payment_ecdh ::
  "('s::comm_ring_1, 'p::ab_group_add, 'z) dalek_scheme \<Rightarrow> (bytes \<Rightarrow> bytes) \<Rightarrow> Scalar \<Rightarrow> Scalar list \<Rightarrow> 'p \<Rightarrow>
   nat \<Rightarrow> 'p InternalPayment \<Rightarrow> 'p option" where
  "payment_ecdh D keccak256 tx_key additional_keys tx_key_pub i payment =
     Option.bind (InternalPayment_address D keccak256 payment) (\<lambda>addr.
     let key_to_use =
           (if Address_is_subaddress addr
            then case slice_get additional_keys i of Some key \<Rightarrow> key | None \<Rightarrow> tx_key
            else tx_key)
     in Option.bind (Scalar_into D key_to_use) (\<lambda>key_to_use.
        case payment of
          ChangePayment (Standard view_pair _) \<Rightarrow>
            Option.bind (Scalar_into D (vp_view view_pair)) (\<lambda>view. Some (edwards_mul D view tx_key_pub))
        | ChangePayment (Guaranteed view_pair _) \<Rightarrow>
            Option.bind (Scalar_into D (vp_view (guaranteed_pair view_pair))) (\<lambda>view.
            Some (edwards_mul D view tx_key_pub))
        | _ \<Rightarrow> Some (edwards_mul D key_to_use (addr_view addr))))"

definition ecdhs ::
  "('s::comm_ring_1, 'p::ab_group_add, 'z) dalek_scheme \<Rightarrow> (bytes \<Rightarrow> bytes) \<Rightarrow> ('r, 's, 'p) send_env \<Rightarrow>
   'p SignableTransaction \<Rightarrow> 'p list option" where
  "ecdhs D keccak256 E self =
     Option.bind (transaction_keys D keccak256 E self) (\<lambda>(tx_key, additional_keys).
     Option.bind (transaction_keys_pub D keccak256 E self) (\<lambda>(tx_key_pub, _).
     those (map (\<lambda>(i, payment). payment_ecdh D keccak256 tx_key additional_keys tx_key_pub i payment)
       (enumerate 0 (st_payments self)))))"

definition inputs_of :: "'p SignableTransaction \<Rightarrow> CompressedPoint list \<Rightarrow> Input list" where
  "inputs_of self key_images =
     map (\<lambda>(input, key_image). ToKey None (decoy_offsets (owd_decoys input)) key_image) (zip (st_inputs self) key_images)"

definition shared_key_derivations ::
  "('s::comm_ring_1, 'p::ab_group_add, 'z) dalek_scheme \<Rightarrow> (bytes \<Rightarrow> bytes) \<Rightarrow> ('r, 's, 'p) send_env \<Rightarrow>
   'p SignableTransaction \<Rightarrow> CompressedPoint list \<Rightarrow> SharedKeyDerivations list option" where
  "shared_key_derivations D keccak256 E self key_images =
     Option.bind (ecdhs D keccak256 E self) (\<lambda>shared.
     let uniq = uniqueness keccak256 (inputs_of self key_images)
     in those (map (\<lambda>(i, payment, ecdh).
          Option.bind (InternalPayment_address D keccak256 payment) (\<lambda>addr.
          output_derivations D keccak256 (if AddressType_is_guaranteed (addr_kind addr) then Some uniq else None)
            ecdh (word_of_nat i)))
        (enumerate 0 (zip (st_payments self) shared))))"

definition payment_id_xors ::
  "('s::comm_ring_1, 'p::ab_group_add, 'z) dalek_scheme \<Rightarrow> (bytes \<Rightarrow> bytes) \<Rightarrow> ('r, 's, 'p) send_env \<Rightarrow>
   'p SignableTransaction \<Rightarrow> bytes list option" where
  "payment_id_xors D keccak256 E self = map_option (map (payment_id_xor D keccak256)) (ecdhs D keccak256 E self)"

subsection \<open>Outputs and extra\<close>

text \<open>What the code of the RingCT types depends on: the ring's length and whether outputs have view tags, or a panic.\<close>

fun rct_ring_len :: "RctType \<Rightarrow> nat option" where
  "rct_ring_len ClsagBulletproof = Some 11"
| "rct_ring_len ClsagBulletproofPlus = Some 16"
| "rct_ring_len _ = None"

fun rct_view_tags :: "RctType \<Rightarrow> bool option" where
  "rct_view_tags ClsagBulletproof = Some False"
| "rct_view_tags ClsagBulletproofPlus = Some True"
| "rct_view_tags _ = None"

definition outputs_of ::
  "('s::comm_ring_1, 'p::ab_group_add, 'z) dalek_scheme \<Rightarrow> (bytes \<Rightarrow> bytes) \<Rightarrow> ('r, 's, 'p) send_env \<Rightarrow>
   'p SignableTransaction \<Rightarrow> CompressedPoint list \<Rightarrow> Output list option" where
  "outputs_of D keccak256 E self key_images =
     Option.bind (shared_key_derivations D keccak256 E self key_images) (\<lambda>derivations.
     those (map (\<lambda>(payment, derivation).
       Option.bind (Scalar_into D (shared_key derivation)) (\<lambda>shared.
       Option.bind (InternalPayment_address D keccak256 payment) (\<lambda>addr.
       Option.bind (rct_view_tags (st_rct_type self)) (\<lambda>tagged.
       Some \<lparr>out_amount = None,
             out_key = Point_compress D (edwards_mul D shared (ED25519_BASEPOINT_POINT D) + addr_spend addr),
             out_view_tag = if tagged then Some (view_tag derivation) else None\<rparr>))))
       (zip (st_payments self) derivations)))"

text \<open>\<open>find_map\<close> over the payments for the first payment ID, with the mask for it.\<close>

fun find_payment_id ::
  "('s::zero, 'p::plus, 'z) dalek_scheme \<Rightarrow> (bytes \<Rightarrow> bytes) \<Rightarrow> ('p InternalPayment \<times> bytes) list \<Rightarrow>
   (bytes \<times> bytes) option option" where
  "find_payment_id D keccak256 [] = Some None"
| "find_payment_id D keccak256 ((payment, id_xor) # rest) =
     Option.bind (InternalPayment_address D keccak256 payment) (\<lambda>addr.
     case AddressType_payment_id (addr_kind addr) of
       Some payment_id \<Rightarrow> Some (Some (payment_id, id_xor))
     | None \<Rightarrow> find_payment_id D keccak256 rest)"

definition payment_id_nonce ::
  "('s::zero, 'p::plus, 'z) dalek_scheme \<Rightarrow> (bytes \<Rightarrow> bytes) \<Rightarrow> 'p SignableTransaction \<Rightarrow> bytes list \<Rightarrow>
   bytes list option" where
  "payment_id_nonce D keccak256 self id_xors =
     Option.bind (find_payment_id D keccak256 (zip (st_payments self) id_xors)) (\<lambda>found.
     case found of
       Some (payment_id, id_xor) \<Rightarrow>
         Some [PaymentId_write (Encrypted (to_le_bytes ((from_le_bytes payment_id :: u64) XOR from_le_bytes id_xor)))]
     | None \<Rightarrow>
         if length (st_payments self) = 2
         then Option.bind (find (\<lambda>(payment, _). is_Payment payment) (zip (st_payments self) id_xors)) (\<lambda>(_, id_xor).
              Some [PaymentId_write (Encrypted id_xor)])
         else Some [])"

definition extra_of ::
  "('s::comm_ring_1, 'p::ab_group_add, 'z) dalek_scheme \<Rightarrow> (bytes \<Rightarrow> bytes) \<Rightarrow> ('r, 's, 'p) send_env \<Rightarrow>
   'p SignableTransaction \<Rightarrow> bytes option" where
  "extra_of D keccak256 E self =
     Option.bind (transaction_keys_pub D keccak256 E self) (\<lambda>(tx_key, additional_keys).
     Option.bind (payment_id_xors D keccak256 E self) (\<lambda>id_xors.
     Option.bind (payment_id_nonce D keccak256 self id_xors) (\<lambda>id_nonces.
     let extra = Extra_new (Point_compress D tx_key) additional_keys;
         extra = fold (\<lambda>nonce extra. Extra_push_nonce extra nonce) id_nonces extra;
         extra = fold (\<lambda>part extra. Extra_push_nonce extra (ARBITRARY_DATA_MARKER # part)) (st_data self) extra
     in Some (Extra_write extra))))"

subsection \<open>Weight and fee\<close>

definition CompressedPoint_G :: "('s, 'p, 'z) dalek_scheme \<Rightarrow> CompressedPoint" where
  "CompressedPoint_G D = Point_compress D (ED25519_BASEPOINT_POINT D)"

function log2_find_loop :: "nat \<Rightarrow> nat \<Rightarrow> nat" where
  "log2_find_loop n log2_find = (if 2 ^ log2_find < n then log2_find_loop n (log2_find + 1) else log2_find)"
  by pat_completeness auto
termination
proof (relation "measure (\<lambda>(n, log2_find). n - log2_find)")
  fix n l :: nat
  assume "2 ^ l < n"
  then have "l < n" using less_exp [of l] by (rule order.strict_trans [rotated])
  then show "((n, l + 1), (n, l)) \<in> measure (\<lambda>(n, log2_find). n - log2_find)" by simp
qed simp

declare log2_find_loop.simps [simp del]

definition dummy_point :: bytes where
  "dummy_point = [1] @ replicate 31 0"

definition dummy_scalar :: bytes where
  "dummy_scalar = replicate 32 0"

definition dummy_lr :: "nat \<Rightarrow> bytes" where
  "dummy_lr lr_len = varint_write (word_of_nat lr_len :: usize) @ concat (replicate lr_len dummy_point)"

definition dummy_bulletproof :: "('s, 'z) dalek_scalar_scheme \<Rightarrow> RctType \<Rightarrow> nat \<Rightarrow> 's Bulletproof option" where
  "dummy_bulletproof D rct_type lr_len =
     (case rct_type of
        ClsagBulletproof \<Rightarrow>
          (case Bulletproof_read D
                  (concat (replicate 4 dummy_point) @ concat (replicate 2 dummy_scalar) @
                   dummy_lr lr_len @ dummy_lr lr_len @ concat (replicate 3 dummy_scalar)) of
             Inl _ \<Rightarrow> None | Inr (bp, _) \<Rightarrow> Some bp)
      | ClsagBulletproofPlus \<Rightarrow>
          (case Bulletproof_read_plus D
                  (concat (replicate 3 dummy_point) @ concat (replicate 3 dummy_scalar) @
                   dummy_lr lr_len @ dummy_lr lr_len) of
             Inl _ \<Rightarrow> None | Inr (bp, _) \<Rightarrow> Some bp)
      | _ \<Rightarrow> None)"

definition base_weight ::
  "('s::comm_ring_1, 'p::ab_group_add, 'z) dalek_scheme \<Rightarrow> (bytes \<Rightarrow> bytes) \<Rightarrow> ('r, 's, 'p) send_env \<Rightarrow>
   'p SignableTransaction \<Rightarrow> nat option" where
  "base_weight D keccak256 E self =
     (let key_images = map (\<lambda>_. CompressedPoint_G D) (st_inputs self)
      in Option.bind (rct_ring_len (st_rct_type self)) (\<lambda>ring_len.
         let clsags = map (\<lambda>_. \<lparr>clsag_D = CompressedPoint_G D, clsag_s = replicate ring_len Scalar_ZERO,
                                clsag_c1 = Scalar_ZERO\<rparr>) (st_inputs self);
             pseudo_outs = map (\<lambda>_. CompressedPoint_G D) (st_inputs self);
             encrypted_amounts = map (\<lambda>_. Compact (replicate 8 0)) (st_payments self);
             commitments = map (\<lambda>_. CompressedPoint_G D) (st_payments self);
             lr_len = 6 + log2_find_loop (length (st_payments self)) 0
         in Option.bind (dummy_bulletproof D (st_rct_type self) lr_len) (\<lambda>bulletproof.
            Option.bind (outputs_of D keccak256 E self key_images) (\<lambda>outs.
            Option.bind (extra_of D keccak256 E self) (\<lambda>extra.
            Option.bind (Transaction_weight D
              (V2 \<lparr>additional_timelock = Timelock_None, tx_inputs = inputs_of self key_images, tx_outputs = outs,
                   tx_extra = extra\<rparr>
                (Some \<lparr>proofs_base = \<lparr>rct_fee = 0, rct_pseudo_outs = [], rct_encrypted_amounts = encrypted_amounts,
                                      rct_commitments = commitments\<rparr>,
                       proofs_prunable = RctPrunable.Clsag clsags pseudo_outs bulletproof\<rparr>))) (\<lambda>weight.
            if weight = 0 then None else Some (weight - 1)))))))"

text \<open>The search for the first fee whose encoding is no longer than the length it was computed for.\<close>

fun find_fee :: "nat \<Rightarrow> nat \<Rightarrow> u128 list \<Rightarrow> (nat \<times> u128) option" where
  "find_fee base fee_len [] = None"
| "find_fee base fee_len (possible_fee # fees) =
     (if varint_len (word_of_nat (min (unat possible_fee) (2 ^ 64 - 1)) :: u64) \<le> fee_len
      then Some (base + fee_len, possible_fee)
      else find_fee base (fee_len + 1) fees)"

definition weight_and_necessary_fee ::
  "('s::comm_ring_1, 'p::ab_group_add, 'z) dalek_scheme \<Rightarrow> (bytes \<Rightarrow> bytes) \<Rightarrow> ('r, 's, 'p) send_env \<Rightarrow>
   'p SignableTransaction \<Rightarrow> (nat \<times> u128) option" where
  "weight_and_necessary_fee D keccak256 E self =
     Option.bind (base_weight D keccak256 E self) (\<lambda>base.
     let possible_weights = map (\<lambda>i. base + i) [LOWER_BOUND..<Suc (UPPER_BOUND TYPE(64))]
     in Option.bind
          (those (map (\<lambda>weight. if weight < 2 ^ 64
                                then calculate_fee_from_weight (st_fee_rate self) (word_of_nat weight) else None)
            possible_weights))
          (find_fee base 1))"

subsection \<open>Amounts\<close>

text \<open>A sum of \<open>u64\<close>s, and a subtraction of them, which panic where the result is out of range.\<close>

definition u64_sum :: "u64 list \<Rightarrow> u64 option" where
  "u64_sum xs = (if sum_list (map unat xs) < 2 ^ 64 then Some (sum_list xs) else None)"

definition u64_sub :: "u64 \<Rightarrow> u64 \<Rightarrow> u64 option" where
  "u64_sub a b = (if b \<le> a then Some (a - b) else None)"

definition u64_try_from :: "nat \<Rightarrow> u64 option" where
  "u64_try_from n = (if n < 2 ^ 64 then Some (word_of_nat n) else None)"

definition input_amounts :: "'p SignableTransaction \<Rightarrow> u64 list" where
  "input_amounts self = map (\<lambda>input. amount (input_commitment input)) (st_inputs self)"

fun payment_amount :: "'p InternalPayment \<Rightarrow> u64 list" where
  "payment_amount (Payment _ amt) = [amt]"
| "payment_amount (ChangePayment _) = []"

definition payment_amounts :: "'p SignableTransaction \<Rightarrow> u64 list" where
  "payment_amounts self = concat (map payment_amount (st_payments self))"

definition change_amount ::
  "('s::comm_ring_1, 'p::ab_group_add, 'z) dalek_scheme \<Rightarrow> (bytes \<Rightarrow> bytes) \<Rightarrow> ('r, 's, 'p) send_env \<Rightarrow>
   'p SignableTransaction \<Rightarrow> u64 option" where
  "change_amount D keccak256 E self =
     Option.bind (u64_sum (input_amounts self)) (\<lambda>inputs.
     Option.bind (u64_sum (payment_amounts self)) (\<lambda>payments.
     Option.bind (weight_and_necessary_fee D keccak256 E self) (\<lambda>(_, necessary_fee).
     Option.bind (u64_try_from (unat necessary_fee)) (\<lambda>fee.
     Option.bind (u64_sum [payments, fee]) (u64_sub inputs)))))"

fun output_amount ::
  "('s::comm_ring_1, 'p::ab_group_add, 'z) dalek_scheme \<Rightarrow> (bytes \<Rightarrow> bytes) \<Rightarrow> ('r, 's, 'p) send_env \<Rightarrow>
   'p SignableTransaction \<Rightarrow> 'p InternalPayment \<Rightarrow> u64 option" where
  "output_amount D keccak256 E self (Payment _ amt) = Some amt"
| "output_amount D keccak256 E self (ChangePayment _) = change_amount D keccak256 E self"

definition commitments_and_encrypted_amounts ::
  "('s::comm_ring_1, 'p::ab_group_add, 'z) dalek_scheme \<Rightarrow> (bytes \<Rightarrow> bytes) \<Rightarrow> ('r, 's, 'p) send_env \<Rightarrow>
   'p SignableTransaction \<Rightarrow> CompressedPoint list \<Rightarrow> (Commitment \<times> EncryptedAmount) list option" where
  "commitments_and_encrypted_amounts D keccak256 E self key_images =
     Option.bind (shared_key_derivations D keccak256 E self key_images) (\<lambda>derivations.
     those (map (\<lambda>(payment, derivation).
       Option.bind (output_amount D keccak256 E self payment) (\<lambda>amt.
       Option.bind (commitment_mask D keccak256 derivation) (\<lambda>msk.
       Some (Commitment_new msk amt, Compact (compact_amount_encryption keccak256 derivation amt)))))
       (zip (st_payments self) derivations)))"

definition sum_output_masks ::
  "('s::comm_ring_1, 'p::ab_group_add, 'z) dalek_scheme \<Rightarrow> (bytes \<Rightarrow> bytes) \<Rightarrow> ('r, 's, 'p) send_env \<Rightarrow>
   'p SignableTransaction \<Rightarrow> CompressedPoint list \<Rightarrow> Scalar option" where
  "sum_output_masks D keccak256 E self key_images =
     Option.bind (commitments_and_encrypted_amounts D keccak256 E self key_images) (\<lambda>outs.
     Option.bind (those (map (\<lambda>(commitment, _). Scalar_into D (mask commitment)) outs)) (\<lambda>masks.
     Some (Scalar_from D (sum_list masks))))"

subsection \<open>The transaction\<close>

definition rct_fee_of ::
  "('s::comm_ring_1, 'p::ab_group_add, 'z) dalek_scheme \<Rightarrow> (bytes \<Rightarrow> bytes) \<Rightarrow> ('r, 's, 'p) send_env \<Rightarrow>
   'p SignableTransaction \<Rightarrow> u64 option" where
  "rct_fee_of D keccak256 E self =
     (if list_ex (\<lambda>payment. \<not> is_Payment payment) (st_payments self)
      then Option.bind (weight_and_necessary_fee D keccak256 E self) (\<lambda>(_, fee). u64_try_from (unat fee))
      else Option.bind (u64_sum (input_amounts self)) (\<lambda>inputs.
           Option.bind (u64_sum (payment_amounts self)) (u64_sub inputs)))"

definition prove_bulletproof ::
  "('s::comm_ring_1, 'p::ab_group_add, 'z) dalek_scheme \<Rightarrow> (bytes \<Rightarrow> bytes) \<Rightarrow> ('r, 's, 'p) send_env \<Rightarrow>
   'p SignableTransaction \<Rightarrow> Commitment list \<Rightarrow> 's Bulletproof option" where
  "prove_bulletproof D keccak256 E self bp_commitments =
     Option.bind (SignableTransaction_seeded_rng D keccak256 E self (ascii ''bulletproof'')) (\<lambda>bp_rng.
     case st_rct_type self of
       ClsagBulletproof \<Rightarrow> bulletproof_prove E bp_rng bp_commitments
     | ClsagBulletproofPlus \<Rightarrow> bulletproof_prove_plus E bp_rng bp_commitments
     | _ \<Rightarrow> None)"

definition transaction_without_signatures ::
  "('s::comm_ring_1, 'p::ab_group_add, 'z) dalek_scheme \<Rightarrow> (bytes \<Rightarrow> bytes) \<Rightarrow> ('r, 's, 'p) send_env \<Rightarrow>
   'p SignableTransactionWithKeyImages \<Rightarrow> 's transaction option" where
  "transaction_without_signatures D keccak256 E self =
     (let intent = stk_intent self; key_images = stk_key_images self
      in Option.bind (commitments_and_encrypted_amounts D keccak256 E intent key_images) (\<lambda>outs.
         Option.bind (those (map (\<lambda>(commitment, _). Commitment_commit D commitment) outs)) (\<lambda>points.
         Option.bind (prove_bulletproof D keccak256 E intent (map fst outs)) (\<lambda>bulletproof.
         Option.bind (outputs_of D keccak256 E intent key_images) (\<lambda>tx_outs.
         Option.bind (extra_of D keccak256 E intent) (\<lambda>extra.
         Option.bind (rct_fee_of D keccak256 E intent) (\<lambda>fee.
         Some (V2 \<lparr>additional_timelock = Timelock_None, tx_inputs = inputs_of intent key_images,
                   tx_outputs = tx_outs, tx_extra = extra\<rparr>
           (Some \<lparr>proofs_base = \<lparr>rct_fee = fee, rct_pseudo_outs = [], rct_encrypted_amounts = map snd outs,
                                 rct_commitments = map (Point_compress D) points\<rparr>,
                  proofs_prunable = RctPrunable.Clsag [] [] bulletproof\<rparr>)))))))))"

end
