(* ===== verification/Signable.thy ===== *)
theory Signable
  imports Send
begin

text \<open>
  Transactions to be signed (\<^verbatim>\<open>wallet/src/send/mod.rs\<close>), from their construction to their signatures, and the check whether a
  transaction is the one intended (\<^verbatim>\<open>wallet/src/send/eventuality.rs\<close>). An address is parsed from any bytes: those which
  are not UTF-8 are no encoding of one. The text of an error which reading wraps is not modelled.
\<close>

subsection \<open>Validation\<close>

definition MAX_TX_SIZE :: nat where
  "MAX_TX_SIZE = 300000 div 2 - 600"

fun validate_inputs ::
  "('s, 'p::zero, 'z) dalek_scheme \<Rightarrow> RctType \<Rightarrow> 'p OutputWithDecoys list \<Rightarrow> (SendError + unit) option" where
  "validate_inputs D rct_type [] = Some (Inr ())"
| "validate_inputs D rct_type (input # inputs) =
     (if \<not> is_torsion_free D (input_key input) then Some (Inl InvalidInputs)
      else if input_key input = 0 then Some (Inl InvalidInputs)
      else Option.bind (rct_ring_len rct_type) (\<lambda>ring_len.
           if Decoys_len (owd_decoys input) \<noteq> ring_len then Some (Inl InvalidDecoyQuantity)
           else validate_inputs D rct_type inputs))"

definition payment_id_count ::
  "('s::zero, 'p::plus, 'z) dalek_scheme \<Rightarrow> (bytes \<Rightarrow> bytes) \<Rightarrow> 'p SignableTransaction \<Rightarrow> nat option" where
  "payment_id_count D keccak256 self =
     map_option (\<lambda>addrs. length (filter (\<lambda>addr. AddressType_payment_id (addr_kind addr) \<noteq> None) addrs))
       (those (map (InternalPayment_address D keccak256) (st_payments self)))"

definition validate_funds ::
  "'p SignableTransaction \<Rightarrow> nat \<times> u128 \<Rightarrow> (SendError + unit) option" where
  "validate_funds self weight_and_fee =
     (case weight_and_fee of (weight, necessary_fee) \<Rightarrow>
      let in_amount = sum_list (map unat (input_amounts self));
          payments_amount = sum_list (map unat (payment_amounts self));
          out_amount = min (payments_amount + unat necessary_fee) (2 ^ 128 - 1)
      in case (u64_try_from in_amount, u64_try_from out_amount) of
           (Some in_u64, Some out_u64) \<Rightarrow>
             if in_u64 < out_u64
             then Option.bind (u64_try_from payments_amount) (\<lambda>payments.
                  Option.bind (u64_try_from (unat necessary_fee)) (\<lambda>fee.
                  Some (Inl (NotEnoughFunds in_u64 payments (Some fee)))))
             else if weight \<ge> MAX_TX_SIZE then Some (Inl TooLargeTransaction)
             else Some (Inr ())
         | _ \<Rightarrow> Some (Inl (AmountsUnrepresentable in_amount out_amount)))"

definition validate ::
  "('s::comm_ring_1, 'p::ab_group_add, 'z) dalek_scheme \<Rightarrow> (bytes \<Rightarrow> bytes) \<Rightarrow> ('r, 's, 'p) send_env \<Rightarrow>
   'p SignableTransaction \<Rightarrow> (SendError + unit) option" where
  "validate D keccak256 E self =
     (if rct_ring_len (st_rct_type self) = None then Some (Inl UnsupportedRctType)
      else if st_inputs self = [] then Some (Inl NoInputs)
      else if length (remdups (map (\<lambda>input. Point_compress D (input_key input)) (st_inputs self))) \<noteq>
              length (st_inputs self)
      then Some (Inl InvalidInputs)
      else try_then (validate_inputs D (st_rct_type self) (st_inputs self)) (\<lambda>_.
      if \<not> list_ex is_Payment (st_payments self) then Some (Inl NoOutputs)
      else if length (st_payments self) < 2 then Some (Inl NoChange)
      else if length (filter (\<lambda>payment. \<not> is_Payment payment) (st_payments self)) > 1
      then Some (Inl IncorrectSerialization)
      else Option.bind (payment_id_count D keccak256 self) (\<lambda>payment_ids.
      if payment_ids > 1 then Some (Inl MultiplePaymentIds)
      else if length (st_payments self) > MAX_COMMITMENTS then Some (Inl TooManyOutputs)
      else if list_ex (\<lambda>part. length part > MAX_ARBITRARY_DATA_SIZE) (st_data self)
      then Some (Inl TooMuchArbitraryData)
      else Option.bind (extra_of D keccak256 E self) (\<lambda>extra.
      if length extra > MAX_EXTRA_SIZE_BY_RELAY_RULE then Some (Inl TooMuchArbitraryData)
      else Option.bind (weight_and_necessary_fee D keccak256 E self) (validate_funds self)))))"

definition SignableTransaction_new ::
  "('s::comm_ring_1, 'p::ab_group_add, 'z) dalek_scheme \<Rightarrow> (bytes \<Rightarrow> bytes) \<Rightarrow> ('r, 's, 'p) send_env \<Rightarrow> RctType \<Rightarrow>
   bytes \<Rightarrow> 'p OutputWithDecoys list \<Rightarrow> ('p Address \<times> u64) list \<Rightarrow> 'p Change \<Rightarrow> bytes list \<Rightarrow> FeeRate \<Rightarrow>
   (SendError + 'p SignableTransaction) option" where
  "SignableTransaction_new D keccak256 E rct_type outgoing_view_key inputs payments change data fee_rate =
     (let payments = map (\<lambda>(addr, amt). Payment addr amt) payments @
            (case change of Change (Some change) \<Rightarrow> [ChangePayment change] | Change None \<Rightarrow> []);
          res = \<lparr>st_rct_type = rct_type, st_outgoing_view_key = outgoing_view_key, st_inputs = inputs,
                 st_payments = payments, st_data = data, st_fee_rate = fee_rate\<rparr>
      in try_then (validate D keccak256 E res) (\<lambda>_.
         Option.bind (SignableTransaction_seeded_rng D keccak256 E res (ascii ''shuffle_payments'')) (\<lambda>rng.
         Some (Inr (res\<lparr>st_payments := rand_shuffle E rng (st_payments res)\<rparr>)))))"

definition necessary_fee ::
  "('s::comm_ring_1, 'p::ab_group_add, 'z) dalek_scheme \<Rightarrow> (bytes \<Rightarrow> bytes) \<Rightarrow> ('r, 's, 'p) send_env \<Rightarrow>
   'p SignableTransaction \<Rightarrow> u64 option" where
  "necessary_fee D keccak256 E self =
     Option.bind (weight_and_necessary_fee D keccak256 E self) (\<lambda>(_, fee). u64_try_from (unat fee))"

subsection \<open>Serialisation\<close>

definition MONERO_ADDRESS_BYTES :: "128 word" where
  "MONERO_ADDRESS_BYTES =
     (case MONERO_BYTES of Some n \<Rightarrow> NetworkedAddressBytes_to_const_generic n | None \<Rightarrow> 0)"

definition write_address :: "('s, 'p, 'z) dalek_scheme \<Rightarrow> (bytes \<Rightarrow> bytes) \<Rightarrow> 'p Address \<Rightarrow> bytes option" where
  "write_address D keccak256 addr =
     map_option (write_vec write_byte) (Address_to_string D keccak256 MONERO_ADDRESS_BYTES addr)"

definition write_change_pair ::
  "('s, 'p, 'z) dalek_scheme \<Rightarrow> 'p ViewPair \<Rightarrow> SubaddressIndex option \<Rightarrow> bytes" where
  "write_change_pair D view_pair subaddress =
     CompressedPoint_write (Point_compress D (vp_spend view_pair)) @ Scalar_write (vp_view view_pair) @
     (case subaddress of
        Some index \<Rightarrow> to_le_bytes (index_account index) @ to_le_bytes (index_address index)
      | None \<Rightarrow> to_le_bytes (0 :: u32) @ to_le_bytes (0 :: u32))"

fun write_payment :: "('s, 'p, 'z) dalek_scheme \<Rightarrow> (bytes \<Rightarrow> bytes) \<Rightarrow> 'p InternalPayment \<Rightarrow> bytes option" where
  "write_payment D keccak256 (Payment addr amt) =
     map_option (\<lambda>a. [0] @ a @ to_le_bytes amt) (write_address D keccak256 addr)"
| "write_payment D keccak256 (ChangePayment (AddressOnly addr)) =
     map_option (\<lambda>a. [1] @ a) (write_address D keccak256 addr)"
| "write_payment D keccak256 (ChangePayment (Standard view_pair subaddress)) =
     Some ([2] @ write_change_pair D view_pair subaddress)"
| "write_payment D keccak256 (ChangePayment (Guaranteed view_pair subaddress)) =
     Some ([3] @ write_change_pair D (guaranteed_pair view_pair) subaddress)"

definition SignableTransaction_write ::
  "('s, 'p, 'z) dalek_scheme \<Rightarrow> (bytes \<Rightarrow> bytes) \<Rightarrow> 'p SignableTransaction \<Rightarrow> bytes option" where
  "SignableTransaction_write D keccak256 self =
     Option.bind (those (map (write_payment D keccak256) (st_payments self))) (\<lambda>payments.
     Some ([RctType_to_u8 (st_rct_type self)] @ st_outgoing_view_key self @
       write_vec (OutputWithDecoys_write D) (st_inputs self) @
       varint_write (vec_len (st_payments self)) @ concat payments @
       write_vec (write_vec write_byte) (st_data self) @
       FeeRate_write (st_fee_rate self)))"

definition read_address :: "('s, 'p, 'z) dalek_scheme \<Rightarrow> (bytes \<Rightarrow> bytes) \<Rightarrow> 'p Address reader" where
  "read_address D keccak256 =
     and_then (read_vec read_byte (Some Address_SIZE_UPPER_BOUND)) (\<lambda>str.
     case from_str_with_unchecked_network D keccak256 MONERO_ADDRESS_BYTES str of
       Inl _ \<Rightarrow> err (Other ''invalid address'')
     | Inr addr \<Rightarrow> ok addr)"

definition read_change_pair ::
  "('s, 'p, 'z) dalek_scheme \<Rightarrow> string \<Rightarrow> ('p ViewPair \<times> SubaddressIndex option) reader" where
  "read_change_pair D invalid_key =
     and_then CompressedPoint_read (\<lambda>compressed.
     case CompressedPoint_decompress D compressed of
       None \<Rightarrow> err (Other invalid_key)
     | Some spend \<Rightarrow>
         and_then (Scalar_read D) (\<lambda>view.
         case ViewPair_new D spend view of
           Inl _ \<Rightarrow> err (Other ''spend key has a torsion component'')
         | Inr view_pair \<Rightarrow>
             and_then read_u32 (\<lambda>account.
             and_then read_u32 (\<lambda>address.
             ok (view_pair, SubaddressIndex_new account address)))))"

definition read_payment :: "('s, 'p, 'z) dalek_scheme \<Rightarrow> (bytes \<Rightarrow> bytes) \<Rightarrow> 'p InternalPayment reader" where
  "read_payment D keccak256 =
     and_then read_byte (\<lambda>b.
       if b = 0 then
         and_then (read_address D keccak256) (\<lambda>addr. and_then read_u64 (\<lambda>amt. ok (Payment addr amt)))
       else if b = 1 then
         and_then (read_address D keccak256) (\<lambda>addr. ok (ChangePayment (AddressOnly addr)))
       else if b = 2 then
         and_then (read_change_pair D ''`Change` payment had invalid public spend key'')
           (\<lambda>(view_pair, subaddress). ok (ChangePayment (Standard view_pair subaddress)))
       else if b = 3 then
         and_then (read_change_pair D ''guaranteed `Change` payment had invalid public spend key'')
           (\<lambda>(view_pair, subaddress). ok (ChangePayment (Guaranteed (GuaranteedViewPair view_pair) subaddress)))
       else err (Other ''invalid payment''))"

definition SignableTransaction_read ::
  "('s::comm_ring_1, 'p::ab_group_add, 'z) dalek_scheme \<Rightarrow> (bytes \<Rightarrow> bytes) \<Rightarrow> ('r, 's, 'p) send_env \<Rightarrow>
   'p SignableTransaction reader" where
  "SignableTransaction_read D keccak256 E =
     and_then read_byte (\<lambda>b.
     case RctType_try_from b of
       None \<Rightarrow> err (Other ''unsupported/invalid RctType'')
     | Some rct_type \<Rightarrow>
     and_then (read_bytes 32) (\<lambda>outgoing_view_key.
     and_then (read_vec (OutputWithDecoys_read D) (Some INPUTS_UPPER_BOUND)) (\<lambda>inputs.
     and_then (read_vec (read_payment D keccak256) (Some MAX_COMMITMENTS)) (\<lambda>payments.
     and_then (read_vec (read_vec read_byte (Some MAX_ARBITRARY_DATA_SIZE)) (Some MAX_EXTRA_SIZE_BY_RELAY_RULE))
       (\<lambda>data.
     and_then FeeRate_read (\<lambda>fee_rate.
     let res = \<lparr>st_rct_type = rct_type, st_outgoing_view_key = outgoing_view_key, st_inputs = inputs,
                st_payments = payments, st_data = data, st_fee_rate = fee_rate\<rparr>
     in case validate D keccak256 E res of
          Some (Inr _) \<Rightarrow> ok res
        | Some (Inl e) \<Rightarrow> err (Other ''invalid transaction'')
        | None \<Rightarrow> err (Panic ''validate'')))))))"

subsection \<open>Signing\<close>

definition with_key_images ::
  "'p SignableTransaction \<Rightarrow> CompressedPoint list \<Rightarrow> 'p SignableTransactionWithKeyImages" where
  "with_key_images self key_images =
     (let sorted_inputs = sort_by (\<lambda>(_, key_image_a) (_, key_image_b). key_image_sort key_image_a key_image_b)
            (zip (st_inputs self) key_images)
      in \<lparr>stk_intent = self\<lparr>st_inputs := map fst sorted_inputs\<rparr>, stk_key_images = map snd sorted_inputs\<rparr>)"

text \<open>The outer \<open>None\<close> is the panic.\<close>

definition unsigned_transaction ::
  "('s::comm_ring_1, 'p::ab_group_add, 'z) dalek_scheme \<Rightarrow> (bytes \<Rightarrow> bytes) \<Rightarrow> ('r, 's, 'p) send_env \<Rightarrow>
   'p SignableTransaction \<Rightarrow> CompressedPoint list \<Rightarrow> 's transaction option option" where
  "unsigned_transaction D keccak256 E self key_images =
     (if length (st_inputs self) \<noteq> length key_images then Some None
      else map_option Some (transaction_without_signatures D keccak256 E (with_key_images self key_images)))"

fun key_images_loop ::
  "('s::comm_ring_1, 'p::ab_group_add, 'z) dalek_scheme \<Rightarrow> (bytes \<Rightarrow> bytes) \<Rightarrow> 's \<Rightarrow> 'p OutputWithDecoys list \<Rightarrow>
   (SendError + CompressedPoint list) option" where
  "key_images_loop D keccak256 sender_spend_key [] = Some (Inr [])"
| "key_images_loop D keccak256 sender_spend_key (input # inputs) =
     Option.bind (Scalar_into D (input_key_offset input)) (\<lambda>offset.
     let key = sender_spend_key + offset
     in if edwards_mul D key (ED25519_BASEPOINT_POINT D) \<noteq> input_key input then Some (Inl WrongPrivateKey)
        else Option.bind (Point_biased_hash D keccak256 (edwards_compress D (input_key input))) (\<lambda>generator.
             try_then (key_images_loop D keccak256 sender_spend_key inputs) (\<lambda>key_images.
             Some (Inr (Point_compress D (edwards_mul D key generator) # key_images)))))"

fun clsag_signs_loop ::
  "('s::comm_ring_1, 'p::ab_group_add, 'z) dalek_scheme \<Rightarrow> 's \<Rightarrow> 'p OutputWithDecoys list \<Rightarrow>
   (SendError + (Scalar \<times> 'p ClsagContext) list) option" where
  "clsag_signs_loop D sender_spend_key [] = Some (Inr [])"
| "clsag_signs_loop D sender_spend_key (input # inputs) =
     Option.bind (Scalar_into D (input_key_offset input)) (\<lambda>offset.
     try_then (map_option (map_sum SendClsagError (\<lambda>c. c)) (ClsagContext_new D (owd_decoys input) (input_commitment input)))
       (\<lambda>context.
     try_then (clsag_signs_loop D sender_spend_key inputs) (\<lambda>signs.
     Some (Inr ((Scalar_from D (sender_spend_key + offset), context) # signs)))))"

fun fill_signatures ::
  "('s, 'p, 'z) dalek_scheme \<Rightarrow> (Clsag \<times> 'p) list \<Rightarrow> 's transaction \<Rightarrow> 's transaction option" where
  "fill_signatures D clsags_and_pseudo_outs (V2 prefix (Some proofs)) =
     (case proofs_prunable proofs of
        RctPrunable.Clsag _ _ bulletproof \<Rightarrow>
          Some (V2 prefix (Some (proofs\<lparr>proofs_prunable :=
            RctPrunable.Clsag (map fst clsags_and_pseudo_outs)
              (map (\<lambda>(_, pseudo_out). Point_compress D pseudo_out) clsags_and_pseudo_outs) bulletproof\<rparr>)))
      | _ \<Rightarrow> None)"
| "fill_signatures D clsags_and_pseudo_outs _ = None"

definition SignableTransaction_sign ::
  "('s::comm_ring_1, 'p::ab_group_add, 'z) dalek_scheme \<Rightarrow> (bytes \<Rightarrow> bytes) \<Rightarrow> ('r, 's, 'p) send_env \<Rightarrow>
   'p SignableTransaction \<Rightarrow> ('q \<Rightarrow> bytes \<times> 'q) \<Rightarrow> 'q \<Rightarrow> Scalar \<Rightarrow> (SendError + 's transaction) option" where
  "SignableTransaction_sign D keccak256 E self fill_bytes rng sender_spend_key =
     Option.bind (Scalar_into D sender_spend_key) (\<lambda>sender_spend_key.
     try_then (key_images_loop D keccak256 sender_spend_key (st_inputs self)) (\<lambda>key_images.
     let tx = with_key_images self key_images
     in try_then (clsag_signs_loop D sender_spend_key (st_inputs (stk_intent tx))) (\<lambda>clsag_signs.
        Option.bind (sum_output_masks D keccak256 E (stk_intent tx) (stk_key_images tx)) (\<lambda>mask_sum.
        Option.bind (transaction_without_signatures D keccak256 E tx) (\<lambda>tx.
        Option.bind (Transaction_signature_hash D keccak256 tx) (\<lambda>msg_hash.
        try_then (map_option (map_sum SendClsagError (\<lambda>r. r))
          (Clsag_sign D keccak256 fill_bytes rng clsag_signs mask_sum msg_hash)) (\<lambda>clsags_and_pseudo_outs.
        map_option Inr (fill_signatures D clsags_and_pseudo_outs tx))))))))"

subsection \<open>Eventualities\<close>

fun input_key_images :: "Input list \<Rightarrow> CompressedPoint list option" where
  "input_key_images [] = Some []"
| "input_key_images (Gen _ # _) = None"
| "input_key_images (ToKey _ _ key_image # inputs) = map_option ((#) key_image) (input_key_images inputs)"

definition Eventuality_matches ::
  "('s::comm_ring_1, 'p::ab_group_add, 'z) dalek_scheme \<Rightarrow> (bytes \<Rightarrow> bytes) \<Rightarrow> ('r, 's, 'p) send_env \<Rightarrow>
   'p SignableTransaction \<Rightarrow> pruned_transaction \<Rightarrow> bool option" where
  "Eventuality_matches D keccak256 E self tx =
     Option.bind (extra_of D keccak256 E self) (\<lambda>extra.
     if extra \<noteq> tx_extra (tx_prefix tx) then Some False
     else if additional_timelock (tx_prefix tx) \<noteq> Timelock_None then Some False
     else if length (tx_inputs (tx_prefix tx)) \<noteq> length (st_inputs self) then Some False
     else case input_key_images (tx_inputs (tx_prefix tx)) of
       None \<Rightarrow> Some False
     | Some key_images \<Rightarrow>
     Option.bind (outputs_of D keccak256 E self key_images) (\<lambda>outs.
     if outs \<noteq> tx_outputs (tx_prefix tx) then Some False
     else Option.bind (commitments_and_encrypted_amounts D keccak256 E self key_images) (\<lambda>amounts.
     case tx of
       V2 _ (Some proofs) \<Rightarrow>
         Option.bind (those (map (\<lambda>(commitment, _). Commitment_commit D commitment) amounts)) (\<lambda>points.
         if rct_commitments (pruned_base proofs) \<noteq> map (Point_compress D) points then Some False
         else if rct_encrypted_amounts (pruned_base proofs) \<noteq> map snd amounts then Some False
         else Some True)
     | _ \<Rightarrow> Some False)))"

end
