(* ===== verification/Send_Total.thy ===== *)
theory Send_Total
  imports Signable
begin

text \<open>
  Deriving the keys, the outputs and the extra of a transaction does not panic, and how long the extra is.
\<close>

subsection \<open>What is needed of a transaction\<close>

text \<open>The addresses of the payments and the commitments of the inputs can be computed, and there is a payment.\<close>

definition sendable ::
  "('s::comm_ring_1, 'p::ab_group_add, 'z) dalek_scheme \<Rightarrow> (bytes \<Rightarrow> bytes) \<Rightarrow> 'p SignableTransaction \<Rightarrow> bool" where
  "sendable D keccak256 tx \<longleftrightarrow>
     rct_ring_len (st_rct_type tx) \<noteq> None \<and> input_keys_and_commitments D tx \<noteq> None \<and>
     list_ex is_Payment (st_payments tx) \<and>
     (\<forall>payment \<in> set (st_payments tx). InternalPayment_address D keccak256 payment \<noteq> None)"

lemma validate_sendable:
  assumes "validate D k E tx = Some (Inr ())"
  shows "sendable D k tx"
proof -
  have "payment_id_count D k tx \<noteq> None" and "extra_of D k E tx \<noteq> None"
    and "list_ex is_Payment (st_payments tx)" and "rct_ring_len (st_rct_type tx) \<noteq> None"
    using assms by (auto simp: validate_def try_then_Inr bind_eq_Some_conv split: if_splits)
  moreover from this obtain addrs where "list_all2 (\<lambda>p a. InternalPayment_address D k p = Some a) (st_payments tx) addrs"
    by (auto simp: payment_id_count_def those_all2)
  then have "\<forall>payment \<in> set (st_payments tx). InternalPayment_address D k payment \<noteq> None"
    by (induction rule: list_all2_induct) auto
  ultimately show ?thesis
    by (auto simp: sendable_def extra_of_def transaction_keys_pub_def transaction_keys_def bind_eq_Some_conv)
qed

subsection \<open>Keys\<close>

lemma next_keys_scalars: "\<forall>key \<in> set (next_keys D E n rng). \<exists>s. key = Scalar_from D s"
proof (induction n arbitrary: rng)
  case (Suc n)
  then show ?case by (auto simp: TransactionKeys_next_def Scalar_random_def Scalar_from_def split: prod.splits)
qed simp

lemma length_next_keys [simp]: "length (next_keys D E n rng) = n"
  by (induction n arbitrary: rng) (auto split: prod.split)

lemma transaction_keys_total:
  assumes "sendable D k tx"
  obtains s ks where "transaction_keys D k E tx = Some (Scalar_from D s, map (Scalar_from D) ks)"
    and "length ks = (if should_use_additional_keys tx then length (st_payments tx) else 0)"
proof -
  obtain keys where keys: "input_keys_and_commitments D tx = Some keys" using assms by (auto simp: sendable_def)
  have "TransactionKeys_new D k E ovk keys \<noteq> None" for ovk
    by (simp add: TransactionKeys_new_def seeded_rng_def ascii_def)
  then obtain rng where rng: "TransactionKeys_new D k E (st_outgoing_view_key tx) keys = Some rng" by blast
  obtain s rng' where nxt: "TransactionKeys_next D E rng = (Scalar_from D s, rng')"
    by (cases "chacha_fill_bytes E rng") (simp add: TransactionKeys_next_def Scalar_random_def Scalar_from_def)
  have scalars: "\<exists>ks. keys = map (Scalar_from D) ks" if "\<forall>key \<in> set keys. \<exists>s. key = Scalar_from D s" for keys
    using that by (induction keys) (auto simp: Cons_eq_map_conv)
  define additional where "additional = (if should_use_additional_keys tx then next_keys D E (length (st_payments tx)) rng' else [])"
  have "\<forall>key \<in> set additional. \<exists>s. key = Scalar_from D s"
    using next_keys_scalars [of D E] by (auto simp: additional_def)
  then obtain ks where ks: "additional = map (Scalar_from D) ks" using scalars by blast
  have "length ks = length additional" by (simp add: ks)
  then have "length ks = (if should_use_additional_keys tx then length (st_payments tx) else 0)"
    by (simp add: additional_def)
  with ks show thesis
    by (intro that [of s ks]) (simp_all add: transaction_keys_def keys rng nxt additional_def)
qed

lemma transaction_keys_pub_total:
  assumes "curve_laws D" and "sendable D k tx"
  obtains key keys where "transaction_keys_pub D k E tx = Some (key, keys)"
    and "length keys = (if should_use_additional_keys tx then length (st_payments tx) else 0)"
    and "\<forall>key \<in> set keys. wf_CompressedPoint key"
proof -
  obtain s ks where keys: "transaction_keys D k E tx = Some (Scalar_from D s, map (Scalar_from D) ks)"
    and len: "length ks = (if should_use_additional_keys tx then length (st_payments tx) else 0)"
    by (rule transaction_keys_total [OF assms(2)])
  have find: "\<exists>addr amt. find is_Payment (st_payments tx) = Some (Payment addr amt)"
  proof -
    obtain p where "find is_Payment (st_payments tx) = Some p"
      using assms(2) by (cases "find is_Payment (st_payments tx)") (auto simp: sendable_def find_None_iff list_ex_iff)
    moreover then have "is_Payment p" by (auto simp: find_Some_iff)
    ultimately show ?thesis by (cases p) auto
  qed
  have "\<exists>y. additional_key_pub D k x = Some y \<and> wf_CompressedPoint y"
    if "x \<in> set (zip (map (Scalar_from D) ks) (st_payments tx))" for x
  proof -
    obtain key payment where x: "x = (key, payment)" by (metis surj_pair)
    then have "key \<in> set (map (Scalar_from D) ks)" "payment \<in> set (st_payments tx)"
      using that by (metis set_zip_leftD, metis set_zip_rightD)
    then obtain t addr where "key = Scalar_from D t" "InternalPayment_address D k payment = Some addr"
      using assms(2) by (auto simp: sendable_def)
    then show ?thesis using curve_scalar(1) [OF assms(1)] curve_point(2) [OF assms(1)] by (simp add: x Point_compress_def)
  qed
  then have "\<exists>pubs. those (map (additional_key_pub D k) (zip (map (Scalar_from D) ks) (st_payments tx))) = Some pubs \<and>
      list_all2 (\<lambda>_. wf_CompressedPoint) (zip (map (Scalar_from D) ks) (st_payments tx)) pubs" by (rule those_total)
  then obtain pubs where run: "those (map (additional_key_pub D k) (zip (map (Scalar_from D) ks) (st_payments tx))) = Some pubs"
    and pubs: "list_all2 (\<lambda>_. wf_CompressedPoint) (zip (map (Scalar_from D) ks) (st_payments tx)) pubs" by (elim exE conjE)
  show thesis
  proof (cases "should_use_additional_keys tx")
    case True
    with run keys curve_scalar(1) [OF assms(1)]
    have "transaction_keys_pub D k E tx = Some (edwards_mul D s (ED25519_BASEPOINT_POINT D), pubs)"
      by (simp add: transaction_keys_pub_def)
    then show ?thesis using True len list_all2_lengthD [OF pubs] list_all2_right [OF pubs] by (intro that) simp_all
  next
    case False
    with find keys curve_scalar(1) [OF assms(1)]
    have "\<exists>key. transaction_keys_pub D k E tx = Some (key, [])" by (auto simp: transaction_keys_pub_def)
    then show ?thesis using False that by fastforce
  qed
qed

text \<open>The address of change shows that its view key is a scalar.\<close>

lemma change_view_total:
  "ChangeEnum_address D k (Standard vp sub) \<noteq> None \<Longrightarrow> Scalar_into D (vp_view vp) \<noteq> None"
  "ChangeEnum_address D k (Guaranteed gvp sub) \<noteq> None \<Longrightarrow> Scalar_into D (vp_view (guaranteed_pair gvp)) \<noteq> None"
  by (auto simp: legacy_address_def ViewPair_subaddress_def GuaranteedViewPair_address_def ViewPair_view_def
      subaddress_keys_def Let_def bind_eq_Some_conv split: option.splits)

lemma ecdhs_total:
  assumes "curve_laws D" and "sendable D k tx"
  obtains shared where "ecdhs D k E tx = Some shared" and "length shared = length (st_payments tx)"
proof -
  obtain s ks where keys: "transaction_keys D k E tx = Some (Scalar_from D s, map (Scalar_from D) ks)"
    by (rule transaction_keys_total [OF assms(2)])
  obtain key pubs where pub: "transaction_keys_pub D k E tx = Some (key, pubs)"
    by (rule transaction_keys_pub_total [OF assms])
  let ?f = "\<lambda>(i, payment). payment_ecdh D k (Scalar_from D s) (map (Scalar_from D) ks) key i payment"
  have "\<exists>y. ?f x = Some y \<and> True" if x: "x \<in> set (enumerate 0 (st_payments tx))" for x
  proof -
    obtain i payment where xi: "x = (i, payment)" by (metis surj_pair)
    with x have "payment \<in> set (map snd (enumerate 0 (st_payments tx)))" by (force simp del: map_snd_enumerate)
    then obtain addr where addr: "InternalPayment_address D k payment = Some addr"
      using assms(2) by (auto simp: sendable_def)
    have "\<exists>t. (if Address_is_subaddress addr
        then case slice_get (map (Scalar_from D) ks) i of Some key \<Rightarrow> key | None \<Rightarrow> Scalar_from D s
        else Scalar_from D s) = Scalar_from D t"
      by (auto simp: slice_get_def)
    then obtain t where t: "(if Address_is_subaddress addr
        then case slice_get (map (Scalar_from D) ks) i of Some key \<Rightarrow> key | None \<Rightarrow> Scalar_from D s
        else Scalar_from D s) = Scalar_from D t" by blast
    have view: "\<exists>v. Scalar_into D (vp_view vp) = Some v" if "payment = ChangePayment (Standard vp sub)" for vp sub
      using change_view_total(1) [of D k vp sub] addr that by auto
    have guaranteed: "\<exists>v. Scalar_into D (vp_view (guaranteed_pair gvp)) = Some v"
      if "payment = ChangePayment (Guaranteed gvp sub)" for gvp sub
      using change_view_total(2) [of D k gvp sub] addr that by auto
    show ?thesis
      using view guaranteed curve_scalar(1) [OF assms(1), of t]
      by (auto simp: xi payment_ecdh_def addr t split: InternalPayment.split ChangeEnum.split)
  qed
  then have "\<exists>ys. those (map ?f (enumerate 0 (st_payments tx))) = Some ys \<and>
      list_all2 (\<lambda>_ _. True) (enumerate 0 (st_payments tx)) ys" by (rule those_total)
  then obtain ys where "those (map ?f (enumerate 0 (st_payments tx))) = Some ys"
    and ys: "list_all2 (\<lambda>_ _. True) (enumerate 0 (st_payments tx)) ys" by (elim exE conjE)
  then show thesis
    using keys pub list_all2_lengthD [OF ys] by (intro that) (simp_all add: ecdhs_def)
qed

subsection \<open>The extra\<close>

lemma length_Extra_write: "length (Extra_write extra) = sum_list (map (\<lambda>field. length (ExtraField_write field)) extra)"
proof (induction extra)
  case (Cons field extra)
  then show ?case by (cases field) (simp_all add: Extra_write_def SORT_ORDER_def)
qed (simp add: Extra_write_def SORT_ORDER_def)

lemma fold_push_nonce:
  "fold (\<lambda>x extra. Extra_push_nonce extra (f x)) xs extra = extra @ map (\<lambda>x. Nonce (f x)) xs"
  by (induction xs arbitrary: extra) (simp_all add: Extra_push_nonce_def)

text \<open>How long the extra is, given whether it has a payment ID.\<close>

definition extra_size :: "'p SignableTransaction \<Rightarrow> bool \<Rightarrow> nat" where
  "extra_size tx payment_id =
     33 + (if should_use_additional_keys tx
           then 1 + length (varint_write (vec_len (st_payments tx))) + 32 * length (st_payments tx) else 0) +
     (if payment_id then 11 else 0) +
     sum_list (map (\<lambda>part. length (ExtraField_write (Nonce (ARBITRARY_DATA_MARKER # part)))) (st_data tx))"

definition has_payment_id ::
  "('s::zero, 'p::plus, 'z) dalek_scheme \<Rightarrow> (bytes \<Rightarrow> bytes) \<Rightarrow> 'p InternalPayment \<Rightarrow> bool" where
  "has_payment_id D keccak256 payment \<longleftrightarrow>
     (case InternalPayment_address D keccak256 payment of
        Some addr \<Rightarrow> AddressType_payment_id (addr_kind addr) \<noteq> None | None \<Rightarrow> False)"

lemma find_payment_id_total:
  assumes "\<forall>(payment, _) \<in> set xs. InternalPayment_address D k payment \<noteq> None"
  obtains r where "find_payment_id D k xs = Some r" and "r = None \<longleftrightarrow> \<not> list_ex (\<lambda>(payment, _). has_payment_id D k payment) xs"
  using assms
proof (induction xs arbitrary: thesis)
  case (Cons x xs)
  obtain payment xor addr where x: "x = (payment, xor)" "InternalPayment_address D k payment = Some addr"
    using Cons.prems(2) by (cases x) auto
  obtain r where r: "find_payment_id D k xs = Some r" "r = None \<longleftrightarrow> \<not> list_ex (\<lambda>(payment, _). has_payment_id D k payment) xs"
    using Cons.IH Cons.prems(2) by auto
  have pid: "has_payment_id D k payment \<longleftrightarrow> AddressType_payment_id (addr_kind addr) \<noteq> None"
    by (simp add: has_payment_id_def x)
  show ?case
  proof (cases "AddressType_payment_id (addr_kind addr)")
    case None
    then show ?thesis using r x pid by (intro Cons.prems(1) [of r]) auto
  next
    case (Some payment_id)
    then show ?thesis using x pid by (intro Cons.prems(1) [of "Some (payment_id, xor)"]) auto
  qed
qed simp

lemma payment_id_nonce_total:
  assumes "sendable D k tx" and "length xors = length (st_payments tx)" and "\<forall>xor \<in> set xors. length xor = 8"
  obtains nonces where "payment_id_nonce D k tx xors = Some nonces" and "\<forall>nonce \<in> set nonces. length nonce = 9"
    and "length nonces =
      (if list_ex (has_payment_id D k) (st_payments tx) \<or> length (st_payments tx) = 2 then 1 else 0)"
proof -
  have "\<forall>(payment, _) \<in> set (zip (st_payments tx) xors). InternalPayment_address D k payment \<noteq> None"
    using assms(1) by (auto simp: sendable_def dest: set_zip_leftD)
  then obtain r where r: "find_payment_id D k (zip (st_payments tx) xors) = Some r"
    and none: "r = None \<longleftrightarrow> \<not> list_ex (\<lambda>(payment, _). has_payment_id D k payment) (zip (st_payments tx) xors)"
    by (rule find_payment_id_total)
  have "list_ex (\<lambda>(payment, _). P payment) zs = list_ex P (map fst zs)" for P :: "'b InternalPayment \<Rightarrow> bool" and zs :: "('b InternalPayment \<times> bytes) list"
    by (induction zs) auto
  then have ex: "list_ex (\<lambda>(payment, _). P payment) (zip (st_payments tx) xors) = list_ex P (st_payments tx)" for P
    using assms(2) by simp
  show thesis
  proof (cases r)
    case (Some found)
    then show thesis
      using r none ex by (cases found) (intro that, auto simp: payment_id_nonce_def)
  next
    case None
    obtain payment xor where find: "find (\<lambda>(payment, _). is_Payment payment) (zip (st_payments tx) xors) = Some (payment, xor)"
      using assms(1) ex [of is_Payment]
      by (cases "find (\<lambda>(payment, _). is_Payment payment) (zip (st_payments tx) xors)")
         (auto simp: sendable_def find_None_iff list_ex_iff)
    then have "xor \<in> set xors" by (metis find_Some_iff nth_mem set_zip_rightD)
    then have "length xor = 8" using assms(3) by blast
    then show thesis
      using r none ex None find
      by (intro that [of "if length (st_payments tx) = 2 then [PaymentId_write (Encrypted xor)] else []"])
         (auto simp: payment_id_nonce_def)
  qed
qed

lemma length_payment_id_nonce: "length nonce = 9 \<Longrightarrow> length (ExtraField_write (Nonce nonce)) = 11"
  by (simp add: write_vec_def vec_len_def varint_write_def varint_write_loop_small into_u64_def)

lemma extra_total:
  assumes "curve_laws D" and "sendable D k tx" and "\<forall>data. length (k data) = 32"
  obtains extra where "extra_of D k E tx = Some extra"
    and "length extra = extra_size tx (list_ex (has_payment_id D k) (st_payments tx) \<or> length (st_payments tx) = 2)"
proof -
  obtain key keys where pub: "transaction_keys_pub D k E tx = Some (key, keys)"
    and len: "length keys = (if should_use_additional_keys tx then length (st_payments tx) else 0)"
    and wf: "\<forall>key \<in> set keys. wf_CompressedPoint key" by (rule transaction_keys_pub_total [OF assms(1,2)])
  obtain shared where ecdh: "ecdhs D k E tx = Some shared" "length shared = length (st_payments tx)"
    by (rule ecdhs_total [OF assms(1,2)])
  let ?xors = "map (payment_id_xor D k) shared"
  have "\<forall>xor \<in> set ?xors. length xor = 8" using assms(3) by (simp add: payment_id_xor_def)
  then obtain nonces where nonces: "payment_id_nonce D k tx ?xors = Some nonces" "\<forall>nonce \<in> set nonces. length nonce = 9"
    and n: "length nonces = (if list_ex (has_payment_id D k) (st_payments tx) \<or> length (st_payments tx) = 2 then 1 else 0)"
    using payment_id_nonce_total [OF assms(2), of ?xors] ecdh(2) by auto
  let ?fields = "Extra_new (Point_compress D key) keys @ map Nonce nonces @ map (\<lambda>part. Nonce (ARBITRARY_DATA_MARKER # part)) (st_data tx)"
  have "extra_of D k E tx = Some (Extra_write ?fields)"
    using pub nonces ecdh fold_push_nonce [of "\<lambda>x. x"]
    by (simp add: extra_of_def payment_id_xors_def Let_def fold_push_nonce)
  moreover have "length (write_raw_vec CompressedPoint_write keys) = 32 * length keys"
    using wf by (induction keys) auto
  moreover have "keys = [] \<longleftrightarrow> \<not> should_use_additional_keys tx" "length (edwards_compress D key) = 32"
    using len assms(2) curve_point(2) [OF assms(1)] by (auto simp: sendable_def)
  moreover have "sum_list (map (\<lambda>nonce. length (ExtraField_write (Nonce nonce))) nonces) =
      (if list_ex (has_payment_id D k) (st_payments tx) \<or> length (st_payments tx) = 2 then 11 else 0)"
    using nonces(2) n length_payment_id_nonce by (cases nonces) (auto split: if_splits)
  ultimately show thesis
    using len by (intro that) (auto simp: length_Extra_write extra_size_def Extra_new_def write_vec_def vec_len_def Point_compress_def comp_def)
qed

subsection \<open>Outputs\<close>

lemma output_derivations_scalar:
  assumes "hashes_total D k"
  shows "\<exists>d. output_derivations D k uniq ecdh i = Some d \<and> (\<exists>s. shared_key d = Scalar_from D s)"
  using Scalar_hash_value [OF assms] by (auto simp: output_derivations_def Let_def split: option.splits)

lemma derivations_total:
  assumes "curve_laws D" and "hashes_total D k" and "sendable D k tx"
  obtains ds where "shared_key_derivations D k E tx kis = Some ds" and "length ds = length (st_payments tx)"
    and "\<forall>d \<in> set ds. \<exists>s. shared_key d = Scalar_from D s"
proof -
  obtain shared where s: "ecdhs D k E tx = Some shared" "length shared = length (st_payments tx)"
    by (rule ecdhs_total [OF assms(1,3)])
  let ?xs = "enumerate 0 (zip (st_payments tx) shared)"
  let ?f = "\<lambda>(i, payment, ecdh). Option.bind (InternalPayment_address D k payment) (\<lambda>addr.
      output_derivations D k (if AddressType_is_guaranteed (addr_kind addr) then Some (uniqueness k (inputs_of tx kis)) else None)
        ecdh (word_of_nat i))"
  have "\<exists>d. ?f x = Some d \<and> (\<exists>s. shared_key d = Scalar_from D s)" if "x \<in> set ?xs" for x
  proof -
    obtain i payment ecdh where x: "x = (i, payment, ecdh)" by (metis prod_cases3)
    with that have "(payment, ecdh) \<in> set (map snd ?xs)" by (force simp del: map_snd_enumerate)
    then have "(payment, ecdh) \<in> set (zip (st_payments tx) shared)" by simp
    then have "payment \<in> set (st_payments tx)" by (rule set_zip_leftD)
    with assms(3) obtain addr where "InternalPayment_address D k payment = Some addr" by (auto simp: sendable_def)
    then show ?thesis using output_derivations_scalar [OF assms(2)] by (simp add: x)
  qed
  then have "\<exists>ds. those (map ?f ?xs) = Some ds \<and> list_all2 (\<lambda>_ d. \<exists>s. shared_key d = Scalar_from D s) ?xs ds"
    by (rule those_total)
  then obtain ds where run: "those (map ?f ?xs) = Some ds"
    and keys: "list_all2 (\<lambda>_ d. \<exists>s. shared_key d = Scalar_from D s) ?xs ds" by (elim exE conjE)
  have ds: "shared_key_derivations D k E tx kis = Some ds" "length ?xs = length ds"
    using s(1) run list_all2_lengthD [OF keys] by (simp_all add: shared_key_derivations_def Let_def)
  from keys have "\<forall>d \<in> set ds. \<exists>s. shared_key d = Scalar_from D s"
    by (rule list_all2_right)
  then show thesis using ds(1,2) s(2) by (intro that) simp_all
qed

lemma outputs_total:
  assumes "curve_laws D" and "hashes_total D k" and "sendable D k tx"
  obtains outs where "outputs_of D k E tx kis = Some outs" and "length outs = length (st_payments tx)"
proof -
  obtain ds where ds: "shared_key_derivations D k E tx kis = Some ds" "length ds = length (st_payments tx)"
    "\<forall>d \<in> set ds. \<exists>s. shared_key d = Scalar_from D s"
    by (rule derivations_total [OF assms])
  obtain tagged where tagged: "rct_view_tags (st_rct_type tx) = Some tagged"
    using assms(3) by (cases "st_rct_type tx") (auto simp: sendable_def)
  let ?f = "\<lambda>(payment, derivation). Option.bind (Scalar_into D (shared_key derivation)) (\<lambda>shared.
      Option.bind (InternalPayment_address D k payment) (\<lambda>addr.
      Option.bind (rct_view_tags (st_rct_type tx)) (\<lambda>tagged.
      Some \<lparr>out_amount = None,
            out_key = Point_compress D (edwards_mul D shared (ED25519_BASEPOINT_POINT D) + addr_spend addr),
            out_view_tag = if tagged then Some (view_tag derivation) else None\<rparr>)))"
  have "\<exists>y. ?f x = Some y \<and> True" if mem: "x \<in> set (zip (st_payments tx) ds)" for x
  proof -
    obtain payment d where x: "x = (payment, d)" by (metis surj_pair)
    obtain s addr where "shared_key d = Scalar_from D s" "InternalPayment_address D k payment = Some addr"
      using mem ds(3) assms(3) unfolding x sendable_def by (metis not_None_eq set_zip_leftD set_zip_rightD)
    then show ?thesis using curve_scalar(1) [OF assms(1)] tagged by (simp add: x)
  qed
  then have "\<exists>outs. those (map ?f (zip (st_payments tx) ds)) = Some outs \<and>
      list_all2 (\<lambda>_ _. True) (zip (st_payments tx) ds) outs" by (rule those_total)
  then obtain outs where "those (map ?f (zip (st_payments tx) ds)) = Some outs"
    "list_all2 (\<lambda>_ _. True) (zip (st_payments tx) ds) outs" by (elim exE conjE)
  then show thesis
    using ds(1,2) list_all2_lengthD [of _ "zip (st_payments tx) ds" outs]
    by (intro that) (simp_all add: outputs_of_def)
qed

end
