(* ===== verification/Send_Order.thy ===== *)
theory Send_Order
  imports Send_Total "HOL-Library.Multiset"
begin

text \<open>
  Signing reorders the inputs, by their key images. This theory shows that nothing but the inputs of the transaction
  depends on their order: neither the randomness, nor the keys, the outputs, the extra, the weight, the fee or the amounts.
\<close>

subsection \<open>Sorting\<close>

lemma mset_insert_by [simp]: "mset (insert_by cmp x ys) = add_mset x (mset ys)"
  by (induction ys) auto

lemma mset_sort_by [simp]: "mset (sort_by cmp xs) = mset xs"
  by (induction xs) auto

lemma set_sort_by [simp]: "set (sort_by cmp xs) = set xs"
  by (metis mset_sort_by set_mset_mset)

lemma length_sort_by [simp]: "length (sort_by cmp xs) = length xs"
  by (metis mset_sort_by size_mset)

lemma sorted_wrt_unique:
  assumes "sorted_wrt P xs" and "sorted_wrt P ys" and "mset xs = mset ys"
    and "\<forall>x \<in> set xs. \<forall>y \<in> set xs. P x y \<longrightarrow> P y x \<longrightarrow> x = y"
  shows "xs = ys"
  using assms
proof (induction xs arbitrary: ys)
  case (Cons x xs)
  then obtain y ys' where ys: "ys = y # ys'" by (cases ys) auto
  have "x = y"
  proof (rule ccontr)
    assume neq: "x \<noteq> y"
    then have "y \<in> set xs" "x \<in> set ys'"
      using Cons.prems(3) ys by (metis insert_iff list.set(2) set_mset_mset)+
    then have "P x y" "P y x" using Cons.prems(1,2) ys by auto
    with Cons.prems(4) \<open>y \<in> set xs\<close> neq show False by auto
  qed
  with Cons ys show ?case by auto
qed simp

text \<open>What sorting relies on of a comparison: it is that of a total order on the keys.\<close>

locale comparator =
  fixes cmp :: "'k \<Rightarrow> 'k \<Rightarrow> int"
  assumes cmp_eq: "cmp a b = 0 \<longleftrightarrow> a = b"
    and cmp_swap: "cmp b a = - cmp a b"
    and cmp_trans: "cmp a b < 0 \<Longrightarrow> cmp b c < 0 \<Longrightarrow> cmp a c < 0"
begin

lemma le_trans: "cmp a b \<le> 0 \<Longrightarrow> cmp b c \<le> 0 \<Longrightarrow> cmp a c \<le> 0"
  using cmp_trans [of a b c] cmp_eq [of a b] cmp_eq [of b c] by (metis order_le_less)

lemma le_total: "cmp a b \<le> 0 \<or> cmp b a \<le> 0"
  using cmp_swap [of a b] by linarith

lemma le_antisym: "cmp a b \<le> 0 \<Longrightarrow> cmp b a \<le> 0 \<Longrightarrow> a = b"
  using cmp_swap [of a b] cmp_eq [of a b] by linarith

lemma sorted_insert_by:
  "sorted_wrt (\<lambda>x y. cmp (f x) (f y) \<le> 0) ys \<Longrightarrow>
   sorted_wrt (\<lambda>x y. cmp (f x) (f y) \<le> 0) (insert_by (\<lambda>x y. cmp (f x) (f y)) x ys)"
proof (induction ys)
  case (Cons y ys)
  have set: "set (insert_by (\<lambda>x y. cmp (f x) (f y)) x ys) = insert x (set ys)"
    by (metis mset_insert_by set_mset_add_mset_insert set_mset_mset)
  show ?case using Cons le_trans [of "f x" "f y"] le_total [of "f x" "f y"] by (auto simp: set)
qed simp

lemma sorted_sort_by: "sorted_wrt (\<lambda>x y. cmp (f x) (f y) \<le> 0) (sort_by (\<lambda>x y. cmp (f x) (f y)) xs)"
  by (induction xs) (simp_all add: sorted_insert_by)

lemma sort_by_perm:
  assumes "mset xs = mset ys" and "inj_on f (set xs)"
  shows "sort_by (\<lambda>x y. cmp (f x) (f y)) xs = sort_by (\<lambda>x y. cmp (f x) (f y)) ys"
proof (rule sorted_wrt_unique [OF sorted_sort_by [of f] sorted_sort_by [of f]])
  show "\<forall>x \<in> set (sort_by (\<lambda>x y. cmp (f x) (f y)) xs). \<forall>y \<in> set (sort_by (\<lambda>x y. cmp (f x) (f y)) xs).
      cmp (f x) (f y) \<le> 0 \<longrightarrow> cmp (f y) (f x) \<le> 0 \<longrightarrow> x = y"
    using assms(2) by (auto dest!: le_antisym inj_onD)
qed (simp add: assms(1))

end

lemma CompressedPoint_cmp_range: "CompressedPoint_cmp a b \<in> {-1, 0, 1}"
proof -
  have "bytes_cmp x y \<in> {-1, 0, 1}" for x y by (induction x y rule: bytes_cmp.induct) auto
  then show ?thesis by (cases a; cases b) simp
qed

interpretation key_image_order: comparator key_image_sort
proof
  fix a b c
  note cmp = compressed_point_order [of a b c] compressed_point_order [of c b a]
  show "key_image_sort a b = 0 \<longleftrightarrow> a = b" using cmp by (simp add: key_image_sort_def)
  show "key_image_sort b a = - key_image_sort a b" using cmp by (simp add: key_image_sort_def)
  assume "key_image_sort a b < 0" and "key_image_sort b c < 0"
  then have "CompressedPoint_cmp b a = -1" "CompressedPoint_cmp c b = -1"
    using CompressedPoint_cmp_range [of b a] CompressedPoint_cmp_range [of c b]
      compressed_point_order [of a b] compressed_point_order [of b c]
    by (auto simp: key_image_sort_def)
  then have "CompressedPoint_cmp c a = -1" using compressed_point_order [of c b a] by blast
  then show "key_image_sort a c < 0"
    using compressed_point_order [of a c] by (simp add: key_image_sort_def)
qed

lemma sort_fst: "(\<lambda>(a, _) (b, _). cmp a b) = (\<lambda>x y. cmp (fst x) (fst y))"
  by (simp add: fun_eq_iff)

lemma sort_snd: "(\<lambda>(_, a) (_, b). cmp a b) = (\<lambda>x y. cmp (snd x) (snd y))"
  by (simp add: fun_eq_iff)

subsection \<open>The randomness\<close>

lemma seeded_rng_perm:
  assumes "mset xs = mset ys" and "distinct (map (\<lambda>x. Point_compress D (fst x)) xs)"
  shows "seeded_rng D k E dst ovk xs = seeded_rng D k E dst ovk ys"
proof -
  let ?f = "\<lambda>(key, commitment). (Point_compress D key, Point_compress D commitment)"
  have "mset (map ?f xs) = mset (map ?f ys)" using assms(1) by simp
  moreover have "distinct (map fst (map ?f xs))" using assms(2) by (simp add: comp_def case_prod_beta)
  then have "inj_on fst (set (map ?f xs))" by (simp only: distinct_map)
  ultimately have "sort_by (\<lambda>x y. key_image_sort (fst x) (fst y)) (map ?f xs) =
      sort_by (\<lambda>x y. key_image_sort (fst x) (fst y)) (map ?f ys)"
    by (rule key_image_order.sort_by_perm)
  then show ?thesis by (simp add: seeded_rng_def sort_fst Let_def)
qed

subsection \<open>What the order of the inputs leaves unchanged\<close>

lemma those_perm:
  assumes "mset xs = mset xs'" and "those (map f xs) = Some ys"
  obtains ys' where "those (map f xs') = Some ys'" and "mset ys' = mset ys"
proof -
  have f: "map f xs = map Some ys" using assms(2) by (simp add: those_map)
  then have "\<forall>x \<in> set xs. \<exists>y. f x = Some y" by (metis in_set_conv_nth length_map nth_map)
  then have all: "\<forall>x \<in> set xs'. f x = Some (the (f x))" using assms(1) by (metis option.sel set_mset_mset)
  then have "map f xs' = map Some (map (\<lambda>x. the (f x)) xs')" by simp
  moreover have "map (\<lambda>x. the (f x)) xs = ys" using arg_cong [OF f, of "map the"] by (simp add: comp_def)
  then have "mset (map (\<lambda>x. the (f x)) xs') = mset ys" using assms(1) by (metis mset_map)
  ultimately show thesis using that those_map [of f xs'] by blast
qed

text \<open>The same transaction with its inputs in another order. Their keys are distinct, as \<open>validate\<close> checks.\<close>

definition reordered ::
  "('s, 'p, 'z) dalek_scheme \<Rightarrow> 'p SignableTransaction \<Rightarrow> 'p SignableTransaction \<Rightarrow> bool" where
  "reordered D tx tx' \<longleftrightarrow>
     mset (st_inputs tx) = mset (st_inputs tx') \<and> tx' = tx\<lparr>st_inputs := st_inputs tx'\<rparr> \<and>
     distinct (map (\<lambda>input. Point_compress D (input_key input)) (st_inputs tx))"

named_theorems reorder \<open>what does not depend on the order of the inputs\<close>

lemma reordered_fields [reorder]:
  assumes "reordered D tx tx'"
  shows "st_rct_type tx' = st_rct_type tx" "st_outgoing_view_key tx' = st_outgoing_view_key tx"
    "st_payments tx' = st_payments tx" "st_data tx' = st_data tx" "st_fee_rate tx' = st_fee_rate tx"
    "length (st_inputs tx') = length (st_inputs tx)" "mset (st_inputs tx') = mset (st_inputs tx)"
proof -
  have tx': "tx' = tx\<lparr>st_inputs := st_inputs tx'\<rparr>" and m: "mset (st_inputs tx) = mset (st_inputs tx')"
    using assms by (simp_all add: reordered_def)
  show "st_rct_type tx' = st_rct_type tx" "st_outgoing_view_key tx' = st_outgoing_view_key tx"
    "st_payments tx' = st_payments tx" "st_data tx' = st_data tx" "st_fee_rate tx' = st_fee_rate tx"
    by (subst tx', simp)+
  show "length (st_inputs tx') = length (st_inputs tx)" using m by (metis size_mset)
  show "mset (st_inputs tx') = mset (st_inputs tx)" using m ..
qed

lemma reordered_payments [reorder]:
  assumes "reordered D tx tx'"
  shows "has_payments_to_subaddresses tx' = has_payments_to_subaddresses tx"
    "should_use_additional_keys tx' = should_use_additional_keys tx" "payment_amounts tx' = payment_amounts tx"
    "payment_id_nonce D k tx' xors = payment_id_nonce D k tx xors"
  unfolding has_payments_to_subaddresses_def should_use_additional_keys_def payment_amounts_def payment_id_nonce_def
    reordered_fields [OF assms] by (rule refl)+

lemma input_keys_fst:
  assumes "input_keys_and_commitments D tx = Some keys"
  shows "map fst keys = map input_key (st_inputs tx)"
proof (rule nth_equalityI)
  have f: "map (\<lambda>input. map_option (\<lambda>c. (input_key input, c)) (Commitment_commit D (input_commitment input))) (st_inputs tx) =
      map Some keys" using assms by (simp add: input_keys_and_commitments_def those_map)
  then show "length (map fst keys) = length (map input_key (st_inputs tx))" by (metis length_map)
  fix i
  assume "i < length (map fst keys)"
  with arg_cong [OF f, of "\<lambda>l. l ! i"] map_eq_imp_length_eq [OF f]
  show "map fst keys ! i = map input_key (st_inputs tx) ! i" by (auto dest: sym)
qed

lemma reordered_seeded:
  fixes D :: "('s::comm_ring_1, 'p::ab_group_add, 'z) dalek_scheme"
  assumes "reordered D tx tx'" and "input_keys_and_commitments D tx = Some keys"
  obtains keys' where "input_keys_and_commitments D tx' = Some keys'"
    and "\<And>k E dst ovk. seeded_rng D k (E :: ('r, 's, 'p) send_env) dst ovk keys' = seeded_rng D k E dst ovk keys"
proof -
  obtain keys' where keys': "input_keys_and_commitments D tx' = Some keys'" "mset keys' = mset keys"
    using those_perm [OF reordered_fields(7) [OF assms(1), symmetric] assms(2) [unfolded input_keys_and_commitments_def]]
    unfolding input_keys_and_commitments_def by blast
  have "distinct (map (Point_compress D) (map fst keys))"
    using assms(1) unfolding input_keys_fst [OF assms(2)] by (simp add: reordered_def comp_def)
  then have "distinct (map (\<lambda>x. Point_compress D (fst x)) keys)" by (simp add: comp_def)
  then have "seeded_rng D k E dst ovk keys = seeded_rng D k E dst ovk keys'" for dst ovk k and E :: "('r, 's, 'p) send_env"
    by (rule seeded_rng_perm [OF keys'(2) [symmetric]])
  with keys'(1) show thesis using that by metis
qed

lemma reordered_sym: "reordered D tx tx' \<Longrightarrow> reordered D tx' tx"
proof -
  assume r: "reordered D tx tx'"
  then have "mset (map (\<lambda>input. Point_compress D (input_key input)) (st_inputs tx')) =
      mset (map (\<lambda>input. Point_compress D (input_key input)) (st_inputs tx))" by (simp add: reordered_def)
  then have "distinct (map (\<lambda>input. Point_compress D (input_key input)) (st_inputs tx'))"
    using r unfolding reordered_def by (metis mset_eq_imp_distinct_iff)
  then show ?thesis using r reordered_fields [OF r] by (simp add: reordered_def)
qed

lemma reordered_keys_None:
  assumes "reordered D tx tx'" and "input_keys_and_commitments D tx = None"
  shows "input_keys_and_commitments D tx' = None"
proof (rule ccontr)
  assume "input_keys_and_commitments D tx' \<noteq> None"
  then obtain keys' where "input_keys_and_commitments D tx' = Some keys'" by blast
  then have "those (map (\<lambda>input. map_option (\<lambda>c. (input_key input, c)) (Commitment_commit D (input_commitment input)))
      (st_inputs tx')) = Some keys'" by (simp only: input_keys_and_commitments_def)
  from those_perm [OF reordered_fields(7) [OF assms(1)] this] assms(2) show False
    by (auto simp: input_keys_and_commitments_def)
qed

lemma reordered_rng [reorder]:
  assumes "reordered D tx tx'"
  shows "SignableTransaction_seeded_rng D k E tx' dst = SignableTransaction_seeded_rng D k E tx dst"
    and "transaction_keys D k E tx' = transaction_keys D k E tx"
proof -
  have "Option.bind (input_keys_and_commitments D tx') (seeded_rng D k E dst ovk) =
      Option.bind (input_keys_and_commitments D tx) (seeded_rng D k E dst ovk)" for dst ovk
  proof (cases "input_keys_and_commitments D tx")
    case None
    with reordered_keys_None [OF assms] show ?thesis by simp
  next
    case (Some keys)
    from reordered_seeded [OF assms Some] obtain keys' where "input_keys_and_commitments D tx' = Some keys'"
      "seeded_rng D k E dst ovk keys' = seeded_rng D k E dst ovk keys" by metis
    with Some show ?thesis by simp
  qed
  then have eq: "Option.bind (Option.bind (input_keys_and_commitments D tx') (seeded_rng D k E dst ovk)) f =
      Option.bind (Option.bind (input_keys_and_commitments D tx) (seeded_rng D k E dst ovk)) f" for dst ovk f
    by simp
  show "SignableTransaction_seeded_rng D k E tx' dst = SignableTransaction_seeded_rng D k E tx dst"
    using eq [of dst _ Some] by (simp add: SignableTransaction_seeded_rng_def reordered_fields [OF assms] del: Option.bind_assoc)
  show "transaction_keys D k E tx' = transaction_keys D k E tx"
    unfolding transaction_keys_def TransactionKeys_new_def reordered_fields [OF assms] reordered_payments [OF assms]
      Option.bind_assoc [symmetric] eq ..
qed

lemma reordered_pubs [reorder]:
  assumes "reordered D tx tx'"
  shows "transaction_keys_pub D k E tx' = transaction_keys_pub D k E tx"
    and "ecdhs D k E tx' = ecdhs D k E tx"
    and "payment_id_xors D k E tx' = payment_id_xors D k E tx"
    and "extra_of D k E tx' = extra_of D k E tx"
proof -
  show pub: "transaction_keys_pub D k E tx' = transaction_keys_pub D k E tx"
    unfolding transaction_keys_pub_def reordered_fields [OF assms] reordered_payments [OF assms] reordered_rng [OF assms] ..
  show ecdh: "ecdhs D k E tx' = ecdhs D k E tx"
    unfolding ecdhs_def pub reordered_fields [OF assms] reordered_rng [OF assms] ..
  show xors: "payment_id_xors D k E tx' = payment_id_xors D k E tx"
    unfolding payment_id_xors_def ecdh ..
  show "extra_of D k E tx' = extra_of D k E tx"
    unfolding extra_of_def pub xors reordered_fields [OF assms] reordered_payments [OF assms] ..
qed

lemma map_snd_zip_min: "map snd (zip xs ys) = take (length xs) ys"
  by (induction xs ys rule: list_induct2') simp_all

lemma uniqueness_inputs_of:
  "uniqueness k (inputs_of tx key_images) =
   k (ascii ''uniqueness'' @ concat (map CompressedPoint_to_bytes (take (length (st_inputs tx)) key_images)))"
proof -
  have "map uniqueness_of_input (inputs_of tx key_images) =
      map CompressedPoint_to_bytes (map snd (zip (st_inputs tx) key_images))"
    by (simp add: inputs_of_def uniqueness_of_input_def comp_def case_prod_beta del: map_snd_zip_take)
  then show ?thesis unfolding uniqueness_def by (simp only: map_snd_zip_min)
qed

lemma reordered_outputs [reorder]:
  assumes "reordered D tx tx'"
  shows "shared_key_derivations D k E tx' key_images = shared_key_derivations D k E tx key_images"
    and "outputs_of D k E tx' key_images = outputs_of D k E tx key_images"
proof -
  show shared: "shared_key_derivations D k E tx' key_images = shared_key_derivations D k E tx key_images"
    unfolding shared_key_derivations_def uniqueness_inputs_of reordered_pubs [OF assms] reordered_fields [OF assms] ..
  show "outputs_of D k E tx' key_images = outputs_of D k E tx key_images"
    unfolding outputs_of_def shared reordered_fields [OF assms] ..
qed

subsection \<open>Weight, fee and amounts\<close>

lemma length_write_raw_vec_perm:
  "mset xs = mset ys \<Longrightarrow> length (write_raw_vec f xs) = length (write_raw_vec f ys)"
  by (simp add: write_raw_vec_concat length_concat comp_def) (metis mset_map sum_mset_sum_list)

lemma Transaction_weight_perm:
  assumes "mset xs = mset ys"
  shows "Transaction_weight D (V2 (prefix\<lparr>tx_inputs := xs\<rparr>) proofs) =
    Transaction_weight D (V2 (prefix\<lparr>tx_inputs := ys\<rparr>) proofs)"
proof -
  have "length xs = length ys" using assms by (metis size_mset)
  then show ?thesis
    by (cases proofs)
      (simp_all add: Transaction_weight_def Let_def TransactionPrefix_write_def write_vec_def vec_len_def
        length_write_raw_vec_perm [OF assms])
qed

lemma inputs_of_const:
  "inputs_of tx (map (\<lambda>_. c) (st_inputs tx)) =
   map (\<lambda>input. ToKey None (decoy_offsets (owd_decoys input)) c) (st_inputs tx)"
  by (simp add: inputs_of_def zip_map2 zip_same_conv_map)

lemma reordered_weight [reorder]:
  assumes "reordered D tx tx'"
  shows "base_weight D k E tx' = base_weight D k E tx"
    and "weight_and_necessary_fee D k E tx' = weight_and_necessary_fee D k E tx"
proof -
  let ?inputs = "\<lambda>tx. map (\<lambda>input. ToKey None (decoy_offsets (owd_decoys input)) (CompressedPoint_G D)) (st_inputs tx)"
  have inputs: "inputs_of tx (replicate (length (st_inputs tx)) (CompressedPoint_G D)) = ?inputs tx"
    "inputs_of tx' (replicate (length (st_inputs tx)) (CompressedPoint_G D)) = ?inputs tx'"
    using inputs_of_const [of tx] inputs_of_const [of tx'] reordered_fields(6) [OF assms]
    by (simp_all add: map_replicate_const)
  have "mset (?inputs tx') = mset (?inputs tx)" by (simp add: reordered_fields [OF assms])
  then have weight: "Transaction_weight D (V2 \<lparr>additional_timelock = lock, tx_inputs = ?inputs tx', tx_outputs = outs,
        tx_extra = extra\<rparr> proofs) =
      Transaction_weight D (V2 \<lparr>additional_timelock = lock, tx_inputs = ?inputs tx, tx_outputs = outs,
        tx_extra = extra\<rparr> proofs)" for lock outs extra proofs
    using Transaction_weight_perm [of "?inputs tx'" "?inputs tx" D
        "\<lparr>additional_timelock = lock, tx_inputs = [], tx_outputs = outs, tx_extra = extra\<rparr>" proofs]
    by simp
  show base: "base_weight D k E tx' = base_weight D k E tx"
    unfolding base_weight_def Let_def map_replicate_const reordered_fields [OF assms] inputs weight
      reordered_pubs [OF assms] reordered_outputs [OF assms] ..
  show "weight_and_necessary_fee D k E tx' = weight_and_necessary_fee D k E tx"
    unfolding weight_and_necessary_fee_def base reordered_fields [OF assms] ..
qed

lemma u64_sum_perm: "mset xs = mset ys \<Longrightarrow> u64_sum xs = u64_sum ys"
  unfolding u64_sum_def by (metis mset_map sum_mset_sum_list)

lemma reordered_amounts [reorder]:
  assumes "reordered D tx tx'"
  shows "u64_sum (input_amounts tx') = u64_sum (input_amounts tx)"
    and "change_amount D k E tx' = change_amount D k E tx"
    and "output_amount D k E tx' = output_amount D k E tx"
    and "commitments_and_encrypted_amounts D k E tx' kis = commitments_and_encrypted_amounts D k E tx kis"
    and "sum_output_masks D k E tx' kis = sum_output_masks D k E tx kis"
    and "rct_fee_of D k E tx' = rct_fee_of D k E tx"
    and "prove_bulletproof D k E tx' = prove_bulletproof D k E tx"
proof -
  show sum: "u64_sum (input_amounts tx') = u64_sum (input_amounts tx)"
    by (rule u64_sum_perm) (simp add: input_amounts_def reordered_fields [OF assms])
  show change: "change_amount D k E tx' = change_amount D k E tx"
    unfolding change_amount_def sum reordered_payments [OF assms] reordered_weight [OF assms] ..
  have "output_amount D k E tx' payment = output_amount D k E tx payment" for payment
    by (cases payment) (simp_all add: change)
  then show out: "output_amount D k E tx' = output_amount D k E tx" by blast
  show coms: "commitments_and_encrypted_amounts D k E tx' kis = commitments_and_encrypted_amounts D k E tx kis"
    unfolding commitments_and_encrypted_amounts_def out reordered_fields [OF assms] reordered_outputs [OF assms] ..
  show "sum_output_masks D k E tx' kis = sum_output_masks D k E tx kis"
    unfolding sum_output_masks_def coms ..
  show "rct_fee_of D k E tx' = rct_fee_of D k E tx"
    unfolding rct_fee_of_def sum reordered_payments [OF assms] reordered_weight [OF assms] reordered_fields [OF assms] ..
  show "prove_bulletproof D k E tx' = prove_bulletproof D k E tx"
    unfolding prove_bulletproof_def fun_eq_iff reordered_rng [OF assms] reordered_fields [OF assms] by blast
qed

end
