(* ===== verification/Send_Amounts.thy ===== *)
theory Send_Amounts
  imports Send_Order
begin

text \<open>
  The amounts of a transaction which passed validation: nothing of them overflows, and what its inputs hold is what its
  outputs hold with the fee.
\<close>

subsection \<open>The fee\<close>

lemma find_fee_Some:
  assumes "find_fee base fee_len fees = Some (weight, fee)"
  obtains i where "i < length fees" and "fees ! i = fee" and "weight = base + fee_len + i"
    and "varint_len (word_of_nat (min (unat fee) (2 ^ 64 - 1)) :: u64) \<le> fee_len + i"
  using assms
proof (induction base fee_len fees arbitrary: thesis rule: find_fee.induct)
  case (2 base fee_len possible_fee fees)
  show ?case
  proof (cases "varint_len (word_of_nat (min (unat possible_fee) (2 ^ 64 - 1)) :: u64) \<le> fee_len")
    case True
    with 2(3) show ?thesis by (intro 2(2) [of 0]) auto
  next
    case False
    with 2(3) have "find_fee base (fee_len + 1) fees = Some (weight, fee)" by simp
    from 2(1) [OF False _ this] obtain i where "i < length fees" "fees ! i = fee" "weight = base + (fee_len + 1) + i"
      "varint_len (word_of_nat (min (unat fee) (2 ^ 64 - 1)) :: u64) \<le> fee_len + 1 + i" by metis
    then show ?thesis by (intro 2(2) [of "Suc i"]) auto
  qed
qed simp

lemma weight_and_fee_Some:
  assumes "weight_and_necessary_fee D k E tx = Some (weight, fee)"
  obtains base fee_len where "base_weight D k E tx = Some base" and "weight = base + fee_len" and "weight < 2 ^ 64"
    and "fee_len \<le> 10"
    and "varint_len (word_of_nat (min (unat fee) (2 ^ 64 - 1)) :: u64) \<le> fee_len"
    and "calculate_fee_from_weight (st_fee_rate tx) (word_of_nat weight) = Some fee"
proof -
  let ?fee = "\<lambda>weight. if weight < 2 ^ 64 then calculate_fee_from_weight (st_fee_rate tx) (word_of_nat weight) else None"
  let ?lens = "[LOWER_BOUND..<Suc (UPPER_BOUND TYPE(64))]"
  obtain base fees where base: "base_weight D k E tx = Some base"
    and fees: "map ?fee (map (\<lambda>i. base + i) ?lens) = map Some fees"
    and find: "find_fee base 1 fees = Some (weight, fee)"
    using assms by (auto simp: weight_and_necessary_fee_def bind_eq_Some_conv Let_def those_map)
  obtain i where i: "i < length fees" "fees ! i = fee" "weight = base + 1 + i"
    "varint_len (word_of_nat (min (unat fee) (2 ^ 64 - 1)) :: u64) \<le> 1 + i" by (rule find_fee_Some [OF find])
  have "length ?lens = length fees" using arg_cong [OF fees, of length] by simp
  then have "?fee (base + ?lens ! i) = Some fee" using arg_cong [OF fees, of "\<lambda>l. l ! i"] i(1,2)
    by (simp del: of_nat_add split: if_splits)
  moreover have "?lens ! i = 1 + i" using i(1) \<open>length ?lens = length fees\<close> by (simp add: LOWER_BOUND_def nth_append)
  moreover have "1 + i \<le> 10" using i(1) \<open>length ?lens = length fees\<close> by (simp add: LOWER_BOUND_def)
  ultimately show thesis
    using i by (intro that [OF base, of "1 + i"]) (simp_all del: of_nat_add of_nat_Suc split: if_splits)
qed

subsection \<open>Sums of amounts\<close>

lemma unat_sum_list: "sum_list (map unat xs) < 2 ^ 64 \<Longrightarrow> unat (sum_list xs) = sum_list (map unat xs)" for xs :: "u64 list"
  by (induction xs) (simp_all add: unat_word_ariths)

lemma u64_sum_Some: "u64_sum xs = Some s \<longleftrightarrow> unat s = sum_list (map unat xs)"
proof -
  have "sum_list (map unat xs) < 2 ^ 64" if "unat s = sum_list (map unat xs)"
    using that unsigned_less [of s, where 'a = nat] by simp
  then show ?thesis
    by (auto simp: u64_sum_def unat_sum_list word_unat_eq_iff)
qed

lemma u64_sub_Some: "u64_sub a b = Some d \<longleftrightarrow> unat a = unat b + unat d"
proof -
  have "unat (a - b) = unat a - unat b" if "b \<le> a" using that by (rule unat_sub)
  moreover have "b \<le> a" if "unat a = unat b + unat d" using that by (simp add: word_le_nat_alt)
  ultimately show ?thesis by (auto simp: u64_sub_def word_le_nat_alt word_unat_eq_iff)
qed

lemma u64_try_from_Some: "u64_try_from n = Some x \<longleftrightarrow> unat x = n"
  using unsigned_less [of x, where 'a = nat]
  by (auto simp: u64_try_from_def unat_of_nat word_unat_eq_iff)

lemma u64_exists: "n < 2 ^ 64 \<Longrightarrow> \<exists>x :: u64. unat x = n"
  by (rule exI [of _ "word_of_nat n"]) (simp add: unat_of_nat)

subsection \<open>What validation establishes\<close>

lemma validate_funds_ok:
  assumes "validate_funds tx (weight, fee) = Some (Inr ())"
  shows "weight < MAX_TX_SIZE"
    and "sum_list (map unat (payment_amounts tx)) + unat fee \<le> sum_list (map unat (input_amounts tx))"
    and "sum_list (map unat (input_amounts tx)) < 2 ^ 64"
proof -
  let ?in = "sum_list (map unat (input_amounts tx))"
    and ?out = "min (sum_list (map unat (payment_amounts tx)) + unat fee) (2 ^ 128 - 1)"
  obtain i out where i: "u64_try_from ?in = Some i" and out: "u64_try_from ?out = Some out"
    and le: "out \<le> i" and weight: "weight < MAX_TX_SIZE"
    using assms by (auto simp: validate_funds_def Let_def bind_eq_Some_conv not_le not_less split: option.splits if_splits)
  show "weight < MAX_TX_SIZE" by (rule weight)
  have amounts: "unat i = ?in" "unat out = ?out" using i out by (simp_all only: u64_try_from_Some)
  then show "?in < 2 ^ 64" using unsigned_less [of i, where 'a = nat] by simp
  have "?out \<le> ?in" using le amounts by (simp add: word_le_nat_alt)
  moreover have "?out < 2 ^ 64" using amounts(2) unsigned_less [of out, where 'a = nat] by simp
  ultimately show "sum_list (map unat (payment_amounts tx)) + unat fee \<le> ?in" by (simp add: min_def split: if_splits)
qed

lemma validate_ok:
  assumes "validate D k E tx = Some (Inr ())"
  shows "rct_ring_len (st_rct_type tx) \<noteq> None" and "st_inputs tx \<noteq> []"
    and "distinct (map (\<lambda>input. Point_compress D (input_key input)) (st_inputs tx))"
    and "validate_inputs D (st_rct_type tx) (st_inputs tx) = Some (Inr ())"
    and "list_ex is_Payment (st_payments tx)" and "2 \<le> length (st_payments tx)"
    and "length (st_payments tx) \<le> MAX_COMMITMENTS"
    and "length (filter (\<lambda>payment. \<not> is_Payment payment) (st_payments tx)) \<le> 1"
    and "\<exists>extra. extra_of D k E tx = Some extra \<and> length extra \<le> MAX_EXTRA_SIZE_BY_RELAY_RULE"
    and "\<exists>weight fee. weight_and_necessary_fee D k E tx = Some (weight, fee) \<and> weight < MAX_TX_SIZE \<and>
      sum_list (map unat (payment_amounts tx)) + unat fee \<le> sum_list (map unat (input_amounts tx)) \<and>
      sum_list (map unat (input_amounts tx)) < 2 ^ 64"
proof -
  show "rct_ring_len (st_rct_type tx) \<noteq> None" and "st_inputs tx \<noteq> []"
    using assms by (simp_all add: validate_def split: if_splits)
  have rest: "validate_inputs D (st_rct_type tx) (st_inputs tx) = Some (Inr ())"
    "length (remdups (map (\<lambda>input. Point_compress D (input_key input)) (st_inputs tx))) = length (st_inputs tx)"
    using assms by (auto simp: validate_def try_then_Inr split: if_splits)
  then show "validate_inputs D (st_rct_type tx) (st_inputs tx) = Some (Inr ())"
    "distinct (map (\<lambda>input. Point_compress D (input_key input)) (st_inputs tx))"
    by (metis, metis length_map remdups_id_iff_distinct length_remdups_eq)
  show "list_ex is_Payment (st_payments tx)" "2 \<le> length (st_payments tx)"
    "length (filter (\<lambda>payment. \<not> is_Payment payment) (st_payments tx)) \<le> 1"
    "length (st_payments tx) \<le> MAX_COMMITMENTS"
    using assms by (auto simp: validate_def rest bind_eq_Some_conv split: if_splits)
  show "\<exists>extra. extra_of D k E tx = Some extra \<and> length extra \<le> MAX_EXTRA_SIZE_BY_RELAY_RULE"
    using assms by (auto simp: validate_def rest bind_eq_Some_conv split: if_splits)
  have "\<exists>weight fee. weight_and_necessary_fee D k E tx = Some (weight, fee) \<and>
      validate_funds tx (weight, fee) = Some (Inr ())"
    using assms by (auto simp: validate_def rest bind_eq_Some_conv split: if_splits)
  moreover have "weight < MAX_TX_SIZE \<and>
      sum_list (map unat (payment_amounts tx)) + unat fee \<le> sum_list (map unat (input_amounts tx)) \<and>
      sum_list (map unat (input_amounts tx)) < 2 ^ 64"
    if "validate_funds tx (weight, fee) = Some (Inr ())" for weight fee
    using validate_funds_ok [OF that] by blast
  ultimately show "\<exists>weight fee. weight_and_necessary_fee D k E tx = Some (weight, fee) \<and> weight < MAX_TX_SIZE \<and>
      sum_list (map unat (payment_amounts tx)) + unat fee \<le> sum_list (map unat (input_amounts tx)) \<and>
      sum_list (map unat (input_amounts tx)) < 2 ^ 64" by blast
qed

subsection \<open>The amounts balance\<close>

fun amount_with_change :: "u64 \<Rightarrow> 'p InternalPayment \<Rightarrow> u64" where
  "amount_with_change change (Payment _ amt) = amt"
| "amount_with_change change (ChangePayment _) = change"

lemma sum_amounts_with_change:
  "sum_list (map (\<lambda>payment. unat (amount_with_change change payment)) payments) =
   sum_list (map unat (concat (map payment_amount payments))) +
   length (filter (\<lambda>payment. \<not> is_Payment payment) payments) * unat change"
proof (induction payments)
  case (Cons payment payments)
  then show ?case by (cases payment) simp_all
qed simp

lemma validated_amounts:
  assumes "validate D k E tx = Some (Inr ())"
  obtains amts fee weight necessary where "those (map (output_amount D k E tx) (st_payments tx)) = Some amts"
    and "rct_fee_of D k E tx = Some fee"
    and "sum_list (map unat (input_amounts tx)) = sum_list (map unat amts) + unat fee"
    and "weight_and_necessary_fee D k E tx = Some (weight, necessary)" and "unat necessary \<le> unat fee"
    and "list_ex (\<lambda>payment. \<not> is_Payment payment) (st_payments tx) \<Longrightarrow> unat necessary = unat fee"
proof -
  let ?in = "sum_list (map unat (input_amounts tx))" and ?out = "sum_list (map unat (payment_amounts tx))"
  obtain weight necessary where w: "weight_and_necessary_fee D k E tx = Some (weight, necessary)"
    and le: "?out + unat necessary \<le> ?in" and small: "?in < 2 ^ 64"
    using validate_ok(10) [OF assms] by blast
  have word: "\<exists>x :: u64. unat x = n" if "n \<le> ?in" for n using that small by (intro u64_exists) simp
  obtain i p f :: u64 where i: "unat i = ?in" and p: "unat p = ?out" and f: "unat f = unat necessary"
    using word [of ?in] word [of ?out] word [of "unat necessary"] le by auto
  obtain c d pf :: u64 where c: "unat c = ?in - (?out + unat necessary)" and d: "unat d = ?in - ?out"
    and o: "unat pf = ?out + unat necessary"
    using word [of "?in - (?out + unat necessary)"] word [of "?in - ?out"] word [of "?out + unat necessary"] le by auto
  have sums: "u64_sum (input_amounts tx) = Some i" "u64_sum (payment_amounts tx) = Some p" "u64_sum [p, f] = Some pf"
    "u64_try_from (unat necessary) = Some f" "u64_sub i pf = Some c" "u64_sub i p = Some d"
    unfolding u64_sum_Some u64_try_from_Some u64_sub_Some using i p f o c d le by simp_all
  then have change: "change_amount D k E tx = Some c" using w by (simp add: change_amount_def)
  have outs: "those (map (output_amount D k E tx) (st_payments tx)) = Some (map (amount_with_change c) (st_payments tx))"
  proof (rule those_map_cong_Some)
    fix payment show "output_amount D k E tx payment = Some (amount_with_change c payment)"
      by (cases payment) (simp_all add: change)
  qed
  have sum: "sum_list (map unat (map (amount_with_change c) (st_payments tx))) =
      ?out + length (filter (\<lambda>payment. \<not> is_Payment payment) (st_payments tx)) * unat c"
    using sum_amounts_with_change [of c "st_payments tx"] by (simp add: payment_amounts_def comp_def)
  show thesis
  proof (cases "list_ex (\<lambda>payment. \<not> is_Payment payment) (st_payments tx)")
    case True
    then have "filter (\<lambda>payment. \<not> is_Payment payment) (st_payments tx) \<noteq> []"
      by (simp add: filter_empty_conv list_ex_iff)
    then have "length (filter (\<lambda>payment. \<not> is_Payment payment) (st_payments tx)) = 1"
      using validate_ok(8) [OF assms] by (cases "filter (\<lambda>payment. \<not> is_Payment payment) (st_payments tx)") auto
    moreover have "rct_fee_of D k E tx = Some f" using True w f by (simp add: rct_fee_of_def u64_try_from_Some)
    ultimately show thesis using sum c f le by (intro that [OF outs _ _ w, of f]) simp_all
  next
    case False
    then have "filter (\<lambda>payment. \<not> is_Payment payment) (st_payments tx) = []"
      by (auto simp: filter_empty_conv list_ex_iff)
    moreover have "rct_fee_of D k E tx = Some d"
      using False sums by (simp add: rct_fee_of_def)
    ultimately show thesis using sum d le False by (intro that [OF outs _ _ w, of d]) simp_all
  qed
qed

subsection \<open>Making the transaction does not panic\<close>

text \<open>The documented errors of proving Bulletproofs(+) are of no commitments and of too many.\<close>

definition provers_total :: "('r, 's, 'p) send_env \<Rightarrow> bool" where
  "provers_total E \<longleftrightarrow>
     (\<forall>rng cs. cs \<noteq> [] \<longrightarrow> length cs \<le> MAX_COMMITMENTS \<longrightarrow>
        bulletproof_prove E rng cs \<noteq> None \<and> bulletproof_prove_plus E rng cs \<noteq> None)"

text \<open>The commitments to the outputs' amounts, whose masks are scalars.\<close>

lemma commitments_total:
  assumes "curve_laws D" and "hashes_total D k" and "validate D k E tx = Some (Inr ())"
    and "those (map (output_amount D k E tx) (st_payments tx)) = Some amts"
  obtains outs where "commitments_and_encrypted_amounts D k E tx kis = Some outs"
    and "map (\<lambda>(c, _). amount c) outs = amts" and "\<forall>(c, _) \<in> set outs. \<exists>m. mask c = Scalar_from D m"
    and "\<forall>(_, enc) \<in> set outs. \<exists>b. enc = Compact b \<and> length b = 8"
proof -
  obtain ds where ds: "shared_key_derivations D k E tx kis = Some ds" "length ds = length (st_payments tx)"
    by (rule derivations_total [OF assms(1,2) validate_sendable [OF assms(3)]])
  let ?out = "\<lambda>(amt, d). (Commitment_new (Scalar_from D (from_bytes_mod_order D
      (k (ascii ''commitment_mask'' @ Scalar_write (shared_key d))))) amt, Compact (compact_amount_encryption k d amt))"
  let ?outs = "map ?out (zip amts ds)"
  have amts: "list_all2 (\<lambda>p a. output_amount D k E tx p = Some a) (st_payments tx) amts"
    using assms(4) by (simp only: those_all2)
  have len: "length amts = length ds" using list_all2_lengthD [OF amts] ds(2) by simp
  have "commitments_and_encrypted_amounts D k E tx kis = Some ?outs"
    using ds amts unfolding commitments_and_encrypted_amounts_def
    by (auto simp: those_all2 list_all2_conv_all_nth commitment_mask_def Scalar_hash_value [OF assms(2)])
  moreover have "map (\<lambda>(c, _). amount c) ?outs = map fst (zip amts ds)"
    by (simp add: comp_def case_prod_beta Commitment_new_def)
  then have "map (\<lambda>(c, _). amount c) ?outs = amts" using len by (simp only: map_fst_zip)
  moreover have "\<forall>(c, _) \<in> set ?outs. \<exists>m. mask c = Scalar_from D m"
    by (auto simp: Commitment_new_def)
  moreover have "\<forall>(_, enc) \<in> set ?outs. \<exists>b. enc = Compact b \<and> length b = 8"
    by (auto simp: compact_amount_encryption_def Let_def)
  ultimately show thesis by (rule that)
qed

text \<open>The generator \<open>H\<close> decompresses, as committing to an input would have panicked.\<close>

lemma validated_rng:
  assumes "validate D k E tx = Some (Inr ())"
  obtains keys where "input_keys_and_commitments D tx = Some keys"
    and "edwards_decompress D (CompressedPoint_to_bytes CompressedPoint_H) \<noteq> None"
proof -
  obtain keys where keys: "input_keys_and_commitments D tx = Some keys"
    using validate_ok(9) [OF assms]
    by (auto simp: extra_of_def transaction_keys_pub_def transaction_keys_def bind_eq_Some_conv)
  moreover obtain input where "input \<in> set (st_inputs tx)"
    using validate_ok(2) [OF assms] by (cases "st_inputs tx") auto
  ultimately have "Commitment_commit D (input_commitment input) \<noteq> None"
    by (auto simp: input_keys_and_commitments_def those_all2 list_all2_conv_all_nth in_set_conv_nth)
  with keys show thesis by (intro that) (auto simp: Commitment_commit_def split: option.splits)
qed

lemma commit_total:
  assumes "curve_laws D" and "edwards_decompress D (CompressedPoint_to_bytes CompressedPoint_H) \<noteq> None"
    and "mask c = Scalar_from D m"
  shows "\<exists>P. Commitment_commit D c = Some P"
  using assms(2,3) curve_scalar(1) [OF assms(1)] by (auto simp: Commitment_commit_def)

lemma prove_total:
  assumes "provers_total E" and "validate D k E tx = Some (Inr ())" and "cs \<noteq> []" and "length cs \<le> MAX_COMMITMENTS"
  shows "\<exists>bp. prove_bulletproof D k E tx cs = Some bp"
proof -
  obtain keys where "input_keys_and_commitments D tx = Some keys" by (rule validated_rng [OF assms(2)])
  moreover have "seeded_rng D k E (ascii ''bulletproof'') ovk keys \<noteq> None" for ovk
    by (simp add: seeded_rng_def ascii_def)
  ultimately obtain rng where "SignableTransaction_seeded_rng D k E tx (ascii ''bulletproof'') = Some rng"
    by (auto simp: SignableTransaction_seeded_rng_def)
  then show ?thesis
    using assms(1,3,4) validate_ok(1) [OF assms(2)]
    by (cases "st_rct_type tx") (auto simp: prove_bulletproof_def provers_total_def)
qed

end
