(* ===== verification/Send_Transaction.thy ===== *)
theory Send_Transaction
  imports Send_Amounts
begin

text \<open>
  The transaction made of one to be signed: its inputs are in the order of their key images, whatever order they
  were given in; its amounts balance; and it is recognised as the one intended.
\<close>

subsection \<open>The order of the inputs\<close>

definition key_images_sorted :: "CompressedPoint list \<Rightarrow> bool" where
  "key_images_sorted kis \<longleftrightarrow> sorted_wrt (\<lambda>a b. key_image_sort a b \<le> 0) kis"

lemma with_key_images_sorted: "key_images_sorted (stk_key_images (with_key_images tx kis))"
  using key_image_order.sorted_sort_by [of snd "zip (st_inputs tx) kis"]
  by (simp add: with_key_images_def Let_def key_images_sorted_def sorted_wrt_map sort_snd)

lemma with_key_images_fields:
  fixes tx kis
  defines "s \<equiv> with_key_images tx kis"
  shows "mset (zip (st_inputs (stk_intent s)) (stk_key_images s)) = mset (zip (st_inputs tx) kis)"
    and "length (stk_key_images s) = length (st_inputs (stk_intent s))"
    and "stk_intent s = tx\<lparr>st_inputs := st_inputs (stk_intent s)\<rparr>"
  by (simp_all add: s_def with_key_images_def Let_def zip_map_fst_snd)

lemma with_key_images_reordered:
  assumes "distinct (map (\<lambda>input. Point_compress D (input_key input)) (st_inputs tx))"
    and "length kis = length (st_inputs tx)"
  shows "reordered D tx (stk_intent (with_key_images tx kis))"
proof -
  have "mset (st_inputs (stk_intent (with_key_images tx kis))) = mset (map fst (zip (st_inputs tx) kis))"
    by (simp add: with_key_images_def Let_def del: map_fst_zip)
  then show ?thesis using assms with_key_images_fields(3) [of tx kis] by (simp add: reordered_def)
qed

lemma with_key_images_perm:
  assumes "mset (zip inputs kis) = mset (zip (st_inputs tx) kis')"
    and "length kis = length inputs" and "length kis' = length (st_inputs tx)" and "distinct kis"
  shows "with_key_images (tx\<lparr>st_inputs := inputs\<rparr>) kis = with_key_images tx kis'"
proof -
  have "distinct (map snd (zip inputs kis))" using assms(2,4) by simp
  then have "inj_on snd (set (zip inputs kis))" by (simp only: distinct_map)
  from key_image_order.sort_by_perm [OF assms(1) this] show ?thesis
    by (simp add: with_key_images_def Let_def sort_snd)
qed

text \<open>C10. The unsigned transaction does not depend on the order of the inputs, so long as each has its
  key image: the inputs are sorted by their key images, from the highest to the lowest.\<close>

theorem unsigned_transaction_order:
  assumes "mset (zip inputs key_images) = mset (zip (st_inputs tx) key_images')"
    and "length key_images = length inputs" and "length key_images' = length (st_inputs tx)" and "distinct key_images"
  shows "unsigned_transaction D keccak256 E (tx\<lparr>st_inputs := inputs\<rparr>) key_images =
      unsigned_transaction D keccak256 E tx key_images' \<and>
    key_images_sorted (stk_key_images (with_key_images tx key_images'))"
  unfolding unsigned_transaction_def with_key_images_perm [OF assms]
  using assms(2,3) by (simp add: with_key_images_sorted)

subsection \<open>The transaction\<close>

lemma list_all2_commit:
  assumes "curve_laws D" and "edwards_decompress D (CompressedPoint_to_bytes CompressedPoint_H) \<noteq> None"
    and "\<forall>(c, _) \<in> set outs. \<exists>m. mask c = Scalar_from D m"
  obtains points where "those (map (\<lambda>(commitment, _). Commitment_commit D commitment) outs) = Some points"
proof -
  have "\<exists>y. (case x of (c, _) \<Rightarrow> Commitment_commit D c) = Some y \<and> True" if "x \<in> set outs" for x
    using commit_total [OF assms(1,2)] assms(3) that by fastforce
  then have "\<exists>ys. those (map (\<lambda>(commitment, _). Commitment_commit D commitment) outs) = Some ys \<and> list_all2 (\<lambda>_ _. True) outs ys"
    by (rule those_total)
  then show thesis using that by blast
qed

lemma transaction_total:
  assumes "curve_laws D" and "hashes_total D k" and "provers_total E"
    and "validate D k E tx = Some (Inr ())" and "reordered D tx intent"
  obtains tx_outs extra outs points bp fee where
    "transaction_without_signatures D k E \<lparr>stk_intent = intent, stk_key_images = kis\<rparr> =
       Some (V2 \<lparr>additional_timelock = Timelock_None, tx_inputs = inputs_of intent kis, tx_outputs = tx_outs, tx_extra = extra\<rparr>
         (Some \<lparr>proofs_base = \<lparr>rct_fee = fee, rct_pseudo_outs = [], rct_encrypted_amounts = map snd outs,
                               rct_commitments = map (Point_compress D) points\<rparr>,
                proofs_prunable = RctPrunable.Clsag [] [] bp\<rparr>))"
    and "extra_of D k E tx = Some extra" and "outputs_of D k E tx kis = Some tx_outs"
    and "length tx_outs = length (st_payments tx)"
    and "commitments_and_encrypted_amounts D k E tx kis = Some outs"
    and "list_all2 (\<lambda>payment out. output_amount D k E tx payment = Some (amount (fst out))) (st_payments tx) outs"
    and "\<forall>(c, _) \<in> set outs. \<exists>m. mask c = Scalar_from D m"
    and "\<forall>(_, enc) \<in> set outs. \<exists>b. enc = Compact b \<and> length b = 8"
    and "those (map (\<lambda>(commitment, _). Commitment_commit D commitment) outs) = Some points"
    and "prove_bulletproof D k E tx (map fst outs) = Some bp"
    and "rct_fee_of D k E tx = Some fee"
    and "sum_list (map unat (input_amounts tx)) = sum_list (map (\<lambda>out. unat (amount (fst out))) outs) + unat fee"
proof -
  obtain amts fee where amts: "those (map (output_amount D k E tx) (st_payments tx)) = Some amts"
    and fee: "rct_fee_of D k E tx = Some fee"
    and sum: "sum_list (map unat (input_amounts tx)) = sum_list (map unat amts) + unat fee"
    by (rule validated_amounts [OF assms(4)])
  obtain outs where outs: "commitments_and_encrypted_amounts D k E tx kis = Some outs"
    "map (\<lambda>(c, _). amount c) outs = amts" "\<forall>(c, _) \<in> set outs. \<exists>m. mask c = Scalar_from D m"
    "\<forall>(_, enc) \<in> set outs. \<exists>b. enc = Compact b \<and> length b = 8"
    by (rule commitments_total [OF assms(1,2,4) amts])
  have outs_amounts: "list_all2 (\<lambda>payment out. output_amount D k E tx payment = Some (amount (fst out))) (st_payments tx) outs"
    using amts by (simp add: those_all2 outs(2) [symmetric] list_all2_map2 case_prod_beta)
  then have len: "length outs = length (st_payments tx)" by (simp add: list_all2_lengthD)
  obtain keys where "input_keys_and_commitments D tx = Some keys"
    and H: "edwards_decompress D (CompressedPoint_to_bytes CompressedPoint_H) \<noteq> None"
    by (rule validated_rng [OF assms(4)])
  obtain points where points: "those (map (\<lambda>(commitment, _). Commitment_commit D commitment) outs) = Some points"
    by (rule list_all2_commit [OF assms(1) H outs(3)])
  obtain tx_outs where tx_outs: "outputs_of D k E tx kis = Some tx_outs" "length tx_outs = length (st_payments tx)"
    by (rule outputs_total [OF assms(1,2) validate_sendable [OF assms(4)]])
  obtain extra where extra: "extra_of D k E tx = Some extra" using validate_ok(9) [OF assms(4)] by blast
  have "map fst outs \<noteq> []" "length (map fst outs) \<le> MAX_COMMITMENTS"
    using len validate_ok(6,7) [OF assms(4)] by auto
  from prove_total [OF assms(3,4) this] obtain bp where bp: "prove_bulletproof D k E tx (map fst outs) = Some bp" by blast
  have "sum_list (map unat (input_amounts tx)) = sum_list (map (\<lambda>out. unat (amount (fst out))) outs) + unat fee"
    using sum by (simp add: outs(2) [symmetric] comp_def case_prod_beta)
  then show thesis
    using outs outs_amounts points tx_outs extra bp fee
    by (intro that) (simp_all add: transaction_without_signatures_def reordered_outputs [OF assms(5)]
      reordered_amounts [OF assms(5)] reordered_pubs [OF assms(5)])
qed

lemma fee_covers:
  assumes "validate D k E tx = Some (Inr ())" and "rct_fee_of D k E tx = Some fee"
  obtains weight necessary where "weight_and_necessary_fee D k E tx = Some (weight, necessary)"
    and "unat necessary \<le> unat fee"
    and "list_ex (\<lambda>payment. \<not> is_Payment payment) (st_payments tx) \<Longrightarrow> unat necessary = unat fee"
  by (rule validated_amounts [OF assms(1)]) (use assms(2) in auto)

text \<open>C5. The amounts of a transaction balance: making the unsigned transaction of one which passed validation does not
  panic; each of its commitments is to an amount (one per payment, in order), and these with the fee sum to
  exactly what the inputs hold, below \<open>2 ^ 64\<close>. The fee is no less than the necessary one.\<close>

theorem unsigned_transaction_balances:
  assumes "curve_laws D" and "hashes_total D keccak256" and "provers_total E"
    and "validate D keccak256 E tx = Some (Inr ())" and "length key_images = length (st_inputs tx)"
  shows "\<exists>prefix base bp commitments weight necessary.
    unsigned_transaction D keccak256 E tx key_images =
      Some (Some (V2 prefix (Some \<lparr>proofs_base = base, proofs_prunable = RctPrunable.Clsag [] [] bp\<rparr>))) \<and>
    list_all2 (\<lambda>c point. map_option (Point_compress D) (Commitment_commit D c) = Some point)
      commitments (rct_commitments base) \<and>
    length commitments = length (st_payments tx) \<and>
    list_all2 (\<lambda>payment c. output_amount D keccak256 E tx payment = Some (amount c)) (st_payments tx) commitments \<and>
    sum_list (map unat (input_amounts tx)) = sum_list (map (\<lambda>c. unat (amount c)) commitments) + unat (rct_fee base) \<and>
    sum_list (map unat (input_amounts tx)) < 2 ^ 64 \<and>
    weight_and_necessary_fee D keccak256 E tx = Some (weight, necessary) \<and> unat necessary \<le> unat (rct_fee base)"
proof -
  let ?s = "with_key_images tx key_images"
  have r: "reordered D tx (stk_intent ?s)"
    by (rule with_key_images_reordered [OF validate_ok(3) [OF assms(4)] assms(5)])
  obtain tx_outs extra outs points bp fee where
    tx: "transaction_without_signatures D keccak256 E \<lparr>stk_intent = stk_intent ?s, stk_key_images = stk_key_images ?s\<rparr> =
       Some (V2 \<lparr>additional_timelock = Timelock_None, tx_inputs = inputs_of (stk_intent ?s) (stk_key_images ?s),
                 tx_outputs = tx_outs, tx_extra = extra\<rparr>
         (Some \<lparr>proofs_base = \<lparr>rct_fee = fee, rct_pseudo_outs = [], rct_encrypted_amounts = map snd outs,
                               rct_commitments = map (Point_compress D) points\<rparr>,
                proofs_prunable = RctPrunable.Clsag [] [] bp\<rparr>))"
    and amounts: "list_all2 (\<lambda>payment out. output_amount D keccak256 E tx payment = Some (amount (fst out))) (st_payments tx) outs"
    and points: "those (map (\<lambda>(commitment, _). Commitment_commit D commitment) outs) = Some points"
    and fee: "rct_fee_of D keccak256 E tx = Some fee"
    and sum: "sum_list (map unat (input_amounts tx)) = sum_list (map (\<lambda>out. unat (amount (fst out))) outs) + unat fee"
    by (rule transaction_total [OF assms(1-4) r, of "stk_key_images ?s"])
  obtain weight necessary where w: "weight_and_necessary_fee D keccak256 E tx = Some (weight, necessary)"
    "unat necessary \<le> unat fee" by (rule fee_covers [OF assms(4) fee])
  let ?prefix = "\<lparr>additional_timelock = Timelock_None, tx_inputs = inputs_of (stk_intent ?s) (stk_key_images ?s),
      tx_outputs = tx_outs, tx_extra = extra\<rparr>"
  let ?base = "\<lparr>rct_fee = fee, rct_pseudo_outs = [], rct_encrypted_amounts = map snd outs,
      rct_commitments = map (Point_compress D) points\<rparr>"
  have unsigned: "unsigned_transaction D keccak256 E tx key_images =
      Some (Some (V2 ?prefix (Some \<lparr>proofs_base = ?base, proofs_prunable = RctPrunable.Clsag [] [] bp\<rparr>)))"
    using assms(5) tx by (simp add: unsigned_transaction_def with_key_images_def Let_def)
  have commits: "list_all2 (\<lambda>c point. map_option (Point_compress D) (Commitment_commit D c) = Some point)
      (map fst outs) (rct_commitments ?base)"
    using points by (auto simp: those_all2 list_all2_map1 list_all2_map2 case_prod_beta elim!: list_all2_mono)
  have "length (map fst outs) = length (st_payments tx)" using list_all2_lengthD [OF amounts] by simp
  moreover have "list_all2 (\<lambda>payment c. output_amount D keccak256 E tx payment = Some (amount c)) (st_payments tx) (map fst outs)"
    using amounts by (simp add: list_all2_map2)
  moreover have "sum_list (map unat (input_amounts tx)) =
      sum_list (map (\<lambda>c. unat (amount c)) (map fst outs)) + unat (rct_fee ?base)"
    using sum by (simp add: comp_def)
  moreover have "sum_list (map unat (input_amounts tx)) < 2 ^ 64" using validate_ok(10) [OF assms(4)] by blast
  moreover have "unat necessary \<le> unat (rct_fee ?base)" using w(2) by simp
  ultimately show ?thesis using unsigned commits w(1) by blast
qed

subsection \<open>Eventualities\<close>

lemma input_key_images_of:
  "length kis = length (st_inputs tx) \<Longrightarrow> input_key_images (inputs_of tx kis) = Some kis"
proof -
  have "length inputs = length kis \<Longrightarrow> input_key_images
      (map (\<lambda>(input, ki). ToKey None (decoy_offsets (owd_decoys input)) ki) (zip inputs kis)) = Some kis"
    for inputs :: "'a OutputWithDecoys list"
    by (induction inputs kis rule: list_induct2) simp_all
  then show "length kis = length (st_inputs tx) \<Longrightarrow> input_key_images (inputs_of tx kis) = Some kis"
    by (simp add: inputs_of_def)
qed

lemma input_key_images_length: "input_key_images inputs = Some kis \<Longrightarrow> length inputs = length kis"
  by (induction inputs arbitrary: kis rule: input_key_images.induct) auto

lemma with_key_images_of_sorted:
  assumes "key_images_sorted kis" and "length kis = length (st_inputs tx)"
  shows "stk_key_images (with_key_images tx kis) = kis"
proof (rule sorted_wrt_unique [OF with_key_images_sorted [unfolded key_images_sorted_def] assms(1) [unfolded key_images_sorted_def]])
  have "mset (stk_key_images (with_key_images tx kis)) = mset (map snd (zip (st_inputs tx) kis))"
    by (simp add: with_key_images_def Let_def del: map_snd_zip)
  then show "mset (stk_key_images (with_key_images tx kis)) = mset kis" using assms(2) by simp
  show "\<forall>a \<in> set (stk_key_images (with_key_images tx kis)). \<forall>b \<in> set (stk_key_images (with_key_images tx kis)).
      key_image_sort a b \<le> 0 \<longrightarrow> key_image_sort b a \<le> 0 \<longrightarrow> a = b"
    using key_image_order.le_antisym by blast
qed

lemma Eventuality_matches_of:
  assumes "extra_of D k E tx = Some extra" and "outputs_of D k E tx kis = Some tx_outs"
    and "commitments_and_encrypted_amounts D k E tx kis = Some outs"
    and "those (map (\<lambda>(commitment, _). Commitment_commit D commitment) outs) = Some points"
    and "input_key_images (tx_inputs prefix) = Some kis" and "length kis = length (st_inputs tx)"
  shows "Eventuality_matches D k E tx (V2 prefix (Some proofs)) =
      Some (tx_extra prefix = extra \<and> additional_timelock prefix = Timelock_None \<and> tx_outputs prefix = tx_outs \<and>
        rct_commitments (pruned_base proofs) = map (Point_compress D) points \<and>
        rct_encrypted_amounts (pruned_base proofs) = map snd outs)"
  using assms input_key_images_length [OF assms(5)] by (auto simp: Eventuality_matches_def)


end
