(* ===== verification/Send_Sign.thy ===== *)
theory Send_Sign
  imports Send_Transaction
begin

text \<open>
  Signing a transaction: when the sender holds the keys of the inputs and their ring members are what they are said to
  be, signing returns a transaction whose signatures verify, whose commitments balance and which its eventuality
  matches.
\<close>

subsection \<open>Commitments and amounts\<close>

lemma sum_amount_points:
  assumes "curve_laws D" and "amount_laws D"
  shows "sum_list (map (amount_point D) cs) = H_mul D (of_nat (sum_list (map (\<lambda>c. unat (amount c)) cs)))"
proof (induction cs)
  case Nil
  then show ?case using H_mul_0 [OF assms] by simp
next
  case (Cons c cs)
  have "amount_point D c = H_mul D (of_nat (unat (amount c)))"
    using assms(2) by (auto simp: amount_point_def H_mul_def amount_laws_def)
  with Cons show ?case using H_mul_add [OF assms] by simp
qed

lemma sum_commitment_points:
  assumes "curve_laws D" and "list_all2 (\<lambda>c m. mask c = Scalar_from D m) cs ms"
    and "list_all2 (\<lambda>c P. Commitment_commit D c = Some P) cs points"
  shows "sum_list points = edwards_mul D (sum_list ms) (ED25519_BASEPOINT_POINT D) + sum_list (map (amount_point D) cs)"
  using assms(2,3)
proof (induction cs ms arbitrary: points rule: list_all2_induct)
  case Nil
  then show ?case using basepoint_mul_0 [OF assms(1)] by simp
next
  case (Cons c cs m ms)
  then obtain P rest where points: "points = P # rest" "Commitment_commit D c = Some P"
    "list_all2 (\<lambda>c P. Commitment_commit D c = Some P) cs rest" by (auto simp: list_all2_Cons1)
  have "c = Commitment_new (Scalar_from D m) (amount c)" using Cons.hyps(1) by (cases c) (simp add: Commitment_new_def)
  then have "P = edwards_mul D m (ED25519_BASEPOINT_POINT D) + amount_point D c"
    using points(2) commit_new [OF assms(1)] by metis
  moreover have "edwards_mul D (m + sum_list ms) (ED25519_BASEPOINT_POINT D) =
      edwards_mul D m (ED25519_BASEPOINT_POINT D) + edwards_mul D (sum_list ms) (ED25519_BASEPOINT_POINT D)"
    using assms(1) by (simp add: curve_laws_def torsion_free_laws_def)
  ultimately show ?case using Cons.IH [OF points(3)] by (simp add: points(1) add_ac)
qed

lemma sum_output_masks_of:
  assumes "curve_laws D" and "commitments_and_encrypted_amounts D k E tx kis = Some outs"
    and "list_all2 (\<lambda>c m. mask c = Scalar_from D m) (map fst outs) ms"
  shows "sum_output_masks D k E tx kis = Some (Scalar_from D (sum_list ms))"
proof -
  have "those (map (\<lambda>(commitment, _). Scalar_into D (mask commitment)) outs) = Some ms"
    using assms(3) curve_scalar(1) [OF assms(1)]
    by (auto simp: those_all2 list_all2_map1 case_prod_beta elim!: list_all2_mono)
  then show ?thesis by (simp add: sum_output_masks_def assms(2))
qed

subsection \<open>The keys\<close>

text \<open>An input which the sender's key spends: the signer's ring member is its key and commitment.\<close>

definition spendable_input ::
  "('s::comm_ring_1, 'p::ab_group_add, 'z) dalek_scheme \<Rightarrow> 's \<Rightarrow> 'p OutputWithDecoys \<Rightarrow> bool" where
  "spendable_input D spend input \<longleftrightarrow>
     wf_Decoys D (owd_decoys input) \<and>
     (\<exists>offset C. Scalar_into D (input_key_offset input) = Some offset \<and>
        edwards_mul D (spend + offset) (ED25519_BASEPOINT_POINT D) = input_key input \<and>
        Commitment_commit D (input_commitment input) = Some C \<and>
        signer_ring_members (owd_decoys input) = Some (input_key input, C))"

definition input_key_image ::
  "('s::comm_ring_1, 'p, 'z) dalek_scheme \<Rightarrow> (bytes \<Rightarrow> bytes) \<Rightarrow> 's \<Rightarrow> 'p OutputWithDecoys \<Rightarrow> 'p option" where
  "input_key_image D keccak256 spend input =
     Option.bind (Scalar_into D (input_key_offset input)) (\<lambda>offset.
     map_option (edwards_mul D (spend + offset)) (Point_biased_hash D keccak256 (edwards_compress D (input_key input))))"

lemma key_images_loop_of:
  assumes "hashes_total D k" and "\<forall>input \<in> set inputs. spendable_input D spend input"
  shows "\<exists>images. key_images_loop D k spend inputs = Some (Inr (map (Point_compress D) images)) \<and>
    list_all2 (\<lambda>input ki. input_key_image D k spend input = Some ki) inputs images"
  using assms(2)
proof (induction inputs)
  case (Cons input inputs)
  then obtain images where images: "key_images_loop D k spend inputs = Some (Inr (map (Point_compress D) images))"
    "list_all2 (\<lambda>input ki. input_key_image D k spend input = Some ki) inputs images" by auto
  obtain gen where "Point_biased_hash D k (edwards_compress D (input_key input)) = Some gen"
    using assms(1) by (auto simp: hashes_total_def)
  moreover obtain offset where "Scalar_into D (input_key_offset input) = Some offset"
    "edwards_mul D (spend + offset) (ED25519_BASEPOINT_POINT D) = input_key input"
    using Cons.prems by (auto simp: spendable_input_def)
  ultimately show ?case using images
    by (intro exI [of _ "edwards_mul D (spend + offset) gen # images"]) (simp add: input_key_image_def Let_def)
qed simp

text \<open>What signing an input is given.\<close>

definition signing_of ::
  "('s::comm_ring_1, 'p, 'z) dalek_scheme \<Rightarrow> 's \<Rightarrow> 'p OutputWithDecoys \<Rightarrow> Scalar \<times> 'p ClsagContext \<Rightarrow> bool" where
  "signing_of D spend input sig \<longleftrightarrow>
     (\<exists>offset. Scalar_into D (input_key_offset input) = Some offset \<and> fst sig = Scalar_from D (spend + offset)) \<and>
     snd sig = \<lparr>ctx_commitment = input_commitment input, ctx_decoys = owd_decoys input\<rparr>"

lemma clsag_signs_loop_of:
  assumes "\<forall>input \<in> set inputs. spendable_input D spend input"
  shows "\<exists>signs. clsag_signs_loop D spend inputs = Some (Inr signs) \<and> list_all2 (signing_of D spend) inputs signs"
  using assms
proof (induction inputs)
  case (Cons input inputs)
  then obtain signs where "clsag_signs_loop D spend inputs = Some (Inr signs)" "list_all2 (signing_of D spend) inputs signs"
    by auto
  moreover obtain offset C where "Scalar_into D (input_key_offset input) = Some offset"
    "Commitment_commit D (input_commitment input) = Some C" "signer_ring_members (owd_decoys input) = Some (input_key input, C)"
    using Cons.prems by (auto simp: spendable_input_def)
  moreover have "signing_of D spend input (Scalar_from D (spend + offset),
      \<lparr>ctx_commitment = input_commitment input, ctx_decoys = owd_decoys input\<rparr>)"
    using \<open>Scalar_into D (input_key_offset input) = Some offset\<close> by (simp add: signing_of_def)
  ultimately show ?case by (auto simp: ClsagContext_new_def)
qed simp

lemma signing_valid:
  assumes "curve_laws D" and "hashes_total D k" and "spendable_input D spend input" and "signing_of D spend input sig"
  shows "valid_context D (snd sig)" and "Scalar_into D (fst sig) \<noteq> None"
    and "\<exists>gen ki. key_image_of D k sig (gen, ki) \<and> input_key_image D k spend input = Some ki"
proof -
  show valid: "valid_context D (snd sig)"
    using assms(3,4) by (auto simp: valid_context_def signing_of_def spendable_input_def ClsagContext_new_def)
  show "Scalar_into D (fst sig) \<noteq> None"
    using assms(4) curve_scalar(1) [OF assms(1)] by (auto simp: signing_of_def)
  obtain gen where gen: "Point_biased_hash D k (edwards_compress D (input_key input)) = Some gen"
    using assms(2) by (auto simp: hashes_total_def)
  have "signer_ring_members (ctx_decoys (snd sig)) =
      Some (decoy_ring (ctx_decoys (snd sig)) ! unat (decoy_signer_index (ctx_decoys (snd sig))))"
    by (rule valid_context_signer(3) [OF valid])
  then have "fst (decoy_ring (ctx_decoys (snd sig)) ! unat (decoy_signer_index (ctx_decoys (snd sig)))) = input_key input"
    using assms(3,4) by (auto simp: signing_of_def spendable_input_def)
  with gen show "\<exists>gen ki. key_image_of D k sig (gen, ki) \<and> input_key_image D k spend input = Some ki"
    using assms(3,4) curve_scalar(1) [OF assms(1)]
    by (auto simp: key_image_of_def signing_of_def spendable_input_def input_key_image_def)
qed

subsection \<open>The signatures\<close>

text \<open>Whether an input's signature verifies, over its ring, with its key image and pseudo-out. \<open>verify\<close> rejects, for that
  alone, the identity as key image or as \<open>D\<close>: either takes a hash to the identity or a discrete logarithm.\<close>

definition input_verifies ::
  "('s::comm_ring_1, 'p::ab_group_add, 'z) dalek_scheme \<Rightarrow> (bytes \<Rightarrow> bytes) \<Rightarrow> bytes \<Rightarrow>
   'p OutputWithDecoys \<times> 'p \<Rightarrow> Clsag \<times> 'p \<Rightarrow> bool" where
  "input_verifies D keccak256 msg_hash input res \<longleftrightarrow>
     (case (input, res) of ((input, ki), (clsag, pseudo_out)) \<Rightarrow>
        Clsag_verify D keccak256 clsag (compressed_ring D (decoy_ring (owd_decoys input)))
          (Point_compress D ki) (Point_compress D pseudo_out) msg_hash =
        Some (if ki = 0 then Inl InvalidImage
              else if mul_by_cofactor D (the (CompressedPoint_decompress D (clsag_D clsag))) = 0 then Inl InvalidD
              else Inr ()))"

lemma key_image_of_unique: "key_image_of D k sig (gen, ki) \<Longrightarrow> key_image_of D k sig im \<Longrightarrow> im = (gen, ki)"
  by (cases im) (auto simp: key_image_of_def Let_def)

lemma signs_images:
  assumes "curve_laws D" and "hashes_total D k" and "\<forall>input \<in> set inputs. spendable_input D spend input"
    and "list_all2 (signing_of D spend) inputs signs"
    and "list_all2 (\<lambda>input ki. input_key_image D k spend input = Some ki) inputs kis"
    and "list_all2 (key_image_of D k) signs images"
  shows "map snd images = kis"
  using assms(4,3,5,6)
proof (induction inputs signs arbitrary: kis images rule: list_all2_induct)
  case (Cons input inputs sig signs)
  then obtain im ims ki kis' where split: "images = im # ims" "kis = ki # kis'"
    "key_image_of D k sig im" "list_all2 (key_image_of D k) signs ims"
    "input_key_image D k spend input = Some ki"
    "list_all2 (\<lambda>input ki. input_key_image D k spend input = Some ki) inputs kis'"
    by (auto simp: list_all2_Cons1)
  obtain gen ki' where ki': "key_image_of D k sig (gen, ki')" "input_key_image D k spend input = Some ki'"
    using signing_valid(3) [OF assms(1,2) _ Cons.hyps(1)] Cons.prems(1) by auto
  have "snd im = ki" using key_image_of_unique [OF ki'(1) split(3)] ki'(2) split(5) by simp
  then show ?case using Cons.IH [OF _ split(6,4)] Cons.prems(1) split(1,2) by simp
qed simp

text \<open>Signing the inputs of the sorted transaction: one signature for each, which verifies, and pseudo-outs which
  balance with the sum of the masks.\<close>

lemma sign_inputs:
  assumes "curve_laws D" and "hashes_total D k" and "amount_laws D" and "length msg_hash = 32" and "inputs \<noteq> []"
    and "\<forall>input \<in> set inputs. spendable_input D spend input"
    and "list_all2 (signing_of D spend) inputs signs"
    and "list_all2 (\<lambda>input ki. input_key_image D k spend input = Some ki) inputs kis"
  obtains res where "Clsag_sign D k fill_bytes rng signs (Scalar_from D m) msg_hash = Some (Inr res)"
    and "list_all2 (input_verifies D k msg_hash) (zip inputs kis) res"
    and "sum_list (map snd res) = edwards_mul D m (ED25519_BASEPOINT_POINT D) +
      H_mul D (of_nat (sum_list (map (\<lambda>input. unat (amount (input_commitment input))) inputs)))"
proof -
  have valid: "\<forall>sig \<in> set signs. valid_context D (snd sig) \<and> Scalar_into D (fst sig) \<noteq> None \<and> (\<exists>ki. key_image_of D k sig ki)"
  proof
    fix sig assume "sig \<in> set signs"
    then obtain input where "input \<in> set inputs" "signing_of D spend input sig"
      using list_all2_left_of [OF assms(7)] by blast
    with signing_valid [OF assms(1,2)] assms(6)
    show "valid_context D (snd sig) \<and> Scalar_into D (fst sig) \<noteq> None \<and> (\<exists>ki. key_image_of D k sig ki)" by blast
  qed
  obtain res where res: "Clsag_sign D k fill_bytes rng signs (Scalar_from D m) msg_hash = Some (Inr res)"
    using Clsag_sign_total [OF assms(1,2), of "Scalar_from D m" signs fill_bytes rng msg_hash] valid
      curve_scalar(1) [OF assms(1), of m] by auto
  obtain images where images: "sign_key_images D k signs = Some (Inr images)"
    and verifies: "list_all2 (signature_verifies D k msg_hash) (zip signs images) res"
    using Clsag_sign_signatures [OF assms(1,4) _ res] valid by blast
  have of: "list_all2 (key_image_of D k) signs images" using sign_key_images_of [OF images] valid by blast
  have kis: "map snd images = kis" by (rule signs_images [OF assms(1,2,6,7,8) of])
  have "signs \<noteq> []" using assms(5,7) by auto
  with Clsag_sign_balance [OF assms(1,4) _ res] valid curve_scalar(1) [OF assms(1), of m]
  have "sum_list (map snd res) = edwards_mul D m (ED25519_BASEPOINT_POINT D) +
      sum_list (map (\<lambda>sig. amount_point D (ctx_commitment (snd sig))) signs)" by auto
  moreover have "map (\<lambda>sig. amount_point D (ctx_commitment (snd sig))) signs = map (amount_point D) (map input_commitment inputs)"
    using assms(7) by (induction rule: list_all2_induct) (simp_all add: signing_of_def)
  ultimately have sum: "sum_list (map snd res) = edwards_mul D m (ED25519_BASEPOINT_POINT D) +
      H_mul D (of_nat (sum_list (map (\<lambda>input. unat (amount (input_commitment input))) inputs)))"
    using sum_amount_points [OF assms(1,3), of "map input_commitment inputs"] by (simp add: comp_def)
  have "input_verifies D k msg_hash (zip inputs kis ! i) (res ! i)" if i: "i < length inputs" for i
  proof -
    have len: "length signs = length inputs" "length images = length inputs"
      using list_all2_lengthD [OF assms(7)] list_all2_lengthD [OF of] by simp_all
    have "signature_verifies D k msg_hash (signs ! i, images ! i) (res ! i)"
      using list_all2_nthD [OF verifies, of i] i len by simp
    moreover have "signing_of D spend (inputs ! i) (signs ! i)" using list_all2_nthD [OF assms(7) i] .
    moreover have "kis ! i = snd (images ! i)" using i len kis by (metis nth_map)
    moreover have "length kis = length inputs" using list_all2_lengthD [OF assms(8)] by simp
    ultimately show ?thesis using i
      by (auto simp: signature_verifies_def input_verifies_def signing_of_def split: prod.splits)
  qed
  moreover have "length res = length inputs" "length kis = length inputs"
    using list_all2_lengthD [OF verifies] list_all2_lengthD [OF of] list_all2_lengthD [OF assms(7)]
      list_all2_lengthD [OF assms(8)] by simp_all
  ultimately have "list_all2 (input_verifies D k msg_hash) (zip inputs kis) res"
    by (simp add: list_all2_conv_all_nth)
  from res this sum show thesis by (rule that)
qed

lemma sorted_key_images:
  assumes "list_all2 (\<lambda>input ki. input_key_image D k spend input = Some ki) (st_inputs tx) images"
  obtains kis where
    "list_all2 (\<lambda>input ki. input_key_image D k spend input = Some ki)
       (st_inputs (stk_intent (with_key_images tx (map (Point_compress D) images)))) kis"
    and "stk_key_images (with_key_images tx (map (Point_compress D) images)) = map (Point_compress D) kis"
proof -
  let ?s = "with_key_images tx (map (Point_compress D) images)"
  let ?of = "\<lambda>input. the (input_key_image D k spend input)"
  let ?inputs = "st_inputs (stk_intent ?s)" and ?kis = "stk_key_images ?s"
  have "\<forall>(input, c) \<in> set (zip (st_inputs tx) (map (Point_compress D) images)).
      input_key_image D k spend input = Some (?of input) \<and> c = Point_compress D (?of input)"
    using assms by (induction rule: list_all2_induct) auto
  then have all: "\<forall>(input, c) \<in> set (zip ?inputs ?kis).
      input_key_image D k spend input = Some (?of input) \<and> c = Point_compress D (?of input)"
    using mset_eq_setD [OF with_key_images_fields(1) [of tx "map (Point_compress D) images"]] by simp
  have len: "length ?kis = length ?inputs" by (rule with_key_images_fields(2))
  have nth: "(?inputs ! i, ?kis ! i) \<in> set (zip ?inputs ?kis)" if "i < length ?inputs" for i
    using that len by (simp add: set_zip) blast
  show thesis
  proof (rule that [of "map ?of ?inputs"])
    show "list_all2 (\<lambda>input ki. input_key_image D k spend input = Some ki) ?inputs (map ?of ?inputs)"
      using all nth by (fastforce simp: list_all2_conv_all_nth)
    show "?kis = map (Point_compress D) (map ?of ?inputs)"
      using all nth len by (intro nth_equalityI) fastforce+
  qed
qed

text \<open>The first half of signing: the key images, the order they give, and what the inputs are signed with.\<close>

lemma sign_keys:
  assumes "hashes_total D k" and "validate D k E tx = Some (Inr ())"
    and "\<forall>input \<in> set (st_inputs tx). spendable_input D spend input"
  obtains key_images intent kis signs where "key_images_loop D k spend (st_inputs tx) = Some (Inr key_images)"
    and "with_key_images tx key_images = \<lparr>stk_intent = intent, stk_key_images = map (Point_compress D) kis\<rparr>"
    and "list_all2 (\<lambda>input ki. input_key_image D k spend input = Some ki) (st_inputs intent) kis"
    and "key_images_sorted (map (Point_compress D) kis)" and "reordered D tx intent"
    and "\<forall>input \<in> set (st_inputs intent). spendable_input D spend input"
    and "clsag_signs_loop D spend (st_inputs intent) = Some (Inr signs)"
    and "list_all2 (signing_of D spend) (st_inputs intent) signs"
proof -
  obtain images where images: "key_images_loop D k spend (st_inputs tx) = Some (Inr (map (Point_compress D) images))"
    "list_all2 (\<lambda>input ki. input_key_image D k spend input = Some ki) (st_inputs tx) images"
    using key_images_loop_of [OF assms(1,3)] by blast
  let ?s = "with_key_images tx (map (Point_compress D) images)"
  obtain kis where kis: "list_all2 (\<lambda>input ki. input_key_image D k spend input = Some ki) (st_inputs (stk_intent ?s)) kis"
    and K: "stk_key_images ?s = map (Point_compress D) kis" by (rule sorted_key_images [OF images(2)])
  have r: "reordered D tx (stk_intent ?s)"
    using with_key_images_reordered [OF validate_ok(3) [OF assms(2)]] list_all2_lengthD [OF images(2)] by simp
  have spendable: "\<forall>input \<in> set (st_inputs (stk_intent ?s)). spendable_input D spend input"
    using assms(3) mset_eq_setD [OF reordered_fields(7) [OF r]] by simp
  obtain signs where "clsag_signs_loop D spend (st_inputs (stk_intent ?s)) = Some (Inr signs)"
    "list_all2 (signing_of D spend) (st_inputs (stk_intent ?s)) signs"
    using clsag_signs_loop_of [OF spendable] by blast
  moreover have "?s = \<lparr>stk_intent = stk_intent ?s, stk_key_images = map (Point_compress D) kis\<rparr>" using K by simp
  moreover have "key_images_sorted (map (Point_compress D) kis)" using with_key_images_sorted [of tx] K by metis
  ultimately show thesis using images(1) kis r spendable by (intro that)
qed

lemma reordered_sum:
  assumes "reordered D tx tx'"
  shows "sum_list (map f (st_inputs tx')) = (sum_list (map f (st_inputs tx)) :: nat)"
  using reordered_fields(7) [OF assms] by (metis mset_map sum_mset_sum_list)

text \<open>The pseudo-outs balance with the commitments and the fee.\<close>

lemma sign_balance:
  assumes "curve_laws D" and "amount_laws D" and "reordered D tx intent"
    and "those (map (\<lambda>(commitment, _). Commitment_commit D commitment) outs) = Some points"
    and "list_all2 (\<lambda>c m. mask c = Scalar_from D m) (map fst outs) ms"
    and "sum_list (map unat (input_amounts tx)) = sum_list (map (\<lambda>out. unat (amount (fst out))) outs) + unat fee"
  shows "edwards_mul D (sum_list ms) (ED25519_BASEPOINT_POINT D) +
      H_mul D (of_nat (sum_list (map (\<lambda>input. unat (amount (input_commitment input))) (st_inputs intent)))) =
    sum_list points + H_mul D (of_nat (unat fee))"
proof -
  have total: "sum_list (map (\<lambda>input. unat (amount (input_commitment input))) (st_inputs intent)) =
      sum_list (map (\<lambda>c. unat (amount c)) (map fst outs)) + unat fee"
    using assms(6) reordered_sum [OF assms(3), of "\<lambda>input. unat (amount (input_commitment input))"]
    by (simp add: input_amounts_def comp_def)
  have "list_all2 (\<lambda>c P. Commitment_commit D c = Some P) (map fst outs) points"
    using assms(4) by (simp add: those_all2 list_all2_map1 case_prod_beta)
  from sum_commitment_points [OF assms(1,5) this] sum_amount_points [OF assms(1,2), of "map fst outs"]
  show ?thesis unfolding total by (simp add: H_mul_add [OF assms(1,2)] add_ac)
qed

lemma masks_list:
  assumes "\<forall>(c, _) \<in> set outs. \<exists>m. mask c = Scalar_from D m"
  shows "\<exists>ms. list_all2 (\<lambda>c m. mask c = Scalar_from D m) (map fst outs) ms"
  using assms
proof (induction outs)
  case (Cons out outs)
  then obtain m ms where "mask (fst out) = Scalar_from D m" "list_all2 (\<lambda>c m. mask c = Scalar_from D m) (map fst outs) ms"
    by (cases out) auto
  then show ?case by (intro exI [of _ "m # ms"]) simp
qed auto

lemma signature_hash_of_signed:
  assumes "\<forall>data. length (k data) = 32"
  obtains msg where "length msg = 32"
    and "\<And>clsags pseudo_outs. Transaction_signature_hash D k
      (V2 prefix (Some \<lparr>proofs_base = base, proofs_prunable = RctPrunable.Clsag clsags pseudo_outs bp\<rparr>)) = Some msg"
proof -
  let ?hash = "\<lambda>clsags pseudo_outs. Transaction_signature_hash D k
      (V2 prefix (Some \<lparr>proofs_base = base, proofs_prunable = RctPrunable.Clsag clsags pseudo_outs bp\<rparr>))"
  have "?hash clsags pseudo_outs = ?hash [] []" for clsags pseudo_outs
    by (cases bp) (simp_all add: signature_hash_V2 RctProofs_rct_type_def del: Transaction_signature_hash.simps(3))
  moreover obtain msg where "?hash [] [] = Some msg" "length msg = 32"
    using assms by (simp add: signature_hash_V2 del: Transaction_signature_hash.simps(3))
  ultimately show thesis by (intro that) simp_all
qed

text \<open>The parts of a signed transaction.\<close>

definition signed_transaction ::
  "('s, 'p, 'z) dalek_scheme \<Rightarrow> 'p SignableTransaction \<Rightarrow> 'p list \<Rightarrow> Output list \<Rightarrow> bytes \<Rightarrow> u64 \<Rightarrow> (Commitment \<times> EncryptedAmount) list \<Rightarrow>
   'p list \<Rightarrow> (Clsag \<times> 'p) list \<Rightarrow> 's Bulletproof \<Rightarrow> 's transaction" where
  "signed_transaction D intent kis tx_outs extra fee outs points sigs bp =
     V2 \<lparr>additional_timelock = Timelock_None, tx_inputs = inputs_of intent (map (Point_compress D) kis),
         tx_outputs = tx_outs, tx_extra = extra\<rparr>
       (Some \<lparr>proofs_base = \<lparr>rct_fee = fee, rct_pseudo_outs = [], rct_encrypted_amounts = map snd outs,
                             rct_commitments = map (Point_compress D) points\<rparr>,
              proofs_prunable = RctPrunable.Clsag (map fst sigs) (map (\<lambda>(_, pseudo_out). Point_compress D pseudo_out) sigs) bp\<rparr>)"

lemma sign_run:
  assumes "curve_laws D" and "amount_laws D" and "hashes_total D k" and "\<forall>data. length (k data) = 32"
    and "provers_total E" and "validate D k E tx = Some (Inr ())" and "Scalar_into D sender_spend_key = Some spend"
    and "\<forall>input \<in> set (st_inputs tx). spendable_input D spend input"
  obtains intent kis signs tx_outs extra fee outs points sigs bp msg m where
    "SignableTransaction_sign D k E tx fill_bytes rng sender_spend_key =
       Some (Inr (signed_transaction D intent kis tx_outs extra fee outs points sigs bp))"
    and "reordered D tx intent"
    and "list_all2 (\<lambda>input ki. input_key_image D k spend input = Some ki) (st_inputs intent) kis"
    and "key_images_sorted (map (Point_compress D) kis)"
    and "extra_of D k E tx = Some extra" and "outputs_of D k E tx (map (Point_compress D) kis) = Some tx_outs"
    and "commitments_and_encrypted_amounts D k E tx (map (Point_compress D) kis) = Some outs"
    and "those (map (\<lambda>(commitment, _). Commitment_commit D commitment) outs) = Some points"
    and "length tx_outs = length (st_payments tx)" and "length outs = length (st_payments tx)"
    and "\<forall>(_, enc) \<in> set outs. \<exists>b. enc = Compact b \<and> length b = 8"
    and "prove_bulletproof D k E tx (map fst outs) = Some bp" and "rct_fee_of D k E tx = Some fee"
    and "Transaction_signature_hash D k (signed_transaction D intent kis tx_outs extra fee outs points sigs bp) = Some msg"
    and "list_all2 (signing_of D spend) (st_inputs intent) signs"
    and "Clsag_sign D k fill_bytes rng signs m msg = Some (Inr sigs)"
    and "list_all2 (input_verifies D k msg) (zip (st_inputs intent) kis) sigs"
    and "sum_list (map snd sigs) = sum_list points + H_mul D (of_nat (unat fee))"
proof -
  obtain key_images intent kis signs where loop: "key_images_loop D k spend (st_inputs tx) = Some (Inr key_images)"
    and s: "with_key_images tx key_images = \<lparr>stk_intent = intent, stk_key_images = map (Point_compress D) kis\<rparr>"
    and kis: "list_all2 (\<lambda>input ki. input_key_image D k spend input = Some ki) (st_inputs intent) kis"
    and sorted: "key_images_sorted (map (Point_compress D) kis)" and r: "reordered D tx intent"
    and spendable: "\<forall>input \<in> set (st_inputs intent). spendable_input D spend input"
    and signs: "clsag_signs_loop D spend (st_inputs intent) = Some (Inr signs)"
      "list_all2 (signing_of D spend) (st_inputs intent) signs"
    by (rule sign_keys [OF assms(3,6,8)])
  obtain tx_outs extra outs points bp fee where
    "transaction_without_signatures D k E \<lparr>stk_intent = intent, stk_key_images = map (Point_compress D) kis\<rparr> =
       Some (V2 \<lparr>additional_timelock = Timelock_None, tx_inputs = inputs_of intent (map (Point_compress D) kis),
                 tx_outputs = tx_outs, tx_extra = extra\<rparr>
         (Some \<lparr>proofs_base = \<lparr>rct_fee = fee, rct_pseudo_outs = [], rct_encrypted_amounts = map snd outs,
                               rct_commitments = map (Point_compress D) points\<rparr>,
                proofs_prunable = RctPrunable.Clsag [] [] bp\<rparr>))"
    and run: "extra_of D k E tx = Some extra" "outputs_of D k E tx (map (Point_compress D) kis) = Some tx_outs"
      "length tx_outs = length (st_payments tx)"
      "commitments_and_encrypted_amounts D k E tx (map (Point_compress D) kis) = Some outs"
      "list_all2 (\<lambda>payment out. output_amount D k E tx payment = Some (amount (fst out))) (st_payments tx) outs"
    and masks: "\<forall>(c, _) \<in> set outs. \<exists>m. mask c = Scalar_from D m"
    and enc: "\<forall>(_, enc) \<in> set outs. \<exists>b. enc = Compact b \<and> length b = 8"
    and points: "those (map (\<lambda>(commitment, _). Commitment_commit D commitment) outs) = Some points"
    and bp: "prove_bulletproof D k E tx (map fst outs) = Some bp" and fee: "rct_fee_of D k E tx = Some fee"
    and sum: "sum_list (map unat (input_amounts tx)) = sum_list (map (\<lambda>out. unat (amount (fst out))) outs) + unat fee"
    by (rule transaction_total [OF assms(1,3,5,6) r, of "map (Point_compress D) kis"])
  then have tx: "transaction_without_signatures D k E \<lparr>stk_intent = intent, stk_key_images = map (Point_compress D) kis\<rparr> =
      Some (signed_transaction D intent kis tx_outs extra fee outs points [] bp)" by (simp add: signed_transaction_def)
  obtain ms where ms: "list_all2 (\<lambda>c m. mask c = Scalar_from D m) (map fst outs) ms"
    using masks_list [OF masks] by blast
  obtain msg where msg: "length msg = 32"
    "\<And>sigs. Transaction_signature_hash D k (signed_transaction D intent kis tx_outs extra fee outs points sigs bp) = Some msg"
    unfolding signed_transaction_def by (rule signature_hash_of_signed [OF assms(4)]) blast
  have "st_inputs intent \<noteq> []" using reordered_fields(6) [OF r] validate_ok(2) [OF assms(6)] by auto
  then obtain sigs where sigs: "Clsag_sign D k fill_bytes rng signs (Scalar_from D (sum_list ms)) msg = Some (Inr sigs)"
    "list_all2 (input_verifies D k msg) (zip (st_inputs intent) kis) sigs"
    "sum_list (map snd sigs) = edwards_mul D (sum_list ms) (ED25519_BASEPOINT_POINT D) +
      H_mul D (of_nat (sum_list (map (\<lambda>input. unat (amount (input_commitment input))) (st_inputs intent))))"
    by (rule sign_inputs [OF assms(1,3,2) msg(1) _ spendable signs(2) kis])
  have "sum_output_masks D k E intent (map (Point_compress D) kis) = Some (Scalar_from D (sum_list ms))"
    unfolding reordered_amounts [OF r] by (rule sum_output_masks_of [OF assms(1) run(4) ms])
  then have "SignableTransaction_sign D k E tx fill_bytes rng sender_spend_key =
      Some (Inr (signed_transaction D intent kis tx_outs extra fee outs points sigs bp))"
    using assms(7) loop signs(1) tx msg(2) [of "[]"] sigs(1) s
    by (simp add: SignableTransaction_sign_def Let_def signed_transaction_def del: Transaction_signature_hash.simps)
  moreover have "sum_list (map snd sigs) = sum_list points + H_mul D (of_nat (unat fee))"
    unfolding sigs(3) using sign_balance [OF assms(1,2) r points ms sum] by simp
  moreover have "length outs = length (st_payments tx)" using list_all2_lengthD [OF run(5)] by simp
  ultimately show thesis
    using r kis sorted run(1-4) points enc bp fee msg(2) signs(2) sigs(1,2) by (intro that) assumption+
qed

text \<open>C3. Signing a validated transaction whose inputs the sender's key spends returns a transaction. Its inputs are
  those given, in the order of their key images; each has a CLSAG which verifies, over the input's ring, key image and
  pseudo-out, the hash of this transaction; the pseudo-outs sum to the commitments with the fee; and the
  transaction's eventuality matches it.\<close>

theorem sign_transaction:
  assumes "curve_laws D" and "amount_laws D" and "hashes_total D keccak256" and "\<forall>data. length (keccak256 data) = 32"
    and "provers_total E" and "validate D keccak256 E tx = Some (Inr ())" and "Scalar_into D sender_spend_key = Some spend"
    and "\<forall>input \<in> set (st_inputs tx). spendable_input D spend input"
  shows "\<exists>inputs kis sigs prefix base bp points msg_hash signed.
    SignableTransaction_sign D keccak256 E tx fill_bytes rng sender_spend_key = Some (Inr signed) \<and>
    signed = V2 prefix (Some \<lparr>proofs_base = base,
      proofs_prunable = RctPrunable.Clsag (map fst sigs) (map (\<lambda>(_, pseudo_out). Point_compress D pseudo_out) sigs) bp\<rparr>) \<and>
    mset inputs = mset (st_inputs tx) \<and>
    list_all2 (\<lambda>input ki. input_key_image D keccak256 spend input = Some ki) inputs kis \<and>
    input_key_images (tx_inputs prefix) = Some (map (Point_compress D) kis) \<and>
    key_images_sorted (map (Point_compress D) kis) \<and>
    Transaction_signature_hash D keccak256 signed = Some msg_hash \<and>
    list_all2 (input_verifies D keccak256 msg_hash) (zip inputs kis) sigs \<and>
    rct_commitments base = map (Point_compress D) points \<and>
    sum_list (map snd sigs) = sum_list points + H_mul D (of_nat (unat (rct_fee base))) \<and>
    Eventuality_matches D keccak256 E tx (Transaction_into_pruned signed) = Some True"
proof -
  obtain intent kis tx_outs extra fee outs points sigs bp msg where
    signed: "SignableTransaction_sign D keccak256 E tx fill_bytes rng sender_spend_key =
       Some (Inr (signed_transaction D intent kis tx_outs extra fee outs points sigs bp))"
    and r: "reordered D tx intent"
    and kis: "list_all2 (\<lambda>input ki. input_key_image D keccak256 spend input = Some ki) (st_inputs intent) kis"
    and sorted: "key_images_sorted (map (Point_compress D) kis)"
    and run: "extra_of D keccak256 E tx = Some extra" "outputs_of D keccak256 E tx (map (Point_compress D) kis) = Some tx_outs"
      "commitments_and_encrypted_amounts D keccak256 E tx (map (Point_compress D) kis) = Some outs"
      "those (map (\<lambda>(commitment, _). Commitment_commit D commitment) outs) = Some points"
    and msg: "Transaction_signature_hash D keccak256 (signed_transaction D intent kis tx_outs extra fee outs points sigs bp) = Some msg"
    and verifies: "list_all2 (input_verifies D keccak256 msg) (zip (st_inputs intent) kis) sigs"
    and balance: "sum_list (map snd sigs) = sum_list points + H_mul D (of_nat (unat fee))"
    by (rule sign_run [OF assms])
  let ?prefix = "\<lparr>additional_timelock = Timelock_None, tx_inputs = inputs_of intent (map (Point_compress D) kis),
      tx_outputs = tx_outs, tx_extra = extra\<rparr>"
  let ?base = "\<lparr>rct_fee = fee, rct_pseudo_outs = [], rct_encrypted_amounts = map snd outs,
      rct_commitments = map (Point_compress D) points\<rparr>"
  have len: "length (map (Point_compress D) kis) = length (st_inputs intent)" using list_all2_lengthD [OF kis] by simp
  have kis_of: "input_key_images (tx_inputs ?prefix) = Some (map (Point_compress D) kis)"
    using input_key_images_of [OF len] by simp
  have "Eventuality_matches D keccak256 E tx
      (Transaction_into_pruned (signed_transaction D intent kis tx_outs extra fee outs points sigs bp)) = Some True"
    using Eventuality_matches_of [OF run kis_of] len reordered_fields(6) [OF r]
    by (simp add: prune_proofs_def signed_transaction_def)
  moreover have "rct_commitments ?base = map (Point_compress D) points" "rct_fee ?base = fee" by simp_all
  ultimately show ?thesis
    using signed reordered_fields(7) [OF r] kis kis_of sorted msg verifies balance unfolding signed_transaction_def by metis
qed

end
