(* ===== verification/Send_Weight.thy ===== *)
theory Send_Weight
  imports Send_Transaction
begin

text \<open>
  The weight a transaction is predicted to have, before it is signed, from a transaction of the same shape: it is
  computed without panicking, does not depend on the order of the payments, and is that of the transaction made.
\<close>

subsection \<open>The weight of a transaction, from its shape\<close>

definition clawback :: "bool \<Rightarrow> nat \<Rightarrow> nat" where
  "clawback bpp n = (case calculate_clawback bpp n of Some (c, _) \<Rightarrow> c | None \<Rightarrow> 0)"

definition bp_size :: "bool \<Rightarrow> nat \<Rightarrow> nat" where
  "bp_size bpp lr_len = (if bpp then 192 else 288) + 2 * length (dummy_lr lr_len)"

definition input_size :: "'p OutputWithDecoys \<Rightarrow> nat" where
  "input_size input = 34 + length (write_vec varint_write (decoy_offsets (owd_decoys input)))"

text \<open>The number of bytes of a transaction without its fee, and its penalty.\<close>

definition shape_weight :: "'p SignableTransaction \<Rightarrow> bool \<Rightarrow> nat \<Rightarrow> nat \<Rightarrow> nat" where
  "shape_weight tx bpp ring_len extra_len =
     (let n = length (st_payments tx); m = length (st_inputs tx)
      in 4 + length (varint_write (vec_len (st_inputs tx))) + sum_list (map input_size (st_inputs tx)) +
         length (varint_write (vec_len (st_payments tx))) + (if bpp then 75 else 74) * n +
         length (varint_write (word_of_nat extra_len :: usize)) + extra_len +
         bp_size bpp (6 + log2_find_loop n 0) + (32 * ring_len + 96) * m + clawback bpp n)"

definition input_shape :: "'p OutputWithDecoys \<Rightarrow> Input \<Rightarrow> bool" where
  "input_shape input i \<longleftrightarrow> (\<exists>ki. i = ToKey None (decoy_offsets (owd_decoys input)) ki \<and> wf_CompressedPoint ki)"

definition output_shape :: "bool \<Rightarrow> Output \<Rightarrow> bool" where
  "output_shape bpp out \<longleftrightarrow> out_amount out = None \<and> wf_CompressedPoint (out_key out) \<and> (out_view_tag out \<noteq> None \<longleftrightarrow> bpp)"

lemma length_varint_0 [simp]: "length (varint_write (0 :: 'a::len word)) = 1"
  by (simp add: varint_write_0)

lemma length_inputs:
  "list_all2 input_shape inputs is \<Longrightarrow> length (write_raw_vec Input_write is) = sum_list (map input_size inputs)"
  by (induction rule: list_all2_induct) (auto simp: input_shape_def input_size_def unwrap_or_0_def)

lemma length_outputs:
  assumes "\<forall>out \<in> set outs. output_shape bpp out"
  shows "length (write_raw_vec Output_write outs) = (if bpp then 35 else 34) * length outs"
  using assms
proof (induction outs)
  case (Cons out outs)
  have "length (Output_write out) = (if bpp then 35 else 34)"
    using Cons.prems by (auto simp: Output_write_def output_shape_def unwrap_or_0_def CompressedPoint_to_bytes_write)
  with Cons show ?case by simp
qed simp

lemma length_write_raw_vec_const:
  "\<forall>x \<in> set xs. length (f x) = n \<Longrightarrow> length (write_raw_vec f xs) = n * length xs"
  by (induction xs) simp_all

lemma clsag_rct_type:
  "RctProofs_rct_type \<lparr>proofs_base = base, proofs_prunable = RctPrunable.Clsag clsags pseudo_outs bp\<rparr> =
   (if is_plus bp then ClsagBulletproofPlus else ClsagBulletproof)"
  by (cases bp) (simp_all add: RctProofs_rct_type_def)

lemma Transaction_weight_shape:
  assumes "list_all2 input_shape (st_inputs tx) inputs"
    and "length outs = length (st_payments tx)" and "\<forall>out \<in> set outs. output_shape bpp out"
    and "length enc = length (st_payments tx)" and "\<forall>e \<in> set enc. \<exists>b. e = Compact b \<and> length b = 8"
    and "length com = length (st_payments tx)" and "\<forall>c \<in> set com. wf_CompressedPoint c"
    and "is_plus bp = bpp" and "length (Bulletproof_write D bp) = bp_size bpp (6 + log2_find_loop (length (st_payments tx)) 0)"
    and "length clsags = length (st_inputs tx)" and "\<forall>c \<in> set clsags. length (Clsag_write c) = 32 * ring_len + 64"
    and "length pos = length (st_inputs tx)" and "\<forall>c \<in> set pos. wf_CompressedPoint c"
  shows "Transaction_weight D
      (V2 \<lparr>additional_timelock = Timelock_None, tx_inputs = inputs, tx_outputs = outs, tx_extra = extra\<rparr>
        (Some \<lparr>proofs_base = \<lparr>rct_fee = fee, rct_pseudo_outs = [], rct_encrypted_amounts = enc, rct_commitments = com\<rparr>,
               proofs_prunable = RctPrunable.Clsag clsags pos bp\<rparr>)) =
    Some (shape_weight tx bpp ring_len (length extra) + length (varint_write fee))"
proof -
  have "\<forall>e \<in> set enc. length (EncryptedAmount_write e) = 8" using assms(5) by auto
  then have enc: "length (write_raw_vec EncryptedAmount_write enc) = 8 * length enc" by (rule length_write_raw_vec_const)
  have com: "length (write_raw_vec CompressedPoint_write com) = 32 * length com"
    "length (write_raw_vec CompressedPoint_write pos) = 32 * length pos"
    using assms(7,13) by (auto intro!: length_write_raw_vec_const)
  have clsags: "length (write_raw_vec Clsag_write clsags) = (32 * ring_len + 64) * length clsags"
    using assms(11) by (rule length_write_raw_vec_const)
  obtain c k where "calculate_clawback bpp (length (st_payments tx)) = Some (c, k)"
    using calculate_clawback_cases by blast
  moreover have "length inputs = length (st_inputs tx)" using list_all2_lengthD [OF assms(1)] by simp
  moreover have "length (varint_write (2 :: u8)) = 1"
    by (simp add: varint_write_def varint_write_loop_small into_u64_def)
  ultimately show ?thesis
    using assms(2,4,6,8,9,10,12)
    by (cases bpp) (simp_all add: Transaction_weight_def Let_def clsag_rct_type TransactionPrefix_write_def write_vec_def vec_len_def
        length_inputs [OF assms(1)] length_outputs [OF assms(3)] enc com clsags NotPruned_def RctProofs_write_def RctBase_write_def
        shape_weight_def clawback_def algebra_simps)
qed

subsection \<open>The predicted weight\<close>

text \<open>The encoding of zero is 32 zeroes.\<close>

definition zero_law :: "('s::zero, 'p, 'z) dalek_scheme \<Rightarrow> bool" where
  "zero_law D \<longleftrightarrow> scalar_to_bytes D 0 = replicate 32 0"

lemma dummy_lr_vec:
  "dummy_lr n = write_vec CompressedPoint_write (replicate n (CompressedPoint dummy_point))"
  by (simp add: dummy_lr_def write_vec_def vec_len_def write_raw_vec_concat)

lemma MAX_LR_10: "MAX_LR = 10"
  by (simp add: MAX_LR_def LOG_COMMITMENT_BITS_def COMMITMENT_BITS_def MAX_COMMITMENTS_def ilog2_def upt_conv_Cons)

lemma dummy_bulletproof_total:
  fixes D :: "('s::comm_ring_1, 'p::ab_group_add, 'z) dalek_scheme"
  assumes "curve_laws D" and "zero_law D" and "canonical_scalars D" and "rct_ring_len rct_type \<noteq> None" and "n \<le> MAX_LR"
  obtains bp where "dummy_bulletproof D rct_type n = Some bp" and "is_plus bp = (rct_type = ClsagBulletproofPlus)"
    and "length (Bulletproof_write D bp) = bp_size (rct_type = ClsagBulletproofPlus) n"
proof -
  let ?P = "CompressedPoint dummy_point" and ?L = "replicate n (CompressedPoint dummy_point)"
  let ?plus = "Plus \<lparr>bpp_A = ?P, bpp_wip = \<lparr>wip_L = ?L, wip_R = ?L, wip_A = ?P, wip_B = ?P,
      wip_r_answer = 0, wip_s_answer = 0, wip_delta_answer = 0\<rparr>\<rparr> :: 's Bulletproof"
  let ?orig = "Bulletproof.Original \<lparr>bp_A = ?P, bp_S = ?P, bp_T1 = ?P, bp_T2 = ?P, bp_tau_x = 0, bp_mu = 0,
      bp_t_hat = 0, bp_ip = \<lparr>ip_L = ?L, ip_R = ?L, ip_a = 0, ip_b = 0\<rparr>\<rparr> :: 's Bulletproof"
  have "MAX_LR < 2 ^ 64" by (simp add: MAX_LR_10)
  then have wf: "wf_vec wf_CompressedPoint (Some MAX_LR) ?L" "wf_CompressedPoint ?P" "wf_dalek_scalar D 0"
    using assms(1,5) by (simp_all add: wf_vec_def fits_usize_def list_all_iff dummy_point_def curve_laws_def)
  have zero: "dummy_scalar = scalar_to_bytes D 0" using assms(2) by (simp add: dummy_scalar_def zero_law_def)
  have len: "length (scalar_to_bytes D 0) = 32" "length dummy_point = 32"
    using curve_scalar(2) [OF assms(1)] by (simp_all add: dummy_point_def)
  have rep: "concat (replicate 2 x) = x @ x" "concat (replicate 3 x) = x @ x @ x" "concat (replicate 4 x) = x @ x @ x @ x" for x :: bytes
    by (simp_all add: numeral_eq_Suc)
  have plus: "Bulletproof_read_plus D (concat (replicate 3 dummy_point) @ concat (replicate 3 dummy_scalar) @
      dummy_lr n @ dummy_lr n) = Inr (?plus, [])"
    by (subst Bulletproof_read_plus_iff [OF assms(3)]) (use wf in \<open>simp add: Bulletproof_write_def dummy_lr_vec rep zero\<close>)
  have orig: "Bulletproof_read D (concat (replicate 4 dummy_point) @ concat (replicate 2 dummy_scalar) @
      dummy_lr n @ dummy_lr n @ concat (replicate 3 dummy_scalar)) = Inr (?orig, [])"
    by (subst Bulletproof_read_iff [OF assms(3)]) (use wf in \<open>simp add: Bulletproof_write_def dummy_lr_vec rep zero\<close>)
  show thesis
  proof (cases "rct_type = ClsagBulletproofPlus")
    case True
    then show ?thesis
      using plus len by (intro that [of ?plus]) (simp_all add: dummy_bulletproof_def Bulletproof_write_def bp_size_def dummy_lr_vec)
  next
    case False
    then have "rct_type = ClsagBulletproof" using assms(4) by (cases rct_type) auto
    then show ?thesis
      using orig len by (intro that [of ?orig]) (simp_all add: dummy_bulletproof_def Bulletproof_write_def bp_size_def dummy_lr_vec)
  qed
qed

lemma log2_find_loop_le: "n \<le> 2 ^ k \<Longrightarrow> l \<le> k \<Longrightarrow> log2_find_loop n l \<le> k"
proof (induction n l rule: log2_find_loop.induct)
  case (1 n l)
  show ?case
  proof (cases "2 ^ l < n")
    case True
    then have "(2 :: nat) ^ l < 2 ^ k" using 1(2) by linarith
    then have "l + 1 \<le> k" using power_less_imp_less_exp [of 2 l k] by simp
    then have "log2_find_loop n (l + 1) \<le> k" by (rule 1(1) [OF True 1(2)])
    then show ?thesis using True by (subst log2_find_loop.simps) simp
  next
    case False
    then show ?thesis using 1(3) by (subst log2_find_loop.simps) simp
  qed
qed

lemma outputs_of_shape:
  assumes "curve_laws D" and "outputs_of D k E tx kis = Some outs"
  shows "\<forall>out \<in> set outs. output_shape (st_rct_type tx = ClsagBulletproofPlus) out"
proof -
  have tags: "rct_view_tags rct = Some tagged \<Longrightarrow> tagged = (rct = ClsagBulletproofPlus)" for rct tagged
    by (cases rct) auto
  obtain ds where ds: "shared_key_derivations D k E tx kis = Some ds"
    using assms(2) by (auto simp: outputs_of_def bind_eq_Some_conv)
  note run = assms(2) [unfolded outputs_of_def ds bind.bind_lunit]
  show ?thesis
  proof
    fix out assume "out \<in> set outs"
    from bspec [OF those_range [OF run] this] tags curve_point(2) [OF assms(1)]
    show "output_shape (st_rct_type tx = ClsagBulletproofPlus) out"
      by (auto simp: bind_eq_Some_conv output_shape_def Point_compress_def split: if_splits)
  qed
qed

text \<open>What the program relies on of the curve, of Keccak-256 and of the encodings of scalars.\<close>

definition send_laws :: "('s::comm_ring_1, 'p::ab_group_add, 'z) dalek_scheme \<Rightarrow> (bytes \<Rightarrow> bytes) \<Rightarrow> bool" where
  "send_laws D keccak256 \<longleftrightarrow>
     curve_laws D \<and> hashes_total D keccak256 \<and> zero_law D \<and> canonical_scalars D \<and> (\<forall>data. length (keccak256 data) = 32)"

definition predicted_weight ::
  "('s::comm_ring_1, 'p::ab_group_add, 'z) dalek_scheme \<Rightarrow> (bytes \<Rightarrow> bytes) \<Rightarrow> 'p SignableTransaction \<Rightarrow> nat" where
  "predicted_weight D keccak256 tx =
     shape_weight tx (st_rct_type tx = ClsagBulletproofPlus) (case rct_ring_len (st_rct_type tx) of Some n \<Rightarrow> n | None \<Rightarrow> 0)
       (extra_size tx (list_ex (has_payment_id D keccak256) (st_payments tx) \<or> length (st_payments tx) = 2))"

lemma base_weight_total:
  assumes "send_laws D k" and "sendable D k tx" and "length (st_payments tx) \<le> MAX_COMMITMENTS"
  shows "base_weight D k E tx = Some (predicted_weight D k tx)"
proof -
  have laws: "curve_laws D" "hashes_total D k" "zero_law D" "canonical_scalars D" "\<forall>data. length (k data) = 32"
    using assms(1) by (simp_all add: send_laws_def)
  let ?G = "map (\<lambda>_. CompressedPoint_G D) (st_inputs tx)"
  let ?lr = "6 + log2_find_loop (length (st_payments tx)) 0"
  obtain ring_len where ring: "rct_ring_len (st_rct_type tx) = Some ring_len" using assms(2) by (auto simp: sendable_def)
  have "log2_find_loop (length (st_payments tx)) 0 \<le> 4"
    using assms(3) by (intro log2_find_loop_le) (simp_all add: MAX_COMMITMENTS_def)
  then obtain bp where bp: "dummy_bulletproof D (st_rct_type tx) ?lr = Some bp"
    "is_plus bp = (st_rct_type tx = ClsagBulletproofPlus)"
    "length (Bulletproof_write D bp) = bp_size (st_rct_type tx = ClsagBulletproofPlus) ?lr"
    using dummy_bulletproof_total [OF laws(1,3,4), of "st_rct_type tx" ?lr] ring by (auto simp: MAX_LR_10)
  obtain outs where outs: "outputs_of D k E tx ?G = Some outs" "length outs = length (st_payments tx)"
    by (rule outputs_total [OF laws(1,2) assms(2)])
  obtain extra where extra: "extra_of D k E tx = Some extra"
    "length extra = extra_size tx (list_ex (has_payment_id D k) (st_payments tx) \<or> length (st_payments tx) = 2)"
    by (rule extra_total [OF laws(1) assms(2) laws(5)])
  have G: "wf_CompressedPoint (CompressedPoint_G D)"
    using curve_point(2) [OF laws(1)] by (simp add: CompressedPoint_G_def Point_compress_def)
  have "list_all2 input_shape (st_inputs tx) (inputs_of tx ?G)"
    unfolding inputs_of_const list_all2_map2 using G by (auto simp: input_shape_def intro: list_all2_refl)
  then have weight: "Transaction_weight D
      (V2 \<lparr>additional_timelock = Timelock_None, tx_inputs = inputs_of tx ?G, tx_outputs = outs, tx_extra = extra\<rparr>
        (Some \<lparr>proofs_base = \<lparr>rct_fee = 0, rct_pseudo_outs = [], rct_encrypted_amounts = map (\<lambda>_. Compact (replicate 8 0)) (st_payments tx),
                 rct_commitments = map (\<lambda>_. CompressedPoint_G D) (st_payments tx)\<rparr>,
               proofs_prunable = RctPrunable.Clsag (map (\<lambda>_. \<lparr>clsag_D = CompressedPoint_G D, clsag_s = replicate ring_len Scalar_ZERO,
                                clsag_c1 = Scalar_ZERO\<rparr>) (st_inputs tx)) ?G bp\<rparr>)) =
    Some (shape_weight tx (st_rct_type tx = ClsagBulletproofPlus) ring_len (length extra) + length (varint_write (0 :: u64)))"
    using outs outputs_of_shape [OF laws(1) outs(1)] bp G
    by (intro Transaction_weight_shape) (auto simp: Clsag_write_def length_write_raw_vec_const [of _ _ 32] Scalar_ZERO_def)
  then show ?thesis
    using bp(1) ring outs(1) extra by (simp add: base_weight_def Let_def predicted_weight_def)
qed

subsection \<open>The order of the payments\<close>

text \<open>The fee is found among those of the possible lengths, as no \<open>u64\<close> takes more bytes than the longest.\<close>

lemma find_fee_total:
  "fees \<noteq> [] \<Longrightarrow> 10 \<le> fee_len + (length fees - 1) \<Longrightarrow> find_fee base fee_len fees \<noteq> None"
proof (induction base fee_len fees rule: find_fee.induct)
  case (2 base fee_len possible_fee fees)
  have "varint_len (word_of_nat (min (unat possible_fee) (2 ^ 64 - 1)) :: u64) \<le> 10"
    using length_varint_write_bounds(2) [of "word_of_nat (min (unat possible_fee) (2 ^ 64 - 1)) :: u64"]
    by (simp add: length_varint_write)
  with 2 show ?case by (cases fees) auto
qed simp

lemma weight_and_fee_of_base:
  "base_weight D k E tx' = base_weight D k E tx \<Longrightarrow> st_fee_rate tx' = st_fee_rate tx \<Longrightarrow>
   weight_and_necessary_fee D k E tx' = weight_and_necessary_fee D k E tx"
  unfolding weight_and_necessary_fee_def by (simp only:)

lemma weight_and_fee_total:
  assumes "base_weight D k E tx = Some base" and "base + 10 < 2 ^ 64" and "wf_FeeRate (st_fee_rate tx)"
  obtains weight fee where "weight_and_necessary_fee D k E tx = Some (weight, fee)"
proof -
  let ?f = "\<lambda>weight. if weight < 2 ^ 64 then calculate_fee_from_weight (st_fee_rate tx) (word_of_nat weight) else None"
  let ?ws = "map (\<lambda>i. base + i) [LOWER_BOUND..<Suc (UPPER_BOUND TYPE(64))]"
  have fee: "\<exists>fee. calculate_fee_from_weight (st_fee_rate tx) w = Some fee" for w
    using calculate_fee_value [OF assms(3)] by blast
  have "\<exists>y. ?f w = Some y \<and> True" if "w \<in> set ?ws" for w
    using that assms(2) fee by auto
  then have "\<exists>fees. those (map ?f ?ws) = Some fees \<and> list_all2 (\<lambda>_ _. True) ?ws fees" by (rule those_total)
  then obtain fees where fees: "those (map ?f ?ws) = Some fees" "list_all2 (\<lambda>_ _. True) ?ws fees" by (elim exE conjE)
  have "length fees = 10" using list_all2_lengthD [OF fees(2)] by (simp add: LOWER_BOUND_def)
  then have "find_fee base 1 fees \<noteq> None" by (intro find_fee_total) auto
  with assms(1) fees(1) show thesis
    by (auto simp: weight_and_necessary_fee_def Let_def intro: that)
qed

lemma sum_list_perm: "mset xs = mset ys \<Longrightarrow> sum_list (map f xs) = (sum_list (map f ys) :: 'a::comm_monoid_add)"
  by (metis mset_map sum_mset_sum_list)

lemma list_ex_perm: "mset xs = mset ys \<Longrightarrow> list_ex P xs = list_ex P ys"
  using mset_eq_setD [of xs ys] by (simp add: list_ex_iff)

text \<open>The same transaction with its payments in another order.\<close>

definition permuted :: "'p SignableTransaction \<Rightarrow> 'p SignableTransaction \<Rightarrow> bool" where
  "permuted tx tx' \<longleftrightarrow> mset (st_payments tx) = mset (st_payments tx') \<and> tx' = tx\<lparr>st_payments := st_payments tx'\<rparr>"

lemma permuted_fields:
  assumes "permuted tx tx'"
  shows "st_rct_type tx' = st_rct_type tx" "st_outgoing_view_key tx' = st_outgoing_view_key tx"
    "st_inputs tx' = st_inputs tx" "st_data tx' = st_data tx" "st_fee_rate tx' = st_fee_rate tx"
    "length (st_payments tx') = length (st_payments tx)" "list_ex P (st_payments tx') = list_ex P (st_payments tx)"
    "set (st_payments tx') = set (st_payments tx)"
proof -
  have tx': "tx' = tx\<lparr>st_payments := st_payments tx'\<rparr>" and m: "mset (st_payments tx) = mset (st_payments tx')"
    using assms by (simp_all add: permuted_def)
  show "st_rct_type tx' = st_rct_type tx" "st_outgoing_view_key tx' = st_outgoing_view_key tx"
    "st_inputs tx' = st_inputs tx" "st_data tx' = st_data tx" "st_fee_rate tx' = st_fee_rate tx"
    by (subst tx', simp)+
  show "length (st_payments tx') = length (st_payments tx)" using m by (metis size_mset)
  show "list_ex P (st_payments tx') = list_ex P (st_payments tx)" using m list_ex_perm by metis
  show "set (st_payments tx') = set (st_payments tx)" using mset_eq_setD [OF m] by simp
qed

lemma permuted_weight:
  assumes "permuted tx tx'"
  shows "sendable D k tx' = sendable D k tx" and "extra_size tx' pid = extra_size tx pid"
    and "predicted_weight D k tx' = predicted_weight D k tx"
    and "sum_list (map unat (payment_amounts tx')) = sum_list (map unat (payment_amounts tx))"
proof -
  note f = permuted_fields [OF assms]
  show "sendable D k tx' = sendable D k tx"
    unfolding sendable_def input_keys_and_commitments_def f ..
  show extra: "extra_size tx' pid = extra_size tx pid" for pid
    unfolding extra_size_def should_use_additional_keys_def has_payments_to_subaddresses_def vec_len_def f ..
  show "predicted_weight D k tx' = predicted_weight D k tx"
    unfolding predicted_weight_def shape_weight_def Let_def extra vec_len_def f ..
  have "mset (st_payments tx') = mset (st_payments tx)" using assms by (simp add: permuted_def)
  then have "mset (payment_amounts tx') = mset (payment_amounts tx)"
    unfolding payment_amounts_def mset_concat map_map by (rule sum_list_perm)
  then have "mset (map unat (payment_amounts tx')) = mset (map unat (payment_amounts tx))" by simp
  then show "sum_list (map unat (payment_amounts tx')) = sum_list (map unat (payment_amounts tx))"
    by (metis sum_mset_sum_list)
qed

lemma validate_funds_cong:
  assumes "sum_list (map unat (payment_amounts tx')) = sum_list (map unat (payment_amounts tx))" and "st_inputs tx' = st_inputs tx"
  shows "validate_funds tx' w = validate_funds tx w"
  unfolding validate_funds_def input_amounts_def assms ..

lemma payment_id_count_perm:
  assumes "permuted tx tx'"
  shows "payment_id_count D k tx = Some n \<Longrightarrow> payment_id_count D k tx' = Some n"
proof -
  assume "payment_id_count D k tx = Some n"
  then obtain addrs where run: "those (map (InternalPayment_address D k) (st_payments tx)) = Some addrs"
    and n: "n = length (filter (\<lambda>addr. AddressType_payment_id (addr_kind addr) \<noteq> None) addrs)"
    by (auto simp: payment_id_count_def)
  have m: "mset (st_payments tx) = mset (st_payments tx')" using assms by (simp add: permuted_def)
  obtain addrs' where run': "those (map (InternalPayment_address D k) (st_payments tx')) = Some addrs'" "mset addrs' = mset addrs"
    by (rule those_perm [OF m run])
  have "length (filter (\<lambda>addr. AddressType_payment_id (addr_kind addr) \<noteq> None) addrs') = n"
    unfolding n using run'(2) by (metis mset_filter size_mset)
  then show "payment_id_count D k tx' = Some n" using run'(1) by (simp add: payment_id_count_def)
qed

lemma validate_permuted:
  assumes "send_laws D k" and "permuted tx tx'" and "validate D k E tx = Some (Inr ())"
  shows "validate D k E tx' = Some (Inr ())"
proof -
  note f = permuted_fields [OF assms(2)] and v = validate_ok [OF assms(3)]
  have laws: "curve_laws D" "\<forall>data. length (k data) = 32" using assms(1) by (simp_all add: send_laws_def)
  have sendable: "sendable D k tx" "sendable D k tx'"
    using validate_sendable [OF assms(3)] permuted_weight(1) [OF assms(2), of D k] by simp_all
  let ?pid = "\<lambda>tx. list_ex (has_payment_id D k) (st_payments tx) \<or> length (st_payments tx) = 2"
  obtain extra extra' where extra: "extra_of D k E tx = Some extra" "length extra = extra_size tx (?pid tx)"
    and extra': "extra_of D k E tx' = Some extra'" "length extra' = extra_size tx' (?pid tx')"
    using extra_total [OF laws(1) sendable(1) laws(2)] extra_total [OF laws(1) sendable(2) laws(2)] by metis
  have base: "base_weight D k E tx' = base_weight D k E tx"
    using base_weight_total [OF assms(1) sendable(1) v(7), of E] base_weight_total [OF assms(1) sendable(2), of E]
      v(7) f(6) permuted_weight(3) [OF assms(2), of D k] by simp
  have weight: "weight_and_necessary_fee D k E tx' = weight_and_necessary_fee D k E tx"
    by (rule weight_and_fee_of_base [OF base f(5)])
  have funds: "validate_funds tx' = validate_funds tx"
    using validate_funds_cong [OF permuted_weight(4) [OF assms(2)] f(3)] by (rule ext)
  have filter: "length (filter (\<lambda>payment. \<not> is_Payment payment) (st_payments tx')) =
      length (filter (\<lambda>payment. \<not> is_Payment payment) (st_payments tx))"
    using assms(2) unfolding permuted_def by (metis mset_filter size_mset)
  have "length extra' = length extra" using extra(2) extra'(2) permuted_weight(2) [OF assms(2)] f(6,7) by simp
  then have size: "Option.bind (extra_of D k E tx') (\<lambda>e. if m < length e then a else b) =
      Option.bind (extra_of D k E tx) (\<lambda>e. if m < length e then a else b)" for m and a b :: "(SendError + unit) option"
    using extra(1) extra'(1) by simp
  have count: "payment_id_count D k tx' = payment_id_count D k tx"
    using assms(3) payment_id_count_perm [OF assms(2)]
    by (auto simp: validate_def try_then_Inr bind_eq_Some_conv split: if_splits)
  have "validate D k E tx' = validate D k E tx"
    unfolding validate_def f weight funds filter count size ..
  with assms(3) show ?thesis by simp
qed

subsection \<open>Construction\<close>

lemma validate_funds_total: "\<exists>r. validate_funds tx w = Some r"
proof -
  obtain weight fee where w: "w = (weight, fee)" by (metis surj_pair)
  let ?out = "sum_list (map unat (payment_amounts tx)) + unat fee"
  have "u64_try_from (sum_list (map unat (payment_amounts tx))) \<noteq> None \<and> u64_try_from (unat fee) \<noteq> None"
    if "u64_try_from (min ?out (2 ^ 128 - 1)) \<noteq> None"
  proof -
    have "min ?out (2 ^ 128 - 1) < 2 ^ 64" using that by (simp add: u64_try_from_def split: if_splits)
    then have "?out < 2 ^ 64" by (simp add: min_def split: if_splits)
    then show ?thesis by (simp add: u64_try_from_def)
  qed
  then show ?thesis by (auto simp: w validate_funds_def Let_def split: option.splits)
qed

lemma validate_inputs_total: "rct_ring_len rct_type \<noteq> None \<Longrightarrow> \<exists>r. validate_inputs D rct_type inputs = Some r"
  by (induction inputs) auto

lemma payment_id_count_total:
  assumes "\<forall>payment \<in> set (st_payments tx). InternalPayment_address D k payment \<noteq> None"
  shows "\<exists>n. payment_id_count D k tx = Some n"
proof -
  have "\<exists>ys. those (map (InternalPayment_address D k) (st_payments tx)) = Some ys \<and> list_all2 (\<lambda>_ _. True) (st_payments tx) ys"
    by (rule those_total) (use assms in auto)
  then show ?thesis by (auto simp: payment_id_count_def)
qed

lemma validate_total:
  assumes "send_laws D k" and "input_keys_and_commitments D tx \<noteq> None" and "wf_FeeRate (st_fee_rate tx)"
    and "\<forall>payment \<in> set (st_payments tx). InternalPayment_address D k payment \<noteq> None"
    and "predicted_weight D k tx + 10 < 2 ^ 64"
  shows "\<exists>r. validate D k E tx = Some r"
proof (cases "rct_ring_len (st_rct_type tx) \<noteq> None \<and> list_ex is_Payment (st_payments tx) \<and>
    length (st_payments tx) \<le> MAX_COMMITMENTS")
  case True
  then have sendable: "sendable D k tx" using assms(2,4) by (simp add: sendable_def)
  have laws: "curve_laws D" "\<forall>data. length (k data) = 32" using assms(1) by (simp_all add: send_laws_def)
  obtain extra where "extra_of D k E tx = Some extra" by (rule extra_total [OF laws(1) sendable laws(2)])
  moreover obtain weight fee where "weight_and_necessary_fee D k E tx = Some (weight, fee)"
    using weight_and_fee_total [OF base_weight_total [OF assms(1) sendable] assms(5,3)] True by blast
  moreover obtain r where "validate_funds tx (weight, fee) = Some r" using validate_funds_total by blast
  moreover obtain s where "validate_inputs D (st_rct_type tx) (st_inputs tx) = Some s"
    using validate_inputs_total True by blast
  moreover obtain n where "payment_id_count D k tx = Some n" using payment_id_count_total [OF assms(4)] by blast
  ultimately show ?thesis by (cases s) (auto simp: validate_def try_then_def)
next
  case False
  obtain n where n: "payment_id_count D k tx = Some n" using payment_id_count_total [OF assms(4)] by blast
  show ?thesis
  proof (cases "rct_ring_len (st_rct_type tx) = None")
    case supported: False
    then obtain s where "validate_inputs D (st_rct_type tx) (st_inputs tx) = Some s"
      using validate_inputs_total by blast
    with n False supported show ?thesis by (cases s) (auto simp: validate_def try_then_def)
  qed (simp add: validate_def)
qed

text \<open>C7. Constructing a transaction to be signed does not panic, whatever was asked for: it gives an error, or the
  inputs, payments, change and data asked for, with the payments and the change in some order, in a
  transaction which still passes validation in that order.\<close>

theorem signable_transaction_new:
  assumes "send_laws D keccak256" and "\<forall>rng payments. mset (rand_shuffle E rng payments) = mset payments"
    and "asked = \<lparr>st_rct_type = rct_type, st_outgoing_view_key = outgoing_view_key, st_inputs = inputs,
      st_payments = map (\<lambda>(addr, amt). Payment addr amt) payments @
        (case change of Change (Some change) \<Rightarrow> [ChangePayment change] | Change None \<Rightarrow> []),
      st_data = data, st_fee_rate = fee_rate\<rparr>"
    and "input_keys_and_commitments D asked \<noteq> None" and "wf_FeeRate fee_rate"
    and "\<forall>payment \<in> set (st_payments asked). InternalPayment_address D keccak256 payment \<noteq> None"
    and "predicted_weight D keccak256 asked + 10 < 2 ^ 64"
  shows "(\<exists>e. SignableTransaction_new D keccak256 E rct_type outgoing_view_key inputs payments change data fee_rate = Some (Inl e)) \<or>
    (\<exists>tx. SignableTransaction_new D keccak256 E rct_type outgoing_view_key inputs payments change data fee_rate = Some (Inr tx) \<and>
       permuted asked tx \<and> validate D keccak256 E tx = Some (Inr ()))"
proof -
  have new: "SignableTransaction_new D keccak256 E rct_type outgoing_view_key inputs payments change data fee_rate =
      try_then (validate D keccak256 E asked) (\<lambda>_.
      Option.bind (SignableTransaction_seeded_rng D keccak256 E asked (ascii ''shuffle_payments'')) (\<lambda>rng.
      Some (Inr (asked\<lparr>st_payments := rand_shuffle E rng (st_payments asked)\<rparr>))))"
    unfolding SignableTransaction_new_def Let_def assms(3) ..
  have "wf_FeeRate (st_fee_rate asked)" using assms(5) by (simp add: assms(3))
  then obtain r where r: "validate D keccak256 E asked = Some r"
    using validate_total [OF assms(1,4) _ assms(6,7)] by blast
  obtain keys where "input_keys_and_commitments D asked = Some keys" using assms(4) by blast
  moreover have "seeded_rng D keccak256 E (ascii ''shuffle_payments'') ovk keys \<noteq> None" for ovk
    by (simp add: seeded_rng_def ascii_def)
  ultimately obtain rng where rng: "SignableTransaction_seeded_rng D keccak256 E asked (ascii ''shuffle_payments'') = Some rng"
    by (auto simp: SignableTransaction_seeded_rng_def)
  show ?thesis
  proof (cases r)
    case (Inl e)
    then show ?thesis using new r by (simp add: try_then_def)
  next
    case (Inr u)
    let ?tx = "asked\<lparr>st_payments := rand_shuffle E rng (st_payments asked)\<rparr>"
    have p: "permuted asked ?tx" using assms(2) by (simp add: permuted_def)
    have "validate D keccak256 E asked = Some (Inr ())" using r Inr by simp
    from validate_permuted [OF assms(1) p this] show ?thesis using new r rng Inr p by simp
  qed
qed

end
