(* ===== verification/Send_Fee.thy ===== *)
theory Send_Fee
  imports Send_Sign Send_Weight
begin

text \<open>
  The weight of a signed transaction is what it was predicted to be from its shape, so that a transaction with change
  pays the fee rate for its own weight.
\<close>

subsection \<open>The size of a signature\<close>

lemma place_signer_s_keeps:
  "\<forall>x \<in> set s. length (Scalar_write x) = 32 \<Longrightarrow> length (Scalar_write v) = 32 \<Longrightarrow>
   length (place_signer_s i v is s) = length s \<and> (\<forall>x \<in> set (place_signer_s i v is s). length (Scalar_write x) = 32)"
proof (induction i v "is" s rule: place_signer_s.induct)
  case (2 i v j "is" s)
  then have "\<forall>x \<in> set (s[j := v]). length (Scalar_write x) = 32" by (metis insertE set_update_subset_insert subsetD)
  with 2 show ?case by auto
qed simp

lemma random_scalars_size:
  "curve_laws D \<Longrightarrow> \<forall>x \<in> set (fst (random_scalars D fill_bytes n rng)). length (Scalar_write x) = 32"
  by (induction n arbitrary: rng) (auto simp: Let_def split_def Scalar_random_def curve_scalar(2))

lemma sign_input_size:
  assumes "curve_laws D" and "sign_input D k fill_bytes rng input ki m msg_hash = Some (res, rng')"
  shows "length (Clsag_write (fst res)) = 32 * length (decoy_ring (ctx_decoys (snd input))) + 64"
proof -
  let ?n = "length (decoy_ring (ctx_decoys (snd input)))"
  obtain nonce_s rng1 where nonce: "Scalar_random D fill_bytes rng = (nonce_s, rng1)" by (metis surj_pair)
  obtain gen I where ki: "ki = (gen, I)" by (metis surj_pair)
  obtain s rng2 where s: "random_scalars D fill_bytes ?n rng1 = (s, rng2)" by (metis surj_pair)
  from assms(2) obtain A AH core rng3 v where core: "sign_core D k fill_bytes rng1 I (snd input) m msg_hash A AH = Some (core, rng3)"
    and r: "fst res = incomplete_clsag core\<lparr>clsag_s := place_signer_s (decoy_signer_index (ctx_decoys (snd input)))
          (Scalar_from D v) [0..<unat MAX_RING_SIZE + 1] (clsag_s (incomplete_clsag core))\<rparr>"
    by (auto simp: sign_input_def nonce ki bind_eq_Some_conv Let_def)
  from core obtain Dp c1 where "incomplete_clsag core = \<lparr>clsag_D = CompressedPoint (edwards_compress D Dp), clsag_s = s,
      clsag_c1 = Scalar_from D c1\<rparr>"
    by (auto simp: sign_core_def s bind_eq_Some_conv Let_def)
  with r have res: "fst res = \<lparr>clsag_D = CompressedPoint (edwards_compress D Dp),
      clsag_s = place_signer_s (decoy_signer_index (ctx_decoys (snd input))) (Scalar_from D v) [0..<unat MAX_RING_SIZE + 1] s,
      clsag_c1 = Scalar_from D c1\<rparr>" by simp
  have "length s = ?n" "\<forall>x \<in> set s. length (Scalar_write x) = 32"
    using length_random_scalars [of D fill_bytes ?n rng1] random_scalars_size [OF assms(1), of fill_bytes ?n rng1]
    by (simp_all add: s)
  with place_signer_s_keeps [of s "Scalar_from D v"] curve_scalar(2) [OF assms(1)]
  show ?thesis
    using curve_point(2) [OF assms(1)]
    by (simp add: res Clsag_write_def Scalar_from_def length_write_raw_vec_const [of _ _ 32])
qed

lemma sign_loop_size:
  assumes "curve_laws D" and "sign_loop D k fill_bytes rng masks acc msg_hash todo = Some res"
  shows "list_all2 (\<lambda>sig r. length (Clsag_write (fst r)) = 32 * length (decoy_ring (ctx_decoys (snd (fst sig)))) + 64) todo res"
  using assms(2)
proof (induction todo arbitrary: rng acc res)
  case (Cons sig todo)
  obtain input ki where sig: "sig = (input, ki)" by (metis surj_pair)
  with Cons.prems obtain rng1 rng2 m acc' r rest where
      run: "sign_input D k fill_bytes rng1 input ki m msg_hash = Some (r, rng2)"
    and rest: "sign_loop D k fill_bytes rng2 masks acc' msg_hash todo = Some rest" and res: "res = r # rest"
    by (auto simp: bind_eq_Some_conv split: if_splits prod.splits)
  from sign_input_size [OF assms(1) run] Cons.IH [OF rest] show ?case by (simp add: res sig)
qed simp

lemma Clsag_sign_size:
  assumes "curve_laws D" and "Clsag_sign D k fill_bytes rng signs m msg_hash = Some (Inr res)"
    and "\<forall>sig \<in> set signs. length (decoy_ring (ctx_decoys (snd sig))) = n"
  shows "\<forall>r \<in> set res. length (Clsag_write (fst r)) = 32 * n + 64"
proof -
  obtain images where none: "signs = [] \<longrightarrow> res = []" and some: "signs \<noteq> [] \<longrightarrow> (\<exists>x. Scalar_into D m = Some x \<and>
           sign_loop D k fill_bytes rng x 0 msg_hash (zip signs images) = Some res)"
    by (rule Clsag_sign_Inr [OF assms(2)])
  show ?thesis
  proof (cases "signs = []")
    case False
    then obtain x where "sign_loop D k fill_bytes rng x 0 msg_hash (zip signs images) = Some res" using some by blast
    then have sized: "list_all2 (\<lambda>sig r. length (Clsag_write (fst r)) = 32 * length (decoy_ring (ctx_decoys (snd (fst sig)))) + 64)
        (zip signs images) res" by (rule sign_loop_size [OF assms(1)])
    show ?thesis
    proof
      fix r assume "r \<in> set res"
      from list_all2_left_of [OF sized this] obtain sig where "sig \<in> set (zip signs images)"
        "length (Clsag_write (fst r)) = 32 * length (decoy_ring (ctx_decoys (snd (fst sig)))) + 64" by blast
      then show "length (Clsag_write (fst r)) = 32 * n + 64"
        using assms(3) by (metis prod.collapse set_zip_leftD)
    qed
  qed (simp add: none)
qed

subsection \<open>The weight of the signed transaction\<close>

text \<open>The proofs have the documented size, and are of the kind asked for.\<close>

definition provers_sized :: "('s, 'p, 'z) dalek_scheme \<Rightarrow> ('r, 's, 'p) send_env \<Rightarrow> bool" where
  "provers_sized D E \<longleftrightarrow>
     (\<forall>rng cs bp. bulletproof_prove E rng cs = Some bp \<longrightarrow>
        \<not> is_plus bp \<and> length (Bulletproof_write D bp) = bp_size False (6 + log2_find_loop (length cs) 0)) \<and>
     (\<forall>rng cs bp. bulletproof_prove_plus E rng cs = Some bp \<longrightarrow>
        is_plus bp \<and> length (Bulletproof_write D bp) = bp_size True (6 + log2_find_loop (length cs) 0))"

lemma prove_sized:
  assumes "provers_sized D E" and "prove_bulletproof D k E tx cs = Some bp"
  shows "is_plus bp = (st_rct_type tx = ClsagBulletproofPlus)"
    and "length (Bulletproof_write D bp) = bp_size (st_rct_type tx = ClsagBulletproofPlus) (6 + log2_find_loop (length cs) 0)"
  using assms by (cases "st_rct_type tx"; auto simp: prove_bulletproof_def provers_sized_def bind_eq_Some_conv)+

lemma validated_rings:
  "validate_inputs D rct_type inputs = Some (Inr ()) \<Longrightarrow> input \<in> set inputs \<Longrightarrow>
   rct_ring_len rct_type = Some (Decoys_len (owd_decoys input))"
  by (induction inputs) (auto simp: bind_eq_Some_conv split: if_splits)

lemma signed_rings:
  assumes "validate D k E tx = Some (Inr ())" and "\<forall>input \<in> set (st_inputs tx). spendable_input D spend input"
    and "rct_ring_len (st_rct_type tx) = Some n" and "reordered D tx intent" and "list_all2 (signing_of D spend) (st_inputs intent) signs"
  shows "\<forall>sig \<in> set signs. length (decoy_ring (ctx_decoys (snd sig))) = n"
proof
  fix sig assume "sig \<in> set signs"
  from list_all2_left_of [OF assms(5) this] obtain input where input: "input \<in> set (st_inputs intent)" "signing_of D spend input sig"
    by blast
  then have "input \<in> set (st_inputs tx)" using mset_eq_setD [OF reordered_fields(7) [OF assms(4)]] by simp
  then show "length (decoy_ring (ctx_decoys (snd sig))) = n"
    using validated_rings [OF validate_ok(4) [OF assms(1)]] assms(2,3) input(2)
    by (fastforce simp: signing_of_def spendable_input_def wf_Decoys_def Decoys_len_def)
qed

lemma reordered_shape:
  assumes "reordered D tx intent"
  shows "shape_weight intent bpp n e = shape_weight tx bpp n e"
proof -
  have "sum_list (map input_size (st_inputs intent)) = sum_list (map input_size (st_inputs tx))"
    by (rule reordered_sum [OF assms])
  then show ?thesis unfolding shape_weight_def Let_def vec_len_def by (simp add: reordered_fields [OF assms])
qed

lemma inputs_of_shape:
  assumes "curve_laws D" and "length kis = length (st_inputs intent)"
  shows "list_all2 input_shape (st_inputs intent) (inputs_of intent (map (Point_compress D) kis))"
  using assms(2) curve_point(2) [OF assms(1)]
  by (simp add: inputs_of_def list_all2_conv_all_nth input_shape_def Point_compress_def)

text \<open>The weight is the predicted one with the bytes of the fee.\<close>

lemma signed_weight:
  assumes "send_laws D k" and "provers_sized D E" and "validate D k E tx = Some (Inr ())"
    and "\<forall>input \<in> set (st_inputs tx). spendable_input D spend input"
    and "reordered D tx intent" and "length kis = length (st_inputs intent)"
    and "extra_of D k E tx = Some extra" and "outputs_of D k E tx (map (Point_compress D) kis) = Some tx_outs"
    and "length tx_outs = length (st_payments tx)" and "length outs = length (st_payments tx)"
    and "\<forall>(_, enc) \<in> set outs. \<exists>b. enc = Compact b \<and> length b = 8"
    and "those (map (\<lambda>(commitment, _). Commitment_commit D commitment) outs) = Some points"
    and "prove_bulletproof D k E tx (map fst outs) = Some bp" and "list_all2 (signing_of D spend) (st_inputs intent) signs"
    and "Clsag_sign D k fill_bytes rng signs m msg = Some (Inr sigs)" and "length sigs = length (st_inputs intent)"
  shows "Transaction_weight D (signed_transaction D intent kis tx_outs extra fee outs points sigs bp) =
    Some (predicted_weight D k tx + length (varint_write fee))"
proof -
  have laws: "curve_laws D" "\<forall>data. length (k data) = 32" using assms(1) by (simp_all add: send_laws_def)
  let ?bpp = "st_rct_type tx = ClsagBulletproofPlus"
  obtain n where n: "rct_ring_len (st_rct_type tx) = Some n" using validate_ok(1) [OF assms(3)] by blast
  have clsags: "\<forall>c \<in> set (map fst sigs). length (Clsag_write c) = 32 * n + 64"
    using Clsag_sign_size [OF laws(1) assms(15) signed_rings [OF assms(3,4) n assms(5,14)]] by simp
  have len: "length points = length outs" using assms(12) by (simp add: those_all2 list_all2_lengthD)
  have wf: "wf_CompressedPoint (Point_compress D p)" for p using curve_point(2) [OF laws(1)] by (simp add: Point_compress_def)
  have "Transaction_weight D (signed_transaction D intent kis tx_outs extra fee outs points sigs bp) =
      Some (shape_weight intent ?bpp n (length extra) + length (varint_write fee))"
    unfolding signed_transaction_def
    using inputs_of_shape [OF laws(1) assms(6)] assms(9,10,11,16) outputs_of_shape [OF laws(1) assms(8)] clsags wf len
      prove_sized [OF assms(2,13)] reordered_fields(3) [OF assms(5)]
    by (intro Transaction_weight_shape) auto
  moreover have "predicted_weight D k tx = shape_weight tx ?bpp n (length extra)"
  proof -
    obtain extra' where "extra_of D k E tx = Some extra'"
      "length extra' = extra_size tx (list_ex (has_payment_id D k) (st_payments tx) \<or> length (st_payments tx) = 2)"
      by (rule extra_total [OF laws(1) validate_sendable [OF assms(3)] laws(2)])
    then show ?thesis using assms(7) n by (simp add: predicted_weight_def)
  qed
  ultimately show ?thesis by (simp add: reordered_shape [OF assms(5)])
qed


end
