(* ===== verification/Signable_Codec.thy ===== *)
theory Signable_Codec
  imports Send_Weight
begin

text \<open>
  Transactions to be signed as bytes (\<open>SignableTransaction::write\<close> and \<open>read\<close> of \<^verbatim>\<open>wallet/src/send/mod.rs\<close>). Addresses, change
  and payments are codecs in the sense of the Prelude, as everything else which the transaction contains is: a transaction
  is read from exactly the bytes it is written as, and only if it is valid. What validation accepts is within the bounds of the
  reader, so that what was written can be read.
\<close>

subsection \<open>Addresses and view pairs\<close>

lemma address_codec:
  assumes "hash32 k"
  shows "codec (\<lambda>a. the (write_address D k a)) (read_address D k) (wf_Address D)"
proof (rule codec_iffI)
  fix bs a rest
  obtain m st t n where n: "MONERO_BYTES = Some n" "NetworkedAddressBytes_new m st t = Some n" using monero_bytes by blast
  have b: "MONERO_ADDRESS_BYTES = NetworkedAddressBytes_to_const_generic n" by (simp only: MONERO_ADDRESS_BYTES_def n(1) option.case)
  obtain s where s: "Address_to_string D k MONERO_ADDRESS_BYTES a = Some s"
    using encode_total by (auto simp: Address_to_string_def encode_check_def)
  have iff: "from_str_with_unchecked_network D k MONERO_ADDRESS_BYTES str = Inr a \<longleftrightarrow> wf_Address D a \<and> str = s" for str
    using from_str_iff [OF assms n(2), of D str a] s unfolding b by auto
  have len: "wf_Address D a \<Longrightarrow> wf_vec (\<lambda>_. True) (Some Address_SIZE_UPPER_BOUND) s"
    using address_size_bound [OF assms _ s]
    by (auto simp: wf_vec_def fits_usize_def list_all_iff Address_SIZE_UPPER_BOUND_def CHECKSUMMED_UPPER_BOUND_def
        BASE_256_UPPER_BOUND_def UPPER_BOUND_def upper_bound_def)
  have parsed: "(case from_str_with_unchecked_network D k MONERO_ADDRESS_BYTES str of Inl _ \<Rightarrow> err (Other ''invalid address'')
        | Inr addr \<Rightarrow> ok addr) r = Inr (a, rest) \<longleftrightarrow> from_str_with_unchecked_network D k MONERO_ADDRESS_BYTES str = Inr a \<and> r = rest"
    for str r by (cases "from_str_with_unchecked_network D k MONERO_ADDRESS_BYTES str") auto
  have "read_address D k bs = Inr (a, rest) \<longleftrightarrow>
      (\<exists>str. from_str_with_unchecked_network D k MONERO_ADDRESS_BYTES str = Inr a \<and>
        wf_vec (\<lambda>_. True) (Some Address_SIZE_UPPER_BOUND) str \<and> bs = write_vec write_byte str @ rest)"
    by (auto simp: read_address_def and_then_eq_Inr codec.rd_iff [OF byte_codec.vec_codec] parsed)
  with iff len s show "read_address D k bs = Inr (a, rest) \<longleftrightarrow> wf_Address D a \<and> bs = the (write_address D k a) @ rest"
    by (auto simp: write_address_def)
qed

definition wf_change_pair :: "('s, 'p, 'z) dalek_scheme \<Rightarrow> 'p ViewPair \<times> SubaddressIndex option \<Rightarrow> bool" where
  "wf_change_pair D p \<longleftrightarrow>
     (case p of (view_pair, subaddress) \<Rightarrow>
        wf_Point D (vp_spend view_pair) \<and> is_torsion_free D (vp_spend view_pair) \<and> wf_Scalar D (vp_view view_pair) \<and>
        pred_option (\<lambda>index. SubaddressIndex_new (index_account index) (index_address index) = Some index) subaddress)"

lemma change_pair_codec:
  fixes D :: "('s, 'p, 'z) dalek_scheme"
  shows "codec (\<lambda>(view_pair, subaddress). write_change_pair D view_pair subaddress) (read_change_pair D msg) (wf_change_pair D)"
proof (rule codec_iffI)
  fix bs rest and p :: "'p ViewPair \<times> SubaddressIndex option"
  obtain vp sub where p: "p = (vp, sub)" by (cases p)
  let ?i = "case sub of Some i \<Rightarrow> i | None \<Rightarrow> \<lparr>index_account = 0, index_address = 0\<rparr>"
  have index: "SubaddressIndex_new a b = sub \<longleftrightarrow> a = index_account ?i \<and> b = index_address ?i \<and>
      pred_option (\<lambda>i. SubaddressIndex_new (index_account i) (index_address i) = Some i) sub" for a b
    by (cases sub) (auto simp: SubaddressIndex_new_def)
  have wr: "write_change_pair D vp sub = CompressedPoint_write (Point_compress D (vp_spend vp)) @ Scalar_write (vp_view vp) @
      to_le_bytes (index_account ?i) @ to_le_bytes (index_address ?i)"
    by (cases sub) (simp_all add: write_change_pair_def)
  show "read_change_pair D msg bs = Inr (p, rest) \<longleftrightarrow>
      wf_change_pair D p \<and> bs = (case p of (vp, sub) \<Rightarrow> write_change_pair D vp sub) @ rest"
  proof
    assume "read_change_pair D msg bs = Inr (p, rest)"
    then show "wf_change_pair D p \<and> bs = (case p of (vp, sub) \<Rightarrow> write_change_pair D vp sub) @ rest"
      unfolding p prod.case wr wf_change_pair_def
      by (auto simp: read_change_pair_def and_then_eq_Inr codec_iff u32_codec.rd_iff ViewPair_new_def index
          dest: decompress_wf [THEN iffD1, OF conjI] split: option.splits sum.splits if_splits)
  next
    assume "wf_change_pair D p \<and> bs = (case p of (vp, sub) \<Rightarrow> write_change_pair D vp sub) @ rest"
    then show "read_change_pair D msg bs = Inr (p, rest)"
      unfolding p prod.case wr wf_change_pair_def
      by (cases vp) (auto simp: read_change_pair_def and_then_def point_codec.rd_wr scalar_codec.rd_wr u32_codec.rd_wr
          ViewPair_new_def index dest: decompress_wf [THEN iffD2, OF conjI])
  qed
qed

subsection \<open>Payments\<close>

fun wf_InternalPayment :: "('s, 'p, 'z) dalek_scheme \<Rightarrow> 'p InternalPayment \<Rightarrow> bool" where
  "wf_InternalPayment D (Payment addr _) \<longleftrightarrow> wf_Address D addr"
| "wf_InternalPayment D (ChangePayment (AddressOnly addr)) \<longleftrightarrow> wf_Address D addr"
| "wf_InternalPayment D (ChangePayment (Standard view_pair subaddress)) \<longleftrightarrow> wf_change_pair D (view_pair, subaddress)"
| "wf_InternalPayment D (ChangePayment (Guaranteed view_pair subaddress)) \<longleftrightarrow>
     wf_change_pair D (guaranteed_pair view_pair, subaddress)"

lemma write_address_total: "\<exists>w. write_address D k a = Some w"
  using encode_total by (auto simp: write_address_def Address_to_string_def encode_check_def)

lemma write_payment_total: "\<exists>w. write_payment D k payment = Some w"
  by (cases "(D, k, payment)" rule: write_payment.cases) (use write_address_total in auto)

lemma payment_codec:
  fixes D :: "('s, 'p, 'z) dalek_scheme"
  assumes "hash32 k"
  shows "codec (\<lambda>p. the (write_payment D k p)) (read_payment D k) (wf_InternalPayment D)"
proof (rule codec_iffI)
  fix bs p rest
  obtain w where w: "\<And>a. write_address D k a = Some (w a)"
    using write_address_total [of D k] that [of "\<lambda>a. the (write_address D k a)"] by force
  have a: "wf_Address D a \<Longrightarrow> read_address D k (w a @ r) = Inr (a, r)" for a r
    using codec.rd_wr [OF address_codec [OF assms], of D a r] by (simp add: w)
  show "read_payment D k bs = Inr (p, rest) \<longleftrightarrow> wf_InternalPayment D p \<and> bs = the (write_payment D k p) @ rest"
  proof
    assume "read_payment D k bs = Inr (p, rest)"
    then show "wf_InternalPayment D p \<and> bs = the (write_payment D k p) @ rest"
      by (auto simp: read_payment_def and_then_eq_Inr read_byte_Inr codec.rd_iff [OF address_codec [OF assms]]
          codec.rd_iff [OF change_pair_codec] u64_codec.rd_iff w split: if_splits prod.splits)
  next
    assume "wf_InternalPayment D p \<and> bs = the (write_payment D k p) @ rest"
    then show "read_payment D k bs = Inr (p, rest)"
      by (cases "(D, k, p)" rule: write_payment.cases)
         (auto simp: read_payment_def and_then_def a
          codec.rd_wr [OF change_pair_codec, of _ "(_, _)", simplified] u64_codec.rd_wr w)
  qed
qed

subsection \<open>Transactions\<close>

definition wf_OutputWithDecoys :: "('s, 'p, 'z) dalek_scheme \<Rightarrow> 'p OutputWithDecoys \<Rightarrow> bool" where
  "wf_OutputWithDecoys D self \<longleftrightarrow> wf_OutputData D (owd_output self) \<and> wf_Decoys D (owd_decoys self)"

interpretation output_with_decoys_codec: codec "OutputWithDecoys_write D" "OutputWithDecoys_read D" "wf_OutputWithDecoys D" for D
proof (rule codec_iffI)
  fix bs rest and x :: "'b OutputWithDecoys"
  show "OutputWithDecoys_read D bs = Inr (x, rest) \<longleftrightarrow> wf_OutputWithDecoys D x \<and> bs = OutputWithDecoys_write D x @ rest"
    by (cases x) (auto simp: OutputWithDecoys_read_def OutputWithDecoys_write_def wf_OutputWithDecoys_def and_then_eq_Inr
        output_data_codec.rd_iff decoys_codec.rd_iff)
qed

text \<open>What the types of the fields promise. The bounds of the reader are not part of it.\<close>

definition wf_SignableTransaction :: "('s, 'p, 'z) dalek_scheme \<Rightarrow> 'p SignableTransaction \<Rightarrow> bool" where
  "wf_SignableTransaction D tx \<longleftrightarrow>
     length (st_outgoing_view_key tx) = 32 \<and> list_all (wf_OutputWithDecoys D) (st_inputs tx) \<and>
     list_all (wf_InternalPayment D) (st_payments tx) \<and> wf_FeeRate (st_fee_rate tx)"

definition within_bounds :: "'p SignableTransaction \<Rightarrow> bool" where
  "within_bounds tx \<longleftrightarrow>
     length (st_inputs tx) \<le> INPUTS_UPPER_BOUND \<and> length (st_payments tx) \<le> MAX_COMMITMENTS \<and>
     length (st_data tx) \<le> MAX_EXTRA_SIZE_BY_RELAY_RULE \<and>
     list_all (\<lambda>part. length part \<le> MAX_ARBITRARY_DATA_SIZE) (st_data tx)"

lemma SignableTransaction_write_parts:
  "SignableTransaction_write D k tx = Some ([RctType_to_u8 (st_rct_type tx)] @ st_outgoing_view_key tx @
     write_vec (OutputWithDecoys_write D) (st_inputs tx) @ write_vec (\<lambda>p. the (write_payment D k p)) (st_payments tx) @
     write_vec (write_vec write_byte) (st_data tx) @ FeeRate_write (st_fee_rate tx))"
proof -
  have "those (map (write_payment D k) ps) = Some (map (\<lambda>p. the (write_payment D k p)) ps)" for ps
  proof (induction ps)
    case (Cons p ps)
    then show ?case using write_payment_total [of D k p] by auto
  qed simp
  then show ?thesis by (simp add: SignableTransaction_write_def write_vec_def write_raw_vec_concat)
qed

lemma wf_vec_bounded: "b < 2 ^ 64 \<Longrightarrow> wf_vec P (Some b) xs \<longleftrightarrow> length xs \<le> b \<and> list_all P xs"
  by (auto simp: wf_vec_def fits_usize_def)

lemma reader_bounds:
  "INPUTS_UPPER_BOUND < 2 ^ 64" "MAX_COMMITMENTS < 2 ^ 64" "MAX_EXTRA_SIZE_BY_RELAY_RULE < 2 ^ 64" "MAX_ARBITRARY_DATA_SIZE < 2 ^ 64"
  by (simp_all add: INPUTS_UPPER_BOUND_def NON_MINER_INPUTS_UPPER_BOUND_def NON_MINER_SIZE_UPPER_BOUND_def
      NON_GEN_SIZE_LOWER_BOUND_def LOWER_BOUND_def MINER_INPUTS_def MAX_COMMITMENTS_def MAX_EXTRA_SIZE_BY_RELAY_RULE_def
      MAX_ARBITRARY_DATA_SIZE_def MAX_TX_EXTRA_NONCE_SIZE_def)

lemmas signable_vecs =
  output_with_decoys_codec.vec_codec [of _ "Some INPUTS_UPPER_BOUND"]
  codec.vec_codec [OF payment_codec, of _ _ "Some MAX_COMMITMENTS"]
  codec.vec_codec [OF byte_codec.vec_codec [of "Some MAX_ARBITRARY_DATA_SIZE"], of "Some MAX_EXTRA_SIZE_BY_RELAY_RULE"]

lemma SignableTransaction_read_iff:
  fixes D :: "('s::comm_ring_1, 'p::ab_group_add, 'z) dalek_scheme"
  assumes "hash32 k"
  shows "SignableTransaction_read D k E bs = Inr (tx, rest) \<longleftrightarrow>
    wf_SignableTransaction D tx \<and> within_bounds tx \<and> validate D k E tx = Some (Inr ()) \<and>
    bs = the (SignableTransaction_write D k tx) @ rest"
proof -
  let ?wf = "\<lambda>tx. length (st_outgoing_view_key tx) = 32 \<and> wf_vec (wf_OutputWithDecoys D) (Some INPUTS_UPPER_BOUND) (st_inputs tx) \<and>
      wf_vec (wf_InternalPayment D) (Some MAX_COMMITMENTS) (st_payments tx) \<and>
      wf_vec (wf_vec (\<lambda>_. True) (Some MAX_ARBITRARY_DATA_SIZE)) (Some MAX_EXTRA_SIZE_BY_RELAY_RULE) (st_data tx) \<and>
      wf_FeeRate (st_fee_rate tx)"
  have wf: "wf_SignableTransaction D tx \<and> within_bounds tx \<longleftrightarrow> ?wf tx"
    by (auto simp: wf_SignableTransaction_def within_bounds_def reader_bounds [THEN wf_vec_bounded] list_all_iff)
  have rct: "(case RctType_try_from b of None \<Rightarrow> err e | Some t \<Rightarrow> f t) r = Inr y \<longleftrightarrow> (\<exists>t. b = RctType_to_u8 t \<and> f t r = Inr y)"
    for b e r y and f :: "RctType \<Rightarrow> 'p SignableTransaction reader"
    by (cases "RctType_try_from b") (auto simp: RctType_try_from_iff [symmetric])
  have valid: "(case v of None \<Rightarrow> err e | Some (Inl x) \<Rightarrow> err (e' x) | Some (Inr _) \<Rightarrow> ok t) r = Inr y \<longleftrightarrow> v = Some (Inr ()) \<and> (t, r) = y"
    for v e e' r y and t :: "'p SignableTransaction" by (auto split: option.splits sum.splits)
  have "SignableTransaction_read D k E bs = Inr (tx, rest) \<longleftrightarrow> ?wf tx \<and> validate D k E tx = Some (Inr ()) \<and>
      bs = the (SignableTransaction_write D k tx) @ rest"
  proof
    assume "SignableTransaction_read D k E bs = Inr (tx, rest)"
    then show "?wf tx \<and> validate D k E tx = Some (Inr ()) \<and> bs = the (SignableTransaction_write D k tx) @ rest"
      by (auto simp: SignableTransaction_read_def SignableTransaction_write_parts and_then_eq_Inr read_byte_Inr Let_def
          bytes_codec.rd_iff fee_rate.rd_iff signable_vecs [THEN codec.rd_iff] payment_codec [OF assms, THEN codec.vec_codec, THEN codec.rd_iff]
          rct valid)
  next
    assume "?wf tx \<and> validate D k E tx = Some (Inr ()) \<and> bs = the (SignableTransaction_write D k tx) @ rest"
    moreover have "RctType_try_from (RctType_to_u8 t) = Some t" for t by (simp add: RctType_try_from_iff)
    ultimately show "SignableTransaction_read D k E bs = Inr (tx, rest)"
      by (cases tx) (simp add: SignableTransaction_read_def SignableTransaction_write_parts and_then_def Let_def bytes_codec.rd_wr
          fee_rate.rd_wr signable_vecs [THEN codec.rd_wr] payment_codec [OF assms, THEN codec.vec_codec, THEN codec.rd_wr])
  qed
  with wf show ?thesis by blast
qed

text \<open>What passes validation is within the bounds of the reader: its inputs by the weight they add, its data by the
  size of the extra.\<close>

lemma sum_list_ge_length: "\<forall>x \<in> set xs. n \<le> f x \<Longrightarrow> n * length xs \<le> sum_list (map f xs)" for f :: "'a \<Rightarrow> nat"
  by (induction xs) auto

lemma validate_data:
  assumes "validate D k E tx = Some (Inr ())"
  shows "list_all (\<lambda>part. length part \<le> MAX_ARBITRARY_DATA_SIZE) (st_data tx)"
  using assms by (auto simp: validate_def try_then_Inr bind_eq_Some_conv list_all_iff list_ex_iff not_less split: if_splits)

lemma validated_within_bounds:
  assumes "send_laws D k" and "validate D k E tx = Some (Inr ())"
  shows "within_bounds tx"
proof -
  have laws: "curve_laws D" "\<forall>data. length (k data) = 32" using assms(1) by (simp_all add: send_laws_def)
  have ok: "sendable D k tx" "length (st_payments tx) \<le> MAX_COMMITMENTS"
    using validate_sendable [OF assms(2)] validate_ok(7) [OF assms(2)] by simp_all
  obtain weight fee where "weight_and_necessary_fee D k E tx = Some (weight, fee)" "weight < MAX_TX_SIZE"
    using validate_ok(10) [OF assms(2)] by blast
  then have "predicted_weight D k tx < MAX_TX_SIZE"
    using base_weight_total [OF assms(1) ok, of E] by (auto elim!: weight_and_fee_Some)
  moreover have "34 * length (st_inputs tx) \<le> sum_list (map input_size (st_inputs tx))"
    by (rule sum_list_ge_length) (simp add: input_size_def)
  ultimately have "34 * length (st_inputs tx) < MAX_TX_SIZE" by (simp add: predicted_weight_def shape_weight_def Let_def)
  then have "length (st_inputs tx) \<le> INPUTS_UPPER_BOUND"
    by (simp add: MAX_TX_SIZE_def INPUTS_UPPER_BOUND_def NON_MINER_INPUTS_UPPER_BOUND_def NON_MINER_SIZE_UPPER_BOUND_def
        NON_GEN_SIZE_LOWER_BOUND_def LOWER_BOUND_def)
  moreover have "length (st_data tx) \<le> MAX_EXTRA_SIZE_BY_RELAY_RULE"
  proof -
    obtain extra where "extra_of D k E tx = Some extra" "length extra \<le> MAX_EXTRA_SIZE_BY_RELAY_RULE"
      using validate_ok(9) [OF assms(2)] by blast
    then have "extra_size tx (list_ex (has_payment_id D k) (st_payments tx) \<or> length (st_payments tx) = 2) \<le>
        MAX_EXTRA_SIZE_BY_RELAY_RULE" by (metis extra_total [OF laws(1) ok(1) laws(2)] option.inject)
    moreover have "1 * length (st_data tx) \<le>
        sum_list (map (\<lambda>part. length (ExtraField_write (Nonce (ARBITRARY_DATA_MARKER # part)))) (st_data tx))"
      by (rule sum_list_ge_length) simp
    ultimately show ?thesis by (simp add: extra_size_def)
  qed
  ultimately show ?thesis using ok(2) validate_data [OF assms(2)] by (simp add: within_bounds_def)
qed

text \<open>C8. A transaction to be signed can be stored: writing it does not panic, every valid one is read back from what was
  written, and whatever is read is a valid transaction, from exactly the bytes it is written as.\<close>

theorem signable_transaction_stored:
  assumes "send_laws D keccak256"
  shows "\<exists>w. SignableTransaction_write D keccak256 tx = Some w \<and>
    (SignableTransaction_read D keccak256 E bs = Inr (tx, rest) \<longleftrightarrow>
     wf_SignableTransaction D tx \<and> validate D keccak256 E tx = Some (Inr ()) \<and> bs = w @ rest)"
proof -
  have k: "hash32 keccak256" using assms by (simp add: send_laws_def hash32_def)
  obtain w where w: "SignableTransaction_write D keccak256 tx = Some w" using SignableTransaction_write_parts by blast
  show ?thesis
    using SignableTransaction_read_iff [OF k, of D E bs tx rest] validated_within_bounds [OF assms, of E tx] w by auto
qed

end
