(* ===== verification/Send_Scan.thy ===== *)
theory Send_Scan
  imports Send_Sign Signable_Codec
begin

text \<open>
  What is sent is received: the outputs of a signed transaction are found by the scanner of the wallet they were made for, be
  it the recipient of a payment, by an address or a subaddress, or the sender, by the change.
\<close>

subsection \<open>The keys in the extra\<close>

lemma nonces_bounded:
  assumes "\<forall>nonce \<in> set nonces. length nonce = 9" and "list_all (\<lambda>part. length part \<le> MAX_ARBITRARY_DATA_SIZE) data"
  shows "list_all wf_ExtraField (map Nonce nonces @ map (\<lambda>part. Nonce (ARBITRARY_DATA_MARKER # part)) data)"
  using assms by (auto simp: list_all_iff MAX_TX_EXTRA_NONCE_SIZE_def MAX_ARBITRARY_DATA_SIZE_def)

lemma extra_keys_of:
  assumes "curve_laws D" and "sendable D k tx" and "\<forall>data. length (k data) = 32"
    and "length (st_payments tx) \<le> MAX_COMMITMENTS" and "list_all (\<lambda>part. length part \<le> MAX_ARBITRARY_DATA_SIZE) (st_data tx)"
    and "extra_of D k E tx = Some extra" and "transaction_keys_pub D k E tx = Some (key, pubs)"
  shows "Extra_keys D (Extra_read extra) =
    Some ([key], if pubs = [] then None
      else Some (map (\<lambda>pub. case CompressedPoint_decompress D pub of None \<Rightarrow> 0 | Some point \<Rightarrow> point) pubs))"
proof -
  obtain key' pubs' where pub': "transaction_keys_pub D k E tx = Some (key', pubs')"
    "length pubs' = (if should_use_additional_keys tx then length (st_payments tx) else 0)"
    "\<forall>key \<in> set pubs'. wf_CompressedPoint key" by (rule transaction_keys_pub_total [OF assms(1,2)])
  then have pubs: "length pubs \<le> length (st_payments tx)" "\<forall>key \<in> set pubs. wf_CompressedPoint key" using assms(7) by simp_all
  obtain shared where ecdh: "ecdhs D k E tx = Some shared" "length shared = length (st_payments tx)"
    by (rule ecdhs_total [OF assms(1,2)])
  let ?xors = "map (payment_id_xor D k) shared"
  have "\<forall>xor \<in> set ?xors. length xor = 8" using assms(3) by (simp add: payment_id_xor_def)
  then obtain nonces where nonces: "payment_id_nonce D k tx ?xors = Some nonces" "\<forall>nonce \<in> set nonces. length nonce = 9"
    using payment_id_nonce_total [OF assms(2), of ?xors] ecdh(2) by (metis length_map)
  let ?nonces = "map Nonce nonces @ map (\<lambda>part. Nonce (ARBITRARY_DATA_MARKER # part)) (st_data tx)"
  let ?fields = "Extra_new (Point_compress D key) pubs @ ?nonces"
  have fold: "fold (\<lambda>nonce extra. Extra_push_nonce extra nonce) xs acc = acc @ map Nonce xs" for xs acc
    using fold_push_nonce [of "\<lambda>x. x"] by simp
  have extra: "extra = Extra_write ?fields"
    using assms(6,7) nonces(1) ecdh(1) by (simp add: extra_of_def payment_id_xors_def fold fold_push_nonce)
  have "fits_usize pubs" using pubs(1) assms(4) by (simp add: fits_usize_def MAX_COMMITMENTS_def)
  then have "list_all wf_ExtraField ?fields"
    using nonces_bounded [OF nonces(2) assms(5)] pubs(2) curve_point(2) [OF assms(1)]
    by (auto simp: Extra_new_def Point_compress_def list_all_iff)
  moreover have "filter is_Padding ?fields = []" by (auto simp: Extra_new_def filter_empty_conv)
  ultimately have "Extra_keys D (Extra_read extra) = Extra_keys D ?fields"
    by (simp add: extra Extra_read_written Extra_keys_sort)
  moreover have "keys_loop D (map Nonce xs @ map (\<lambda>part. Nonce (f part)) ys) acc = acc" for xs acc and ys :: "bytes list" and f
    by (induction xs arbitrary: acc; induction ys arbitrary: acc) auto
  ultimately show ?thesis
    using curve_point(1) [OF assms(1)] by (simp add: Extra_keys_def Extra_new_def Point_compress_def)
qed

subsection \<open>Whom a payment is to\<close>

text \<open>An address of the wallet with this view pair: its primary one (\<open>None\<close>) or a subaddress, of the kind its scanner scans for.\<close>

definition own_address ::
  "('s::comm_ring_1, 'p::ab_group_add, 'z) dalek_scheme \<Rightarrow> (bytes \<Rightarrow> bytes) \<Rightarrow> 'p ViewPair \<Rightarrow> bool \<Rightarrow>
   SubaddressIndex option \<Rightarrow> 'p Address \<Rightarrow> bool" where
  "own_address D keccak256 pair guaranteed sub addr \<longleftrightarrow>
     address_keys D keccak256 pair sub = Some (addr_spend addr, addr_view addr) \<and>
     (Address_is_subaddress addr \<longleftrightarrow> sub \<noteq> None) \<and> (AddressType_is_guaranteed (addr_kind addr) \<longleftrightarrow> guaranteed)"

fun pays_to ::
  "('s::comm_ring_1, 'p::ab_group_add, 'z) dalek_scheme \<Rightarrow> (bytes \<Rightarrow> bytes) \<Rightarrow> 'p ViewPair \<Rightarrow> bool \<Rightarrow>
   SubaddressIndex option \<Rightarrow> 'p InternalPayment \<Rightarrow> bool" where
  "pays_to D keccak256 pair guaranteed sub (Payment addr _) \<longleftrightarrow> own_address D keccak256 pair guaranteed sub addr"
| "pays_to D keccak256 pair guaranteed sub (ChangePayment (AddressOnly addr)) \<longleftrightarrow>
     own_address D keccak256 pair guaranteed sub addr"
| "pays_to D keccak256 pair guaranteed sub (ChangePayment (Standard view_pair subaddress)) \<longleftrightarrow>
     view_pair = pair \<and> subaddress = sub \<and> \<not> guaranteed"
| "pays_to D keccak256 pair guaranteed sub (ChangePayment (Guaranteed view_pair subaddress)) \<longleftrightarrow>
     guaranteed_pair view_pair = pair \<and> subaddress = sub \<and> guaranteed"

lemma own_addresses:
  shows "legacy_address D pair network = Some addr \<Longrightarrow> own_address D k pair False None addr"
    and "legacy_integrated_address D pair network pid = Some addr \<Longrightarrow> own_address D k pair False None addr"
    and "ViewPair_subaddress D k pair network index = Some addr \<Longrightarrow> own_address D k pair False (Some index) addr"
    and "GuaranteedViewPair_address D k (GuaranteedViewPair pair) network sub pid' = Some addr \<Longrightarrow>
      own_address D k pair True sub addr"
  by (auto simp: own_address_def address_keys_def legacy_address_def legacy_integrated_address_def ViewPair_subaddress_def
      GuaranteedViewPair_address_def Address_new_def Address_is_subaddress_def bind_eq_Some_conv split: option.splits)

lemma pays_to_address:
  assumes "pays_to D k pair guaranteed sub payment" and "InternalPayment_address D k payment = Some addr"
  shows "own_address D k pair guaranteed sub addr"
proof (cases "(D, k, pair, guaranteed, sub, payment)" rule: pays_to.cases)
  case (4 D k pair guaranteed sub view_pair subaddress)
  with assms own_addresses(4) show ?thesis by (cases view_pair) auto
qed (use assms own_addresses(1,3) in \<open>auto split: option.splits\<close>)

subsection \<open>The secret both compute\<close>

text \<open>Without additional keys, a payment to a subaddress is the only one, beside change of which the view key is known.\<close>

lemma only_payment:
  assumes "sendable D k tx" and "p \<in> set (st_payments tx)" and "\<not> is_change_with_view p"
    and "has_payments_to_subaddresses tx" and "\<not> should_use_additional_keys tx"
  shows "find is_Payment (st_payments tx) = Some p" and "is_payment_to_subaddress p"
proof -
  obtain a b where ab: "st_payments tx = [a, b]" and view: "is_change_with_view a \<or> is_change_with_view b"
    using assms(4,5) by (auto simp: should_use_additional_keys_def length_Suc_conv numeral_2_eq_2)
  have change: "is_change_with_view q \<Longrightarrow> \<not> is_Payment q \<and> \<not> is_payment_to_subaddress q" for q :: "'b InternalPayment"
    by (cases q rule: is_payment_to_subaddress.cases) simp_all
  show "find is_Payment (st_payments tx) = Some p" "is_payment_to_subaddress p"
    using assms(1-4) view change by (auto simp: ab sendable_def has_payments_to_subaddresses_def)
qed

lemma single_key:
  assumes "curve_laws D" and "sendable D k tx" and "p \<in> set (st_payments tx)" and "\<not> is_change_with_view p"
    and "InternalPayment_address D k p = Some addr" and "is_payment_to_subaddress p \<longleftrightarrow> sub \<noteq> None"
    and "\<not> (sub \<noteq> None \<and> should_use_additional_keys tx)"
    and "transaction_keys D k E tx = Some (Scalar_from D s, ks)" and "transaction_keys_pub D k E tx = Some (tx_key, pubs)"
  shows "tx_key = edwards_mul D s (address_generator D sub (addr_spend addr))"
proof -
  note pub = assms(9) [unfolded transaction_keys_pub_def assms(8)]
  show ?thesis
  proof (cases "has_payments_to_subaddresses tx \<and> \<not> should_use_additional_keys tx")
    case True
    note only = only_payment [OF assms(2-4)] True
    have "is_Payment p" using only by (metis find_Some_iff)
    then obtain amt where "p = Payment addr amt" using assms(5) by (cases p) simp_all
    then show ?thesis
      using pub only assms(6) curve_scalar(1) [OF assms(1)] by (auto simp: address_generator_def)
  next
    case False
    then have "sub = None" using assms(3,6,7) by (auto simp: has_payments_to_subaddresses_def list_ex_iff)
    then show ?thesis
      using pub False curve_scalar(1) [OF assms(1)] by (auto simp: address_generator_def bind_eq_Some_conv split: if_splits)
  qed
qed

lemma paid_ecdh:
  assumes "curve_laws D" and "sendable D k tx" and "is_torsion_free D (vp_spend pair)"
    and "i < length (st_payments tx)" and "pays_to D k pair guaranteed sub (st_payments tx ! i)"
    and "Scalar_into D (vp_view pair) = Some view"
    and "transaction_keys_pub D k E tx = Some (tx_key, pubs)" and "ecdhs D k E tx = Some shared"
  obtains key where "shared ! i = edwards_mul D view key"
    and "\<not> (should_use_additional_keys tx \<and> sub \<noteq> None) \<longrightarrow> key = tx_key"
    and "key = tx_key \<or> i < length pubs \<and> CompressedPoint_decompress D (pubs ! i) = Some key"
proof -
  let ?p = "st_payments tx ! i"
  have p: "?p \<in> set (st_payments tx)" using assms(4) by simp
  obtain s ks where keys: "transaction_keys D k E tx = Some (Scalar_from D s, map (Scalar_from D) ks)"
    and len: "length ks = (if should_use_additional_keys tx then length (st_payments tx) else 0)"
    by (rule transaction_keys_total [OF assms(2)])
  have "list_all2 (\<lambda>(i, payment) y. payment_ecdh D k (Scalar_from D s) (map (Scalar_from D) ks) tx_key i payment = Some y)
      (enumerate 0 (st_payments tx)) shared"
    using assms(7,8) by (simp add: ecdhs_def keys those_all2 case_prod_unfold)
  from list_all2_nthD [OF this, of i] assms(4)
  have ecdh: "payment_ecdh D k (Scalar_from D s) (map (Scalar_from D) ks) tx_key i ?p = Some (shared ! i)"
    by (simp add: nth_enumerate_eq)
  obtain addr where addr: "InternalPayment_address D k ?p = Some addr" using assms(2) p by (auto simp: sendable_def)
  have own: "address_keys D k pair sub = Some (addr_spend addr, addr_view addr)" "Address_is_subaddress addr \<longleftrightarrow> sub \<noteq> None"
    using pays_to_address [OF assms(5) addr] by (simp_all add: own_address_def)
  have agree: "edwards_mul D view (edwards_mul D r (address_generator D sub (addr_spend addr))) = edwards_mul D r (addr_view addr)" for r
    by (rule address_ecdh [OF assms(1,3,6) own(1)])
  show thesis
  proof (cases "is_change_with_view ?p")
    case True
    have "shared ! i = edwards_mul D view tx_key"
      using True ecdh assms(5,6) addr by (cases ?p rule: is_change_with_view.cases) (auto simp: payment_ecdh_def bind_eq_Some_conv)
    then show ?thesis by (intro that [of tx_key]) simp_all
  next
    case False
    let ?r = "if Address_is_subaddress addr \<and> should_use_additional_keys tx then ks ! i else s"
    have "shared ! i = edwards_mul D ?r (addr_view addr)"
      using False ecdh addr len assms(4) curve_scalar(1) [OF assms(1)]
      by (cases ?p rule: is_change_with_view.cases) (auto simp: payment_ecdh_def slice_get_def split: if_splits)
    then have shared: "shared ! i = edwards_mul D view (edwards_mul D ?r (address_generator D sub (addr_spend addr)))"
      by (simp only: agree)
    have to_sub: "is_payment_to_subaddress ?p \<longleftrightarrow> sub \<noteq> None"
      using False addr own(2) by (cases ?p rule: is_change_with_view.cases) auto
    note pub = assms(7) [unfolded transaction_keys_pub_def keys]
    show ?thesis
    proof (cases "sub \<noteq> None \<and> should_use_additional_keys tx")
      case True
      then have "list_all2 (\<lambda>x y. additional_key_pub D k x = Some y) (zip (map (Scalar_from D) ks) (st_payments tx)) pubs"
        using pub curve_scalar(1) [OF assms(1)] by (auto simp: bind_eq_Some_conv those_all2)
      from list_all2_nthD2 [OF this, of i] list_all2_lengthD [OF this] len True assms(4) addr own(2)
      have "i < length pubs" "pubs ! i = Point_compress D (edwards_mul D (ks ! i) (addr_spend addr))"
        using curve_scalar(1) [OF assms(1)] by auto
      then show ?thesis
        using shared True own(2) curve_point(1) [OF assms(1)]
        by (intro that [of "edwards_mul D (ks ! i) (addr_spend addr)"]) (auto simp: address_generator_def Point_compress_def)
    next
      case r: False
      have "tx_key = edwards_mul D s (address_generator D sub (addr_spend addr))"
        by (rule single_key [OF assms(1,2) p False addr to_sub r keys assms(7)])
      then show ?thesis using shared r own(2) by (intro that [of tx_key]) auto
    qed
  qed
qed

subsection \<open>The outputs\<close>

lemma enumerate_nth: "i < length xs \<Longrightarrow> enumerate 0 xs ! i = (i, xs ! i)"
  by (simp add: nth_enumerate_eq)

lemma sent_at:
  assumes "curve_laws D" and "hashes_total D k" and "sendable D k tx" and "i < length (st_payments tx)"
    and "InternalPayment_address D k (st_payments tx ! i) = Some addr" and "ecdhs D k E tx = Some shared"
    and "outputs_of D k E tx kis = Some tx_outs" and "commitments_and_encrypted_amounts D k E tx kis = Some outs"
  obtains d secret amt msk tagged where
    "output_derivations D k (if AddressType_is_guaranteed (addr_kind addr) then Some (uniqueness k (inputs_of tx kis)) else None)
       (shared ! i) (word_of_nat i) = Some d"
    and "Scalar_into D (shared_key d) = Some secret"
    and "tx_outs ! i = \<lparr>out_amount = None,
           out_key = Point_compress D (edwards_mul D secret (ED25519_BASEPOINT_POINT D) + addr_spend addr),
           out_view_tag = if tagged then Some (view_tag d) else None\<rparr>"
    and "output_amount D k E tx (st_payments tx ! i) = Some amt" and "commitment_mask D k d = Some msk"
    and "outs ! i = (\<lparr>mask = msk, amount = amt\<rparr>, Compact (compact_amount_encryption k d amt))"
proof -
  obtain ds where ds: "shared_key_derivations D k E tx kis = Some ds" and len: "length ds = length (st_payments tx)"
    by (rule derivations_total [OF assms(1-3)])
  have shared: "length shared = length (st_payments tx)" using ecdhs_total [OF assms(1,3)] assms(6) by (metis option.inject)
  have "list_all2 (\<lambda>(i, payment, ecdh) d. Option.bind (InternalPayment_address D k payment) (\<lambda>addr.
          output_derivations D k (if AddressType_is_guaranteed (addr_kind addr) then Some (uniqueness k (inputs_of tx kis)) else None)
            ecdh (word_of_nat i)) = Some d) (enumerate 0 (zip (st_payments tx) shared)) ds"
    using ds by (simp add: shared_key_derivations_def assms(6) Let_def those_all2 case_prod_unfold)
  from list_all2_nthD [OF this, of i] shared assms(4,5)
  have d: "output_derivations D k (if AddressType_is_guaranteed (addr_kind addr) then Some (uniqueness k (inputs_of tx kis)) else None)
       (shared ! i) (word_of_nat i) = Some (ds ! i)" by (simp add: enumerate_nth)
  have tx_outs: "list_all2 (\<lambda>x y. (case x of (payment, derivation) \<Rightarrow>
       Option.bind (Scalar_into D (shared_key derivation)) (\<lambda>shared.
       Option.bind (InternalPayment_address D k payment) (\<lambda>addr.
       Option.bind (rct_view_tags (st_rct_type tx)) (\<lambda>tagged.
       Some \<lparr>out_amount = None,
             out_key = Point_compress D (edwards_mul D shared (ED25519_BASEPOINT_POINT D) + addr_spend addr),
             out_view_tag = if tagged then Some (view_tag derivation) else None\<rparr>)))) = Some y)
       (zip (st_payments tx) ds) tx_outs"
    using assms(7) by (simp add: outputs_of_def ds those_all2)
  have outs: "list_all2 (\<lambda>x y. (case x of (payment, derivation) \<Rightarrow>
       Option.bind (output_amount D k E tx payment) (\<lambda>amt.
       Option.bind (commitment_mask D k derivation) (\<lambda>msk.
       Some (Commitment_new msk amt, Compact (compact_amount_encryption k derivation amt))))) = Some y)
       (zip (st_payments tx) ds) outs"
    using assms(8) by (simp add: commitments_and_encrypted_amounts_def ds those_all2)
  from list_all2_nthD [OF tx_outs, of i] list_all2_nthD [OF outs, of i] len assms(4,5) d show thesis
    by (auto simp: bind_eq_Some_conv Commitment_new_def intro!: that [OF _ _ sym _ _ sym])
qed

text \<open>The sender's view of an output is the scanner's.\<close>

lemma signed_at:
  assumes laws: "curve_laws D" "hashes_total D k" "\<forall>data. length (k data) = 32" and ok: "validate D k E tx = Some (Inr ())"
    and "reordered D tx intent" and len: "length outs = length (st_payments tx)"
    and extra: "extra_of D k E tx = Some extra" and outs: "outputs_of D k E tx (map (Point_compress D) kis) = Some tx_outs"
      "commitments_and_encrypted_amounts D k E tx (map (Point_compress D) kis) = Some outs"
      "those (map (\<lambda>(commitment, _). Commitment_commit D commitment) outs) = Some points"
    and signed: "ptx = Transaction_into_pruned (signed_transaction D intent kis tx_outs extra fee outs points sigs bp)"
    and scanner: "scanner_of D k pair guaranteed indexes self" "is_torsion_free D (vp_spend pair)" "sub = None \<or> sub \<in> Some ` indexes"
    and i: "i < length (st_payments tx)" and pays: "pays_to D k pair guaranteed sub (st_payments tx ! i)"
    and "out_key (tx_outs ! i) \<noteq> CompressedPoint_IDENTITY"
    and at: "scan_at D k self base (h, ptx, i) = Some (Inr f)"
  shows "\<exists>w. f = Some w \<and> (\<not> (should_use_additional_keys tx \<and> sub \<noteq> None) \<longrightarrow>
    Some (amount (data_commitment (output_data w))) = output_amount D k E tx (st_payments tx ! i))"
proof -
  have ok': "sendable D k tx" "length (st_payments tx) \<le> MAX_COMMITMENTS"
    "list_all (\<lambda>part. length part \<le> MAX_ARBITRARY_DATA_SIZE) (st_data tx)"
    using validate_sendable [OF ok] validate_ok(7) [OF ok] validate_data [OF ok] by simp_all
  obtain addr where addr: "InternalPayment_address D k (st_payments tx ! i) = Some addr"
    using ok'(1) nth_mem [OF i] by (auto simp: sendable_def)
  have own: "address_keys D k pair sub = Some (addr_spend addr, addr_view addr)"
    "AddressType_is_guaranteed (addr_kind addr) = guaranteed"
    using pays_to_address [OF pays addr] by (simp_all add: own_address_def)
  obtain view where view: "Scalar_into D (vp_view pair) = Some view"
    using own(1) by (auto simp: address_keys_def subaddress_keys_def ViewPair_view_def Let_def bind_eq_Some_conv split: option.splits)
  obtain tx_key pubs where pub: "transaction_keys_pub D k E tx = Some (tx_key, pubs)"
    by (rule transaction_keys_pub_total [OF laws(1) ok'(1)])
  obtain shared where ecdh: "ecdhs D k E tx = Some shared" by (rule ecdhs_total [OF laws(1) ok'(1)])
  obtain key where key: "shared ! i = edwards_mul D view key" "\<not> (should_use_additional_keys tx \<and> sub \<noteq> None) \<longrightarrow> key = tx_key"
    "key = tx_key \<or> i < length pubs \<and> CompressedPoint_decompress D (pubs ! i) = Some key"
    by (rule paid_ecdh [OF laws(1) ok'(1) scanner(2) i pays view pub ecdh])
  obtain d secret amt msk tagged where
    d: "output_derivations D k (if guaranteed then Some (uniqueness k (inputs_of tx (map (Point_compress D) kis))) else None)
       (edwards_mul D view key) (word_of_nat i) = Some d" "Scalar_into D (shared_key d) = Some secret"
    and out: "tx_outs ! i = \<lparr>out_amount = None,
           out_key = Point_compress D (edwards_mul D secret (ED25519_BASEPOINT_POINT D) + addr_spend addr),
           out_view_tag = if tagged then Some (view_tag d) else None\<rparr>"
    and amt: "output_amount D k E tx (st_payments tx ! i) = Some amt" "commitment_mask D k d = Some msk"
      "outs ! i = (\<lparr>mask = msk, amount = amt\<rparr>, Compact (compact_amount_encryption k d amt))"
    by (rule sent_at [OF laws(1,2) ok'(1) i addr ecdh outs(1,2), unfolded own(2) key(1)])
  obtain proofs where ptx: "ptx = V2 \<lparr>additional_timelock = Timelock_None, tx_inputs = inputs_of intent (map (Point_compress D) kis),
         tx_outputs = tx_outs, tx_extra = extra\<rparr> (Some proofs)" "pruned_base proofs = \<lparr>rct_fee = fee, rct_pseudo_outs = [],
         rct_encrypted_amounts = map snd outs, rct_commitments = map (Point_compress D) points\<rparr>"
    unfolding signed by (auto simp: signed_transaction_def prune_proofs_def)
  have uniq: "uniqueness k (inputs_of intent (map (Point_compress D) kis)) = uniqueness k (inputs_of tx (map (Point_compress D) kis))"
    using reordered_fields [OF assms(5)] by (simp add: uniqueness_inputs_of)
  have keys: "Extra_keys D (Extra_read (tx_extra (tx_prefix ptx))) = Some ([tx_key], if pubs = [] then None
      else Some (map (\<lambda>pub. case CompressedPoint_decompress D pub of None \<Rightarrow> 0 | Some point \<Rightarrow> point) pubs))"
    using extra_keys_of [OF laws(1) ok'(1) laws(3) ok'(2,3) extra pub] by (simp add: ptx)
  have points: "list_all2 (\<lambda>x y. (case x of (c, _) \<Rightarrow> Commitment_commit D c) = Some y) outs points"
    using outs(3) by (simp add: those_all2)
  from list_all2_nthD [OF this, of i] list_all2_lengthD [OF this] i len amt(3)
  have com: "scan_commitment D k ptx i (tx_outs ! i) d = Some (Inr (Some \<lparr>mask = msk, amount = amt\<rparr>))"
    using amount_decrypts [OF amt(2), of amt]
    by (simp add: ptx out scan_commitment_def slice_get_def Commitment_new_def)
  have "\<exists>w. f = Some w \<and> ([tx_key] = [key] \<longrightarrow> data_commitment (output_data w) = \<lparr>mask = msk, amount = amt\<rparr>)"
  proof (rule scan_at_derived [OF laws(1) scanner(1,3) address_spend [OF own(1)] view keys _ _ d(2) refl _ _ _ _ at])
  qed (use key(3) d(1) out com assms(17) in \<open>auto simp: ptx uniq slice_get_def\<close>)
  then show ?thesis using key(2) amt(1) by auto
qed


subsection \<open>Scanning has no errors where amounts are encrypted\<close>

lemma try_then_Inl: "try_then m f = Some (Inl e) \<longleftrightarrow> m = Some (Inl e) \<or> (\<exists>x. m = Some (Inr x) \<and> f x = Some (Inl e))"
  by (cases m) (auto simp: try_then_def split: sum.split)

lemma scan_keys_ok: "\<forall>key \<in> set keys. \<exists>r. f key = Some (Inr r) \<Longrightarrow> \<exists>r. scan_keys f keys = Some (Inr r)"
proof (induction keys)
  case (Cons key keys)
  then obtain r where "f key = Some (Inr r)" by auto
  with Cons show ?case by (cases r) auto
qed simp

lemma scan_outputs_ok: "\<forall>j < length outs. \<exists>r. f (i + j) (outs ! j) = Some (Inr r) \<Longrightarrow> \<exists>ws. scan_outputs f i outs = Some (Inr ws)"
proof (induction outs arbitrary: i)
  case (Cons out outs)
  then obtain r where r: "f i out = Some (Inr r)" by fastforce
  have "\<forall>j < length outs. \<exists>r. f (Suc i + j) (outs ! j) = Some (Inr r)" using Cons.prems by fastforce
  from Cons.IH [OF this] r show ?case by auto
qed simp

definition amounts_given :: "pruned_transaction \<Rightarrow> bool" where
  "amounts_given tx \<longleftrightarrow>
     (\<forall>i < length (tx_outputs (tx_prefix tx)).
        out_amount (tx_outputs (tx_prefix tx) ! i) \<noteq> None \<or>
        (\<exists>prefix proofs. tx = V2 prefix (Some proofs) \<and> i < length (rct_encrypted_amounts (pruned_base proofs))))"

lemma scan_transaction_ok:
  assumes "curve_laws D" and "hashes_total D k" and "H_decompresses D" and "Scalar_into D (vp_view (scan_pair self)) \<noteq> None"
    and "amounts_given tx" and "unat first + length (tx_outputs (tx_prefix tx)) < 2 ^ 64"
  shows "\<exists>ws. scan_transaction D k self first h tx = Some (Inr ws)"
proof -
  let ?outs = "tx_outputs (tx_prefix tx)"
  have commitment: "\<exists>r. scan_commitment D k tx i (?outs ! i) d = Some (Inr r)" if i: "i < length ?outs" for i d
  proof -
    obtain r where r: "scan_commitment D k tx i (?outs ! i) d = Some r" using scan_commitment_total [OF assms(1-3)] by blast
    have "\<exists>x. r = Inr x"
    proof (cases "out_amount (?outs ! i)")
      case None
      then obtain prefix proofs where "tx = V2 prefix (Some proofs)" "i < length (rct_encrypted_amounts (pruned_base proofs))"
        using assms(5) i unfolding amounts_given_def by blast
      with r None show ?thesis by (auto simp: scan_commitment_def slice_get_def bind_eq_Some_conv split: if_splits)
    qed (use r in \<open>auto simp: scan_commitment_def\<close>)
    with r show ?thesis by blast
  qed
  have key: "\<exists>r. scan_key D k self first h tx extra pid i (?outs ! i) okey key = Some (Inr r)" if "i < length ?outs"
    for extra pid i okey key
  proof -
    obtain r where r: "scan_key D k self first h tx extra pid i (?outs ! i) okey key = Some r"
      using scan_key_total [OF assms(1-4)] by blast
    have no: "scan_commitment D k tx i (?outs ! i) d \<noteq> Some (Inl e)" for d e
      using commitment [OF that, of d] by auto
    have "unat first + i < 2 ^ 64" using assms(6) that by simp
    then have "scan_key D k self first h tx extra pid i (?outs ! i) okey key \<noteq> Some (Inl e)" for e
      by (auto simp: scan_key_def Let_def bind_eq_Some_conv try_then_Inl no split: if_splits option.splits) 
    with r show ?thesis by (cases r) auto
  qed
  have "\<exists>r. scan_output D k self first h tx extra keys additional pid i (?outs ! i) = Some (Inr r)" if "i < length ?outs"
    for extra keys additional pid i
    unfolding scan_output_def Let_def using key [OF that]
    by (auto split: option.split intro!: scan_keys_ok)
  then show ?thesis
    by (auto simp: scan_transaction_def Let_def split: option.split intro!: scan_outputs_ok)
qed

end
