(* ===== verification/Send_Example.thy ===== *)
theory Send_Example
  imports Send_Fee Signable_Codec Send_Scan
begin

text \<open>
  A transaction which validates over the example curve, with an input the sender holds the key of, a payment and
  change: the theorems on sending apply to it.
\<close>

subsection \<open>The environment\<close>

definition example_proof :: "nat \<Rightarrow> 3 Bulletproof" where
  "example_proof n = Bulletproof.Original
     \<lparr>bp_A = CompressedPoint dummy_point, bp_S = CompressedPoint dummy_point, bp_T1 = CompressedPoint dummy_point,
      bp_T2 = CompressedPoint dummy_point, bp_tau_x = 0, bp_mu = 0, bp_t_hat = 0,
      bp_ip = \<lparr>ip_L = replicate n (CompressedPoint dummy_point), ip_R = replicate n (CompressedPoint dummy_point),
        ip_a = 0, ip_b = 0\<rparr>\<rparr>"

definition example_proof_plus :: "nat \<Rightarrow> 3 Bulletproof" where
  "example_proof_plus n = Plus \<lparr>bpp_A = CompressedPoint dummy_point,
     bpp_wip = \<lparr>wip_L = replicate n (CompressedPoint dummy_point), wip_R = replicate n (CompressedPoint dummy_point),
       wip_A = CompressedPoint dummy_point, wip_B = CompressedPoint dummy_point, wip_r_answer = 0, wip_s_answer = 0,
       wip_delta_answer = 0\<rparr>\<rparr>"

definition example_env :: "(unit, 3, 3) send_env" where
  "example_env =
     \<lparr>chacha_from_seed = (\<lambda>_. ()), chacha_fill_bytes = (\<lambda>rng. ([], rng)), rand_shuffle = (\<lambda>_. rev),
      bulletproof_prove = (\<lambda>_ cs. Some (example_proof (6 + log2_find_loop (length cs) 0))),
      bulletproof_prove_plus = (\<lambda>_ cs. Some (example_proof_plus (6 + log2_find_loop (length cs) 0)))\<rparr>"

abbreviation example_keccak :: "bytes \<Rightarrow> bytes" where
  "example_keccak \<equiv> \<lambda>_. replicate 32 0"

lemma example_provers: "provers_total example_env" "provers_sized example_curve example_env"
proof -
  have len: "length dummy_point = 32" "length (bytes_3 (Scalar_write Scalar_INV_EIGHT) 0) = 32"
    by (simp_all add: dummy_point_def example_bytes)
  show "provers_total example_env" by (simp add: provers_total_def example_env_def)
  show "provers_sized example_curve example_env"
    by (simp add: provers_sized_def example_env_def example_proof_def example_proof_plus_def Bulletproof_write_def
      bp_size_def dummy_lr_vec len)
qed

lemma example_send_laws: "send_laws example_curve example_keccak"
proof -
  have "zero_law example_curve" by (simp add: zero_law_def bytes_3_def)
  moreover have "canonical_scalars example_curve"
    using example_bytes(1)
    by (auto simp: canonical_scalars_def from_bytes_3_def bytes_3_def Scalar_INV_EIGHT_def split: if_splits)
  ultimately show ?thesis by (simp add: send_laws_def example_curve_laws example_hashes_total)
qed

subsection \<open>The transaction\<close>

definition example_input :: "3 OutputWithDecoys" where
  "example_input =
     \<lparr>owd_output = \<lparr>data_key = 1, data_key_offset = Scalar_from example_curve 1,
        data_commitment = \<lparr>mask = Scalar_from example_curve 1, amount = 5000\<rparr>\<rparr>,
      owd_decoys = \<lparr>decoy_offsets = [1, 1, 1, 1, 1, 1, 1, 1, 1, 1, 1], decoy_signer_index = 0,
        decoy_ring = [(1, 1 + 5000 * 2), (2, 2), (2, 2), (2, 2), (2, 2), (2, 2), (2, 2), (2, 2), (2, 2), (2, 2), (2, 2)]\<rparr>\<rparr>"

definition example_address :: "3 Address" where
  "example_address = Address_new Mainnet Legacy 1 1"

definition example_tx :: "3 SignableTransaction" where
  "example_tx =
     \<lparr>st_rct_type = ClsagBulletproof, st_outgoing_view_key = replicate 32 0, st_inputs = [example_input],
      st_payments = [Payment example_address 100, ChangePayment (AddressOnly example_address)], st_data = [],
      st_fee_rate = \<lparr>per_weight = 1, fee_mask = 1\<rparr>\<rparr>"

lemma example_spendable: "\<forall>input \<in> set (st_inputs example_tx). spendable_input example_curve 0 input"
proof -
  have "wf_Decoys example_curve (owd_decoys example_input)"
    by (simp add: wf_Decoys_def example_input_def Decoys_new_iff fits_usize_def wf_Point_def example_bytes)
  then show ?thesis
    using example_H
    by (simp add: example_tx_def spendable_input_def example_input_def input_key_offset_def input_key_def input_commitment_def
      example_into Commitment_commit_def signer_ring_members_def)
qed

lemma example_sendable: "sendable example_curve example_keccak example_tx"
  using example_H
  by (simp add: sendable_def example_tx_def input_keys_and_commitments_def Commitment_commit_def example_input_def
    input_commitment_def input_key_def example_into)

lemma small_varint: "n < 128 \<Longrightarrow> length (varint_write (word_of_nat n :: u64)) = 1"
  by (simp add: varint_write_def varint_write_loop_small into_u64_def unat_of_nat)

lemma example_extra_size: "extra_size example_tx True = 44"
  by (simp add: extra_size_def example_tx_def should_use_additional_keys_def has_payments_to_subaddresses_def
    example_address_def Address_is_subaddress_def Address_new_def)

lemma example_weight: "predicted_weight example_curve example_keccak example_tx < 2000"
proof -
  have log2: "log2_find_loop 2 0 = 1" by (simp add: log2_find_loop.simps)
  obtain c where "calculate_clawback False 2 = Some (0, c)" using calculate_clawback_cases [of False 2] by auto
  then have claw: "clawback False 2 = 0" by (simp add: clawback_def)
  have vec: "length (varint_write (vec_len xs)) = 1" if "length xs < 128" for xs :: "'x list"
    using that by (simp add: vec_len_def small_varint)
  have size: "bp_size False 7 = 738"
    using vec [of "replicate 7 (CompressedPoint dummy_point)"]
    by (simp add: bp_size_def dummy_lr_vec write_vec_def length_write_raw_vec_const [of _ _ 32] dummy_point_def)
  have "input_size example_input = 46"
    using small_varint [of 1] vec [of "[1, 1, 1, 1, 1, 1, 1, 1, 1, 1, 1] :: u64 list"]
    by (simp add: input_size_def example_input_def write_vec_def)
  moreover note example_extra_size
  ultimately show ?thesis
    using small_varint [of 44]
    by (simp add: predicted_weight_def shape_weight_def Let_def example_tx_def vec
      log2 [unfolded numeral_2_eq_2] size claw [unfolded numeral_2_eq_2])
qed

lemma example_valid: "validate example_curve example_keccak example_env example_tx = Some (Inr ())"
proof -
  have max: "length (st_payments example_tx) \<le> MAX_COMMITMENTS" by (simp add: example_tx_def MAX_COMMITMENTS_def)
  have rate: "wf_FeeRate (st_fee_rate example_tx)" by (simp add: wf_FeeRate_def example_tx_def)
  have base: "base_weight example_curve example_keccak example_env example_tx =
      Some (predicted_weight example_curve example_keccak example_tx)"
    by (rule base_weight_total [OF example_send_laws example_sendable max])
  have "predicted_weight example_curve example_keccak example_tx + 10 < 2 ^ 64" using example_weight by simp
  then obtain weight fee where w: "weight_and_necessary_fee example_curve example_keccak example_env example_tx = Some (weight, fee)"
    by (rule weight_and_fee_total [OF base _ rate])
  obtain b fee_len where "base_weight example_curve example_keccak example_env example_tx = Some b" "weight = b + fee_len" "fee_len \<le> 10"
    and fee: "calculate_fee_from_weight (st_fee_rate example_tx) (word_of_nat weight) = Some fee"
    by (rule weight_and_fee_Some [OF w])
  then have le: "weight < 2010" using base example_weight by simp
  have "unat fee = weight"
    using calculate_fee_value [OF rate, of "word_of_nat weight"] fee le
    by (auto simp: example_tx_def div_ceil_def unat_of_nat)
  then have funds: "validate_funds example_tx (weight, fee) = Some (Inr ())"
    using le by (simp add: validate_funds_def Let_def example_tx_def input_amounts_def payment_amounts_def example_input_def
      input_commitment_def u64_try_from_def MAX_TX_SIZE_def word_less_nat_alt unat_word_ariths unat_of_nat)
  obtain extra where extra: "extra_of example_curve example_keccak example_env example_tx = Some extra"
    "length extra = extra_size example_tx (list_ex (has_payment_id example_curve example_keccak) (st_payments example_tx) \<or>
       length (st_payments example_tx) = 2)"
    by (rule extra_total [OF example_curve_laws example_sendable]) simp
  have "extra_size example_tx True = 44" by (rule example_extra_size)
  then have "length extra = 44" using extra(2) by (simp add: example_tx_def)
  moreover have "payment_id_count example_curve example_keccak example_tx = Some 0"
    by (simp add: payment_id_count_def example_tx_def example_address_def Address_new_def)
  moreover have "validate_inputs example_curve ClsagBulletproof [example_input] = Some (Inr ())"
    by (simp add: example_input_def input_key_def Decoys_len_def)
  ultimately show ?thesis
    using extra(1) w funds max
    by (simp add: validate_def example_tx_def MAX_EXTRA_SIZE_BY_RELAY_RULE_def)
qed

subsection \<open>The theorems apply\<close>

lemma example_inputs_keys:
  "input_keys_and_commitments example_curve example_tx \<noteq> None"
  "\<forall>payment \<in> set (st_payments example_tx). InternalPayment_address example_curve example_keccak payment \<noteq> None"
  using example_sendable by (simp_all add: sendable_def)

theorem signable_transaction_new_witness:
  "(\<exists>e. SignableTransaction_new example_curve example_keccak example_env ClsagBulletproof (replicate 32 0) [example_input]
       [(example_address, 100)] (Change (Some (AddressOnly example_address))) [] \<lparr>per_weight = 1, fee_mask = 1\<rparr> = Some (Inl e)) \<or>
   (\<exists>tx. SignableTransaction_new example_curve example_keccak example_env ClsagBulletproof (replicate 32 0) [example_input]
       [(example_address, 100)] (Change (Some (AddressOnly example_address))) [] \<lparr>per_weight = 1, fee_mask = 1\<rparr> = Some (Inr tx) \<and>
     permuted example_tx tx \<and> validate example_curve example_keccak example_env tx = Some (Inr ()))"
proof (rule signable_transaction_new [OF example_send_laws])
  show "\<forall>rng payments. mset (rand_shuffle example_env rng payments) = mset payments" by (simp add: example_env_def)
  show "predicted_weight example_curve example_keccak example_tx + 10 < 2 ^ 64" using example_weight by simp
qed (use example_inputs_keys in \<open>simp_all add: example_tx_def wf_FeeRate_def\<close>)

definition other_input :: "3 OutputWithDecoys" where
  "other_input = example_input\<lparr>owd_output := (owd_output example_input)\<lparr>data_key := 2\<rparr>\<rparr>"

theorem unsigned_transaction_order_witness:
  "unsigned_transaction example_curve example_keccak example_env (example_tx\<lparr>st_inputs := [other_input, example_input]\<rparr>)
     [CompressedPoint [1], CompressedPoint [2]] =
   unsigned_transaction example_curve example_keccak example_env (example_tx\<lparr>st_inputs := [example_input, other_input]\<rparr>)
     [CompressedPoint [2], CompressedPoint [1]]"
  using unsigned_transaction_order [of "[other_input, example_input]" "[CompressedPoint [1], CompressedPoint [2]]"
      "example_tx\<lparr>st_inputs := [example_input, other_input]\<rparr>" "[CompressedPoint [2], CompressedPoint [1]]"
      example_curve example_keccak example_env]
  by simp

theorem unsigned_transaction_balances_witness:
  "\<exists>prefix base bp commitments weight necessary.
    unsigned_transaction example_curve example_keccak example_env example_tx [CompressedPoint [1]] =
      Some (Some (V2 prefix (Some \<lparr>proofs_base = base, proofs_prunable = RctPrunable.Clsag [] [] bp\<rparr>))) \<and>
    list_all2 (\<lambda>c point. map_option (Point_compress example_curve) (Commitment_commit example_curve c) = Some point)
      commitments (rct_commitments base) \<and>
    length commitments = length (st_payments example_tx) \<and>
    list_all2 (\<lambda>payment c. output_amount example_curve example_keccak example_env example_tx payment = Some (amount c))
      (st_payments example_tx) commitments \<and>
    sum_list (map unat (input_amounts example_tx)) = sum_list (map (\<lambda>c. unat (amount c)) commitments) + unat (rct_fee base) \<and>
    sum_list (map unat (input_amounts example_tx)) < 2 ^ 64 \<and>
    weight_and_necessary_fee example_curve example_keccak example_env example_tx = Some (weight, necessary) \<and>
    unat necessary \<le> unat (rct_fee base)"
  by (rule unsigned_transaction_balances [OF example_curve_laws example_hashes_total example_provers(1) example_valid])
     (simp add: example_tx_def)


theorem sign_transaction_witness:
  "\<exists>inputs kis sigs prefix base bp points msg_hash signed.
    SignableTransaction_sign example_curve example_keccak example_env example_tx (\<lambda>rng. ([], rng)) () (Scalar_from example_curve 0) =
      Some (Inr signed) \<and>
    signed = V2 prefix (Some \<lparr>proofs_base = base, proofs_prunable = RctPrunable.Clsag (map fst sigs)
      (map (\<lambda>(_, pseudo_out). Point_compress example_curve pseudo_out) sigs) bp\<rparr>) \<and>
    mset inputs = mset (st_inputs example_tx) \<and>
    list_all2 (\<lambda>input ki. input_key_image example_curve example_keccak 0 input = Some ki) inputs kis \<and>
    input_key_images (tx_inputs prefix) = Some (map (Point_compress example_curve) kis) \<and>
    key_images_sorted (map (Point_compress example_curve) kis) \<and>
    Transaction_signature_hash example_curve example_keccak signed = Some msg_hash \<and>
    list_all2 (input_verifies example_curve example_keccak msg_hash) (zip inputs kis) sigs \<and>
    rct_commitments base = map (Point_compress example_curve) points \<and>
    sum_list (map snd sigs) = sum_list points + H_mul example_curve (of_nat (unat (rct_fee base))) \<and>
    Eventuality_matches example_curve example_keccak example_env example_tx (Transaction_into_pruned signed) = Some True"
  by (rule sign_transaction [OF example_curve_laws example_amount_laws example_hashes_total _ example_provers(1) example_valid
        _ example_spendable])
     (simp_all add: example_into del: example_curve_fields)


lemma example_wf: "wf_SignableTransaction example_curve example_tx"
proof -
  have "wf_Decoys example_curve (owd_decoys example_input)" using example_spendable by (simp add: example_tx_def spendable_input_def)
  moreover have "wf_Point example_curve p" for p by (simp add: wf_Point_def example_bytes)
  ultimately show ?thesis
    using wf_Scalar_from [OF example_curve_laws]
    by (simp add: wf_SignableTransaction_def wf_OutputWithDecoys_def wf_OutputData_def wf_Commitment_def wf_Address_def wf_FeeRate_def
      example_tx_def example_input_def example_address_def Address_new_def)
qed

theorem signable_transaction_stored_witness:
  "\<exists>w. SignableTransaction_write example_curve example_keccak example_tx = Some w \<and>
    SignableTransaction_read example_curve example_keccak example_env w = Inr (example_tx, [])"
proof -
  obtain w where "SignableTransaction_write example_curve example_keccak example_tx = Some w"
    using SignableTransaction_write_parts by blast
  with signable_transaction_stored [OF example_send_laws, of example_tx example_env w "[]"] example_wf example_valid
  show ?thesis by auto
qed

subsection \<open>Receiving it\<close>

abbreviation example_sent_block :: "3 transaction \<Rightarrow> 3 ScannableBlock" where
  "example_sent_block tx \<equiv> example_scannable\<lparr>sb_transactions := [Transaction_into_pruned tx]\<rparr>"

lemma example_keccak_zero: "example_keccak = zero_hash"
  by (rule ext) (simp add: zero_hash_def)

lemma example_sent_scan:
  assumes "amounts_given (Transaction_into_pruned tx)" and "length (tx_outputs (tx_prefix (Transaction_into_pruned tx))) \<le> 2"
  shows "\<exists>outs. scan example_curve example_keccak example_scanner (example_sent_block tx) = Some (Inr outs)"
proof -
  have ok: "\<exists>ws. scan_transaction example_curve example_keccak example_scanner first h tx' = Some (Inr ws)"
    if "amounts_given tx'" "unat first + length (tx_outputs (tx_prefix tx')) < 2 ^ 64" for first h tx'
    by (rule scan_transaction_ok [OF example_curve_laws example_hashes_total _ _ that])
       (simp_all add: H_decompresses_def Scanner_new_def InternalScanner_new_def example_pair_def example_into example_H [simplified])
  have "amounts_given (Transaction_into_pruned example_miner_transaction)"
    by (simp add: amounts_given_def example_miner_transaction_def)
  then obtain ws where ws: "scan_transaction example_curve example_keccak example_scanner 100 example_miner_hash
      (Transaction_into_pruned example_miner_transaction) = Some (Inr ws)"
    using ok [of "Transaction_into_pruned example_miner_transaction" 100] by (auto simp: example_miner_transaction_def)
  obtain ws' where ws': "scan_transaction example_curve example_keccak example_scanner 101 (replicate 32 7)
      (Transaction_into_pruned tx) = Some (Inr ws')"
    using ok [OF assms(1), of 101] assms(2) by auto
  have miner: "Transaction_into_pruned example_miner_transaction = V2 (tx_prefix example_miner_transaction) None"
    "length (tx_outputs (tx_prefix example_miner_transaction)) = 1"
    by (simp_all add: example_miner_transaction_def)
  have "(case Transaction_into_pruned tx of V2 _ _ \<Rightarrow> length (tx_outputs (tx_prefix (Transaction_into_pruned tx))) | _ \<Rightarrow> 0) \<le> 2"
    using assms(2) by (auto split: Transaction.split)
  then show ?thesis
    using ws ws' example_hash [folded example_keccak_zero]
    by (simp add: scan_def example_scannable_def Let_def miner)
qed


end
