(* ===== verification/Spec2Isabelle.thy ===== *)
theory Spec2Isabelle
  imports Block Ref10_Slide Clsag_Signature Epee Address Early_Signing Borromean Mlsag_Matrix Interface_Checks Send_Example
begin

text \<open>
  \<^bold>\<open>monero-oxide: a verified model\<close>

  monero-oxide is a Rust implementation of the Monero protocol: its primitives and their serialisation,
  transactions and blocks, the signatures and range proofs in them, the interface to a daemon, and a wallet. This
  development models the code under \<^verbatim>\<open>monero-oxide/\<close>, file by file, as executable definitions, and proves what
  makes it correct.

  \<^bold>\<open>How the code is read.\<close> A struct is a record, an enum a datatype, an integer a word of its width (\<open>usize\<close> has 64
  bits), a \<open>Vec\<close> a list. A function which returns a \<open>Result\<close> returns a sum; one which may panic, or loop for ever,
  returns an option whose \<open>None\<close> is the panic, so that the absence of panics is a theorem and not an assumption.
  Functions which mutate their receiver return it. A reader takes the bytes left and returns the value with
  what follows it. Selections made in constant time are conditionals. Zeroising, allocation and formatting for
  debugging are left out.

  \<^bold>\<open>What is a parameter.\<close> Code which is not in the sources is an argument of the definitions which call it: Keccak-256
  as a function on bytes (of which \<open>hash32\<close> says that digests have 32 bytes), curve25519-dalek and crypto-bigint as
  the record \<open>dalek\<close> of theory Ed25519, a random number generator as a function on its state. Where a theorem relies
  on more of the curve than its type (a commutative group with scalars from a commutative ring), that is a
  hypothesis, such as \<open>curve_laws\<close> of Curve, which an instance over the integers modulo 3 satisfies.
  Binding properties of hashes assume only that the hash is injective on the strings the code hashes in that
  statement.

  \<^bold>\<open>The theories.\<close>

  \<^item> Prelude: words and bytes, readers and their composition, little-endian integers; the locales \<open>codec\<close> (a writer
    and a reader which are each other's inverse, and what follows: prefix-freedom, injectivity) and \<open>sized_codec\<close>.
    Every codec of the program is an interpretation of one of them on its own reader and writer.
  \<^item> Monero_Io (\<^verbatim>\<open>io/src\<close>): integers, VarInts of any width, vectors. VarInts are canonical, their length is within the
    bounds the code declares, and which errors they are refused with.
  \<^item> Ed25519 (\<^verbatim>\<open>ed25519/src\<close>): scalars, compressed points, points with the hash to a point, commitments. Ref10_Slide
    (\<^verbatim>\<open>ed25519/src/unreduced_scalar.rs\<close>): the scalar Monero's early signatures meant by an unreduced encoding; its
    digits are a non-adjacent form of the number, and what number is recovered.
  \<^item> Merkle (\<^verbatim>\<open>src/merkle.rs\<close>): the in-place root is the recursive tree hash, and binds its leaves.
  \<^item> Ring_Proofs (\<^verbatim>\<open>src/ring_signatures.rs\<close>, \<^verbatim>\<open>ringct/*\<close>): the signatures and range proofs as data, with the weight a
    Bulletproof adds to a transaction. Ringct (\<^verbatim>\<open>src/ringct.rs\<close>): the RingCT part of a transaction.
  \<^item> Transaction (\<^verbatim>\<open>src/transaction.rs\<close>) and Block (\<^verbatim>\<open>src/block.rs\<close>): exact codecs, in full and pruned form; reading does
    not panic; hashes are defined, recomputable from pruned data, and bind what they should. The locale \<open>pruning\<close> is
    the contract the code states as the trait \<open>PotentiallyPruned\<close>, interpreted on both of its implementations.
  \<^item> Decoys and Clsag_Signature (\<^verbatim>\<open>ringct/clsag/src\<close>): rings, and signing and verifying over them. Signing returns, its
    signatures verify, and the pseudo-outs balance. The core loop, shared by both modes in the code, is shown to
    follow the ring of challenges once around, from the signer or from the first member.
  \<^item> Early_Proofs (\<^verbatim>\<open>src/ring_signatures.rs\<close>, \<^verbatim>\<open>ringct/borromean\<close>, \<^verbatim>\<open>ringct/mlsag\<close>): verifying ring signatures, Borromean range
    proofs and MLSAGs, and building the matrices of the latter. The code does not sign with these: Early_Signing and Borromean
    have signers as references, whose signatures and proofs verify. Mlsag_Matrix: the matrix an aggregate MLSAG is over.
  \<^item> Epee_Stack and Epee (\<^verbatim>\<open>epee/src\<close>): the decoder of the format Monero's daemon speaks. The stack packed into an array
    refines a list (the locale \<open>fixed_array\<close>, interpreted on both of its arrays), and a step of the stack machine refines the
    recursive grammar \<open>parses\<close>: it always returns, and succeeds exactly on what the grammar derives within the depth
    limit. The operations of the decoder are a transition relation, no state of which panics.
  \<^item> Base58 and Address (\<^verbatim>\<open>wallet/base58\<close>, \<^verbatim>\<open>wallet/address\<close>): strings and what they encode correspond one to one.
  \<^item> Curve: what signing and scanning rely on of the curve and of hashes to it, with an instance.
  \<^item> Tx_Extra (\<^verbatim>\<open>wallet/src/extra.rs\<close>): an extra is written as the stable sort of its fields and read back.
  \<^item> Wallet_Keys (\<^verbatim>\<open>wallet/src/lib.rs\<close>, \<^verbatim>\<open>wallet/src/view_pair.rs\<close>), Wallet_Output (\<^verbatim>\<open>wallet/src/output.rs\<close>) and Scan
    (\<^verbatim>\<open>wallet/src/scan.rs\<close>): the secret a sender and a receiver share, the outputs a wallet keeps, and the scanner, whose
    states (a view pair with the subaddresses registered since) are an inductive relation. What is scanned is where it is
    said to be, can be spent and stored, and what was sent to an address scanned for is found; scanning does not panic.
  \<^item> Fee_Rates (\<^verbatim>\<open>interface/src/provides_fee_rates.rs\<close>): fees are computed exactly, without overflow.
  \<^item> Interface and Interface_Checks (\<^verbatim>\<open>interface/src\<close>): a node is a record of calls over a state of any type, of which nothing
    is assumed. The blocks the library returns form a chain, which the hash of the last one authenticates, pruned transactions
    have the requested hashes, scannable blocks the transactions they list; what an honest node offers is accepted.
  \<^item> Send (\<^verbatim>\<open>wallet/src/send/tx_keys.rs\<close>, \<^verbatim>\<open>tx.rs\<close>) and Signable (\<^verbatim>\<open>mod.rs\<close>, \<^verbatim>\<open>eventuality.rs\<close>): transactions from the intent to make
    one to the signed transaction, its keys, outputs, extra, amounts and fee, and the eventuality which recognises it.
    ChaCha20, the shuffle of the payments, and the provers of Bulletproofs are the record \<open>send_env\<close>.
    Send_Total: what a transaction which can be sent needs so that no step panics, and the size of its extra.
    Send_Order: the inputs are sorted by their key images (the locale \<open>comparator\<close>, interpreted on the code's comparison),
    and nothing but the inputs depends on their order. Send_Amounts: what validation guarantees of the amounts, and that the
    search for the fee ends. Send_Transaction: the transaction to be signed balances, and the eventuality matches it alone.
    Send_Sign: the signed transaction verifies. Send_Weight: its weight is predicted from its shape, so that constructing
    it does not panic. Send_Fee: the fee covers the weight the signed transaction has. Signable_Codec: a transaction to be
    signed is stored exactly. Send_Scan: what is sent is found by the scanner it was sent to. Send_Example: one transaction,
    on which these theorems are applied. The provers are taken to return proofs (\<open>provers_total\<close>), of the size the format fixes
    for their number of outputs (\<open>provers_sized\<close>); \<open>send_laws\<close> and \<open>amount_laws\<close> are what is relied on of the curve.

  \<^bold>\<open>Loops and bounds.\<close> Loops with a bound in the code are recursion on a list or number and total. Loops the code
  ends by a condition are functions with a termination proof (on the input left for VarInts, on the value for
  Base58, on the index for the non-adjacent form), except the one of the EPEE stack machine, a partial function which
  is shown to be defined wherever the code calls it. No fuel is used.

  \<^bold>\<open>Not modelled.\<close> Proving and verifying Bulletproofs; the FROST multisig algorithms, which implement traits of a crate outside the sources; the
  daemon's RPC and its HTTP transport, which are input and output over other crates; the selection of decoys, over
  floating-point numbers.
\<close>

end
